(* ===== verification/Shm_Prelude.thy ===== *)
theory Shm_Prelude
  imports Main "HOL-Library.Word" "HOL-Library.Monad_Syntax"
begin

text \<open>
  Shared vocabulary of the development: the machine integer types of the C sources (LP64),
  the error codes the library returns, the total-correctness predicate \<open>runs\<close> with its
  rules, and the generic facts on 64-bit words and lists that the component theories use.

  A C function that touches the mapped region is a HOL function into \<open>option\<close>. \<open>None\<close>
  means that the call does not return normally: it accesses an address outside the mapping (in C
  undefined behaviour, in practice a fault), loops for ever, or waits for a mutex that nobody
  releases. \<open>Some\<close> carries the results and the new state.
\<close>

unbundle bit_operations_syntax

section \<open>Machine integers and error codes\<close>

type_synonym u8 = "8 word"
type_synonym u16 = "16 word"
type_synonym u32 = "32 word"
type_synonym u64 = "64 word"

text \<open>
  The \<open>errno\<close> codes returned by the library, \<open>OK\<close> standing for 0. \<open>OsErr\<close> is any
  other code that a failing system call leaves in \<open>errno\<close>.
\<close>

datatype errno = OK | EPERM | ENOENT | ENOMEM | EACCES | EINVAL | ENOSPC | EOWNERDEAD
  | ENOTRECOVERABLE | OsErr nat

section \<open>Named collections\<close>

named_theorems u64_simps \<open>conversions between 64-bit words and natural numbers\<close>
named_theorems wp_rules \<open>total-correctness rules for the primitive operations\<close>
named_theorems view_simps \<open>how primitive writes change the struct views\<close>

section \<open>Total correctness of a computation in the option monad\<close>

definition runs :: "'a option \<Rightarrow> ('a \<Rightarrow> bool) \<Rightarrow> bool" where
  "runs c Q \<longleftrightarrow> (case c of None \<Rightarrow> False | Some v \<Rightarrow> Q v)"

lemma runs_Some [simp]: "runs (Some v) Q = Q v"
  by (simp add: runs_def)

lemma runs_None [simp]: "\<not> runs None Q"
  by (simp add: runs_def)

lemma runs_bind [simp]: "runs (Option.bind c f) Q = runs c (\<lambda>v. runs (f v) Q)"
  by (cases c) simp_all

lemma runs_iff: "runs c Q \<longleftrightarrow> (\<exists>v. c = Some v \<and> Q v)"
  by (cases c) simp_all

lemma runs_mono: "runs c Q \<Longrightarrow> (\<And>v. Q v \<Longrightarrow> Q' v) \<Longrightarrow> runs c Q'"
  by (cases c) simp_all

lemma runsE: "runs c Q \<Longrightarrow> (\<And>v. c = Some v \<Longrightarrow> Q v \<Longrightarrow> thesis) \<Longrightarrow> thesis"
  by (cases c) simp_all

lemma runs_if [simp]: "runs (if b then c else d) Q = (if b then runs c Q else runs d Q)"
  by simp

section \<open>Words of 64 bits as natural numbers\<close>

lemma unat64 [u64_simps]: "n < 2 ^ 64 \<Longrightarrow> unat (of_nat n :: u64) = n"
  by (simp add: unat_of_nat)

lemma unat64_bound: "unat (w :: u64) < 2 ^ 64"
  using unsigned_less [of w] by simp

lemma unat32_bound: "unat (w :: u32) < 2 ^ 32"
  using unsigned_less [of w] by simp

lemma unat64_add_numeral:
  fixes w :: u64
  assumes "unat w + numeral n < 2 ^ 64"
  shows "unat (w + numeral n) = unat w + numeral n"
proof -
  have n: "(numeral n :: nat) < 2 ^ 64"
    using assms by linarith
  have "unat (numeral n :: u64) = numeral n"
    using unat64 [OF n] by simp
  then show ?thesis
    using assms by (subst unat_add_lem [THEN iffD1]) simp_all
qed

lemma of_nat64_eq_iff [u64_simps]:
  "m < 2 ^ 64 \<Longrightarrow> n < 2 ^ 64 \<Longrightarrow> (of_nat m = (of_nat n :: u64)) = (m = n)"
  by (metis unat64)

lemma of_nat64_le_iff [u64_simps]:
  "m < 2 ^ 64 \<Longrightarrow> n < 2 ^ 64 \<Longrightarrow> (of_nat m \<le> (of_nat n :: u64)) = (m \<le> n)"
  by (simp add: word_le_nat_alt unat64)

lemma of_nat64_less_iff [u64_simps]:
  "m < 2 ^ 64 \<Longrightarrow> n < 2 ^ 64 \<Longrightarrow> (of_nat m < (of_nat n :: u64)) = (m < n)"
  by (simp add: word_less_nat_alt unat64)

lemma of_nat64_diff [u64_simps]:
  "n \<le> m \<Longrightarrow> (of_nat m - of_nat n :: u64) = of_nat (m - n)"
  by (simp add: of_nat_diff)

lemma unat64_eqD: "unat (w :: u64) = n \<Longrightarrow> w = of_nat n"
  by auto

lemma of_nat64_eq_0 [u64_simps]: "n < 2 ^ 64 \<Longrightarrow> (of_nat n = (0 :: u64)) = (n = 0)"
  using of_nat64_eq_iff [of n 0] by simp

lemma unat_and_not_mask:
  fixes w :: u64
  shows "unat (w AND NOT (mask k)) = 2 ^ k * (unat w div 2 ^ k)"
proof -
  have "w AND NOT (mask k) = push_bit k (drop_bit k w)"
    by (rule bit_word_eqI) (auto simp: bit_simps)
  moreover have "unat (push_bit k (drop_bit k w)) = 2 ^ k * (unat w div 2 ^ k)"
  proof -
    have "2 ^ k * (unat w div 2 ^ k) \<le> unat w"
      by simp
    then have "2 ^ k * (unat w div 2 ^ k) < 2 ^ 64"
      using unat64_bound [of w] by linarith
    moreover have "unat (push_bit k (drop_bit k w)) = take_bit 64 (push_bit k (drop_bit k (unat w)))"
      using unat64_bound [of w]
      by (simp only: unsigned_push_bit_eq unsigned_drop_bit_eq) (simp add: take_bit_nat_eq_self)
    ultimately show ?thesis
      by (simp only: push_bit_eq_mult drop_bit_eq_div take_bit_nat_eq_self mult.commute)
  qed
  ultimately show ?thesis
    by simp
qed

lemma unat64_add_of_nat [u64_simps]:
  "unat (w :: u64) + n < 2 ^ 64 \<Longrightarrow> unat (w + of_nat n) = unat w + n"
  using unat_add_lem [of w "of_nat n"] by (simp add: unat64)

lemma of_nat64_diff_numeral:
  "numeral k \<le> n \<Longrightarrow> (of_nat n - numeral k :: u64) = of_nat (n - numeral k)"
  by (simp add: of_nat_diff)

lemma unat64_diff_numeral [u64_simps]:
  "numeral k \<le> n \<Longrightarrow> n < 2 ^ 64 \<Longrightarrow> unat (of_nat n - numeral k :: u64) = n - numeral k"
  by (simp only: of_nat64_diff_numeral) (rule unat64, simp)

end
