(* ===== verification/Shm_Memory.thy ===== *)
theory Shm_Memory
  imports Shm_Prelude
begin

text \<open>
  The mapped region as bytes. A region is a sequence of bytes shared by every process that maps
  it; a process reaches it through its own handle \<open>shm_region\<close> (\<open>src/src/shm_internal.h\<close>),
  whose \<open>rbase\<close> is the virtual address \<open>mmap\<close> returned. Pointers are absolute 64-bit
  addresses, so that null tests and pointer differences are those of the C code; a load or store
  is defined only inside the mapping.

  Scalars are stored little-endian. The three scalar widths share one locale, \<open>scalar_cell\<close>.
\<close>

section \<open>Little-endian scalars in a byte store\<close>

type_synonym bytes = "nat \<Rightarrow> u8"

primrec get_le :: "nat \<Rightarrow> bytes \<Rightarrow> nat \<Rightarrow> nat" where
  "get_le 0 m a = 0"
| "get_le (Suc n) m a = unat (m a) + 256 * get_le n m (Suc a)"

primrec put_le :: "nat \<Rightarrow> bytes \<Rightarrow> nat \<Rightarrow> nat \<Rightarrow> bytes" where
  "put_le 0 m a v = m"
| "put_le (Suc n) m a v = put_le n (m(a := of_nat (v mod 256))) (Suc a) (v div 256)"

lemma put_le_outside: "x < a \<or> a + n \<le> x \<Longrightarrow> put_le n m a v x = m x"
  by (induction n arbitrary: m a v) auto

lemma get_le_cong: "(\<And>i. i < n \<Longrightarrow> m (a + i) = m' (a + i)) \<Longrightarrow> get_le n m a = get_le n m' a"
proof (induction n arbitrary: a)
  case 0
  then show ?case by simp
next
  case (Suc n)
  have "get_le n m (Suc a) = get_le n m' (Suc a)"
    by (rule Suc.IH) (use Suc.prems [of "Suc i" for i] in simp)
  with Suc.prems [of 0] show ?case by simp
qed

lemma get_put_le: "v < 256 ^ n \<Longrightarrow> get_le n (put_le n m a v) a = v"
proof (induction n arbitrary: m a v)
  case 0
  then show ?case by simp
next
  case (Suc n)
  have "v div 256 < 256 ^ n"
    using Suc.prems by (simp add: less_mult_imp_div_less mult.commute)
  then have "get_le n (put_le n (m(a := of_nat (v mod 256))) (Suc a) (v div 256)) (Suc a) = v div 256"
    by (rule Suc.IH)
  moreover have "unat (of_nat (v mod 256) :: u8) = v mod 256"
    by (simp add: unat_of_nat)
  ultimately show ?case
    by (simp add: put_le_outside)
qed

lemma get_le_zero: "(\<And>i. i < n \<Longrightarrow> m (a + i) = 0) \<Longrightarrow> get_le n m a = 0"
proof (induction n arbitrary: a)
  case 0
  then show ?case by simp
next
  case (Suc n)
  have "get_le n m (Suc a) = 0"
    by (rule Suc.IH) (use Suc.prems [of "Suc i" for i] in simp)
  with Suc.prems [of 0] show ?case by simp
qed

definition get8 :: "bytes \<Rightarrow> nat \<Rightarrow> u8" where "get8 m a = m a"
definition put8 :: "bytes \<Rightarrow> nat \<Rightarrow> u8 \<Rightarrow> bytes" where "put8 m a v = m(a := v)"

definition get32 :: "bytes \<Rightarrow> nat \<Rightarrow> u32" where "get32 m a = of_nat (get_le 4 m a)"
definition put32 :: "bytes \<Rightarrow> nat \<Rightarrow> u32 \<Rightarrow> bytes" where "put32 m a v = put_le 4 m a (unat v)"

definition get64 :: "bytes \<Rightarrow> nat \<Rightarrow> u64" where "get64 m a = of_nat (get_le 8 m a)"
definition put64 :: "bytes \<Rightarrow> nat \<Rightarrow> u64 \<Rightarrow> bytes" where "put64 m a v = put_le 8 m a (unat v)"

text \<open>
  The contract of a scalar cell of \<open>w\<close> bytes: a load depends on its own bytes only, a store
  changes its own bytes only, and a load after a store to the same place gives the value stored.
\<close>

locale scalar_cell =
  fixes w :: nat and get :: "bytes \<Rightarrow> nat \<Rightarrow> 'v" and put :: "bytes \<Rightarrow> nat \<Rightarrow> 'v \<Rightarrow> bytes"
  assumes get_put: "get (put m a v) a = v"
    and get_cong: "(\<And>i. i < w \<Longrightarrow> m (a + i) = m' (a + i)) \<Longrightarrow> get m a = get m' a"
    and put_outside: "x < a \<or> a + w \<le> x \<Longrightarrow> put m a v x = m x"
begin

lemma get_put_apart: "b + w \<le> a \<or> a + w \<le> b \<Longrightarrow> get (put m a v) b = get m b"
  by (rule get_cong) (auto intro: put_outside)

lemma get_frame: "(\<And>x. b \<le> x \<Longrightarrow> x < b + w \<Longrightarrow> m x = m' x) \<Longrightarrow> get m b = get m' b"
  by (rule get_cong) simp

lemma put_frame: "x < a \<or> a + w \<le> x \<Longrightarrow> m x = m' x \<Longrightarrow> put m a v x = m' x"
  by (simp add: put_outside)

end

interpretation c8: scalar_cell 1 get8 put8
  by unfold_locales (auto simp: get8_def put8_def)

interpretation c32: scalar_cell 4 get32 put32
proof unfold_locales
  show "get32 (put32 m a v) a = v" for m a v
  proof -
    have "unat v < 256 ^ 4"
      using unat32_bound [of v] by simp
    then show ?thesis
      by (simp add: get32_def put32_def get_put_le)
  qed
  show "get32 m a = get32 m' a" if "\<And>i. i < 4 \<Longrightarrow> m (a + i) = m' (a + i)" for m m' a
    unfolding get32_def by (rule arg_cong [where f = of_nat], rule get_le_cong, rule that)
  show "put32 m a v x = m x" if "x < a \<or> a + 4 \<le> x" for m a v x
    using that by (simp add: put32_def put_le_outside)
qed

interpretation c64: scalar_cell 8 get64 put64
proof unfold_locales
  show "get64 (put64 m a v) a = v" for m a v
  proof -
    have "unat v < 256 ^ 8"
      using unat64_bound [of v] by simp
    then show ?thesis
      by (simp add: get64_def put64_def get_put_le)
  qed
  show "get64 m a = get64 m' a" if "\<And>i. i < 8 \<Longrightarrow> m (a + i) = m' (a + i)" for m m' a
    unfolding get64_def by (rule arg_cong [where f = of_nat], rule get_le_cong, rule that)
  show "put64 m a v x = m x" if "x < a \<or> a + 8 \<le> x" for m a v x
    using that by (simp add: put64_def put_le_outside)
qed

text \<open>Two cells of different widths that do not overlap do not interfere.\<close>

locale two_cells = c: scalar_cell w get put + d: scalar_cell w' get' put'
  for w :: nat and get :: "bytes \<Rightarrow> nat \<Rightarrow> 'v" and put :: "bytes \<Rightarrow> nat \<Rightarrow> 'v \<Rightarrow> bytes"
    and w' :: nat and get' :: "bytes \<Rightarrow> nat \<Rightarrow> 'x" and put' :: "bytes \<Rightarrow> nat \<Rightarrow> 'x \<Rightarrow> bytes"
begin

lemma get_put'_apart: "b + w \<le> a \<or> a + w' \<le> b \<Longrightarrow> get (put' m a v) b = get m b"
  by (rule c.get_cong) (auto intro: d.put_outside)

lemma get'_put_apart: "b + w' \<le> a \<or> a + w \<le> b \<Longrightarrow> get' (put m a v) b = get' m b"
  by (rule d.get_cong) (auto intro: c.put_outside)

end

interpretation c8_32: two_cells 1 get8 put8 4 get32 put32 ..
interpretation c8_64: two_cells 1 get8 put8 8 get64 put64 ..
interpretation c32_64: two_cells 4 get32 put32 8 get64 put64 ..

lemmas get_put_same [simp] = c8.get_put c32.get_put c64.get_put

lemmas get_put_apart =
  c8.get_put_apart c32.get_put_apart c64.get_put_apart
  c8_32.get_put'_apart c8_32.get'_put_apart c8_64.get_put'_apart c8_64.get'_put_apart
  c32_64.get_put'_apart c32_64.get'_put_apart

lemmas put_outside = c8.put_outside c32.put_outside c64.put_outside

section \<open>The machine and the region handle\<close>

text \<open>
  The build picks one cache mode (\<open>src/src/shm_persist.h\<close>, \<open>CACHE=\<close> of the
  \<open>Makefile\<close>); \<open>CACHE_NONE\<close> is the default without a mode.
\<close>

datatype cache_mode =
  CACHE_NONE | CACHE_CLFLUSH | CACHE_CLFLUSHOPT | CACHE_CLWB | CACHE_CBO_FLUSH | CACHE_CBO_CLEAN

text \<open>
  The process-shared robust mutex of the region header. Its 40 bytes belong to the pthread library
  and are not interpreted; its state is kept beside the bytes. \<open>MOwnerDead\<close>: the holder died;
  \<open>MInconsistent\<close>: locked by the process that was told so and has not yet called
  \<open>pthread_mutex_consistent\<close>; unlocking it in that state makes it unusable.
\<close>

datatype mutex_state = MUnlocked | MLocked | MOwnerDead | MInconsistent | MNotRecoverable

text \<open>
  The shared machine state: \<open>mem\<close> is what loads and stores of all attached processes see,
  \<open>pmem\<close> what the persistent medium holds, \<open>wpq\<close> the bytes written back by a
  weakly ordered flush that no fence has ordered yet.
\<close>

record machine =
  mem :: bytes
  wpq :: "nat \<Rightarrow> u8 option"
  pmem :: bytes
  mutex :: mutex_state
  cmode :: cache_mode

datatype shm_backend = SHM_BACKEND_POSIX | SHM_BACKEND_DAX

type_synonym cstring = "u8 list"  \<comment> \<open>the characters before the terminating NUL\<close>

text \<open>\<open>struct shm_region\<close>, the per-process handle.\<close>

record shm_region =
  rname :: cstring
  rfd :: int
  rbase :: u64
  rsize :: u64
  rcreator :: bool
  rbackend :: shm_backend

text \<open>
  What \<open>mmap\<close> guarantees of a mapping: a page-aligned, non-null base and a range that stays
  below the top of the address space (user addresses end below \<open>2 ^ 63\<close> on both targets).
\<close>

definition mapped :: "shm_region \<Rightarrow> bool" where
  "mapped r \<longleftrightarrow> rbase r \<noteq> 0 \<and> 4096 dvd unat (rbase r) \<and> unat (rbase r) + unat (rsize r) \<le> 2 ^ 63"

definition region_off :: "shm_region \<Rightarrow> u64 \<Rightarrow> nat" where
  "region_off r p = unat (p - rbase r)"

definition in_map :: "shm_region \<Rightarrow> u64 \<Rightarrow> nat \<Rightarrow> bool" where
  "in_map r p n \<longleftrightarrow> region_off r p + n \<le> unat (rsize r)"

definition rd8 :: "shm_region \<Rightarrow> machine \<Rightarrow> u64 \<Rightarrow> u8 option" where
  "rd8 r s p = (if in_map r p 1 then Some (get8 (mem s) (region_off r p)) else None)"

definition rd32 :: "shm_region \<Rightarrow> machine \<Rightarrow> u64 \<Rightarrow> u32 option" where
  "rd32 r s p = (if in_map r p 4 then Some (get32 (mem s) (region_off r p)) else None)"

definition rd64 :: "shm_region \<Rightarrow> machine \<Rightarrow> u64 \<Rightarrow> u64 option" where
  "rd64 r s p = (if in_map r p 8 then Some (get64 (mem s) (region_off r p)) else None)"

definition wr8 :: "shm_region \<Rightarrow> machine \<Rightarrow> u64 \<Rightarrow> u8 \<Rightarrow> machine option" where
  "wr8 r s p v = (if in_map r p 1 then Some (s\<lparr>mem := put8 (mem s) (region_off r p) v\<rparr>) else None)"

definition wr32 :: "shm_region \<Rightarrow> machine \<Rightarrow> u64 \<Rightarrow> u32 \<Rightarrow> machine option" where
  "wr32 r s p v = (if in_map r p 4 then Some (s\<lparr>mem := put32 (mem s) (region_off r p) v\<rparr>) else None)"

definition wr64 :: "shm_region \<Rightarrow> machine \<Rightarrow> u64 \<Rightarrow> u64 \<Rightarrow> machine option" where
  "wr64 r s p v = (if in_map r p 8 then Some (s\<lparr>mem := put64 (mem s) (region_off r p) v\<rparr>) else None)"

text \<open>
  The string functions of the C library that the sources call on the region. \<open>memcpy\<close> on
  overlapping ranges is undefined.
\<close>

definition memset :: "shm_region \<Rightarrow> machine \<Rightarrow> u64 \<Rightarrow> u8 \<Rightarrow> u64 \<Rightarrow> machine option" where
  "memset r s p v n =
     (if n = 0 then Some s
      else if in_map r p (unat n)
      then Some (s\<lparr>mem := (\<lambda>a. if region_off r p \<le> a \<and> a < region_off r p + unat n
                              then v else mem s a)\<rparr>)
      else None)"

definition memcpy :: "shm_region \<Rightarrow> machine \<Rightarrow> u64 \<Rightarrow> u64 \<Rightarrow> u64 \<Rightarrow> machine option" where
  "memcpy r s dst src n =
     (if n = 0 then Some s
      else if in_map r dst (unat n) \<and> in_map r src (unat n)
          \<and> (region_off r dst + unat n \<le> region_off r src \<or> region_off r src + unat n \<le> region_off r dst)
      then Some (s\<lparr>mem := (\<lambda>a. if region_off r dst \<le> a \<and> a < region_off r dst + unat n
                              then mem s (region_off r src + (a - region_off r dst)) else mem s a)\<rparr>)
      else None)"

text \<open>\<open>strncpy (dst, src, n)\<close>: at most \<open>n\<close> characters, padded with NUL to \<open>n\<close>.\<close>

primrec wr_bytes :: "shm_region \<Rightarrow> machine \<Rightarrow> u64 \<Rightarrow> u8 list \<Rightarrow> machine option" where
  "wr_bytes r s p [] = Some s"
| "wr_bytes r s p (c # cs) = do { s \<leftarrow> wr8 r s p c; wr_bytes r s (p + 1) cs }"

definition strncpy :: "shm_region \<Rightarrow> machine \<Rightarrow> u64 \<Rightarrow> cstring \<Rightarrow> nat \<Rightarrow> machine option" where
  "strncpy r s dst src n = wr_bytes r s dst (take n (src @ replicate n 0))"

text \<open>\<open>strcmp (p, q) == 0\<close> for a string in the region and a string of the caller.\<close>

primrec strcmp_eq :: "shm_region \<Rightarrow> machine \<Rightarrow> u64 \<Rightarrow> cstring \<Rightarrow> bool option" where
  "strcmp_eq r s p [] = do { x \<leftarrow> rd8 r s p; Some (x = 0) }"
| "strcmp_eq r s p (c # cs) =
     do { x \<leftarrow> rd8 r s p; if x = c then strcmp_eq r s (p + 1) cs else Some False }"

section \<open>Addresses inside a mapping\<close>

lemma region_off_base [u64_simps]: "k < 2 ^ 64 \<Longrightarrow> region_off r (rbase r + of_nat k) = k"
  by (simp add: region_off_def u64_simps)

lemma region_off_base_field [u64_simps]:
  "k + numeral n < 2 ^ 64 \<Longrightarrow> region_off r (rbase r + of_nat k + numeral n) = k + numeral n"
  using region_off_base [of "k + numeral n" r] by (simp add: add.assoc)

lemma rsize_bound: "unat (rsize r) < 2 ^ 64"
  by (rule unat64_bound)

lemma fits_in_64: "k + n \<le> unat (rsize r) \<Longrightarrow> k + n < 2 ^ 64"
  using rsize_bound [of r] by linarith

lemma wr_simps:
  "wr8 r s p v = Some s' \<longleftrightarrow> in_map r p 1 \<and> s' = s\<lparr>mem := put8 (mem s) (region_off r p) v\<rparr>"
  "wr32 r s p x = Some s' \<longleftrightarrow> in_map r p 4 \<and> s' = s\<lparr>mem := put32 (mem s) (region_off r p) x\<rparr>"
  "wr64 r s p y = Some s' \<longleftrightarrow> in_map r p 8 \<and> s' = s\<lparr>mem := put64 (mem s) (region_off r p) y\<rparr>"
  by (auto simp: wr8_def wr32_def wr64_def)

end
