(* ===== verification/Shm_Layout.thy ===== *)
theory Shm_Layout
  imports Shm_Memory
begin

text \<open>
  The in-memory structures of \<open>src/src/shm_internal.h\<close>: block header, region header and
  directory entry, their fields as loads and stores at fixed offsets, and the inline helpers
  that convert between pointers, heap-header offsets (hoff), heap-payload offsets (poff) and
  1-based free-list links.

  A \<open>\<dots>_at\<close> function reads a whole structure out of the bytes; the lemmas at the end say how
  each field store changes these views. The offsets are those the C ABI of the two LP64 targets
  gives to the declarations; \<open>layout_of\<close> computes them from the declared members.
\<close>

section \<open>Constants\<close>

definition SHM_ALLOC_MAGIC_REGION :: u32 where "SHM_ALLOC_MAGIC_REGION = 0x53484D41"
definition SHM_ALLOC_MAGIC_BLOCK :: u32 where "SHM_ALLOC_MAGIC_BLOCK = 0x424C4B21"
definition SHM_ALLOC_VERSION :: u32 where "SHM_ALLOC_VERSION = 2"

definition HEAP_ALIGN :: u64 where "HEAP_ALIGN = 8"
definition DIR_CAP_DEFAULT :: u32 where "DIR_CAP_DEFAULT = 256"
definition DIR_NAME_MAX :: nat where "DIR_NAME_MAX = 48"

definition SIZEOF_BLOCK_HDR :: u64 where "SIZEOF_BLOCK_HDR = 56"
definition SIZEOF_REGION_HDR :: u64 where "SIZEOF_REGION_HDR = 200"
definition SIZEOF_OBJ_ENTRY :: u64 where "SIZEOF_OBJ_ENTRY = 96"

definition BLOCK_MIN :: u64 where "BLOCK_MIN = SIZEOF_BLOCK_HDR + HEAP_ALIGN"

lemmas layout_consts =
  HEAP_ALIGN_def SIZEOF_BLOCK_HDR_def SIZEOF_REGION_HDR_def SIZEOF_OBJ_ENTRY_def BLOCK_MIN_def

section \<open>Struct layout by the C ABI\<close>

text \<open>A member is its name, size and alignment; members are placed in declaration order.\<close>

definition pad_to :: "nat \<Rightarrow> nat \<Rightarrow> nat" where
  "pad_to a n = (n + a - 1) div a * a"

fun layout_of :: "(string \<times> nat \<times> nat) list \<Rightarrow> nat \<Rightarrow> (string \<times> nat) list" where
  "layout_of [] n = []"
| "layout_of ((f, sz, al) # fs) n = (f, pad_to al n) # layout_of fs (pad_to al n + sz)"

fun end_of :: "(string \<times> nat \<times> nat) list \<Rightarrow> nat \<Rightarrow> nat" where
  "end_of [] n = n"
| "end_of ((f, sz, al) # fs) n = end_of fs (pad_to al n + sz)"

definition struct_size :: "(string \<times> nat \<times> nat) list \<Rightarrow> nat" where
  "struct_size fs = pad_to (fold max (map (\<lambda>(f, sz, al). al) fs) 1) (end_of fs 0)"

definition block_hdr_members :: "(string \<times> nat \<times> nat) list" where
  "block_hdr_members =
     [(''magic'', 4, 4), (''type_tag'', 4, 4), (''owner'', 4, 4), (''perms'', 4, 4),
      (''allocated'', 1, 1), (''_pad'', 7, 1), (''obj_id'', 8, 8), (''payload_cap'', 8, 8),
      (''total_size'', 8, 8), (''next_free'', 8, 8)]"

definition region_hdr_members :: "(string \<times> nat \<times> nat) list" where
  "region_hdr_members =
     [(''magic'', 4, 4), (''version'', 4, 4), (''backend'', 4, 4), (''dir_capacity'', 4, 4),
      (''mutex'', 40, 8), (''host_count'', 4, 4), (''_pad0'', 4, 4), (''region_size'', 8, 8),
      (''dir_offset'', 8, 8), (''data_offset'', 8, 8), (''free_list'', 8, 8),
      (''used_bytes'', 8, 8), (''block_count'', 8, 8), (''next_id'', 8, 8), (''ns_inode'', 8, 8),
      (''cgroup_hash'', 8, 8), (''shm_name'', 64, 1)]"

definition obj_entry_members :: "(string \<times> nat \<times> nat) list" where
  "obj_entry_members =
     [(''id'', 8, 8), (''name'', 48, 1), (''off'', 8, 8), (''capacity'', 8, 8),
      (''used_size'', 8, 8), (''type_tag'', 4, 4), (''owner'', 4, 4), (''perms'', 4, 4),
      (''alive'', 1, 1), (''_pad'', 3, 1)]"

section \<open>Block header\<close>

record block_hdr =
  b_magic :: u32
  b_type_tag :: u32
  b_owner :: u32
  b_perms :: u32
  b_allocated :: u8
  b_obj_id :: u64
  b_payload_cap :: u64
  b_total_size :: u64
  b_next_free :: u64

definition blk_at :: "bytes \<Rightarrow> nat \<Rightarrow> block_hdr" where
  "blk_at m k = \<lparr>b_magic = get32 m k,
     b_type_tag = get32 m (k + 4),
     b_owner = get32 m (k + 8),
     b_perms = get32 m (k + 12),
     b_allocated = get8 m (k + 16),
     b_obj_id = get64 m (k + 24),
     b_payload_cap = get64 m (k + 32),
     b_total_size = get64 m (k + 40),
     b_next_free = get64 m (k + 48)\<rparr>"

definition blk_magic :: "shm_region \<Rightarrow> machine \<Rightarrow> u64 \<Rightarrow> u32 option" where
  "blk_magic r s p = rd32 r s p"
definition blk_type_tag :: "shm_region \<Rightarrow> machine \<Rightarrow> u64 \<Rightarrow> u32 option" where
  "blk_type_tag r s p = rd32 r s (p + 4)"
definition blk_owner :: "shm_region \<Rightarrow> machine \<Rightarrow> u64 \<Rightarrow> u32 option" where
  "blk_owner r s p = rd32 r s (p + 8)"
definition blk_perms :: "shm_region \<Rightarrow> machine \<Rightarrow> u64 \<Rightarrow> u32 option" where
  "blk_perms r s p = rd32 r s (p + 12)"
definition blk_allocated :: "shm_region \<Rightarrow> machine \<Rightarrow> u64 \<Rightarrow> u8 option" where
  "blk_allocated r s p = rd8 r s (p + 16)"
definition blk_obj_id :: "shm_region \<Rightarrow> machine \<Rightarrow> u64 \<Rightarrow> u64 option" where
  "blk_obj_id r s p = rd64 r s (p + 24)"
definition blk_payload_cap :: "shm_region \<Rightarrow> machine \<Rightarrow> u64 \<Rightarrow> u64 option" where
  "blk_payload_cap r s p = rd64 r s (p + 32)"
definition blk_total_size :: "shm_region \<Rightarrow> machine \<Rightarrow> u64 \<Rightarrow> u64 option" where
  "blk_total_size r s p = rd64 r s (p + 40)"
definition blk_next_free :: "shm_region \<Rightarrow> machine \<Rightarrow> u64 \<Rightarrow> u64 option" where
  "blk_next_free r s p = rd64 r s (p + 48)"

definition set_blk_magic :: "shm_region \<Rightarrow> machine \<Rightarrow> u64 \<Rightarrow> u32 \<Rightarrow> machine option" where
  "set_blk_magic r s p v = wr32 r s p v"
definition set_blk_type_tag :: "shm_region \<Rightarrow> machine \<Rightarrow> u64 \<Rightarrow> u32 \<Rightarrow> machine option" where
  "set_blk_type_tag r s p v = wr32 r s (p + 4) v"
definition set_blk_owner :: "shm_region \<Rightarrow> machine \<Rightarrow> u64 \<Rightarrow> u32 \<Rightarrow> machine option" where
  "set_blk_owner r s p v = wr32 r s (p + 8) v"
definition set_blk_perms :: "shm_region \<Rightarrow> machine \<Rightarrow> u64 \<Rightarrow> u32 \<Rightarrow> machine option" where
  "set_blk_perms r s p v = wr32 r s (p + 12) v"
definition set_blk_allocated :: "shm_region \<Rightarrow> machine \<Rightarrow> u64 \<Rightarrow> u8 \<Rightarrow> machine option" where
  "set_blk_allocated r s p v = wr8 r s (p + 16) v"
definition set_blk_obj_id :: "shm_region \<Rightarrow> machine \<Rightarrow> u64 \<Rightarrow> u64 \<Rightarrow> machine option" where
  "set_blk_obj_id r s p v = wr64 r s (p + 24) v"
definition set_blk_payload_cap :: "shm_region \<Rightarrow> machine \<Rightarrow> u64 \<Rightarrow> u64 \<Rightarrow> machine option" where
  "set_blk_payload_cap r s p v = wr64 r s (p + 32) v"
definition set_blk_total_size :: "shm_region \<Rightarrow> machine \<Rightarrow> u64 \<Rightarrow> u64 \<Rightarrow> machine option" where
  "set_blk_total_size r s p v = wr64 r s (p + 40) v"
definition set_blk_next_free :: "shm_region \<Rightarrow> machine \<Rightarrow> u64 \<Rightarrow> u64 \<Rightarrow> machine option" where
  "set_blk_next_free r s p v = wr64 r s (p + 48) v"

section \<open>Region header\<close>

text \<open>The region header lives at the base of the mapping; \<open>shm_rh\<close> is its address.\<close>

definition shm_rh :: "shm_region \<Rightarrow> u64" where
  "shm_rh r = rbase r"

record region_hdr =
  h_magic :: u32
  h_version :: u32
  h_backend :: u32
  h_dir_capacity :: u32
  h_host_count :: u32
  h_region_size :: u64
  h_dir_offset :: u64
  h_data_offset :: u64
  h_free_list :: u64
  h_used_bytes :: u64
  h_block_count :: u64
  h_next_id :: u64
  h_ns_inode :: u64
  h_cgroup_hash :: u64

definition rh_at :: "bytes \<Rightarrow> region_hdr" where
  "rh_at m = \<lparr>h_magic = get32 m 0,
     h_version = get32 m 4,
     h_backend = get32 m 8,
     h_dir_capacity = get32 m 12,
     h_host_count = get32 m 56,
     h_region_size = get64 m 64,
     h_dir_offset = get64 m 72,
     h_data_offset = get64 m 80,
     h_free_list = get64 m 88,
     h_used_bytes = get64 m 96,
     h_block_count = get64 m 104,
     h_next_id = get64 m 112,
     h_ns_inode = get64 m 120,
     h_cgroup_hash = get64 m 128\<rparr>"

definition rh_magic :: "shm_region \<Rightarrow> machine \<Rightarrow> u32 option" where
  "rh_magic r s = rd32 r s (shm_rh r)"
definition rh_version :: "shm_region \<Rightarrow> machine \<Rightarrow> u32 option" where
  "rh_version r s = rd32 r s (shm_rh r + 4)"
definition rh_backend :: "shm_region \<Rightarrow> machine \<Rightarrow> u32 option" where
  "rh_backend r s = rd32 r s (shm_rh r + 8)"
definition rh_dir_capacity :: "shm_region \<Rightarrow> machine \<Rightarrow> u32 option" where
  "rh_dir_capacity r s = rd32 r s (shm_rh r + 12)"
definition rh_host_count :: "shm_region \<Rightarrow> machine \<Rightarrow> u32 option" where
  "rh_host_count r s = rd32 r s (shm_rh r + 56)"
definition rh_region_size :: "shm_region \<Rightarrow> machine \<Rightarrow> u64 option" where
  "rh_region_size r s = rd64 r s (shm_rh r + 64)"
definition rh_dir_offset :: "shm_region \<Rightarrow> machine \<Rightarrow> u64 option" where
  "rh_dir_offset r s = rd64 r s (shm_rh r + 72)"
definition rh_data_offset :: "shm_region \<Rightarrow> machine \<Rightarrow> u64 option" where
  "rh_data_offset r s = rd64 r s (shm_rh r + 80)"
definition rh_free_list :: "shm_region \<Rightarrow> machine \<Rightarrow> u64 option" where
  "rh_free_list r s = rd64 r s (shm_rh r + 88)"
definition rh_used_bytes :: "shm_region \<Rightarrow> machine \<Rightarrow> u64 option" where
  "rh_used_bytes r s = rd64 r s (shm_rh r + 96)"
definition rh_block_count :: "shm_region \<Rightarrow> machine \<Rightarrow> u64 option" where
  "rh_block_count r s = rd64 r s (shm_rh r + 104)"
definition rh_next_id :: "shm_region \<Rightarrow> machine \<Rightarrow> u64 option" where
  "rh_next_id r s = rd64 r s (shm_rh r + 112)"
definition rh_ns_inode :: "shm_region \<Rightarrow> machine \<Rightarrow> u64 option" where
  "rh_ns_inode r s = rd64 r s (shm_rh r + 120)"
definition rh_cgroup_hash :: "shm_region \<Rightarrow> machine \<Rightarrow> u64 option" where
  "rh_cgroup_hash r s = rd64 r s (shm_rh r + 128)"

definition set_rh_magic :: "shm_region \<Rightarrow> machine \<Rightarrow> u32 \<Rightarrow> machine option" where
  "set_rh_magic r s v = wr32 r s (shm_rh r) v"
definition set_rh_version :: "shm_region \<Rightarrow> machine \<Rightarrow> u32 \<Rightarrow> machine option" where
  "set_rh_version r s v = wr32 r s (shm_rh r + 4) v"
definition set_rh_backend :: "shm_region \<Rightarrow> machine \<Rightarrow> u32 \<Rightarrow> machine option" where
  "set_rh_backend r s v = wr32 r s (shm_rh r + 8) v"
definition set_rh_dir_capacity :: "shm_region \<Rightarrow> machine \<Rightarrow> u32 \<Rightarrow> machine option" where
  "set_rh_dir_capacity r s v = wr32 r s (shm_rh r + 12) v"
definition set_rh_host_count :: "shm_region \<Rightarrow> machine \<Rightarrow> u32 \<Rightarrow> machine option" where
  "set_rh_host_count r s v = wr32 r s (shm_rh r + 56) v"
definition set_rh_region_size :: "shm_region \<Rightarrow> machine \<Rightarrow> u64 \<Rightarrow> machine option" where
  "set_rh_region_size r s v = wr64 r s (shm_rh r + 64) v"
definition set_rh_dir_offset :: "shm_region \<Rightarrow> machine \<Rightarrow> u64 \<Rightarrow> machine option" where
  "set_rh_dir_offset r s v = wr64 r s (shm_rh r + 72) v"
definition set_rh_data_offset :: "shm_region \<Rightarrow> machine \<Rightarrow> u64 \<Rightarrow> machine option" where
  "set_rh_data_offset r s v = wr64 r s (shm_rh r + 80) v"
definition set_rh_free_list :: "shm_region \<Rightarrow> machine \<Rightarrow> u64 \<Rightarrow> machine option" where
  "set_rh_free_list r s v = wr64 r s (shm_rh r + 88) v"
definition set_rh_used_bytes :: "shm_region \<Rightarrow> machine \<Rightarrow> u64 \<Rightarrow> machine option" where
  "set_rh_used_bytes r s v = wr64 r s (shm_rh r + 96) v"
definition set_rh_block_count :: "shm_region \<Rightarrow> machine \<Rightarrow> u64 \<Rightarrow> machine option" where
  "set_rh_block_count r s v = wr64 r s (shm_rh r + 104) v"
definition set_rh_next_id :: "shm_region \<Rightarrow> machine \<Rightarrow> u64 \<Rightarrow> machine option" where
  "set_rh_next_id r s v = wr64 r s (shm_rh r + 112) v"
definition set_rh_ns_inode :: "shm_region \<Rightarrow> machine \<Rightarrow> u64 \<Rightarrow> machine option" where
  "set_rh_ns_inode r s v = wr64 r s (shm_rh r + 120) v"
definition set_rh_cgroup_hash :: "shm_region \<Rightarrow> machine \<Rightarrow> u64 \<Rightarrow> machine option" where
  "set_rh_cgroup_hash r s v = wr64 r s (shm_rh r + 128) v"

section \<open>Directory entry\<close>

record obj_entry =
  e_id :: u64
  e_off :: u64
  e_capacity :: u64
  e_used_size :: u64
  e_type_tag :: u32
  e_owner :: u32
  e_perms :: u32
  e_alive :: u8
  e_name :: "u8 list"

definition ent_at :: "bytes \<Rightarrow> nat \<Rightarrow> obj_entry" where
  "ent_at m k = \<lparr>e_id = get64 m k,
     e_off = get64 m (k + 56),
     e_capacity = get64 m (k + 64),
     e_used_size = get64 m (k + 72),
     e_type_tag = get32 m (k + 80),
     e_owner = get32 m (k + 84),
     e_perms = get32 m (k + 88),
     e_alive = get8 m (k + 92),
     e_name = map (\<lambda>i. m (k + 8 + i)) [0..<48]\<rparr>"

definition ent_id :: "shm_region \<Rightarrow> machine \<Rightarrow> u64 \<Rightarrow> u64 option" where
  "ent_id r s p = rd64 r s p"
definition ent_off :: "shm_region \<Rightarrow> machine \<Rightarrow> u64 \<Rightarrow> u64 option" where
  "ent_off r s p = rd64 r s (p + 56)"
definition ent_capacity :: "shm_region \<Rightarrow> machine \<Rightarrow> u64 \<Rightarrow> u64 option" where
  "ent_capacity r s p = rd64 r s (p + 64)"
definition ent_used_size :: "shm_region \<Rightarrow> machine \<Rightarrow> u64 \<Rightarrow> u64 option" where
  "ent_used_size r s p = rd64 r s (p + 72)"
definition ent_type_tag :: "shm_region \<Rightarrow> machine \<Rightarrow> u64 \<Rightarrow> u32 option" where
  "ent_type_tag r s p = rd32 r s (p + 80)"
definition ent_owner :: "shm_region \<Rightarrow> machine \<Rightarrow> u64 \<Rightarrow> u32 option" where
  "ent_owner r s p = rd32 r s (p + 84)"
definition ent_perms :: "shm_region \<Rightarrow> machine \<Rightarrow> u64 \<Rightarrow> u32 option" where
  "ent_perms r s p = rd32 r s (p + 88)"
definition ent_alive :: "shm_region \<Rightarrow> machine \<Rightarrow> u64 \<Rightarrow> u8 option" where
  "ent_alive r s p = rd8 r s (p + 92)"

definition set_ent_id :: "shm_region \<Rightarrow> machine \<Rightarrow> u64 \<Rightarrow> u64 \<Rightarrow> machine option" where
  "set_ent_id r s p v = wr64 r s p v"
definition set_ent_off :: "shm_region \<Rightarrow> machine \<Rightarrow> u64 \<Rightarrow> u64 \<Rightarrow> machine option" where
  "set_ent_off r s p v = wr64 r s (p + 56) v"
definition set_ent_capacity :: "shm_region \<Rightarrow> machine \<Rightarrow> u64 \<Rightarrow> u64 \<Rightarrow> machine option" where
  "set_ent_capacity r s p v = wr64 r s (p + 64) v"
definition set_ent_used_size :: "shm_region \<Rightarrow> machine \<Rightarrow> u64 \<Rightarrow> u64 \<Rightarrow> machine option" where
  "set_ent_used_size r s p v = wr64 r s (p + 72) v"
definition set_ent_type_tag :: "shm_region \<Rightarrow> machine \<Rightarrow> u64 \<Rightarrow> u32 \<Rightarrow> machine option" where
  "set_ent_type_tag r s p v = wr32 r s (p + 80) v"
definition set_ent_owner :: "shm_region \<Rightarrow> machine \<Rightarrow> u64 \<Rightarrow> u32 \<Rightarrow> machine option" where
  "set_ent_owner r s p v = wr32 r s (p + 84) v"
definition set_ent_perms :: "shm_region \<Rightarrow> machine \<Rightarrow> u64 \<Rightarrow> u32 \<Rightarrow> machine option" where
  "set_ent_perms r s p v = wr32 r s (p + 88) v"
definition set_ent_alive :: "shm_region \<Rightarrow> machine \<Rightarrow> u64 \<Rightarrow> u8 \<Rightarrow> machine option" where
  "set_ent_alive r s p v = wr8 r s (p + 92) v"

text \<open>The address of the array member \<open>name\<close>.\<close>

definition ent_name_ptr :: "u64 \<Rightarrow> u64" where
  "ent_name_ptr p = p + 8"

section \<open>Inline accessor helpers\<close>

definition shm_align_up :: "u64 \<Rightarrow> u64 \<Rightarrow> u64" where
  "shm_align_up n a = (n + a - 1) AND NOT (a - 1)"

definition shm_heap_base :: "shm_region \<Rightarrow> machine \<Rightarrow> u64 option" where
  "shm_heap_base r s = do { d \<leftarrow> rh_data_offset r s; Some (rbase r + d) }"

definition shm_heap_size :: "shm_region \<Rightarrow> machine \<Rightarrow> u64 option" where
  "shm_heap_size r s = do { d \<leftarrow> rh_data_offset r s; Some (rsize r - d) }"

definition shm_blk_at_hoff :: "shm_region \<Rightarrow> machine \<Rightarrow> u64 \<Rightarrow> u64 option" where
  "shm_blk_at_hoff r s hoff = do { hb \<leftarrow> shm_heap_base r s; Some (hb + hoff) }"

definition shm_blk_of_poff :: "shm_region \<Rightarrow> machine \<Rightarrow> u64 \<Rightarrow> u64 option" where
  "shm_blk_of_poff r s poff = do { hb \<leftarrow> shm_heap_base r s; Some (hb + poff - SIZEOF_BLOCK_HDR) }"

definition shm_hoff_of_blk :: "shm_region \<Rightarrow> machine \<Rightarrow> u64 \<Rightarrow> u64 option" where
  "shm_hoff_of_blk r s b = do { hb \<leftarrow> shm_heap_base r s; Some (b - hb) }"

definition shm_poff_of_blk :: "shm_region \<Rightarrow> machine \<Rightarrow> u64 \<Rightarrow> u64 option" where
  "shm_poff_of_blk r s b = do { ho \<leftarrow> shm_hoff_of_blk r s b; Some (ho + SIZEOF_BLOCK_HDR) }"

definition shm_link_enc :: "u64 \<Rightarrow> u64" where
  "shm_link_enc hoff = hoff + 1"

definition shm_link_dec :: "u64 \<Rightarrow> u64" where
  "shm_link_dec lnk = lnk - 1"

definition shm_blk_of_link :: "shm_region \<Rightarrow> machine \<Rightarrow> u64 \<Rightarrow> u64 option" where
  "shm_blk_of_link r s lnk = (if lnk \<noteq> 0 then shm_blk_at_hoff r s (shm_link_dec lnk) else Some 0)"

definition shm_dir_base :: "shm_region \<Rightarrow> machine \<Rightarrow> u64 option" where
  "shm_dir_base r s = do { d \<leftarrow> rh_dir_offset r s; Some (rbase r + d) }"

definition shm_dir_slot :: "shm_region \<Rightarrow> machine \<Rightarrow> u32 \<Rightarrow> u64 option" where
  "shm_dir_slot r s idx = do { db \<leftarrow> shm_dir_base r s; Some (db + ucast idx * SIZEOF_OBJ_ENTRY) }"

lemmas blk_get_defs =
  blk_magic_def blk_type_tag_def blk_owner_def blk_perms_def blk_allocated_def blk_obj_id_def
  blk_payload_cap_def blk_total_size_def blk_next_free_def

lemmas blk_set_defs =
  set_blk_magic_def set_blk_type_tag_def set_blk_owner_def set_blk_perms_def
  set_blk_allocated_def set_blk_obj_id_def set_blk_payload_cap_def set_blk_total_size_def
  set_blk_next_free_def

lemmas rh_get_defs =
  rh_magic_def rh_version_def rh_backend_def rh_dir_capacity_def rh_host_count_def
  rh_region_size_def rh_dir_offset_def rh_data_offset_def rh_free_list_def rh_used_bytes_def
  rh_block_count_def rh_next_id_def rh_ns_inode_def rh_cgroup_hash_def

lemmas rh_set_defs =
  set_rh_magic_def set_rh_version_def set_rh_backend_def set_rh_dir_capacity_def
  set_rh_host_count_def set_rh_region_size_def set_rh_dir_offset_def set_rh_data_offset_def
  set_rh_free_list_def set_rh_used_bytes_def set_rh_block_count_def set_rh_next_id_def
  set_rh_ns_inode_def set_rh_cgroup_hash_def

lemmas ent_get_defs =
  ent_id_def ent_off_def ent_capacity_def ent_used_size_def ent_type_tag_def ent_owner_def
  ent_perms_def ent_alive_def

lemmas ent_set_defs =
  set_ent_id_def set_ent_off_def set_ent_capacity_def set_ent_used_size_def set_ent_type_tag_def
  set_ent_owner_def set_ent_perms_def set_ent_alive_def

end
