(* ===== verification/Shm_Persist.thy ===== *)
theory Shm_Persist
  imports Shm_Layout
begin

text \<open>
  Cache-line flushing, \<open>src/src/shm_persist.h\<close>. \<open>shm_flush_line\<close> is the one
  instruction each build mode issues and \<open>shm_drain\<close> its fence: \<open>CLFLUSH\<close> reaches the
  medium at once, the weakly ordered modes only at the next fence, and without a mode both are
  compiler barriers. \<open>shm_persist\<close> walks the cache lines of a byte range.

  The lemmas show that \<open>shm_persist\<close> returns on every range inside the mapping, never
  changes what loads see, and, with a following \<open>shm_drain\<close>, makes the whole range durable in
  every mode but the default one.
\<close>

section \<open>The instructions\<close>

definition SHM_CACHE_LINE_BYTES :: u64 where "SHM_CACHE_LINE_BYTES = 64"

definition flush_at :: "nat \<Rightarrow> machine \<Rightarrow> machine" where
  "flush_at j s =
     (case cmode s of
        CACHE_NONE \<Rightarrow> s
      | CACHE_CLFLUSH \<Rightarrow>
          s\<lparr>pmem := (\<lambda>a. if a div 64 = j then mem s a else pmem s a),
            wpq := (\<lambda>a. if a div 64 = j then None else wpq s a)\<rparr>
      | _ \<Rightarrow> s\<lparr>wpq := (\<lambda>a. if a div 64 = j then Some (mem s a) else wpq s a)\<rparr>)"

definition shm_flush_line :: "shm_region \<Rightarrow> machine \<Rightarrow> u64 \<Rightarrow> machine option" where
  "shm_flush_line r s p = (if in_map r p 1 then Some (flush_at (region_off r p div 64) s) else None)"

definition shm_drain :: "machine \<Rightarrow> machine" where
  "shm_drain s =
     (case cmode s of
        CACHE_NONE \<Rightarrow> s
      | _ \<Rightarrow> s\<lparr>pmem := (\<lambda>a. case wpq s a of None \<Rightarrow> pmem s a | Some v \<Rightarrow> v), wpq := (\<lambda>_. None)\<rparr>)"

section \<open>The range walk\<close>

partial_function (option) persist_loop :: "shm_region \<Rightarrow> machine \<Rightarrow> u64 \<Rightarrow> u64 \<Rightarrow> machine option" where
  "persist_loop r s p end_p =
     (if p < end_p
      then Option.bind (shm_flush_line r s p)
             (\<lambda>s. persist_loop r s (p + SHM_CACHE_LINE_BYTES) end_p)
      else Some s)"

definition shm_persist :: "shm_region \<Rightarrow> machine \<Rightarrow> u64 \<Rightarrow> u64 \<Rightarrow> machine option" where
  "shm_persist r s addr len =
     persist_loop r s (addr AND NOT (SHM_CACHE_LINE_BYTES - 1)) (addr + len)"

section \<open>What a flush leaves alone\<close>

lemma flush_at_sel [simp]:
  "mem (flush_at j s) = mem s" "mutex (flush_at j s) = mutex s" "cmode (flush_at j s) = cmode s"
  by (simp_all add: flush_at_def split: cache_mode.splits)

lemma shm_drain_sel [simp]:
  "mem (shm_drain s) = mem s" "mutex (shm_drain s) = mutex s" "cmode (shm_drain s) = cmode s"
  by (simp_all add: shm_drain_def split: cache_mode.splits)

abbreviation flush_lines :: "nat list \<Rightarrow> machine \<Rightarrow> machine" where
  "flush_lines js s \<equiv> fold flush_at js s"

lemma flush_lines_sel [simp]:
  "mem (flush_lines js s) = mem s" "mutex (flush_lines js s) = mutex s"
  "cmode (flush_lines js s) = cmode s"
  by (induction js arbitrary: s) simp_all

section \<open>Termination and effect of the walk\<close>

lemma mapped_unat_add:
  "mapped r \<Longrightarrow> k \<le> unat (rsize r) + 64 \<Longrightarrow> unat (rbase r + of_nat k) = unat (rbase r) + k"
  by (rule unat64_add_of_nat) (simp add: mapped_def)

lemma persist_loop_lines:
  assumes "mapped r" "e \<le> unat (rsize r)" "64 * j < e + 64"
  shows "persist_loop r s (rbase r + of_nat (64 * j)) (rbase r + of_nat e) =
           Some (flush_lines [j..<(e + 63) div 64] s)"
  using assms(3)
proof (induction "e + 64 - 64 * j" arbitrary: j s rule: less_induct)
  case less
  have p: "unat (rbase r + of_nat (64 * j)) = unat (rbase r) + 64 * j"
    and e: "unat (rbase r + of_nat e) = unat (rbase r) + e"
    using assms(1,2) less.prems by (simp_all only: mapped_unat_add)
  have lt: "rbase r + of_nat (64 * j) < rbase r + of_nat e \<longleftrightarrow> 64 * j < e"
    unfolding word_less_nat_alt p e by simp
  show ?case
  proof (cases "64 * j < e")
    case False
    then have "(e + 63) div 64 \<le> j" by simp
    with False show ?thesis
      by (subst persist_loop.simps) (simp only: lt if_False, simp)
  next
    case True
    have "region_off r (rbase r + of_nat (64 * j)) = 64 * j"
      using assms(2) True unat64_bound [of "rsize r"] by (intro region_off_base) simp
    moreover have "rbase r + of_nat (64 * j) + SHM_CACHE_LINE_BYTES = rbase r + of_nat (64 * Suc j)"
      by (simp add: SHM_CACHE_LINE_BYTES_def)
    moreover have "[j..<(e + 63) div 64] = j # [Suc j..<(e + 63) div 64]"
      using True by (intro upt_conv_Cons) simp
    moreover have "persist_loop r (flush_at j s) (rbase r + of_nat (64 * Suc j)) (rbase r + of_nat e) =
        Some (flush_lines [Suc j..<(e + 63) div 64] (flush_at j s))"
      using True by (intro less.hyps) auto
    ultimately show ?thesis
      using True assms(2)
      by (subst persist_loop.simps) (simp only: lt shm_flush_line_def in_map_def if_True
          Option.bind.bind_lunit fold_simps comp_apply, simp)
  qed
qed

text \<open>
  The walk over a range \<open>[k, k + n)\<close> of the region visits each of its cache lines once, in
  address order, and returns.
\<close>

lemma shm_persist_eq:
  assumes "mapped r" "k + n \<le> unat (rsize r)"
  shows "shm_persist r s (rbase r + of_nat k) (of_nat n) =
           Some (flush_lines [k div 64..<(k + n + 63) div 64] s)"
proof -
  have k: "unat (rbase r + of_nat k) = unat (rbase r) + k"
    using assms by (intro mapped_unat_add) auto
  obtain c where c: "unat (rbase r) = 4096 * c"
    using assms(1) by (auto simp: mapped_def dvd_def)
  have dv: "2 ^ 6 * ((unat (rbase r) + k) div 2 ^ 6) = unat (rbase r) + 64 * (k div 64)"
    using div_mult_self2 [of 64 k "64 * c"] by (simp add: c add.commute)
  have "rbase r + of_nat k AND NOT (SHM_CACHE_LINE_BYTES - 1) = (rbase r + of_nat k) AND NOT (mask 6)"
    by (simp add: SHM_CACHE_LINE_BYTES_def mask_eq_exp_minus_1)
  also have "\<dots> = of_nat (unat (rbase r) + 64 * (k div 64))"
    by (rule unat64_eqD) (simp only: unat_and_not_mask k dv)
  finally have al: "rbase r + of_nat k AND NOT (SHM_CACHE_LINE_BYTES - 1) = rbase r + of_nat (64 * (k div 64))"
    by simp
  have "rbase r + of_nat k + of_nat n = rbase r + of_nat (k + n)"
    by simp
  then show ?thesis
    unfolding shm_persist_def al using assms
    by (simp only: persist_loop_lines [of r "k + n" "k div 64"])
qed

section \<open>Durability\<close>

text \<open>A byte is durable when the medium holds what loads see.\<close>

definition durable :: "machine \<Rightarrow> nat \<Rightarrow> bool" where
  "durable s a \<longleftrightarrow> pmem s a = mem s a"

text \<open>A byte is on its way to the medium with its current value.\<close>

definition written_back :: "machine \<Rightarrow> nat \<Rightarrow> bool" where
  "written_back s a \<longleftrightarrow> (case wpq s a of None \<Rightarrow> pmem s a = mem s a | Some v \<Rightarrow> v = mem s a)"

lemma flush_at_written_back:
  "cmode s \<noteq> CACHE_NONE \<Longrightarrow> a div 64 = j \<or> written_back s a \<Longrightarrow> written_back (flush_at j s) a"
  by (cases "cmode s"; cases "wpq s a") (auto simp: written_back_def flush_at_def)

lemma flush_lines_written_back:
  "cmode s \<noteq> CACHE_NONE \<Longrightarrow> a div 64 \<in> set js \<or> written_back s a \<Longrightarrow>
     written_back (flush_lines js s) a"
proof (induction js arbitrary: s)
  case (Cons j js)
  then have "a div 64 \<in> set js \<or> written_back (flush_at j s) a"
    using flush_at_written_back [of s a j] by auto
  with Cons show ?case by simp
qed simp

text \<open>After \<open>shm_persist\<close> every byte of the range is on its way to the medium.\<close>

lemma shm_persist_written_back:
  assumes "mapped r" "k + n \<le> unat (rsize r)" "cmode s \<noteq> CACHE_NONE"
    and "shm_persist r s (rbase r + of_nat k) (of_nat n) = Some s'"
    and "k \<le> a \<and> a < k + n \<or> written_back s a"
  shows "written_back s' a"
proof -
  have "k \<le> a \<and> a < k + n \<Longrightarrow> k div 64 \<le> a div 64 \<and> a div 64 < (k + n + 63) div 64"
    by (auto simp: div_le_mono)
  then show ?thesis
    using assms by (auto simp: shm_persist_eq intro!: flush_lines_written_back)
qed

lemma shm_drain_durable:
  "cmode s \<noteq> CACHE_NONE \<Longrightarrow> written_back s a \<Longrightarrow> durable (shm_drain s) a"
  by (auto simp: written_back_def durable_def shm_drain_def split: cache_mode.splits option.splits)

end
