(* ===== verification/Shm_Views.thy ===== *)
theory Shm_Views
  imports Shm_Persist
begin

text \<open>
  The reasoning layer between bytes and structures. \<open>hview r s0 s D H R\<close> says that in state
  \<open>s\<close> the region header reads as the record \<open>R\<close>, the block header at each heap offset
  \<open>h\<close> of the set \<open>D\<close> reads as \<open>H h\<close>, the headers of \<open>D\<close> do not overlap, and every
  other byte after the region header is as in the reference state \<open>s0\<close>. Loads of fields
  are rewritten to fields of these records (\<open>view_simps\<close>); stores and flushes have one rule
  each (\<open>wp_rules\<close>) that updates \<open>H\<close> or \<open>R\<close>, so that straight-line code is executed
  symbolically on records.
\<close>

section \<open>Pointers and ranges\<close>

text \<open>The pointer to the block header at heap offset \<open>h\<close>, for data offset \<open>d\<close>.\<close>

definition bp :: "shm_region \<Rightarrow> u64 \<Rightarrow> nat \<Rightarrow> u64" where
  "bp r d h = rbase r + d + of_nat h"

definition separated :: "nat set \<Rightarrow> bool" where
  "separated D \<longleftrightarrow> (\<forall>h\<in>D. \<forall>h'\<in>D. h \<noteq> h' \<longrightarrow> h + 56 \<le> h' \<or> h' + 56 \<le> h)"

definition hdr_bytes :: "nat \<Rightarrow> nat set \<Rightarrow> nat set" where
  "hdr_bytes d D = {a. \<exists>h\<in>D. d + h \<le> a \<and> a < d + h + 56}"

definition hview ::
    "shm_region \<Rightarrow> machine \<Rightarrow> machine \<Rightarrow> nat set \<Rightarrow> (nat \<Rightarrow> block_hdr) \<Rightarrow> region_hdr \<Rightarrow> bool" where
  "hview r s0 s D H R \<longleftrightarrow>
     mapped r \<and> 200 \<le> unat (h_data_offset R) \<and> unat (h_data_offset R) \<le> unat (rsize r) \<and>
     separated D \<and> (\<forall>h\<in>D. unat (h_data_offset R) + h + 56 \<le> unat (rsize r)) \<and>
     rh_at (mem s) = R \<and> (\<forall>h\<in>D. blk_at (mem s) (unat (h_data_offset R) + h) = H h) \<and>
     (\<forall>a. 200 \<le> a \<longrightarrow> a \<notin> hdr_bytes (unat (h_data_offset R)) D \<longrightarrow> mem s a = mem s0 a) \<and>
     mutex s = mutex s0 \<and> cmode s = cmode s0"

lemma hviewD:
  assumes "hview r s0 s D H R"
  shows "mapped r" "200 \<le> unat (h_data_offset R)" "unat (h_data_offset R) \<le> unat (rsize r)"
    "separated D" "h \<in> D \<Longrightarrow> unat (h_data_offset R) + h + 56 \<le> unat (rsize r)"
    "rh_at (mem s) = R" "h \<in> D \<Longrightarrow> blk_at (mem s) (unat (h_data_offset R) + h) = H h"
    "200 \<le> a \<Longrightarrow> a \<notin> hdr_bytes (unat (h_data_offset R)) D \<Longrightarrow> mem s a = mem s0 a"
    "mutex s = mutex s0" "cmode s = cmode s0"
  using assms by (auto simp: hview_def)

lemma region_off_bp:
  assumes "unat d + h + 56 \<le> unat (rsize r)"
  shows "region_off r (bp r d h) = unat d + h"
    and "numeral n \<le> (56 :: nat) \<Longrightarrow> region_off r (bp r d h + numeral n) = unat d + h + numeral n"
proof -
  have lt: "unat d + h + 56 < 2 ^ 64"
    using assms unat64_bound [of "rsize r"] by linarith
  have p: "bp r d h = rbase r + of_nat (unat d + h)"
    by (simp add: bp_def add.assoc)
  show "region_off r (bp r d h) = unat d + h"
    unfolding p using lt by (intro region_off_base) simp
  show "region_off r (bp r d h + numeral n) = unat d + h + numeral n" if "numeral n \<le> (56 :: nat)"
    unfolding p using lt that by (intro region_off_base_field) linarith
qed

section \<open>Field stores and the struct views\<close>

lemma blk_at_sel:
  "b_magic (blk_at m k) = get32 m k"
  "b_type_tag (blk_at m k) = get32 m (k + 4)"
  "b_owner (blk_at m k) = get32 m (k + 8)"
  "b_perms (blk_at m k) = get32 m (k + 12)"
  "b_allocated (blk_at m k) = get8 m (k + 16)"
  "b_obj_id (blk_at m k) = get64 m (k + 24)"
  "b_payload_cap (blk_at m k) = get64 m (k + 32)"
  "b_total_size (blk_at m k) = get64 m (k + 40)"
  "b_next_free (blk_at m k) = get64 m (k + 48)"
  by (simp_all add: blk_at_def)

lemma rh_at_sel:
  "h_magic (rh_at m) = get32 m 0"
  "h_version (rh_at m) = get32 m 4"
  "h_backend (rh_at m) = get32 m 8"
  "h_dir_capacity (rh_at m) = get32 m 12"
  "h_host_count (rh_at m) = get32 m 56"
  "h_region_size (rh_at m) = get64 m 64"
  "h_dir_offset (rh_at m) = get64 m 72"
  "h_data_offset (rh_at m) = get64 m 80"
  "h_free_list (rh_at m) = get64 m 88"
  "h_used_bytes (rh_at m) = get64 m 96"
  "h_block_count (rh_at m) = get64 m 104"
  "h_next_id (rh_at m) = get64 m 112"
  "h_ns_inode (rh_at m) = get64 m 120"
  "h_cgroup_hash (rh_at m) = get64 m 128"
  by (simp_all add: rh_at_def)

lemma blk_at_put_magic [view_simps]: "blk_at (put32 m k v) k = (blk_at m k)\<lparr>b_magic := v\<rparr>"
  by (simp add: blk_at_def get_put_apart)

lemma blk_at_put_type_tag [view_simps]: "blk_at (put32 m (k + 4) v) k = (blk_at m k)\<lparr>b_type_tag := v\<rparr>"
  by (simp add: blk_at_def get_put_apart)

lemma blk_at_put_owner [view_simps]: "blk_at (put32 m (k + 8) v) k = (blk_at m k)\<lparr>b_owner := v\<rparr>"
  by (simp add: blk_at_def get_put_apart)

lemma blk_at_put_perms [view_simps]: "blk_at (put32 m (k + 12) v) k = (blk_at m k)\<lparr>b_perms := v\<rparr>"
  by (simp add: blk_at_def get_put_apart)

lemma blk_at_put_allocated [view_simps]: "blk_at (put8 m (k + 16) v) k = (blk_at m k)\<lparr>b_allocated := v\<rparr>"
  by (simp add: blk_at_def get_put_apart)

lemma blk_at_put_obj_id [view_simps]: "blk_at (put64 m (k + 24) v) k = (blk_at m k)\<lparr>b_obj_id := v\<rparr>"
  by (simp add: blk_at_def get_put_apart)

lemma blk_at_put_payload_cap [view_simps]: "blk_at (put64 m (k + 32) v) k = (blk_at m k)\<lparr>b_payload_cap := v\<rparr>"
  by (simp add: blk_at_def get_put_apart)

lemma blk_at_put_total_size [view_simps]: "blk_at (put64 m (k + 40) v) k = (blk_at m k)\<lparr>b_total_size := v\<rparr>"
  by (simp add: blk_at_def get_put_apart)

lemma blk_at_put_next_free [view_simps]: "blk_at (put64 m (k + 48) v) k = (blk_at m k)\<lparr>b_next_free := v\<rparr>"
  by (simp add: blk_at_def get_put_apart)

lemma rh_at_put_magic [view_simps]: "rh_at (put32 m 0 v) = (rh_at m)\<lparr>h_magic := v\<rparr>"
  by (simp add: rh_at_def get_put_apart)

lemma rh_at_put_version [view_simps]: "rh_at (put32 m 4 v) = (rh_at m)\<lparr>h_version := v\<rparr>"
  by (simp add: rh_at_def get_put_apart)

lemma rh_at_put_backend [view_simps]: "rh_at (put32 m 8 v) = (rh_at m)\<lparr>h_backend := v\<rparr>"
  by (simp add: rh_at_def get_put_apart)

lemma rh_at_put_dir_capacity [view_simps]: "rh_at (put32 m 12 v) = (rh_at m)\<lparr>h_dir_capacity := v\<rparr>"
  by (simp add: rh_at_def get_put_apart)

lemma rh_at_put_host_count [view_simps]: "rh_at (put32 m 56 v) = (rh_at m)\<lparr>h_host_count := v\<rparr>"
  by (simp add: rh_at_def get_put_apart)

lemma rh_at_put_region_size [view_simps]: "rh_at (put64 m 64 v) = (rh_at m)\<lparr>h_region_size := v\<rparr>"
  by (simp add: rh_at_def get_put_apart)

lemma rh_at_put_dir_offset [view_simps]: "rh_at (put64 m 72 v) = (rh_at m)\<lparr>h_dir_offset := v\<rparr>"
  by (simp add: rh_at_def get_put_apart)

lemma rh_at_put_data_offset [view_simps]: "rh_at (put64 m 80 v) = (rh_at m)\<lparr>h_data_offset := v\<rparr>"
  by (simp add: rh_at_def get_put_apart)

lemma rh_at_put_free_list [view_simps]: "rh_at (put64 m 88 v) = (rh_at m)\<lparr>h_free_list := v\<rparr>"
  by (simp add: rh_at_def get_put_apart)

lemma rh_at_put_used_bytes [view_simps]: "rh_at (put64 m 96 v) = (rh_at m)\<lparr>h_used_bytes := v\<rparr>"
  by (simp add: rh_at_def get_put_apart)

lemma rh_at_put_block_count [view_simps]: "rh_at (put64 m 104 v) = (rh_at m)\<lparr>h_block_count := v\<rparr>"
  by (simp add: rh_at_def get_put_apart)

lemma rh_at_put_next_id [view_simps]: "rh_at (put64 m 112 v) = (rh_at m)\<lparr>h_next_id := v\<rparr>"
  by (simp add: rh_at_def get_put_apart)

lemma rh_at_put_ns_inode [view_simps]: "rh_at (put64 m 120 v) = (rh_at m)\<lparr>h_ns_inode := v\<rparr>"
  by (simp add: rh_at_def get_put_apart)

lemma rh_at_put_cgroup_hash [view_simps]: "rh_at (put64 m 128 v) = (rh_at m)\<lparr>h_cgroup_hash := v\<rparr>"
  by (simp add: rh_at_def get_put_apart)

lemma blk_at_cong:
  assumes "\<And>a. k \<le> a \<Longrightarrow> a < k + 56 \<Longrightarrow> m a = m' a"
  shows "blk_at m k = blk_at m' k"
  unfolding blk_at_def using assms
  by (simp add: c8.get_frame [of _ m m'] c32.get_frame [of _ m m'] c64.get_frame [of _ m m'])

lemma rh_at_cong:
  assumes "\<And>a. a < 200 \<Longrightarrow> m a = m' a"
  shows "rh_at m = rh_at m'"
  unfolding rh_at_def using assms
  by (simp add: c32.get_frame [of _ m m'] c64.get_frame [of _ m m'])

section \<open>Changing one header of a view\<close>

lemma hview_blk:
  assumes v: "hview r s0 s D H R" and h: "h \<in> D" and d: "d = unat (h_data_offset R)"
    and out: "\<And>a. a < d + h \<or> d + h + 56 \<le> a \<Longrightarrow> m' a = mem s a"
    and b: "blk_at m' (d + h) = b'"
  shows "hview r s0 (s\<lparr>mem := m'\<rparr>) D (H(h := b')) R"
proof -
  have sep: "separated D" and d200: "200 \<le> d"
    using v d by (auto simp: hview_def)
  have "rh_at m' = rh_at (mem s)"
    by (rule rh_at_cong) (use d200 in \<open>simp add: out\<close>)
  moreover have "blk_at m' (d + h') = H h'" if "h' \<in> D" "h' \<noteq> h" for h'
  proof -
    have "blk_at m' (d + h') = blk_at (mem s) (d + h')"
      using sep h that by (intro blk_at_cong out) (fastforce simp: separated_def)
    then show ?thesis
      using v that d by (simp add: hview_def)
  qed
  moreover have "m' a = mem s0 a" if "200 \<le> a" "a \<notin> hdr_bytes d D" for a
  proof -
    have "a < d + h \<or> d + h + 56 \<le> a"
      using that h by (force simp: hdr_bytes_def)
    then show ?thesis
      using v that d by (simp add: out hview_def)
  qed
  ultimately show ?thesis
    using v b d by (simp add: hview_def)
qed

lemma hview_rh:
  assumes v: "hview r s0 s D H R" and out: "\<And>a. 200 \<le> a \<Longrightarrow> m' a = mem s a"
    and R': "rh_at m' = R'" "h_data_offset R' = h_data_offset R"
  shows "hview r s0 (s\<lparr>mem := m'\<rparr>) D H R'"
proof -
  have d200: "200 \<le> unat (h_data_offset R)"
    using v by (simp add: hview_def)
  have "blk_at m' (unat (h_data_offset R) + h) = H h" if "h \<in> D" for h
  proof -
    have "blk_at m' (unat (h_data_offset R) + h) = blk_at (mem s) (unat (h_data_offset R) + h)"
      using d200 by (intro blk_at_cong out) simp
    then show ?thesis
      using v that by (simp add: hview_def)
  qed
  then show ?thesis
    using v R' out by (simp add: hview_def)
qed

lemma hview_mono:
  assumes "hview r s0 s D H R" "D' \<subseteq> D" "\<And>h. h \<in> D' \<Longrightarrow> H h = H' h"
    and "\<And>a. a \<in> hdr_bytes (unat (h_data_offset R)) (D - D') \<Longrightarrow> mem s a = mem s0 a"
  shows "hview r s0 s D' H' R"
proof -
  have "mem s a = mem s0 a" if "200 \<le> a" "a \<notin> hdr_bytes (unat (h_data_offset R)) D'" for a
    using assms(1,4) that by (cases "a \<in> hdr_bytes (unat (h_data_offset R)) D")
      (auto simp: hview_def hdr_bytes_def)
  then show ?thesis
    using assms(1-3) unfolding hview_def separated_def by (metis subset_iff)
qed

section \<open>Rules for field loads\<close>

lemma in_map_bp: "unat d + h + 56 \<le> unat (rsize r) \<Longrightarrow> n \<le> 56 \<Longrightarrow> in_map r (bp r d h) n"
  by (simp add: in_map_def region_off_bp)

lemma in_map_bp_field:
  "unat d + h + 56 \<le> unat (rsize r) \<Longrightarrow> numeral k + n \<le> 56 \<Longrightarrow> in_map r (bp r d h + numeral k) n"
proof -
  assume le: "unat d + h + 56 \<le> unat (rsize r)" and kn: "numeral k + n \<le> 56"
  then have "numeral k \<le> (56 :: nat)" by linarith
  with le kn show ?thesis
    by (simp only: in_map_def region_off_bp)
qed

lemma in_map_rh: "hview r s0 s D H R \<Longrightarrow> k + n \<le> 200 \<Longrightarrow> in_map r (shm_rh r + of_nat k) n"
  using unat64_bound [of "rsize r"] by (simp add: in_map_def shm_rh_def region_off_base hview_def)

lemma hview_blk_loads:
  assumes "hview r s0 s D H R" "h \<in> D" "d = h_data_offset R"
  shows "blk_magic r s (bp r d h) = Some (b_magic (H h))"
    and "blk_type_tag r s (bp r d h) = Some (b_type_tag (H h))"
    and "blk_owner r s (bp r d h) = Some (b_owner (H h))"
    and "blk_perms r s (bp r d h) = Some (b_perms (H h))"
    and "blk_allocated r s (bp r d h) = Some (b_allocated (H h))"
    and "blk_obj_id r s (bp r d h) = Some (b_obj_id (H h))"
    and "blk_payload_cap r s (bp r d h) = Some (b_payload_cap (H h))"
    and "blk_total_size r s (bp r d h) = Some (b_total_size (H h))"
    and "blk_next_free r s (bp r d h) = Some (b_next_free (H h))"
proof -
  have le: "unat d + h + 56 \<le> unat (rsize r)" and b: "blk_at (mem s) (unat d + h) = H h"
    using assms by (auto simp: hview_def)
  show "blk_magic r s (bp r d h) = Some (b_magic (H h))"
    using le by (simp add: blk_magic_def rd32_def in_map_bp in_map_bp_field region_off_bp b [symmetric] blk_at_sel)
  show "blk_type_tag r s (bp r d h) = Some (b_type_tag (H h))"
    using le by (simp add: blk_type_tag_def rd32_def in_map_bp in_map_bp_field region_off_bp b [symmetric] blk_at_sel)
  show "blk_owner r s (bp r d h) = Some (b_owner (H h))"
    using le by (simp add: blk_owner_def rd32_def in_map_bp in_map_bp_field region_off_bp b [symmetric] blk_at_sel)
  show "blk_perms r s (bp r d h) = Some (b_perms (H h))"
    using le by (simp add: blk_perms_def rd32_def in_map_bp in_map_bp_field region_off_bp b [symmetric] blk_at_sel)
  show "blk_allocated r s (bp r d h) = Some (b_allocated (H h))"
    using le by (simp add: blk_allocated_def rd8_def in_map_bp in_map_bp_field region_off_bp b [symmetric] blk_at_sel)
  show "blk_obj_id r s (bp r d h) = Some (b_obj_id (H h))"
    using le by (simp add: blk_obj_id_def rd64_def in_map_bp in_map_bp_field region_off_bp b [symmetric] blk_at_sel)
  show "blk_payload_cap r s (bp r d h) = Some (b_payload_cap (H h))"
    using le by (simp add: blk_payload_cap_def rd64_def in_map_bp in_map_bp_field region_off_bp b [symmetric] blk_at_sel)
  show "blk_total_size r s (bp r d h) = Some (b_total_size (H h))"
    using le by (simp add: blk_total_size_def rd64_def in_map_bp in_map_bp_field region_off_bp b [symmetric] blk_at_sel)
  show "blk_next_free r s (bp r d h) = Some (b_next_free (H h))"
    using le by (simp add: blk_next_free_def rd64_def in_map_bp in_map_bp_field region_off_bp b [symmetric] blk_at_sel)
qed

lemma hview_rh_loads:
  assumes "hview r s0 s D H R"
  shows "rh_magic r s = Some (h_magic R)"
    and "rh_version r s = Some (h_version R)"
    and "rh_backend r s = Some (h_backend R)"
    and "rh_dir_capacity r s = Some (h_dir_capacity R)"
    and "rh_host_count r s = Some (h_host_count R)"
    and "rh_region_size r s = Some (h_region_size R)"
    and "rh_dir_offset r s = Some (h_dir_offset R)"
    and "rh_data_offset r s = Some (h_data_offset R)"
    and "rh_free_list r s = Some (h_free_list R)"
    and "rh_used_bytes r s = Some (h_used_bytes R)"
    and "rh_block_count r s = Some (h_block_count R)"
    and "rh_next_id r s = Some (h_next_id R)"
    and "rh_ns_inode r s = Some (h_ns_inode R)"
    and "rh_cgroup_hash r s = Some (h_cgroup_hash R)"
proof -
  note off = in_map_rh [OF assms, of "numeral k" for k, simplified] in_map_rh [OF assms, of 0, simplified]
    region_off_base [of "numeral k" r for k, simplified] region_off_base [of 0 r, simplified]
  have R: "R = rh_at (mem s)"
    using assms by (simp add: hview_def)
  show "rh_magic r s = Some (h_magic R)"
    unfolding R rh_at_sel by (simp add: rh_magic_def rd32_def off) (simp add: off shm_rh_def)
  show "rh_version r s = Some (h_version R)"
    unfolding R rh_at_sel by (simp add: rh_version_def rd32_def off) (simp add: off shm_rh_def)
  show "rh_backend r s = Some (h_backend R)"
    unfolding R rh_at_sel by (simp add: rh_backend_def rd32_def off) (simp add: off shm_rh_def)
  show "rh_dir_capacity r s = Some (h_dir_capacity R)"
    unfolding R rh_at_sel by (simp add: rh_dir_capacity_def rd32_def off) (simp add: off shm_rh_def)
  show "rh_host_count r s = Some (h_host_count R)"
    unfolding R rh_at_sel by (simp add: rh_host_count_def rd32_def off) (simp add: off shm_rh_def)
  show "rh_region_size r s = Some (h_region_size R)"
    unfolding R rh_at_sel by (simp add: rh_region_size_def rd64_def off) (simp add: off shm_rh_def)
  show "rh_dir_offset r s = Some (h_dir_offset R)"
    unfolding R rh_at_sel by (simp add: rh_dir_offset_def rd64_def off) (simp add: off shm_rh_def)
  show "rh_data_offset r s = Some (h_data_offset R)"
    unfolding R rh_at_sel by (simp add: rh_data_offset_def rd64_def off) (simp add: off shm_rh_def)
  show "rh_free_list r s = Some (h_free_list R)"
    unfolding R rh_at_sel by (simp add: rh_free_list_def rd64_def off) (simp add: off shm_rh_def)
  show "rh_used_bytes r s = Some (h_used_bytes R)"
    unfolding R rh_at_sel by (simp add: rh_used_bytes_def rd64_def off) (simp add: off shm_rh_def)
  show "rh_block_count r s = Some (h_block_count R)"
    unfolding R rh_at_sel by (simp add: rh_block_count_def rd64_def off) (simp add: off shm_rh_def)
  show "rh_next_id r s = Some (h_next_id R)"
    unfolding R rh_at_sel by (simp add: rh_next_id_def rd64_def off) (simp add: off shm_rh_def)
  show "rh_ns_inode r s = Some (h_ns_inode R)"
    unfolding R rh_at_sel by (simp add: rh_ns_inode_def rd64_def off) (simp add: off shm_rh_def)
  show "rh_cgroup_hash r s = Some (h_cgroup_hash R)"
    unfolding R rh_at_sel by (simp add: rh_cgroup_hash_def rd64_def off) (simp add: off shm_rh_def)
qed

lemmas view_loads = hview_blk_loads hview_rh_loads

section \<open>Rules for field stores\<close>

lemma wp_set_blk_magic [wp_rules]:
  assumes v: "hview r s0 s D H R" "h \<in> D" "d = h_data_offset R"
    and Q: "\<And>s'. hview r s0 s' D (H(h := (H h)\<lparr>b_magic := v\<rparr>)) R \<Longrightarrow> Q s'"
  shows "runs (set_blk_magic r s (bp r d h) v) Q"
proof -
  have le: "unat d + h + 56 \<le> unat (rsize r)"
    using v by (auto simp: hview_def)
  have "hview r s0 (s\<lparr>mem := put32 (mem s) (unat d + h) v\<rparr>) D (H(h := (H h)\<lparr>b_magic := v\<rparr>)) R"
    by (rule hview_blk [OF v(1,2)]) (use v in \<open>auto simp: put_outside view_simps hview_def\<close>)
  from Q [OF this] show ?thesis
    using le by (simp add: set_blk_magic_def wr32_def in_map_bp in_map_bp_field region_off_bp)
qed

lemma wp_set_blk_type_tag [wp_rules]:
  assumes v: "hview r s0 s D H R" "h \<in> D" "d = h_data_offset R"
    and Q: "\<And>s'. hview r s0 s' D (H(h := (H h)\<lparr>b_type_tag := v\<rparr>)) R \<Longrightarrow> Q s'"
  shows "runs (set_blk_type_tag r s (bp r d h) v) Q"
proof -
  have le: "unat d + h + 56 \<le> unat (rsize r)"
    using v by (auto simp: hview_def)
  have "hview r s0 (s\<lparr>mem := put32 (mem s) (unat d + h + 4) v\<rparr>) D (H(h := (H h)\<lparr>b_type_tag := v\<rparr>)) R"
    by (rule hview_blk [OF v(1,2)]) (use v in \<open>auto simp: put_outside view_simps hview_def\<close>)
  from Q [OF this] show ?thesis
    using le by (simp add: set_blk_type_tag_def wr32_def in_map_bp in_map_bp_field region_off_bp)
qed

lemma wp_set_blk_owner [wp_rules]:
  assumes v: "hview r s0 s D H R" "h \<in> D" "d = h_data_offset R"
    and Q: "\<And>s'. hview r s0 s' D (H(h := (H h)\<lparr>b_owner := v\<rparr>)) R \<Longrightarrow> Q s'"
  shows "runs (set_blk_owner r s (bp r d h) v) Q"
proof -
  have le: "unat d + h + 56 \<le> unat (rsize r)"
    using v by (auto simp: hview_def)
  have "hview r s0 (s\<lparr>mem := put32 (mem s) (unat d + h + 8) v\<rparr>) D (H(h := (H h)\<lparr>b_owner := v\<rparr>)) R"
    by (rule hview_blk [OF v(1,2)]) (use v in \<open>auto simp: put_outside view_simps hview_def\<close>)
  from Q [OF this] show ?thesis
    using le by (simp add: set_blk_owner_def wr32_def in_map_bp in_map_bp_field region_off_bp)
qed

lemma wp_set_blk_perms [wp_rules]:
  assumes v: "hview r s0 s D H R" "h \<in> D" "d = h_data_offset R"
    and Q: "\<And>s'. hview r s0 s' D (H(h := (H h)\<lparr>b_perms := v\<rparr>)) R \<Longrightarrow> Q s'"
  shows "runs (set_blk_perms r s (bp r d h) v) Q"
proof -
  have le: "unat d + h + 56 \<le> unat (rsize r)"
    using v by (auto simp: hview_def)
  have "hview r s0 (s\<lparr>mem := put32 (mem s) (unat d + h + 12) v\<rparr>) D (H(h := (H h)\<lparr>b_perms := v\<rparr>)) R"
    by (rule hview_blk [OF v(1,2)]) (use v in \<open>auto simp: put_outside view_simps hview_def\<close>)
  from Q [OF this] show ?thesis
    using le by (simp add: set_blk_perms_def wr32_def in_map_bp in_map_bp_field region_off_bp)
qed

lemma wp_set_blk_allocated [wp_rules]:
  assumes v: "hview r s0 s D H R" "h \<in> D" "d = h_data_offset R"
    and Q: "\<And>s'. hview r s0 s' D (H(h := (H h)\<lparr>b_allocated := v\<rparr>)) R \<Longrightarrow> Q s'"
  shows "runs (set_blk_allocated r s (bp r d h) v) Q"
proof -
  have le: "unat d + h + 56 \<le> unat (rsize r)"
    using v by (auto simp: hview_def)
  have "hview r s0 (s\<lparr>mem := put8 (mem s) (unat d + h + 16) v\<rparr>) D (H(h := (H h)\<lparr>b_allocated := v\<rparr>)) R"
    by (rule hview_blk [OF v(1,2)]) (use v in \<open>auto simp: put_outside view_simps hview_def\<close>)
  from Q [OF this] show ?thesis
    using le by (simp add: set_blk_allocated_def wr8_def in_map_bp in_map_bp_field region_off_bp)
qed

lemma wp_set_blk_obj_id [wp_rules]:
  assumes v: "hview r s0 s D H R" "h \<in> D" "d = h_data_offset R"
    and Q: "\<And>s'. hview r s0 s' D (H(h := (H h)\<lparr>b_obj_id := v\<rparr>)) R \<Longrightarrow> Q s'"
  shows "runs (set_blk_obj_id r s (bp r d h) v) Q"
proof -
  have le: "unat d + h + 56 \<le> unat (rsize r)"
    using v by (auto simp: hview_def)
  have "hview r s0 (s\<lparr>mem := put64 (mem s) (unat d + h + 24) v\<rparr>) D (H(h := (H h)\<lparr>b_obj_id := v\<rparr>)) R"
    by (rule hview_blk [OF v(1,2)]) (use v in \<open>auto simp: put_outside view_simps hview_def\<close>)
  from Q [OF this] show ?thesis
    using le by (simp add: set_blk_obj_id_def wr64_def in_map_bp in_map_bp_field region_off_bp)
qed

lemma wp_set_blk_payload_cap [wp_rules]:
  assumes v: "hview r s0 s D H R" "h \<in> D" "d = h_data_offset R"
    and Q: "\<And>s'. hview r s0 s' D (H(h := (H h)\<lparr>b_payload_cap := v\<rparr>)) R \<Longrightarrow> Q s'"
  shows "runs (set_blk_payload_cap r s (bp r d h) v) Q"
proof -
  have le: "unat d + h + 56 \<le> unat (rsize r)"
    using v by (auto simp: hview_def)
  have "hview r s0 (s\<lparr>mem := put64 (mem s) (unat d + h + 32) v\<rparr>) D (H(h := (H h)\<lparr>b_payload_cap := v\<rparr>)) R"
    by (rule hview_blk [OF v(1,2)]) (use v in \<open>auto simp: put_outside view_simps hview_def\<close>)
  from Q [OF this] show ?thesis
    using le by (simp add: set_blk_payload_cap_def wr64_def in_map_bp in_map_bp_field region_off_bp)
qed

lemma wp_set_blk_total_size [wp_rules]:
  assumes v: "hview r s0 s D H R" "h \<in> D" "d = h_data_offset R"
    and Q: "\<And>s'. hview r s0 s' D (H(h := (H h)\<lparr>b_total_size := v\<rparr>)) R \<Longrightarrow> Q s'"
  shows "runs (set_blk_total_size r s (bp r d h) v) Q"
proof -
  have le: "unat d + h + 56 \<le> unat (rsize r)"
    using v by (auto simp: hview_def)
  have "hview r s0 (s\<lparr>mem := put64 (mem s) (unat d + h + 40) v\<rparr>) D (H(h := (H h)\<lparr>b_total_size := v\<rparr>)) R"
    by (rule hview_blk [OF v(1,2)]) (use v in \<open>auto simp: put_outside view_simps hview_def\<close>)
  from Q [OF this] show ?thesis
    using le by (simp add: set_blk_total_size_def wr64_def in_map_bp in_map_bp_field region_off_bp)
qed

lemma wp_set_blk_next_free [wp_rules]:
  assumes v: "hview r s0 s D H R" "h \<in> D" "d = h_data_offset R"
    and Q: "\<And>s'. hview r s0 s' D (H(h := (H h)\<lparr>b_next_free := v\<rparr>)) R \<Longrightarrow> Q s'"
  shows "runs (set_blk_next_free r s (bp r d h) v) Q"
proof -
  have le: "unat d + h + 56 \<le> unat (rsize r)"
    using v by (auto simp: hview_def)
  have "hview r s0 (s\<lparr>mem := put64 (mem s) (unat d + h + 48) v\<rparr>) D (H(h := (H h)\<lparr>b_next_free := v\<rparr>)) R"
    by (rule hview_blk [OF v(1,2)]) (use v in \<open>auto simp: put_outside view_simps hview_def\<close>)
  from Q [OF this] show ?thesis
    using le by (simp add: set_blk_next_free_def wr64_def in_map_bp in_map_bp_field region_off_bp)
qed

lemma wp_set_rh_magic [wp_rules]:
  assumes v: "hview r s0 s D H R"
    and Q: "\<And>s'. hview r s0 s' D H (R\<lparr>h_magic := v\<rparr>) \<Longrightarrow> Q s'"
  shows "runs (set_rh_magic r s v) Q"
proof -
  note off = in_map_rh [OF v, of "0", simplified] region_off_base [of "0" r, simplified]
  have "hview r s0 (s\<lparr>mem := put32 (mem s) 0 v\<rparr>) D H (R\<lparr>h_magic := v\<rparr>)"
    by (rule hview_rh [OF v]) (use v in \<open>auto simp: put_outside view_simps hview_def\<close>)
  from Q [OF this] show ?thesis
    by (simp add: set_rh_magic_def wr32_def off) (simp add: off shm_rh_def)
qed

lemma wp_set_rh_version [wp_rules]:
  assumes v: "hview r s0 s D H R"
    and Q: "\<And>s'. hview r s0 s' D H (R\<lparr>h_version := v\<rparr>) \<Longrightarrow> Q s'"
  shows "runs (set_rh_version r s v) Q"
proof -
  note off = in_map_rh [OF v, of "4", simplified] region_off_base [of "4" r, simplified]
  have "hview r s0 (s\<lparr>mem := put32 (mem s) 4 v\<rparr>) D H (R\<lparr>h_version := v\<rparr>)"
    by (rule hview_rh [OF v]) (use v in \<open>auto simp: put_outside view_simps hview_def\<close>)
  from Q [OF this] show ?thesis
    by (simp add: set_rh_version_def wr32_def off) (simp add: off shm_rh_def)
qed

lemma wp_set_rh_backend [wp_rules]:
  assumes v: "hview r s0 s D H R"
    and Q: "\<And>s'. hview r s0 s' D H (R\<lparr>h_backend := v\<rparr>) \<Longrightarrow> Q s'"
  shows "runs (set_rh_backend r s v) Q"
proof -
  note off = in_map_rh [OF v, of "8", simplified] region_off_base [of "8" r, simplified]
  have "hview r s0 (s\<lparr>mem := put32 (mem s) 8 v\<rparr>) D H (R\<lparr>h_backend := v\<rparr>)"
    by (rule hview_rh [OF v]) (use v in \<open>auto simp: put_outside view_simps hview_def\<close>)
  from Q [OF this] show ?thesis
    by (simp add: set_rh_backend_def wr32_def off) (simp add: off shm_rh_def)
qed

lemma wp_set_rh_dir_capacity [wp_rules]:
  assumes v: "hview r s0 s D H R"
    and Q: "\<And>s'. hview r s0 s' D H (R\<lparr>h_dir_capacity := v\<rparr>) \<Longrightarrow> Q s'"
  shows "runs (set_rh_dir_capacity r s v) Q"
proof -
  note off = in_map_rh [OF v, of "12", simplified] region_off_base [of "12" r, simplified]
  have "hview r s0 (s\<lparr>mem := put32 (mem s) 12 v\<rparr>) D H (R\<lparr>h_dir_capacity := v\<rparr>)"
    by (rule hview_rh [OF v]) (use v in \<open>auto simp: put_outside view_simps hview_def\<close>)
  from Q [OF this] show ?thesis
    by (simp add: set_rh_dir_capacity_def wr32_def off) (simp add: off shm_rh_def)
qed

lemma wp_set_rh_host_count [wp_rules]:
  assumes v: "hview r s0 s D H R"
    and Q: "\<And>s'. hview r s0 s' D H (R\<lparr>h_host_count := v\<rparr>) \<Longrightarrow> Q s'"
  shows "runs (set_rh_host_count r s v) Q"
proof -
  note off = in_map_rh [OF v, of "56", simplified] region_off_base [of "56" r, simplified]
  have "hview r s0 (s\<lparr>mem := put32 (mem s) 56 v\<rparr>) D H (R\<lparr>h_host_count := v\<rparr>)"
    by (rule hview_rh [OF v]) (use v in \<open>auto simp: put_outside view_simps hview_def\<close>)
  from Q [OF this] show ?thesis
    by (simp add: set_rh_host_count_def wr32_def off) (simp add: off shm_rh_def)
qed

lemma wp_set_rh_region_size [wp_rules]:
  assumes v: "hview r s0 s D H R"
    and Q: "\<And>s'. hview r s0 s' D H (R\<lparr>h_region_size := v\<rparr>) \<Longrightarrow> Q s'"
  shows "runs (set_rh_region_size r s v) Q"
proof -
  note off = in_map_rh [OF v, of "64", simplified] region_off_base [of "64" r, simplified]
  have "hview r s0 (s\<lparr>mem := put64 (mem s) 64 v\<rparr>) D H (R\<lparr>h_region_size := v\<rparr>)"
    by (rule hview_rh [OF v]) (use v in \<open>auto simp: put_outside view_simps hview_def\<close>)
  from Q [OF this] show ?thesis
    by (simp add: set_rh_region_size_def wr64_def off) (simp add: off shm_rh_def)
qed

lemma wp_set_rh_dir_offset [wp_rules]:
  assumes v: "hview r s0 s D H R"
    and Q: "\<And>s'. hview r s0 s' D H (R\<lparr>h_dir_offset := v\<rparr>) \<Longrightarrow> Q s'"
  shows "runs (set_rh_dir_offset r s v) Q"
proof -
  note off = in_map_rh [OF v, of "72", simplified] region_off_base [of "72" r, simplified]
  have "hview r s0 (s\<lparr>mem := put64 (mem s) 72 v\<rparr>) D H (R\<lparr>h_dir_offset := v\<rparr>)"
    by (rule hview_rh [OF v]) (use v in \<open>auto simp: put_outside view_simps hview_def\<close>)
  from Q [OF this] show ?thesis
    by (simp add: set_rh_dir_offset_def wr64_def off) (simp add: off shm_rh_def)
qed

lemma wp_set_rh_free_list [wp_rules]:
  assumes v: "hview r s0 s D H R"
    and Q: "\<And>s'. hview r s0 s' D H (R\<lparr>h_free_list := v\<rparr>) \<Longrightarrow> Q s'"
  shows "runs (set_rh_free_list r s v) Q"
proof -
  note off = in_map_rh [OF v, of "88", simplified] region_off_base [of "88" r, simplified]
  have "hview r s0 (s\<lparr>mem := put64 (mem s) 88 v\<rparr>) D H (R\<lparr>h_free_list := v\<rparr>)"
    by (rule hview_rh [OF v]) (use v in \<open>auto simp: put_outside view_simps hview_def\<close>)
  from Q [OF this] show ?thesis
    by (simp add: set_rh_free_list_def wr64_def off) (simp add: off shm_rh_def)
qed

lemma wp_set_rh_used_bytes [wp_rules]:
  assumes v: "hview r s0 s D H R"
    and Q: "\<And>s'. hview r s0 s' D H (R\<lparr>h_used_bytes := v\<rparr>) \<Longrightarrow> Q s'"
  shows "runs (set_rh_used_bytes r s v) Q"
proof -
  note off = in_map_rh [OF v, of "96", simplified] region_off_base [of "96" r, simplified]
  have "hview r s0 (s\<lparr>mem := put64 (mem s) 96 v\<rparr>) D H (R\<lparr>h_used_bytes := v\<rparr>)"
    by (rule hview_rh [OF v]) (use v in \<open>auto simp: put_outside view_simps hview_def\<close>)
  from Q [OF this] show ?thesis
    by (simp add: set_rh_used_bytes_def wr64_def off) (simp add: off shm_rh_def)
qed

lemma wp_set_rh_block_count [wp_rules]:
  assumes v: "hview r s0 s D H R"
    and Q: "\<And>s'. hview r s0 s' D H (R\<lparr>h_block_count := v\<rparr>) \<Longrightarrow> Q s'"
  shows "runs (set_rh_block_count r s v) Q"
proof -
  note off = in_map_rh [OF v, of "104", simplified] region_off_base [of "104" r, simplified]
  have "hview r s0 (s\<lparr>mem := put64 (mem s) 104 v\<rparr>) D H (R\<lparr>h_block_count := v\<rparr>)"
    by (rule hview_rh [OF v]) (use v in \<open>auto simp: put_outside view_simps hview_def\<close>)
  from Q [OF this] show ?thesis
    by (simp add: set_rh_block_count_def wr64_def off) (simp add: off shm_rh_def)
qed

lemma wp_set_rh_next_id [wp_rules]:
  assumes v: "hview r s0 s D H R"
    and Q: "\<And>s'. hview r s0 s' D H (R\<lparr>h_next_id := v\<rparr>) \<Longrightarrow> Q s'"
  shows "runs (set_rh_next_id r s v) Q"
proof -
  note off = in_map_rh [OF v, of "112", simplified] region_off_base [of "112" r, simplified]
  have "hview r s0 (s\<lparr>mem := put64 (mem s) 112 v\<rparr>) D H (R\<lparr>h_next_id := v\<rparr>)"
    by (rule hview_rh [OF v]) (use v in \<open>auto simp: put_outside view_simps hview_def\<close>)
  from Q [OF this] show ?thesis
    by (simp add: set_rh_next_id_def wr64_def off) (simp add: off shm_rh_def)
qed

lemma wp_set_rh_ns_inode [wp_rules]:
  assumes v: "hview r s0 s D H R"
    and Q: "\<And>s'. hview r s0 s' D H (R\<lparr>h_ns_inode := v\<rparr>) \<Longrightarrow> Q s'"
  shows "runs (set_rh_ns_inode r s v) Q"
proof -
  note off = in_map_rh [OF v, of "120", simplified] region_off_base [of "120" r, simplified]
  have "hview r s0 (s\<lparr>mem := put64 (mem s) 120 v\<rparr>) D H (R\<lparr>h_ns_inode := v\<rparr>)"
    by (rule hview_rh [OF v]) (use v in \<open>auto simp: put_outside view_simps hview_def\<close>)
  from Q [OF this] show ?thesis
    by (simp add: set_rh_ns_inode_def wr64_def off) (simp add: off shm_rh_def)
qed

lemma wp_set_rh_cgroup_hash [wp_rules]:
  assumes v: "hview r s0 s D H R"
    and Q: "\<And>s'. hview r s0 s' D H (R\<lparr>h_cgroup_hash := v\<rparr>) \<Longrightarrow> Q s'"
  shows "runs (set_rh_cgroup_hash r s v) Q"
proof -
  note off = in_map_rh [OF v, of "128", simplified] region_off_base [of "128" r, simplified]
  have "hview r s0 (s\<lparr>mem := put64 (mem s) 128 v\<rparr>) D H (R\<lparr>h_cgroup_hash := v\<rparr>)"
    by (rule hview_rh [OF v]) (use v in \<open>auto simp: put_outside view_simps hview_def\<close>)
  from Q [OF this] show ?thesis
    by (simp add: set_rh_cgroup_hash_def wr64_def off) (simp add: off shm_rh_def)
qed

section \<open>Flushes\<close>

lemma hview_mem_cong:
  "hview r s0 s D H R \<Longrightarrow> mem s' = mem s \<Longrightarrow> mutex s' = mutex s \<Longrightarrow> cmode s' = cmode s \<Longrightarrow>
     hview r s0 s' D H R"
  by (simp add: hview_def)

lemma shm_persist_region_off:
  assumes "mapped r" "region_off r p + unat n \<le> unat (rsize r)"
  shows "shm_persist r s p n =
     Some (flush_lines [region_off r p div 64..<(region_off r p + unat n + 63) div 64] s)"
proof -
  have "p = rbase r + of_nat (region_off r p)"
    by (simp add: region_off_def)
  then show ?thesis
    using shm_persist_eq [OF assms, of s] by simp
qed

lemma wp_shm_persist:
  assumes v: "hview r s0 s D H R" and le: "region_off r p + unat n \<le> unat (rsize r)"
    and Q: "\<And>s'. hview r s0 s' D H R \<Longrightarrow> Q s'"
  shows "runs (shm_persist r s p n) Q"
proof -
  have "hview r s0 (flush_lines js s) D H R" for js
    by (rule hview_mem_cong [OF v]) simp_all
  moreover have "mapped r"
    using v by (simp add: hview_def)
  ultimately show ?thesis
    using le Q by (simp add: shm_persist_region_off)
qed

lemma wp_persist_blk [wp_rules]:
  assumes v: "hview r s0 s D H R" "h \<in> D" "d = h_data_offset R"
    and Q: "\<And>s'. hview r s0 s' D H R \<Longrightarrow> Q s'"
  shows "runs (shm_persist r s (bp r d h) SIZEOF_BLOCK_HDR) Q"
proof (rule wp_shm_persist [OF v(1) _ Q])
  show "region_off r (bp r d h) + unat SIZEOF_BLOCK_HDR \<le> unat (rsize r)"
    using v by (simp add: hview_def region_off_bp SIZEOF_BLOCK_HDR_def)
qed

lemma wp_persist_rh [wp_rules]:
  assumes v: "hview r s0 s D H R" and n: "numeral k + unat n \<le> 200"
    and Q: "\<And>s'. hview r s0 s' D H R \<Longrightarrow> Q s'"
  shows "runs (shm_persist r s (shm_rh r + numeral k) n) Q"
proof (rule wp_shm_persist [OF v _ Q])
  show "region_off r (shm_rh r + numeral k) + unat n \<le> unat (rsize r)"
    using in_map_rh [OF v n] by (simp add: in_map_def)
qed

end
