(* ===== verification/Shm_Blocks.thy ===== *)
theory Shm_Blocks
  imports Shm_Views
begin

text \<open>
  The abstract heap: the list of its blocks in address order, each with its size, its recorded
  payload capacity and, when it is allocated, its owner data. \<open>tiles\<close> and \<open>fseg\<close> relate
  block headers to such a list and the \<open>next_free\<close> links to its free blocks.

  The functions \<open>insert_free\<close>, \<open>first_fit\<close> and \<open>take_block\<close> specify the heap operations
  on the list; the later theories prove that the C code implements them.
\<close>

section \<open>Abstract blocks\<close>

record owner_info =
  o_tag :: u32
  o_owner :: u32
  o_perms :: u32
  o_id :: u64

record ablk =
  asz :: nat
  acap :: nat
  aown :: "owner_info option"

definition is_free :: "ablk \<Rightarrow> bool" where
  "is_free b \<longleftrightarrow> aown b = None"

lemma is_free_simps [simp]:
  "is_free \<lparr>asz = n, acap = c, aown = x\<rparr> \<longleftrightarrow> x = None"
  "is_free (b\<lparr>aown := x\<rparr>) \<longleftrightarrow> x = None"
  "is_free (b\<lparr>asz := n\<rparr>) \<longleftrightarrow> is_free b"
  "is_free (b\<lparr>acap := n\<rparr>) \<longleftrightarrow> is_free b"
  by (simp_all add: is_free_def)

definition wf_blk :: "ablk \<Rightarrow> bool" where
  "wf_blk b \<longleftrightarrow> acap b + 56 \<le> asz b"

definition span :: "ablk list \<Rightarrow> nat" where
  "span bs = sum_list (map asz bs)"

primrec starts :: "nat \<Rightarrow> ablk list \<Rightarrow> nat list" where
  "starts h [] = []"
| "starts h (b # bs) = h # starts (h + asz b) bs"

primrec frees :: "nat \<Rightarrow> ablk list \<Rightarrow> nat list" where
  "frees h [] = []"
| "frees h (b # bs) = (if is_free b then [h] else []) @ frees (h + asz b) bs"

definition used_span :: "ablk list \<Rightarrow> nat" where
  "used_span bs = sum_list (map asz (filter (\<lambda>b. \<not> is_free b) bs))"

definition used_count :: "ablk list \<Rightarrow> nat" where
  "used_count bs = length (filter (\<lambda>b. \<not> is_free b) bs)"

fun coalesced :: "ablk list \<Rightarrow> bool" where
  "coalesced (a # b # bs) \<longleftrightarrow> \<not> (is_free a \<and> is_free b) \<and> coalesced (b # bs)"
| "coalesced _ \<longleftrightarrow> True"

lemma span_simps [simp]:
  "span [] = 0" "span (b # bs) = asz b + span bs" "span (xs @ ys) = span xs + span ys"
  by (simp_all add: span_def)

lemma used_span_simps [simp]:
  "used_span [] = 0" "used_span (b # bs) = (if is_free b then 0 else asz b) + used_span bs"
  "used_span (xs @ ys) = used_span xs + used_span ys"
  by (simp_all add: used_span_def)

lemma used_count_simps [simp]:
  "used_count [] = 0" "used_count (b # bs) = (if is_free b then 0 else 1) + used_count bs"
  "used_count (xs @ ys) = used_count xs + used_count ys"
  by (simp_all add: used_count_def)

lemma used_span_le: "used_span bs \<le> span bs"
  by (induction bs) auto

lemma starts_append [simp]: "starts h (xs @ ys) = starts h xs @ starts (h + span xs) ys"
  by (induction xs arbitrary: h) (simp_all add: add.assoc)

lemma frees_append [simp]: "frees h (xs @ ys) = frees h xs @ frees (h + span xs) ys"
  by (induction xs arbitrary: h) (simp_all add: add.assoc)

lemma frees_starts: "set (frees h bs) \<subseteq> set (starts h bs)"
  by (induction bs arbitrary: h) auto

lemma frees_eq_Nil: "frees h bs = [] \<longleftrightarrow> (\<forall>b\<in>set bs. \<not> is_free b)"
  by (induction bs arbitrary: h) auto

lemma starts_ge: "x \<in> set (starts h bs) \<Longrightarrow> h \<le> x"
  by (induction bs arbitrary: h) fastforce+

lemma starts_le: "list_all wf_blk bs \<Longrightarrow> x \<in> set (starts h bs) \<Longrightarrow> x + 56 \<le> h + span bs"
  by (induction bs arbitrary: h) (fastforce simp: wf_blk_def)+

lemma frees_ge: "x \<in> set (frees h bs) \<Longrightarrow> h \<le> x"
  using frees_starts [of h bs] starts_ge [of x h bs] by blast

lemma frees_le: "list_all wf_blk bs \<Longrightarrow> x \<in> set (frees h bs) \<Longrightarrow> x + 56 \<le> h + span bs"
  using frees_starts [of h bs] starts_le [of bs x h] by blast

lemma starts_separated: "list_all wf_blk bs \<Longrightarrow> separated (set (starts h bs))"
proof (induction bs arbitrary: h)
  case Nil
  then show ?case by (simp add: separated_def)
next
  case (Cons b bs)
  then have "separated (set (starts (h + asz b) bs))" and "56 \<le> asz b"
    by (simp_all add: wf_blk_def)
  then show ?case
    using starts_ge [of _ "h + asz b" bs] unfolding separated_def by fastforce
qed

lemma starts_distinct: "list_all wf_blk bs \<Longrightarrow> distinct (starts h bs)"
proof (induction bs arbitrary: h)
  case (Cons b bs)
  then show ?case
    using starts_ge [of h "h + asz b" bs] by (auto simp: wf_blk_def)
qed simp

lemma frees_distinct: "list_all wf_blk bs \<Longrightarrow> distinct (frees h bs)"
proof (induction bs arbitrary: h)
  case (Cons b bs)
  then show ?case
    using frees_ge [of h "h + asz b" bs] by (auto simp: wf_blk_def)
qed simp

text \<open>The block that starts at a given offset splits the list.\<close>

lemma starts_split:
  assumes "x \<in> set (starts h bs)"
  obtains xs b ys where "bs = xs @ b # ys" "x = h + span xs"
proof -
  have "\<exists>xs b ys. bs = xs @ b # ys \<and> x = h + span xs"
    using assms
  proof (induction bs arbitrary: h)
    case (Cons b bs)
    show ?case
    proof (cases "x = h")
      case True
      then show ?thesis by (intro exI [of _ "[]"]) auto
    next
      case False
      with Cons.prems have "x \<in> set (starts (h + asz b) bs)" by simp
      with Cons.IH obtain xs c ys where "bs = xs @ c # ys" "x = h + asz b + span xs" by blast
      then show ?thesis by (intro exI [of _ "b # xs"]) auto
    qed
  qed simp
  with that show thesis by blast
qed

text \<open>Only one block starts there.\<close>

lemma split_at_span:
  assumes "xs @ b # ys = xs' @ b' # ys'" "list_all wf_blk (xs @ b # ys)" "span xs = span xs'"
  shows "xs = xs'" "b = b'" "ys = ys'"
proof -
  have *: "us = []" if "xs = xs' @ us \<or> xs' = xs @ us" "list_all wf_blk us" for us
    using that assms(3) by (cases us) (auto simp: wf_blk_def)
  from assms(1) obtain us where "xs = xs' @ us \<and> us @ b # ys = b' # ys' \<or> xs @ us = xs' \<and> b # ys = us @ b' # ys'"
    by (auto simp: append_eq_append_conv2)
  moreover have "list_all wf_blk xs" "list_all wf_blk xs'"
    using assms(1,2) by (auto, metis list_all_append)
  ultimately have "us = []"
    using * [of us] by auto
  then show "xs = xs'" "b = b'" "ys = ys'"
    using \<open>xs = xs' @ us \<and> us @ b # ys = b' # ys' \<or> xs @ us = xs' \<and> b # ys = us @ b' # ys'\<close> by auto
qed

lemma frees_split:
  assumes "x \<in> set (frees h bs)"
  obtains xs b ys where "bs = xs @ b # ys" "x = h + span xs" "is_free b"
proof -
  have "\<exists>xs b ys. bs = xs @ b # ys \<and> x = h + span xs \<and> is_free b"
    using assms
  proof (induction bs arbitrary: h)
    case (Cons b bs)
    show ?case
    proof (cases "is_free b \<and> x = h")
      case True
      then show ?thesis by (intro exI [of _ "[]"]) auto
    next
      case False
      with Cons have "x \<in> set (frees (h + asz b) bs)"
        by (auto split: if_splits)
      with Cons.IH obtain xs c ys where "bs = xs @ c # ys" "x = h + asz b + span xs" "is_free c" by blast
      then show ?thesis by (intro exI [of _ "b # xs"]) auto
    qed
  qed simp
  with that show thesis by blast
qed

section \<open>Headers that represent an abstract block\<close>

definition sizes_ok :: "block_hdr \<Rightarrow> ablk \<Rightarrow> bool" where
  "sizes_ok x b \<longleftrightarrow> b_magic x = SHM_ALLOC_MAGIC_BLOCK \<and>
     unat (b_total_size x) = asz b \<and> unat (b_payload_cap x) = acap b"

definition owner_ok :: "block_hdr \<Rightarrow> owner_info option \<Rightarrow> bool" where
  "owner_ok x ow \<longleftrightarrow>
     (case ow of
        None \<Rightarrow> b_allocated x = 0 \<and> b_obj_id x = 0 \<and> b_owner x = 0 \<and> b_perms x = 0 \<and> b_type_tag x = 0
      | Some i \<Rightarrow> b_allocated x = 1 \<and> b_obj_id x = o_id i \<and> b_owner x = o_owner i \<and>
          b_perms x = o_perms i \<and> b_type_tag x = o_tag i)"

lemma owner_ok_upd [simp]:
  "owner_ok (x\<lparr>b_magic := m\<rparr>) ow = owner_ok x ow" "owner_ok (x\<lparr>b_total_size := v\<rparr>) ow = owner_ok x ow"
  "owner_ok (x\<lparr>b_payload_cap := v\<rparr>) ow = owner_ok x ow" "owner_ok (x\<lparr>b_next_free := v\<rparr>) ow = owner_ok x ow"
  by (simp_all add: owner_ok_def split: option.splits)

lemma owner_ok_simps:
  "owner_ok x None \<longleftrightarrow> b_allocated x = 0 \<and> b_obj_id x = 0 \<and> b_owner x = 0 \<and> b_perms x = 0 \<and> b_type_tag x = 0"
  "owner_ok x (Some i) \<longleftrightarrow> b_allocated x = 1 \<and> b_obj_id x = o_id i \<and> b_owner x = o_owner i \<and>
     b_perms x = o_perms i \<and> b_type_tag x = o_tag i"
  by (simp_all add: owner_ok_def)

definition blk_ok :: "block_hdr \<Rightarrow> ablk \<Rightarrow> bool" where
  "blk_ok x b \<longleftrightarrow> sizes_ok x b \<and> owner_ok x (aown b)"

primrec tiles :: "(nat \<Rightarrow> block_hdr) \<Rightarrow> nat \<Rightarrow> ablk list \<Rightarrow> bool" where
  "tiles H h [] \<longleftrightarrow> True"
| "tiles H h (b # bs) \<longleftrightarrow> blk_ok (H h) b \<and> wf_blk b \<and> 8 dvd h \<and> tiles H (h + asz b) bs"

lemma tiles_append [simp]: "tiles H h (xs @ ys) \<longleftrightarrow> tiles H h xs \<and> tiles H (h + span xs) ys"
  by (induction xs arbitrary: h) (auto simp: add.assoc)

lemma tiles_wf: "tiles H h bs \<Longrightarrow> list_all wf_blk bs"
  by (induction bs arbitrary: h) auto

lemma tiles_cong:
  "(\<And>x. x \<in> set (starts h bs) \<Longrightarrow> blk_ok (H x) = blk_ok (H' x)) \<Longrightarrow> tiles H h bs = tiles H' h bs"
  by (induction bs arbitrary: h) auto

lemma tiles_upd_other [simp]: "x \<notin> set (starts h bs) \<Longrightarrow> tiles (H(x := v)) h bs = tiles H h bs"
  by (rule tiles_cong) auto

lemma blk_ok_next_free [simp]: "blk_ok (x\<lparr>b_next_free := l\<rparr>) b = blk_ok x b"
  by (simp add: blk_ok_def sizes_ok_def owner_ok_def split: option.splits)

lemma tiles_upd_next [simp]: "tiles (H(x := (H x)\<lparr>b_next_free := l\<rparr>)) h bs = tiles H h bs"
  by (rule tiles_cong) (auto simp: fun_eq_iff)

section \<open>The free list\<close>

definition link_to :: "nat \<Rightarrow> u64" where
  "link_to h = 1 + of_nat h"

primrec fseg :: "(nat \<Rightarrow> block_hdr) \<Rightarrow> u64 \<Rightarrow> nat list \<Rightarrow> u64 \<Rightarrow> bool" where
  "fseg H l [] l' \<longleftrightarrow> l = l'"
| "fseg H l (h # hs) l' \<longleftrightarrow> l = link_to h \<and> fseg H (b_next_free (H h)) hs l'"

lemma fseg_append [simp]: "fseg H l (xs @ ys) l' \<longleftrightarrow> (\<exists>m. fseg H l xs m \<and> fseg H m ys l')"
  by (induction xs arbitrary: l) auto

lemma fseg_cong:
  "(\<And>x. x \<in> set hs \<Longrightarrow> b_next_free (H x) = b_next_free (H' x)) \<Longrightarrow> fseg H l hs l' = fseg H' l hs l'"
  by (induction hs arbitrary: l) auto

lemma fseg_upd_other [simp]: "x \<notin> set hs \<Longrightarrow> fseg (H(x := v)) l hs l' = fseg H l hs l'"
  by (rule fseg_cong) auto

lemma fseg_upd_same_next:
  "b_next_free v = b_next_free (H x) \<Longrightarrow> fseg (H(x := v)) l hs l' = fseg H l hs l'"
  by (rule fseg_cong) auto

lemma fseg_redirect_last:
  "fseg H l (hs @ [h]) m \<Longrightarrow> h \<notin> set hs \<Longrightarrow> fseg (H(h := (H h)\<lparr>b_next_free := m'\<rparr>)) l (hs @ [h]) m'"
  by auto

lemma fseg_unique: "fseg H l hs l' \<Longrightarrow> fseg H l hs l'' \<Longrightarrow> l' = l''"
  by (induction hs arbitrary: l) auto

section \<open>Heap operations on block lists\<close>

text \<open>
  Merging keeps the capacity field of the first block: the C code adds the sizes and leaves
  \<open>payload_cap\<close> as it was.
\<close>

definition absorb :: "ablk \<Rightarrow> ablk \<Rightarrow> ablk" where
  "absorb b c = b\<lparr>asz := asz b + asz c\<rparr>"

fun merge_next :: "ablk \<Rightarrow> ablk list \<Rightarrow> ablk list" where
  "merge_next b [] = [b]"
| "merge_next b (c # cs) = (if is_free c then absorb b c # cs else b # c # cs)"

definition merge_prev :: "ablk list \<Rightarrow> ablk list \<Rightarrow> ablk list" where
  "merge_prev xs zs =
     (if xs \<noteq> [] \<and> is_free (last xs) then butlast xs @ absorb (last xs) (hd zs) # tl zs else xs @ zs)"

definition insert_free :: "ablk list \<Rightarrow> ablk \<Rightarrow> ablk list \<Rightarrow> ablk list" where
  "insert_free xs b ys = merge_prev xs (merge_next (b\<lparr>aown := None\<rparr>) ys)"

text \<open>First fit: the prefix before the chosen block, the block, and the rest.\<close>

fun first_fit :: "nat \<Rightarrow> ablk list \<Rightarrow> (ablk list \<times> ablk \<times> ablk list) option" where
  "first_fit n [] = None"
| "first_fit n (b # bs) =
     (if is_free b \<and> n \<le> asz b then Some ([], b, bs)
      else map_option (\<lambda>(xs, c, ys). (b # xs, c, ys)) (first_fit n bs))"

text \<open>Carving \<open>n\<close> bytes out of a free block: split when the remainder can hold a block.\<close>

definition take_block :: "nat \<Rightarrow> owner_info \<Rightarrow> ablk \<Rightarrow> ablk list" where
  "take_block n i b =
     (if n + 64 \<le> asz b
      then [\<lparr>asz = n, acap = n - 56, aown = Some i\<rparr>,
            \<lparr>asz = asz b - n, acap = asz b - n - 56, aown = None\<rparr>]
      else [b\<lparr>aown := Some i\<rparr>])"

lemma first_fit_SomeD:
  "first_fit n bs = Some (xs, b, ys) \<Longrightarrow>
     bs = xs @ b # ys \<and> is_free b \<and> n \<le> asz b \<and> (\<forall>c\<in>set xs. is_free c \<longrightarrow> asz c < n)"
  by (induction bs arbitrary: xs) (auto split: if_splits)

lemma first_fit_NoneD: "first_fit n bs = None \<Longrightarrow> c \<in> set bs \<Longrightarrow> is_free c \<Longrightarrow> asz c < n"
  by (induction bs) (auto split: if_splits)

lemma coalesced_Cons:
  "coalesced (b # bs) \<longleftrightarrow> coalesced bs \<and> (bs \<noteq> [] \<longrightarrow> \<not> (is_free b \<and> is_free (hd bs)))"
  by (cases bs) auto

lemma coalesced_append [simp]:
  "coalesced (xs @ ys) \<longleftrightarrow>
     coalesced xs \<and> coalesced ys \<and> (xs \<noteq> [] \<and> ys \<noteq> [] \<longrightarrow> \<not> (is_free (last xs) \<and> is_free (hd ys)))"
  by (induction xs) (auto simp: coalesced_Cons)

lemma absorb_sel [simp]:
  "asz (absorb b c) = asz b + asz c" "acap (absorb b c) = acap b" "aown (absorb b c) = aown b"
  by (simp_all add: absorb_def)

lemma is_free_absorb [simp]: "is_free (absorb b c) \<longleftrightarrow> is_free b"
  by (simp add: absorb_def)

lemma wf_absorb [simp]: "wf_blk b \<Longrightarrow> wf_blk (absorb b c)"
  by (simp add: wf_blk_def)

lemma merge_next_props:
  assumes "is_free b"
  shows "merge_next b ys \<noteq> []" "is_free (hd (merge_next b ys))"
    "span (merge_next b ys) = asz b + span ys"
    "used_span (merge_next b ys) = used_span ys" "used_count (merge_next b ys) = used_count ys"
  using assms by (cases ys; simp)+

lemma merge_prev_props:
  assumes "zs \<noteq> []" "is_free (hd zs)"
  shows "span (merge_prev xs zs) = span xs + span zs"
    "used_span (merge_prev xs zs) = used_span xs + used_span zs"
    "used_count (merge_prev xs zs) = used_count xs + used_count zs"
proof -
  obtain z zs' where zs: "zs = z # zs'" using assms by (cases zs) auto
  show "span (merge_prev xs zs) = span xs + span zs"
    "used_span (merge_prev xs zs) = used_span xs + used_span zs"
    "used_count (merge_prev xs zs) = used_count xs + used_count zs"
    using assms by (cases xs rule: rev_cases; simp add: merge_prev_def zs)+
qed

lemma insert_free_sums:
  "span (insert_free xs b ys) = span xs + asz b + span ys"
  "used_span (insert_free xs b ys) = used_span xs + used_span ys"
  "used_count (insert_free xs b ys) = used_count xs + used_count ys"
  by (simp_all add: insert_free_def merge_next_props merge_prev_props)

lemma merge_next_coalesced:
  "coalesced ys \<Longrightarrow> is_free b \<Longrightarrow>
     coalesced (merge_next b ys) \<and> (tl (merge_next b ys) \<noteq> [] \<longrightarrow> \<not> is_free (hd (tl (merge_next b ys))))"
  by (cases ys) (auto simp: coalesced_Cons)

lemma merge_prev_coalesced:
  assumes "coalesced xs" "coalesced zs" "zs \<noteq> []" "is_free (hd zs)"
  shows "coalesced (merge_prev xs zs)"
proof (cases xs rule: rev_cases)
  case Nil
  then show ?thesis using assms by (simp add: merge_prev_def)
next
  case (snoc xs' p)
  obtain z zs' where "zs = z # zs'" using assms by (cases zs) auto
  then show ?thesis
    using assms snoc by (auto simp: merge_prev_def coalesced_Cons)
qed

lemma insert_free_coalesced:
  assumes "coalesced xs" "coalesced ys"
  shows "coalesced (insert_free xs b ys)"
  unfolding insert_free_def using assms
  by (intro merge_prev_coalesced) (simp_all add: merge_next_coalesced merge_next_props)

end
