(* ===== verification/Shm_Freelist.thy ===== *)
theory Shm_Freelist
  imports Shm_Blocks
begin

text \<open>
  The address-ordered free list, \<open>freelist_insert\<close> and \<open>freelist_remove\<close> of
  \<open>src/src/shm_alloc.c\<close>. A block pointer is an absolute address; the link fields are
  1-based heap offsets. \<open>freelist_insert\<close> is split at the comments of the C function:
  clearing the ownership metadata, the walk to the insertion point, the splice, and the two
  coalescing steps.

  The main lemma, \<open>freelist_insert_refines\<close>, shows that on a well-formed heap the insertion
  returns, touches only block headers and the list head, and implements \<open>insert_free\<close>.
\<close>

section \<open>freelist_insert\<close>

definition freelist_clear :: "shm_region \<Rightarrow> machine \<Rightarrow> u64 \<Rightarrow> machine option" where
  "freelist_clear r s b = do {
     s \<leftarrow> set_blk_allocated r s b 0;
     s \<leftarrow> set_blk_obj_id r s b 0;
     s \<leftarrow> set_blk_owner r s b 0;
     s \<leftarrow> set_blk_perms r s b 0;
     set_blk_type_tag r s b 0 }"

text \<open>The walk: the last link whose block is not past \<open>b_ho\<close>, and the link after it.\<close>

partial_function (option) freelist_pos ::
    "shm_region \<Rightarrow> machine \<Rightarrow> u64 \<Rightarrow> u64 \<Rightarrow> u64 \<Rightarrow> (u64 \<times> u64) option" where
  "freelist_pos r s b_ho prev_lnk cur_lnk =
     (if cur_lnk = 0 then Some (prev_lnk, cur_lnk)
      else Option.bind (shm_blk_of_link r s cur_lnk) (\<lambda>cur.
           Option.bind (shm_hoff_of_blk r s cur) (\<lambda>cur_ho.
           if b_ho < cur_ho then Some (prev_lnk, cur_lnk)
           else Option.bind (blk_next_free r s cur) (\<lambda>nxt. freelist_pos r s b_ho cur_lnk nxt))))"

definition freelist_splice ::
    "shm_region \<Rightarrow> machine \<Rightarrow> u64 \<Rightarrow> u64 \<Rightarrow> u64 \<Rightarrow> u64 \<Rightarrow> machine option" where
  "freelist_splice r s b b_ho prev_lnk cur_lnk = do {
     s \<leftarrow> set_blk_next_free r s b cur_lnk;
     if prev_lnk = 0 then set_rh_free_list r s (shm_link_enc b_ho)
     else do {
       prev \<leftarrow> shm_blk_of_link r s prev_lnk;
       set_blk_next_free r s prev (shm_link_enc b_ho) } }"

text \<open>The body of both coalescing branches: \<open>p\<close> absorbs its neighbour \<open>q\<close>, which is poisoned and flushed.\<close>

definition merge_blocks :: "shm_region \<Rightarrow> machine \<Rightarrow> u64 \<Rightarrow> u64 \<Rightarrow> machine option" where
  "merge_blocks r s p q = do {
     p_sz \<leftarrow> blk_total_size r s p;
     q_sz \<leftarrow> blk_total_size r s q;
     s \<leftarrow> set_blk_total_size r s p (p_sz + q_sz);
     nxt \<leftarrow> blk_next_free r s q;
     s \<leftarrow> set_blk_next_free r s p nxt;
     s \<leftarrow> set_blk_magic r s q 0;
     shm_persist r s q SIZEOF_BLOCK_HDR }"

definition coalesce_next :: "shm_region \<Rightarrow> machine \<Rightarrow> u64 \<Rightarrow> u64 \<Rightarrow> u64 \<Rightarrow> machine option" where
  "coalesce_next r s b b_ho cur_lnk =
     (if cur_lnk \<noteq> 0 then do {
        cur \<leftarrow> shm_blk_of_link r s cur_lnk;
        b_sz \<leftarrow> blk_total_size r s b;
        cur_ho \<leftarrow> shm_hoff_of_blk r s cur;
        if b_ho + b_sz = cur_ho then merge_blocks r s b cur
        else Some s }
      else Some s)"

definition coalesce_prev :: "shm_region \<Rightarrow> machine \<Rightarrow> u64 \<Rightarrow> u64 \<Rightarrow> u64 \<Rightarrow> machine option" where
  "coalesce_prev r s b b_ho prev_lnk =
     (if prev_lnk \<noteq> 0 then do {
        prev \<leftarrow> shm_blk_of_link r s prev_lnk;
        pr_ho \<leftarrow> shm_hoff_of_blk r s prev;
        prev_sz \<leftarrow> blk_total_size r s prev;
        if pr_ho + prev_sz = b_ho then do {
          s \<leftarrow> merge_blocks r s prev b;
          shm_persist r s prev SIZEOF_BLOCK_HDR }
        else do {
          s \<leftarrow> shm_persist r s prev SIZEOF_BLOCK_HDR;
          shm_persist r s b SIZEOF_BLOCK_HDR } }
      else do {
        s \<leftarrow> shm_persist r s (shm_rh r + 88) 8;
        shm_persist r s b SIZEOF_BLOCK_HDR })"

definition freelist_insert :: "shm_region \<Rightarrow> machine \<Rightarrow> u64 \<Rightarrow> machine option" where
  "freelist_insert r s b = do {
     b_ho \<leftarrow> shm_hoff_of_blk r s b;
     s \<leftarrow> freelist_clear r s b;
     fl \<leftarrow> rh_free_list r s;
     (prev_lnk, cur_lnk) \<leftarrow> freelist_pos r s b_ho 0 fl;
     s \<leftarrow> freelist_splice r s b b_ho prev_lnk cur_lnk;
     s \<leftarrow> coalesce_next r s b b_ho cur_lnk;
     coalesce_prev r s b b_ho prev_lnk }"

section \<open>freelist_remove\<close>

text \<open>The walk: stops at the target's link or at the end of the list.\<close>

partial_function (option) freelist_find ::
    "shm_region \<Rightarrow> machine \<Rightarrow> u64 \<Rightarrow> u64 \<Rightarrow> u64 \<Rightarrow> (u64 \<times> u64) option" where
  "freelist_find r s target_lnk prev_lnk cur_lnk =
     (if cur_lnk \<noteq> 0 \<and> cur_lnk \<noteq> target_lnk
      then Option.bind (shm_blk_of_link r s cur_lnk) (\<lambda>cur.
           Option.bind (blk_next_free r s cur) (\<lambda>nxt. freelist_find r s target_lnk cur_lnk nxt))
      else Some (prev_lnk, cur_lnk))"

definition freelist_remove :: "shm_region \<Rightarrow> machine \<Rightarrow> u64 \<Rightarrow> machine option" where
  "freelist_remove r s target = do {
     t_ho \<leftarrow> shm_hoff_of_blk r s target;
     let target_lnk = shm_link_enc t_ho;
     fl \<leftarrow> rh_free_list r s;
     (prev_lnk, cur_lnk) \<leftarrow> freelist_find r s target_lnk 0 fl;
     if cur_lnk \<noteq> target_lnk then Some s
     else do {
       nxt \<leftarrow> blk_next_free r s target;
       s \<leftarrow> (if prev_lnk = 0 then set_rh_free_list r s nxt
            else do {
              prev \<leftarrow> shm_blk_of_link r s prev_lnk;
              set_blk_next_free r s prev nxt });
       set_blk_next_free r s target 0 } }"

section \<open>Pointer conversions\<close>

lemma bp_hoff [simp]: "bp r d h - (rbase r + d) = of_nat h"
  by (simp add: bp_def)

lemma hview_bound:
  assumes "hview r s0 s D H R" "h \<in> D"
  shows "h + 56 < 2 ^ 64"
  using assms unat64_bound [of "rsize r"] by (force simp: hview_def)

lemma hview_ptrs:
  assumes v: "hview r s0 s D H R" and d: "d = h_data_offset R"
  shows "shm_heap_base r s = Some (rbase r + d)"
    and "shm_heap_size r s = Some (rsize r - d)"
    and "shm_blk_at_hoff r s (of_nat h) = Some (bp r d h)"
    and "shm_hoff_of_blk r s (bp r d h) = Some (of_nat h)"
    and "shm_poff_of_blk r s (bp r d h) = Some (of_nat (h + 56))"
    and "shm_blk_of_poff r s (of_nat (h + 56)) = Some (bp r d h)"
proof -
  show hb: "shm_heap_base r s = Some (rbase r + d)" and "shm_heap_size r s = Some (rsize r - d)"
    using hview_rh_loads [OF v] d by (simp_all add: shm_heap_base_def shm_heap_size_def)
  then show "shm_blk_at_hoff r s (of_nat h) = Some (bp r d h)"
    and "shm_hoff_of_blk r s (bp r d h) = Some (of_nat h)"
    and "shm_poff_of_blk r s (bp r d h) = Some (of_nat (h + 56))"
    and "shm_blk_of_poff r s (of_nat (h + 56)) = Some (bp r d h)"
    by (simp_all add: shm_blk_at_hoff_def shm_hoff_of_blk_def shm_poff_of_blk_def
        shm_blk_of_poff_def bp_def SIZEOF_BLOCK_HDR_def add.assoc)
qed

lemma link_to_nonzero: "h + 56 < 2 ^ 64 \<Longrightarrow> link_to h \<noteq> 0"
proof
  assume h: "h + 56 < 2 ^ 64" and "link_to h = 0"
  then have "(of_nat (h + 1) :: u64) = 0"
    by (simp add: link_to_def)
  then show False
    using h of_nat64_eq_0 [of "h + 1"] by simp
qed

lemma link_to_inj: "h + 56 < 2 ^ 64 \<Longrightarrow> h' + 56 < 2 ^ 64 \<Longrightarrow> link_to h = link_to h' \<longleftrightarrow> h = h'"
  by (simp add: link_to_def of_nat64_eq_iff)

lemma link_enc_of_nat [simp]: "shm_link_enc (of_nat h) = link_to h"
  by (simp add: shm_link_enc_def link_to_def add.commute)

lemma hview_link:
  assumes "hview r s0 s D H R" "h \<in> D" "d = h_data_offset R"
  shows "shm_blk_of_link r s (link_to h) = Some (bp r d h)"
proof -
  have "shm_link_dec (link_to h) = of_nat h"
    by (simp add: shm_link_dec_def link_to_def)
  then show ?thesis
    using assms hview_ptrs(3) link_to_nonzero [OF hview_bound [OF assms(1,2)]]
    by (simp add: shm_blk_of_link_def)
qed

lemmas hview_simps = hview_ptrs hview_link view_loads

section \<open>The stages on a view\<close>

lemma wp_freelist_clear:
  assumes "hview r s0 s D H R" "h \<in> D" "d = h_data_offset R"
    and Q: "\<And>s'. hview r s0 s' D (H(h := (H h)\<lparr>b_allocated := 0, b_obj_id := 0, b_owner := 0,
           b_perms := 0, b_type_tag := 0\<rparr>)) R \<Longrightarrow> Q s'"
  shows "runs (freelist_clear r s (bp r d h)) Q"
  unfolding freelist_clear_def runs_bind assms(3)
  by (insert assms(1), (rule wp_rules, assumption, rule assms(2), rule refl)+, rule Q)
     (simp add: assms(3))

text \<open>The first link of a list of offsets, and the last one (or the link before the list).\<close>

definition first_link :: "nat list \<Rightarrow> u64" where
  "first_link hs = (case hs of [] \<Rightarrow> 0 | h # _ \<Rightarrow> link_to h)"

definition last_link :: "u64 \<Rightarrow> nat list \<Rightarrow> u64" where
  "last_link l hs = (if hs = [] then l else link_to (last hs))"

lemma first_link_simps [simp]: "first_link [] = 0" "first_link (h # hs) = link_to h"
  by (simp_all add: first_link_def)

lemma last_link_simps [simp]:
  "last_link l [] = l" "last_link l (h # hs) = last_link (link_to h) hs"
  "last_link l (hs @ [h]) = link_to h"
  by (simp_all add: last_link_def)

lemma fseg_first_link: "fseg H l hs 0 \<Longrightarrow> l = first_link hs"
  by (cases hs) auto

lemma freelist_pos_walk:
  assumes v: "hview r s0 s D H R" "set (hs1 @ hs2) \<subseteq> D" "hb + 56 < 2 ^ 64"
    and lo: "\<forall>h\<in>set hs1. h \<le> hb" and hi: "\<forall>h\<in>set hs2. hb < h"
    and ch: "fseg H l (hs1 @ hs2) 0"
  shows "freelist_pos r s (of_nat hb) prev l = Some (last_link prev hs1, first_link hs2)"
  using v(2) lo ch
proof (induction hs1 arbitrary: prev l)
  case Nil
  show ?case
  proof (cases hs2)
    case Nil
    with Nil.prems show ?thesis by (simp add: freelist_pos.simps)
  next
    case (Cons h hs)
    then have h: "h \<in> D" "hb < h" and l: "l = link_to h"
      using Nil.prems hi by auto
    have "of_nat hb < (of_nat h :: u64)"
      using h v hview_bound [OF v(1) h(1)] by (simp add: of_nat64_less_iff)
    then show ?thesis
      using h link_to_nonzero [OF hview_bound [OF v(1) h(1)]]
      by (subst freelist_pos.simps) (simp add: Cons l hview_link [OF v(1) h(1) refl] hview_ptrs [OF v(1) refl])
  qed
next
  case (Cons h hs)
  then have h: "h \<in> D" "h \<le> hb" and l: "l = link_to h"
    and ch': "fseg H (b_next_free (H h)) (hs @ hs2) 0"
    by auto
  have "\<not> of_nat hb < (of_nat h :: u64)"
    using h v hview_bound [OF v(1) h(1)] by (simp add: of_nat64_less_iff)
  moreover have "freelist_pos r s (of_nat hb) l (b_next_free (H h)) =
      Some (last_link l hs, first_link hs2)"
    using Cons.prems ch' by (intro Cons.IH) auto
  ultimately show ?case
    using h link_to_nonzero [OF hview_bound [OF v(1) h(1)]]
    by (subst freelist_pos.simps)
       (simp add: l hview_link [OF v(1) h(1) refl] hview_ptrs [OF v(1) refl]
         hview_blk_loads [OF v(1) h(1) refl])
qed

text \<open>
  The heap of a region in the middle of an operation: the block headers tile the heap as
  \<open>bs\<close> says and the free list links exactly its free blocks. \<open>D\<close> may hold further header
  positions that the operation touches: former headers, which are not marked allocated.
\<close>

definition heap_shape :: "(nat \<Rightarrow> block_hdr) \<Rightarrow> region_hdr \<Rightarrow> ablk list \<Rightarrow> bool" where
  "heap_shape H R bs \<longleftrightarrow> tiles H 0 bs \<and> fseg H (h_free_list R) (frees 0 bs) 0"

definition heap_view ::
    "shm_region \<Rightarrow> machine \<Rightarrow> machine \<Rightarrow> nat set \<Rightarrow> region_hdr \<Rightarrow> ablk list \<Rightarrow> bool" where
  "heap_view r s0 s D R bs \<longleftrightarrow>
     (\<exists>H. hview r s0 s D H R \<and> set (starts 0 bs) \<subseteq> D \<and> heap_shape H R bs \<and>
          unat (h_data_offset R) + span bs = unat (rsize r) \<and>
          (\<forall>h\<in>D - set (starts 0 bs). b_allocated (H h) = 0))"

text \<open>Splicing a block that is cleared but not yet linked.\<close>

definition spliced_H :: "(nat \<Rightarrow> block_hdr) \<Rightarrow> nat list \<Rightarrow> nat \<Rightarrow> nat list \<Rightarrow> nat \<Rightarrow> block_hdr" where
  "spliced_H H hs1 hb hs2 =
     (let H1 = H(hb := (H hb)\<lparr>b_next_free := first_link hs2\<rparr>)
      in if hs1 = [] then H1
         else H1(last hs1 := (H1 (last hs1))\<lparr>b_next_free := link_to hb\<rparr>))"

definition spliced_R :: "region_hdr \<Rightarrow> nat list \<Rightarrow> nat \<Rightarrow> region_hdr" where
  "spliced_R R hs1 hb = (if hs1 = [] then R\<lparr>h_free_list := link_to hb\<rparr> else R)"

lemma spliced_R_data [simp]: "h_data_offset (spliced_R R hs1 hb) = h_data_offset R"
  by (simp add: spliced_R_def)

lemma spliced_blk_ok [simp]: "blk_ok (spliced_H H hs1 hb hs2 x) b = blk_ok (H x) b"
  by (simp add: spliced_H_def Let_def)

lemma spliced_tiles [simp]: "tiles (spliced_H H hs1 hb hs2) h bs = tiles H h bs"
  by (rule tiles_cong) (simp add: fun_eq_iff)

lemma wp_freelist_splice:
  assumes v: "hview r s0 s D H R" "hb \<in> D" "d = h_data_offset R" "set hs1 \<subseteq> D"
    and Q: "\<And>s'. hview r s0 s' D (spliced_H H hs1 hb hs2) (spliced_R R hs1 hb) \<Longrightarrow> Q s'"
  shows "runs (freelist_splice r s (bp r d hb) (of_nat hb) (last_link 0 hs1) (first_link hs2)) Q"
proof (cases "hs1 = []")
  case True
  show ?thesis
    unfolding freelist_splice_def runs_bind
    by (rule wp_set_blk_next_free [OF v(1-3)])
       (use True Q in \<open>auto simp: spliced_H_def spliced_R_def intro!: wp_set_rh_free_list\<close>)
next
  case False
  then have p: "last hs1 \<in> D"
    using v(4) by auto
  show ?thesis
    unfolding freelist_splice_def runs_bind
  proof (rule wp_set_blk_next_free [OF v(1-3)])
    fix s' assume v': "hview r s0 s' D (H(hb := (H hb)\<lparr>b_next_free := first_link hs2\<rparr>)) R"
    show "runs (if last_link 0 hs1 = 0 then set_rh_free_list r s' (shm_link_enc (of_nat hb))
                else do { prev \<leftarrow> shm_blk_of_link r s' (last_link 0 hs1);
                          set_blk_next_free r s' prev (shm_link_enc (of_nat hb)) }) Q"
      using False link_to_nonzero [OF hview_bound [OF v(1) p]] hview_link [OF v' p v(3)]
      by (auto simp: last_link_def spliced_H_def spliced_R_def Let_def v(3)
          intro!: wp_set_blk_next_free [OF v' p] Q)
  qed
qed

lemma heap_shape_splice:
  assumes t: "tiles H 0 xs" "blk_ok (H hb) b" "wf_blk b" "8 dvd hb" "tiles H (hb + asz b) ys"
    and hb: "hb = span xs" "is_free b"
    and ch: "fseg H (h_free_list R) (frees 0 xs @ frees (hb + asz b) ys) 0"
  shows "heap_shape (spliced_H H (frees 0 xs) hb (frees (hb + asz b) ys)) (spliced_R R (frees 0 xs) hb)
           (xs @ b # ys)"
proof -
  let ?hs1 = "frees 0 xs" and ?hs2 = "frees (hb + asz b) ys"
  obtain m where m: "fseg H (h_free_list R) ?hs1 m" "fseg H m ?hs2 0"
    using ch by auto
  have mf: "m = first_link ?hs2"
    using m(2) by (rule fseg_first_link)
  have n1: "hb \<notin> set ?hs1"
    using frees_le [OF tiles_wf [OF t(1)], of hb 0] hb by auto
  have n2: "hb \<notin> set ?hs2"
    using frees_ge [of hb "hb + asz b" ys] t(3) by (auto simp: wf_blk_def)
  have dist: "distinct ?hs1"
    by (rule frees_distinct [OF tiles_wf [OF t(1)]])
  have l2: "?hs1 \<noteq> [] \<Longrightarrow> last ?hs1 \<notin> set ?hs2 \<and> last ?hs1 \<noteq> hb"
    using frees_ge [of "last ?hs1" "hb + asz b" ys] frees_le [OF tiles_wf [OF t(1)], of "last ?hs1" 0] hb
    by (auto dest: last_in_set)
  have tl: "tiles (spliced_H H ?hs1 hb ?hs2) 0 (xs @ b # ys)"
    using t hb by simp
  show ?thesis
  proof (cases "?hs1 = []")
    case True
    then show ?thesis
      using tl m mf n2 hb by (simp add: heap_shape_def spliced_H_def spliced_R_def)
  next
    case False
    then obtain hs h where hs: "?hs1 = hs @ [h]"
      by (cases "?hs1" rule: rev_cases) auto
    with n1 n2 l2 dist m mf hb tl show ?thesis
      by (auto simp: heap_shape_def spliced_H_def spliced_R_def Let_def)
  qed
qed

text \<open>Merging two adjacent free blocks of a well-shaped heap.\<close>

definition merged_H :: "(nat \<Rightarrow> block_hdr) \<Rightarrow> nat \<Rightarrow> nat \<Rightarrow> nat \<Rightarrow> block_hdr" where
  "merged_H H hp hq =
     H(hp := (H hp)\<lparr>b_total_size := b_total_size (H hp) + b_total_size (H hq),
                     b_next_free := b_next_free (H hq)\<rparr>,
       hq := (H hq)\<lparr>b_magic := 0\<rparr>)"

lemma merged_fseg [simp]:
  "hp \<notin> set hs \<Longrightarrow> hq \<notin> set hs \<Longrightarrow> fseg (merged_H H hp hq) l hs l' = fseg H l hs l'"
  by (simp add: merged_H_def)

lemma merged_next [simp]: "hp \<noteq> hq \<Longrightarrow> b_next_free (merged_H H hp hq hp) = b_next_free (H hq)"
  by (simp add: merged_H_def)

lemma heap_shape_merge:
  assumes sh: "heap_shape H R (us @ p # q # vs)" and fr: "is_free p" "is_free q"
    and hp: "hp = span us" and hq: "hq = hp + asz p" and lt: "asz p + asz q < 2 ^ 64"
  shows "heap_shape (merged_H H hp hq) R (us @ absorb p q # vs)"
proof -
  let ?H = "merged_H H hp hq"
  have t: "tiles H 0 us" "blk_ok (H hp) p" "wf_blk p" "8 dvd hp" "blk_ok (H hq) q" "wf_blk q"
    "tiles H (hq + asz q) vs"
    using sh by (auto simp: heap_shape_def hp hq)
  have ne: "hp \<noteq> hq"
    using t(3) by (simp add: hq wf_blk_def)
  have out_us: "hp \<notin> set (starts 0 us)" "hq \<notin> set (starts 0 us)"
    using starts_le [OF tiles_wf [OF t(1)], of _ 0] by (fastforce simp: hp hq)+
  have out_vs: "hp \<notin> set (starts (hq + asz q) vs)" "hq \<notin> set (starts (hq + asz q) vs)"
    using starts_ge [of _ "hq + asz q" vs] t(6) ne by (fastforce simp: hp hq wf_blk_def)+
  have "unat (b_total_size (H hp) + b_total_size (H hq)) = asz p + asz q"
    using t(2,5) lt unat_add_lem [of "b_total_size (H hp)" "b_total_size (H hq)"]
    by (simp add: blk_ok_def sizes_ok_def)
  then have "blk_ok (?H hp) (absorb p q)"
    using t(2) fr ne by (simp add: merged_H_def blk_ok_def sizes_ok_def)
  then have "tiles ?H 0 (us @ absorb p q # vs)"
    using t out_us out_vs hp hq by (simp add: merged_H_def add.assoc)
  moreover have "fseg ?H (h_free_list R) (frees 0 (us @ absorb p q # vs)) 0"
  proof -
    have "hp \<notin> set (frees 0 us)" "hq \<notin> set (frees 0 us)"
      "hp \<notin> set (frees (hq + asz q) vs)" "hq \<notin> set (frees (hq + asz q) vs)"
      using out_us out_vs frees_starts by blast+
    then show ?thesis
      using sh fr ne by (simp add: heap_shape_def hp [symmetric] hq [symmetric] add.assoc [symmetric])
  qed
  ultimately show ?thesis
    by (simp add: heap_shape_def)
qed

text \<open>The next free block is the neighbour exactly when the neighbour is free.\<close>

lemma next_adjacent:
  assumes "frees h ys = hc # hs" "list_all wf_blk ys"
  shows "h = hc \<longleftrightarrow> is_free (hd ys)" and "ys \<noteq> []"
proof -
  obtain c cs where ys: "ys = c # cs"
    using assms(1) by (cases ys) auto
  then show "ys \<noteq> []" by simp
  show "h = hc \<longleftrightarrow> is_free (hd ys)"
  proof (cases "is_free c")
    case False
    then have "h < hc"
      using assms frees_ge [of hc "h + asz c" cs] by (auto simp: ys wf_blk_def)
    with False ys show ?thesis by simp
  qed (use assms(1) ys in simp)
qed

text \<open>The previous free block ends at \<open>span xs\<close> exactly when the last block is free.\<close>

lemma last_free_split:
  assumes "frees 0 xs \<noteq> []"
  obtains us p vs where "xs = us @ p # vs" "is_free p" "last (frees 0 xs) = span us"
    "\<forall>b\<in>set vs. \<not> is_free b"
proof -
  have "\<exists>b\<in>set xs. is_free b"
    using assms by (auto simp: frees_eq_Nil)
  then obtain us p vs where xs: "xs = us @ p # vs" "is_free p" "\<forall>b\<in>set vs. \<not> is_free b"
    using split_list_last_prop [of xs is_free] by blast
  have "frees h vs = []" for h
    using xs(3) by (simp add: frees_eq_Nil)
  then show thesis
    using that xs by simp
qed

section \<open>The coalescing stages\<close>

lemma heap_viewI:
  "hview r s0 s D H R \<Longrightarrow> set (starts 0 bs) \<subseteq> D \<Longrightarrow> heap_shape H R bs \<Longrightarrow>
     unat (h_data_offset R) + span bs = unat (rsize r) \<Longrightarrow>
     \<forall>h\<in>D - set (starts 0 bs). b_allocated (H h) = 0 \<Longrightarrow> heap_view r s0 s D R bs"
  unfolding heap_view_def by blast

lemma heap_viewI_exact:
  "hview r s0 s D H R \<Longrightarrow> D = set (starts 0 bs) \<Longrightarrow> heap_shape H R bs \<Longrightarrow>
     unat (h_data_offset R) + span bs = unat (rsize r) \<Longrightarrow> heap_view r s0 s D R bs"
  unfolding heap_view_def by blast

lemma heap_viewE:
  assumes "heap_view r s0 s D R bs"
  obtains H where "hview r s0 s D H R" "set (starts 0 bs) \<subseteq> D" "heap_shape H R bs"
    "unat (h_data_offset R) + span bs = unat (rsize r)" "span bs < 2 ^ 64" "list_all wf_blk bs"
    "\<forall>h\<in>D - set (starts 0 bs). b_allocated (H h) = 0"
proof -
  obtain H where H: "hview r s0 s D H R" "set (starts 0 bs) \<subseteq> D" "heap_shape H R bs"
    "unat (h_data_offset R) + span bs = unat (rsize r)"
    "\<forall>h\<in>D - set (starts 0 bs). b_allocated (H h) = 0"
    using assms unfolding heap_view_def by blast
  have "span bs < 2 ^ 64"
    using H(4) unat64_bound [of "rsize r"] by linarith
  moreover have "list_all wf_blk bs"
    using H(3) by (auto simp: heap_shape_def intro: tiles_wf)
  ultimately show thesis by (rule that [OF H(1-4) _ _ H(5)])
qed

text \<open>A former header, or the header of a free block, is not marked allocated.\<close>

lemma heap_view_dead:
  assumes v: "heap_view r s0 s D R bs" and h: "h \<in> D"
    and fr: "\<And>xs b ys. bs = xs @ b # ys \<Longrightarrow> h = span xs \<Longrightarrow> is_free b"
  shows "b_allocated (blk_at (mem s) (unat (h_data_offset R) + h)) = 0"
proof -
  from v obtain H where H: "hview r s0 s D H R" "heap_shape H R bs"
    "\<forall>h\<in>D - set (starts 0 bs). b_allocated (H h) = 0"
    by (rule heap_viewE)
  have "b_allocated (H h) = 0"
  proof (cases "h \<in> set (starts 0 bs)")
    case True
    then obtain xs b ys where b: "bs = xs @ b # ys" "h = 0 + span xs"
      by (rule starts_split)
    with fr have "is_free b" by simp
    then show ?thesis
      using H(2) b by (simp add: heap_shape_def blk_ok_def is_free_def owner_ok_simps)
  qed (use H(3) h in blast)
  then show ?thesis
    using hviewD(7) [OF H(1) h] by simp
qed

lemma merged_allocated [simp]: "b_allocated (merged_H H hp hq x) = b_allocated (H x)"
  by (simp add: merged_H_def)

lemma spliced_allocated [simp]: "b_allocated (spliced_H H hs1 hb hs2 x) = b_allocated (H x)"
  by (simp add: spliced_H_def Let_def)

lemma free_allocated: "blk_ok x b \<Longrightarrow> is_free b \<Longrightarrow> b_allocated x = 0"
  by (simp add: blk_ok_def is_free_def owner_ok_simps)

lemma wp_merge_blocks:
  assumes v: "hview r s0 s D H R" and hp: "hp \<in> D" and hq: "hq \<in> D" and ne: "hp \<noteq> hq"
    and d: "d = h_data_offset R"
    and Q: "\<And>s'. hview r s0 s' D (merged_H H hp hq) R \<Longrightarrow> Q s'"
  shows "runs (merge_blocks r s (bp r d hp) (bp r d hq)) Q"
proof -
  show ?thesis
    unfolding merge_blocks_def d
    apply (simp add: v hview_blk_loads [OF v hp refl] hview_blk_loads [OF v hq refl])
    apply (rule wp_set_blk_total_size [OF v hp refl])
    subgoal premises p1 for s1
      apply (simp add: hview_blk_loads [OF p1 hq refl] ne ne [symmetric])
      apply (rule wp_set_blk_next_free [OF p1 hp refl])
      apply (rule wp_set_blk_magic, assumption, rule hq, rule refl)
      apply (rule wp_persist_blk, assumption, rule hq, rule refl)
      apply (rule Q)
      using ne apply (simp add: merged_H_def fun_upd_twist)
      done
    done
qed

lemma wp_coalesce_next:
  assumes hv: "heap_view r s0 s D R (xs @ b # ys)" and fr: "is_free b" and hb: "hb = span xs"
    and d: "d = h_data_offset R" and l: "l = first_link (frees (hb + asz b) ys)"
    and Q: "\<And>s'. heap_view r s0 s' D R (xs @ merge_next b ys) \<Longrightarrow> Q s'"
  shows "runs (coalesce_next r s (bp r d hb) (of_nat hb) l) Q"
proof (cases "frees (hb + asz b) ys")
  case Nil
  then have "\<forall>c\<in>set ys. \<not> is_free c"
    by (simp only: frees_eq_Nil)
  then have "merge_next b ys = b # ys"
    by (cases ys) auto
  then show ?thesis
    using hv Q Nil l by (simp add: coalesce_next_def)
next
  case (Cons hc hs)
  from hv obtain H where H: "hview r s0 s D H R" "set (starts 0 (xs @ b # ys)) \<subseteq> D"
    "heap_shape H R (xs @ b # ys)" "unat (h_data_offset R) + span (xs @ b # ys) = unat (rsize r)"
    "span (xs @ b # ys) < 2 ^ 64" "list_all wf_blk (xs @ b # ys)"
    and dead: "\<forall>h\<in>D - set (starts 0 (xs @ b # ys)). b_allocated (H h) = 0"
    by (rule heap_viewE)
  have hbD: "hb \<in> D" and hcD: "hc \<in> D"
    using H(2) frees_starts [of "hb + asz b" ys] Cons hb by (auto simp: subset_iff)
  have sz: "b_total_size (H hb) = of_nat (asz b)"
    using H(3) hb by (intro unat64_eqD) (simp add: heap_shape_def blk_ok_def sizes_ok_def)
  have hc64: "hc < 2 ^ 64"
    using hview_bound [OF H(1) hcD] by simp
  have adj: "hb + asz b = hc \<longleftrightarrow> is_free (hd ys)" "ys \<noteq> []"
    using next_adjacent [OF Cons] H(6) by auto
  then obtain c cs where ys: "ys = c # cs"
    by (cases ys) auto
  have lc: "l = link_to hc"
    by (simp add: l Cons)
  have eq: "of_nat hb + of_nat (asz b) = (of_nat hc :: u64) \<longleftrightarrow> is_free c"
    using adj H(5) hb ys of_nat64_eq_iff [of "hb + asz b" hc] hc64 by simp
  note simps = hview_link [OF H(1) hcD d] hview_ptrs [OF H(1) d] hview_blk_loads [OF H(1) hbD d]
    link_to_nonzero [OF hview_bound [OF H(1) hcD]]
  show ?thesis
  proof (cases "is_free c")
    case False
    then have "Q s"
      using Q [of s] hv by (simp add: ys)
    then show ?thesis
      using False eq by (simp add: coalesce_next_def lc simps sz)
  next
    case True
    then have hc: "hc = hb + asz b"
      using adj ys by simp
    have ne: "hb \<noteq> hc"
      using H(6) by (simp add: hc wf_blk_def)
    have "runs (merge_blocks r s (bp r d hb) (bp r d hc)) Q"
    proof (rule wp_merge_blocks [OF H(1) hbD hcD ne d])
      fix s' assume v': "hview r s0 s' D (merged_H H hb hc) R"
      have sh': "heap_shape (merged_H H hb hc) R (xs @ absorb b c # cs)"
        using H(3,5) fr True hb hc ys by (intro heap_shape_merge) auto
      have "b_allocated (H x) = 0" if "x \<in> D" "x \<notin> set (starts 0 (xs @ absorb b c # cs))" for x
      proof (cases "x = hc")
        case True
        have "blk_ok (H hc) c"
          using H(3) by (simp add: heap_shape_def ys hc hb)
        then show ?thesis
          unfolding True using \<open>is_free c\<close> by (rule free_allocated)
      next
        case False
        then show ?thesis
          using that dead by (auto simp: ys hc hb add.assoc)
      qed
      then have dead': "\<forall>x\<in>D - set (starts 0 (xs @ absorb b c # cs)). b_allocated (merged_H H hb hc x) = 0"
        by simp
      have "heap_view r s0 s' D R (xs @ merge_next b ys)"
        using v' H(2,4) sh' dead' True ys by (intro heap_viewI [where H = "merged_H H hb hc"]) (auto simp: add.assoc)
      then show "Q s'" by (rule Q)
    qed
    then show ?thesis
      using eq True by (simp add: coalesce_next_def lc simps sz)
  qed
qed

lemma wp_persist_two:
  assumes "hview r s0 s D H R" "h \<in> D" "h' \<in> D" "d = h_data_offset R"
    and Q: "\<And>s'. hview r s0 s' D H R \<Longrightarrow> Q s'"
  shows "runs (shm_persist r s (bp r d h) SIZEOF_BLOCK_HDR)
           (\<lambda>s. runs (shm_persist r s (bp r d h') SIZEOF_BLOCK_HDR) Q)"
  using assms by (intro wp_persist_blk [OF assms(1,2,4)] wp_persist_blk [OF _ assms(3,4)])

lemma wp_coalesce_prev:
  assumes hv: "heap_view r s0 s D R (xs @ z # zs)" and fr: "is_free z" and hb: "hb = span xs"
    and d: "d = h_data_offset R" and l: "l = last_link 0 (frees 0 xs)"
    and Q: "\<And>s'. heap_view r s0 s' D R (merge_prev xs (z # zs)) \<Longrightarrow> Q s'"
  shows "runs (coalesce_prev r s (bp r d hb) (of_nat hb) l) Q"
proof -
  from hv obtain H where H: "hview r s0 s D H R" "set (starts 0 (xs @ z # zs)) \<subseteq> D"
    "heap_shape H R (xs @ z # zs)" "unat (h_data_offset R) + span (xs @ z # zs) = unat (rsize r)"
    "span (xs @ z # zs) < 2 ^ 64" "list_all wf_blk (xs @ z # zs)"
    and dead: "\<forall>h\<in>D - set (starts 0 (xs @ z # zs)). b_allocated (H h) = 0"
    by (rule heap_viewE)
  have hbD: "hb \<in> D"
    using H(2) hb by auto
  have same: "heap_view r s0 s' D R (xs @ z # zs)" if "hview r s0 s' D H R" for s'
    using that H(2,3,4) dead by (rule heap_viewI)
  show ?thesis
  proof (cases "frees 0 xs = []")
    case True
    then have "\<forall>c\<in>set xs. \<not> is_free c"
      by (simp only: frees_eq_Nil)
    then have "merge_prev xs (z # zs) = xs @ z # zs"
      using last_in_set [of xs] unfolding merge_prev_def by metis
    then have fin: "\<And>s'. hview r s0 s' D H R \<Longrightarrow> Q s'"
      using Q same by simp
    have "runs (shm_persist r s (shm_rh r + 88) 8)
            (\<lambda>s. runs (shm_persist r s (bp r d hb) SIZEOF_BLOCK_HDR) Q)"
      by (rule wp_persist_rh [OF H(1)], simp, rule wp_persist_blk [OF _ hbD d], assumption) (rule fin)
    then show ?thesis
      by (simp add: coalesce_prev_def l True)
  next
    case False
    obtain us p vs where xs: "xs = us @ p # vs" "is_free p" "last (frees 0 xs) = span us"
      and vs: "\<forall>b\<in>set vs. \<not> is_free b"
      using False by (rule last_free_split)
    define hp where "hp = span us"
    have hpD: "hp \<in> D"
      using H(2) by (auto simp: xs hp_def)
    have l': "l = link_to hp"
      using False by (simp add: l last_link_def xs(3) hp_def)
    have sz: "b_total_size (H hp) = of_nat (asz p)"
      using H(3) by (intro unat64_eqD) (simp add: heap_shape_def blk_ok_def sizes_ok_def xs hp_def)
    have eq: "of_nat hp + of_nat (asz p) = (of_nat hb :: u64) \<longleftrightarrow> vs = []"
    proof -
      have "hp + asz p = hb \<longleftrightarrow> vs = []"
        using H(6) by (cases vs) (auto simp: hb hp_def xs wf_blk_def)
      then show ?thesis
        using H(5) of_nat64_eq_iff [of "hp + asz p" hb] by (simp add: hb hp_def xs)
    qed
    note simps = hview_link [OF H(1) hpD d] hview_ptrs [OF H(1) d] hview_blk_loads [OF H(1) hpD d]
      link_to_nonzero [OF hview_bound [OF H(1) hpD]]
    show ?thesis
    proof (cases "vs = []")
      case False
      then have "merge_prev xs (z # zs) = xs @ z # zs"
        using vs by (simp add: merge_prev_def xs)
      then show ?thesis
        using False eq Q same
        by (simp add: coalesce_prev_def l' simps sz wp_persist_two [OF H(1) hpD hbD d])
    next
      case True
      then have hb': "hb = hp + asz p"
        by (simp add: hb xs hp_def)
      have ne: "hp \<noteq> hb"
        using H(6) by (simp add: hb' wf_blk_def xs)
      have "runs (merge_blocks r s (bp r d hp) (bp r d hb))
              (\<lambda>s. runs (shm_persist r s (bp r d hp) SIZEOF_BLOCK_HDR) Q)"
      proof (rule wp_merge_blocks [OF H(1) hpD hbD ne d], rule wp_persist_blk [OF _ hpD d], assumption)
        fix s' assume v': "hview r s0 s' D (merged_H H hp hb) R"
        have sh': "heap_shape (merged_H H hp hb) R (us @ absorb p z # zs)"
          using H(3,5) fr xs True hb' hp_def by (intro heap_shape_merge) auto
        have "b_allocated (H x) = 0" if "x \<in> D" "x \<notin> set (starts 0 (us @ absorb p z # zs))" for x
        proof (cases "x = hb")
          case True
          have "blk_ok (H hb) z"
            using H(3) by (simp add: heap_shape_def hb)
          then show ?thesis
            unfolding True using fr by (rule free_allocated)
        next
          case False
          then show ?thesis
            using that \<open>vs = []\<close> dead by (auto simp: xs hb add.assoc)
        qed
        then have dead': "\<forall>x\<in>D - set (starts 0 (us @ absorb p z # zs)). b_allocated (merged_H H hp hb x) = 0"
          by simp
        have "heap_view r s0 s' D R (merge_prev xs (z # zs))"
          using v' H(2,4) sh' dead' True xs by (intro heap_viewI [where H = "merged_H H hp hb"]) (auto simp: merge_prev_def add.assoc)
        then show "Q s'" by (rule Q)
      qed
      then show ?thesis
        using eq True by (simp add: coalesce_prev_def l' simps sz)
    qed
  qed
qed

section \<open>Insertion implements \<open>insert_free\<close>\<close>

text \<open>
  \<open>b\<close> is the block to insert: its header has the right magic and sizes, whatever its ownership
  fields are, and it is not on the free list.
\<close>

lemma freelist_insert_refines:
  assumes v: "hview r s0 s D H R" and D: "set (starts 0 (xs @ b # ys)) \<subseteq> D"
    and t: "tiles H 0 xs" "sizes_ok (H hb) b" "wf_blk b" "8 dvd hb" "tiles H (hb + asz b) ys"
    and hb: "hb = span xs" and d: "d = h_data_offset R"
    and ch: "fseg H (h_free_list R) (frees 0 xs @ frees (hb + asz b) ys) 0"
    and sz: "unat (h_data_offset R) + span (xs @ b # ys) = unat (rsize r)"
    and dead: "\<forall>h\<in>D - set (starts 0 (xs @ b # ys)). b_allocated (H h) = 0"
    and Q: "\<And>s' fl. heap_view r s0 s' D (R\<lparr>h_free_list := fl\<rparr>) (insert_free xs b ys) \<Longrightarrow> Q s'"
  shows "runs (freelist_insert r s (bp r d hb)) Q"
proof -
  let ?b = "b\<lparr>aown := None\<rparr>"
  let ?hs1 = "frees 0 xs" and ?hs2 = "frees (hb + asz b) ys"
  let ?H1 = "H(hb := (H hb)\<lparr>b_allocated := 0, b_obj_id := 0, b_owner := 0, b_perms := 0, b_type_tag := 0\<rparr>)"
  let ?R2 = "spliced_R R ?hs1 hb"
  have hbD: "hb \<in> D" and hs: "set ?hs1 \<subseteq> D" "set (?hs1 @ ?hs2) \<subseteq> D"
    using D hb frees_starts [of 0 xs] frees_starts [of "hb + asz b" ys] by auto
  have wfl: "list_all wf_blk xs" "list_all wf_blk ys"
    using t tiles_wf by auto
  have out: "hb \<notin> set (starts 0 xs)" "hb \<notin> set (starts (hb + asz b) ys)"
    using starts_le [OF wfl(1), of hb 0] starts_ge [of hb "hb + asz b" ys] t(3)
    by (auto simp: hb wf_blk_def)
  then have out': "hb \<notin> set ?hs1" "hb \<notin> set ?hs2"
    using frees_starts by blast+
  have lo: "\<forall>h\<in>set ?hs1. h \<le> hb" and hi: "\<forall>h\<in>set ?hs2. hb < h"
    using frees_le [OF wfl(1), of _ 0] frees_ge [of _ "hb + asz b" ys] t(3)
    by (fastforce simp: hb wf_blk_def)+
  have ch1: "fseg ?H1 (h_free_list R) (?hs1 @ ?hs2) 0"
    using ch out' by simp
  have t1: "tiles ?H1 0 xs" "blk_ok (?H1 hb) ?b" "tiles ?H1 (hb + asz ?b) ys"
    using t out by (simp_all add: blk_ok_def sizes_ok_def owner_ok_def)
  have sh: "heap_shape (spliced_H ?H1 ?hs1 hb ?hs2) ?R2 (xs @ ?b # ys)"
    using heap_shape_splice [of ?H1 xs hb ?b ys R] t1 t(3,4) hb ch1 by (simp add: wf_blk_def)
  obtain z zs where z: "merge_next ?b ys = z # zs" "is_free z"
    using merge_next_props(1,2) [of ?b ys] by (cases "merge_next ?b ys") auto
  have R2: "\<exists>fl. ?R2 = R\<lparr>h_free_list := fl\<rparr>"
  proof (cases "?hs1 = []")
    case False
    then have "?R2 = R\<lparr>h_free_list := h_free_list R\<rparr>"
      by (simp add: spliced_R_def)
    then show ?thesis ..
  qed (auto simp: spliced_R_def)
  have tail: "runs (coalesce_next r s2 (bp r d hb) (of_nat hb) (first_link ?hs2))
      (\<lambda>s. runs (coalesce_prev r s (bp r d hb) (of_nat hb) (last_link 0 ?hs1)) Q)"
    if v2: "hview r s0 s2 D (spliced_H ?H1 ?hs1 hb ?hs2) ?R2" for s2
  proof (rule wp_coalesce_next)
    show "heap_view r s0 s2 D ?R2 (xs @ ?b # ys)"
      using v2 _ sh by (rule heap_viewI) (use D sz dead in \<open>auto simp: hb\<close>)
    fix s3 assume "heap_view r s0 s3 D ?R2 (xs @ merge_next ?b ys)"
    then have v3: "heap_view r s0 s3 D ?R2 (xs @ z # zs)"
      by (simp add: z)
    show "runs (coalesce_prev r s3 (bp r d hb) (of_nat hb) (last_link 0 ?hs1)) Q"
    proof (rule wp_coalesce_prev [OF v3 z(2) hb])
      fix s4 assume "heap_view r s0 s4 D ?R2 (merge_prev xs (z # zs))"
      then show "Q s4"
        using R2 Q by (auto simp: insert_free_def z)
    qed (simp_all add: d)
  qed (simp_all add: d hb)
  show ?thesis
    unfolding freelist_insert_def
    apply (simp add: hview_ptrs [OF v d])
    apply (rule wp_freelist_clear [OF v hbD d])
    subgoal premises v1 for s1
      apply (simp add: hview_rh_loads [OF v1] freelist_pos_walk [OF v1 hs(2) hview_bound [OF v hbD] lo hi ch1])
      apply (rule wp_freelist_splice [OF v1 hbD d hs(1)])
      apply (erule tail)
      done
    done
qed

section \<open>Removal unlinks the target\<close>

lemma freelist_find_walk:
  assumes v: "hview r s0 s D H R" "set (hs1 @ t # hs2) \<subseteq> D" "distinct (hs1 @ t # hs2)"
    and ch: "fseg H l (hs1 @ t # hs2) 0"
  shows "freelist_find r s (link_to t) prev l = Some (last_link prev hs1, link_to t)"
  using v(2,3) ch
proof (induction hs1 arbitrary: prev l)
  case Nil
  then show ?case by (simp add: freelist_find.simps)
next
  case (Cons h hs)
  then have h: "h \<in> D" "t \<in> D" "h \<noteq> t" and l: "l = link_to h"
    and ch': "fseg H (b_next_free (H h)) (hs @ t # hs2) 0"
    by auto
  have ne: "link_to h \<noteq> link_to t"
    using link_to_inj [OF hview_bound [OF v(1) h(1)] hview_bound [OF v(1) h(2)]] h(3) by simp
  have "freelist_find r s (link_to t) l (b_next_free (H h)) = Some (last_link l hs, link_to t)"
    using Cons.prems ch' by (intro Cons.IH) auto
  then show ?case
    using h ne link_to_nonzero [OF hview_bound [OF v(1) h(1)]]
    by (subst freelist_find.simps)
       (simp add: l hview_link [OF v(1) h(1) refl] hview_blk_loads [OF v(1) h(1) refl])
qed

lemma next_free_self:
  "\<exists>nf. x = x\<lparr>b_next_free := nf\<rparr>"
  by (rule exI [of _ "b_next_free x"]) simp

lemma next_free_upd:
  "\<exists>nf. x\<lparr>b_next_free := v\<rparr> = x\<lparr>b_next_free := nf\<rparr>"
  by (rule exI [of _ v]) simp

lemma freelist_remove_refines:
  assumes v: "hview r s0 s D H R" and D: "set (starts 0 (xs @ t # ys)) \<subseteq> D"
    and sh: "heap_shape H R (xs @ t # ys)" and fr: "is_free t" and ht: "ht = span xs"
    and d: "d = h_data_offset R"
    and Q: "\<And>s' H' fl. hview r s0 s' D H' (R\<lparr>h_free_list := fl\<rparr>) \<Longrightarrow>
        \<forall>x. \<exists>nf. H' x = (H x)\<lparr>b_next_free := nf\<rparr> \<Longrightarrow>
        fseg H' fl (frees 0 xs @ frees (ht + asz t) ys) 0 \<Longrightarrow> Q s'"
  shows "runs (freelist_remove r s (bp r d ht)) Q"
proof -
  let ?hs1 = "frees 0 xs" and ?hs2 = "frees (ht + asz t) ys"
  have wf: "list_all wf_blk (xs @ t # ys)"
    using sh by (auto simp: heap_shape_def intro: tiles_wf)
  have fr_eq: "frees 0 (xs @ t # ys) = ?hs1 @ ht # ?hs2"
    using fr by (simp add: ht)
  have dist: "distinct (?hs1 @ ht # ?hs2)"
    using frees_distinct [OF wf, of 0] by (simp only: fr_eq)
  have sub: "set (?hs1 @ ht # ?hs2) \<subseteq> D"
    using D frees_starts [of 0 "xs @ t # ys"] unfolding fr_eq by blast
  then have htD: "ht \<in> D" by simp
  have ch: "fseg H (h_free_list R) (?hs1 @ ht # ?hs2) 0"
    using sh by (simp only: heap_shape_def fr_eq)
  note simps = hview_ptrs [OF v d] hview_rh_loads [OF v] freelist_find_walk [OF v sub dist ch]
    hview_blk_loads [OF v htD d]
  show ?thesis
  proof (cases "?hs1 = []")
    case True
    have "runs (set_rh_free_list r s (b_next_free (H ht))) (\<lambda>s. runs (set_blk_next_free r s (bp r d ht) 0) Q)"
    proof (rule wp_set_rh_free_list [OF v], rule wp_set_blk_next_free, assumption, rule htD, simp add: d)
      fix s' assume "hview r s0 s' D (H(ht := (H ht)\<lparr>b_next_free := 0\<rparr>)) (R\<lparr>h_free_list := b_next_free (H ht)\<rparr>)"
      then show "Q s'"
        by (rule Q) (use ch dist True in \<open>auto simp: next_free_self next_free_upd\<close>)
    qed
    then show ?thesis
      by (simp add: freelist_remove_def simps True)
  next
    case False
    then obtain hs p where hs: "?hs1 = hs @ [p]"
      by (cases "?hs1" rule: rev_cases) auto
    then have pD: "p \<in> D" and ne: "p \<noteq> ht"
      using sub dist by auto
    have "runs (set_blk_next_free r s (bp r d p) (b_next_free (H ht))) (\<lambda>s. runs (set_blk_next_free r s (bp r d ht) 0) Q)"
    proof (rule wp_set_blk_next_free [OF v pD d], rule wp_set_blk_next_free, assumption, rule htD, rule d)
      fix s' assume v': "hview r s0 s' D
        (H(p := (H p)\<lparr>b_next_free := b_next_free (H ht)\<rparr>,
           ht := ((H(p := (H p)\<lparr>b_next_free := b_next_free (H ht)\<rparr>)) ht)\<lparr>b_next_free := 0\<rparr>)) R"
      have R: "R\<lparr>h_free_list := h_free_list R\<rparr> = R" by simp
      show "Q s'"
        by (rule Q [where fl = "h_free_list R", unfolded R, OF v'])
           (use ch dist hs ne in \<open>auto simp: next_free_self next_free_upd\<close>)
    qed
    then show ?thesis
      using link_to_nonzero [OF hview_bound [OF v pD]]
      by (simp add: freelist_remove_def simps hs hview_link [OF v pD d])
  qed
qed

end
