(* ===== verification/Shm_Heap.thy ===== *)
theory Shm_Heap
  imports Shm_Freelist
begin

text \<open>
  The heap allocator, \<open>heap_alloc_block\<close> and \<open>heap_free_block\<close> of
  \<open>src/src/shm_alloc.c\<close>: first fit over the address-ordered free list with splitting, and
  the return of a block with its accounting.

  \<open>heap_rep\<close> says that the bytes of the region represent a list of blocks. Under it the
  allocation implements \<open>first_fit\<close> followed by \<open>take_block\<close>, and the release implements
  \<open>insert_free\<close>; both return and touch block headers and the region header only.
\<close>

section \<open>heap_alloc_block\<close>

text \<open>The split branch up to its flush: the remainder becomes a free block \<open>nb\<close>, \<open>b\<close> shrinks.\<close>

definition heap_split :: "shm_region \<Rightarrow> machine \<Rightarrow> u64 \<Rightarrow> u64 \<Rightarrow> u64 \<Rightarrow> machine option" where
  "heap_split r s b need_total rem = do {
     let nb = b + need_total;
     s \<leftarrow> set_blk_magic r s nb SHM_ALLOC_MAGIC_BLOCK;
     s \<leftarrow> set_blk_type_tag r s nb 0;
     s \<leftarrow> set_blk_owner r s nb 0;
     s \<leftarrow> set_blk_perms r s nb 0;
     s \<leftarrow> set_blk_allocated r s nb 0;
     s \<leftarrow> set_blk_obj_id r s nb 0;
     s \<leftarrow> set_blk_payload_cap r s nb (rem - SIZEOF_BLOCK_HDR);
     s \<leftarrow> set_blk_total_size r s nb rem;
     nxt \<leftarrow> blk_next_free r s b;
     s \<leftarrow> set_blk_next_free r s nb nxt;
     s \<leftarrow> set_blk_total_size r s b need_total;
     s \<leftarrow> set_blk_payload_cap r s b (need_total - SIZEOF_BLOCK_HDR);
     shm_persist r s nb SIZEOF_BLOCK_HDR }"

text \<open>Both branches make the predecessor's link, or the list head, skip \<open>b\<close>.\<close>

definition heap_relink :: "shm_region \<Rightarrow> machine \<Rightarrow> u64 \<Rightarrow> u64 \<Rightarrow> machine option" where
  "heap_relink r s prev_lnk lnk =
     (if prev_lnk = 0 then set_rh_free_list r s lnk
      else do {
        prev \<leftarrow> shm_blk_of_link r s prev_lnk;
        set_blk_next_free r s prev lnk })"

text \<open>The common end of both branches: the block is marked, counted and flushed.\<close>

definition heap_mark :: "shm_region \<Rightarrow> machine \<Rightarrow> u64 \<Rightarrow> machine option" where
  "heap_mark r s b = do {
     s \<leftarrow> set_blk_allocated r s b 1;
     s \<leftarrow> set_blk_next_free r s b 0;
     used \<leftarrow> rh_used_bytes r s;
     sz \<leftarrow> blk_total_size r s b;
     s \<leftarrow> set_rh_used_bytes r s (used + sz);
     cnt \<leftarrow> rh_block_count r s;
     s \<leftarrow> set_rh_block_count r s (cnt + 1);
     s \<leftarrow> shm_persist r s b SIZEOF_BLOCK_HDR;
     shm_persist r s (shm_rh r + 88) (8 + 8 + 8) }"

definition heap_take :: "shm_region \<Rightarrow> machine \<Rightarrow> u64 \<Rightarrow> u64 \<Rightarrow> u64 \<Rightarrow> machine option" where
  "heap_take r s b need_total prev_lnk = do {
     sz \<leftarrow> blk_total_size r s b;
     let rem = sz - need_total;
     s \<leftarrow> (if BLOCK_MIN \<le> rem then do {
            s \<leftarrow> heap_split r s b need_total rem;
            nb_ho \<leftarrow> shm_hoff_of_blk r s (b + need_total);
            heap_relink r s prev_lnk (shm_link_enc nb_ho) }
          else do {
            nxt \<leftarrow> blk_next_free r s b;
            heap_relink r s prev_lnk nxt });
     heap_mark r s b }"

partial_function (option) heap_alloc_loop ::
    "shm_region \<Rightarrow> machine \<Rightarrow> u64 \<Rightarrow> u64 \<Rightarrow> u64 \<Rightarrow> (u64 \<times> machine) option" where
  "heap_alloc_loop r s need_total prev_lnk cur_lnk =
     (if cur_lnk = 0 then Some (0, s)
      else Option.bind (shm_blk_of_link r s cur_lnk) (\<lambda>b.
           Option.bind (blk_total_size r s b) (\<lambda>sz.
           if need_total \<le> sz
           then Option.bind (heap_take r s b need_total prev_lnk) (\<lambda>s. Some (b, s))
           else Option.bind (blk_next_free r s b) (\<lambda>nxt.
                heap_alloc_loop r s need_total cur_lnk nxt))))"

text \<open>The result is the block pointer, 0 for \<open>NULL\<close>.\<close>

definition heap_alloc_block :: "shm_region \<Rightarrow> machine \<Rightarrow> u64 \<Rightarrow> (u64 \<times> machine) option" where
  "heap_alloc_block r s need_total = do {
     fl \<leftarrow> rh_free_list r s;
     heap_alloc_loop r s need_total 0 fl }"

section \<open>heap_free_block\<close>

definition heap_free_block :: "shm_region \<Rightarrow> machine \<Rightarrow> u64 \<Rightarrow> machine option" where
  "heap_free_block r s b = do {
     used \<leftarrow> rh_used_bytes r s;
     sz \<leftarrow> blk_total_size r s b;
     s \<leftarrow> set_rh_used_bytes r s (used - sz);
     cnt \<leftarrow> rh_block_count r s;
     s \<leftarrow> set_rh_block_count r s (cnt - 1);
     freelist_insert r s b }"

section \<open>Representation of a heap\<close>

definition heap_rep :: "shm_region \<Rightarrow> machine \<Rightarrow> region_hdr \<Rightarrow> ablk list \<Rightarrow> bool" where
  "heap_rep r s R bs \<longleftrightarrow> heap_view r s s (set (starts 0 bs)) R bs"

lemma hview_refl:
  assumes "hview r s0 s D H R" "D' \<subseteq> D"
  shows "hview r s s D' H R"
proof -
  have "hview r s s D H R"
    using assms(1) by (simp add: hview_def)
  then show ?thesis
    using assms(2) by (rule hview_mono) simp_all
qed

lemma heap_view_rep: "heap_view r s0 s D R bs \<Longrightarrow> heap_rep r s R bs"
proof -
  assume "heap_view r s0 s D R bs"
  then obtain H where H: "hview r s0 s D H R" "set (starts 0 bs) \<subseteq> D" "heap_shape H R bs"
    "unat (h_data_offset R) + span bs = unat (rsize r)"
    by (rule heap_viewE)
  show ?thesis
    unfolding heap_rep_def using hview_refl [OF H(1,2)] refl H(3,4) by (rule heap_viewI_exact)
qed

lemma hview_insert:
  assumes "hview r s0 s D H R" "separated (insert h D)" "unat (h_data_offset R) + h + 56 \<le> unat (rsize r)"
  shows "hview r s0 s (insert h D) (H(h := blk_at (mem s) (unat (h_data_offset R) + h))) R"
  using assms by (auto simp: hview_def hdr_bytes_def)

text \<open>The same statement directly on the bytes.\<close>

definition hdrs :: "bytes \<Rightarrow> nat \<Rightarrow> nat \<Rightarrow> block_hdr" where
  "hdrs m d h = blk_at m (d + h)"

lemma heap_shape_cong:
  assumes "\<And>x. x \<in> set (starts 0 bs) \<Longrightarrow> H x = H' x"
  shows "heap_shape H R bs = heap_shape H' R bs"
proof -
  have "tiles H 0 bs = tiles H' 0 bs"
    by (rule tiles_cong) (simp add: assms)
  moreover have "fseg H l (frees 0 bs) 0 = fseg H' l (frees 0 bs) 0" for l
    using frees_starts [of 0 bs] by (intro fseg_cong) (auto simp: assms)
  ultimately show ?thesis
    by (simp add: heap_shape_def)
qed

lemma heap_rep_bytes:
  "heap_rep r s R bs \<longleftrightarrow>
     mapped r \<and> 200 \<le> unat (h_data_offset R) \<and> rh_at (mem s) = R \<and>
     heap_shape (hdrs (mem s) (unat (h_data_offset R))) R bs \<and>
     unat (h_data_offset R) + span bs = unat (rsize r)"
proof
  assume "heap_rep r s R bs"
  then obtain H where H: "hview r s s (set (starts 0 bs)) H R" "heap_shape H R bs"
    "unat (h_data_offset R) + span bs = unat (rsize r)"
    unfolding heap_rep_def by (rule heap_viewE)
  have "heap_shape H R bs = heap_shape (hdrs (mem s) (unat (h_data_offset R))) R bs"
    by (rule heap_shape_cong) (use H(1) in \<open>auto simp: hdrs_def hview_def\<close>)
  with H show "mapped r \<and> 200 \<le> unat (h_data_offset R) \<and> rh_at (mem s) = R \<and>
     heap_shape (hdrs (mem s) (unat (h_data_offset R))) R bs \<and>
     unat (h_data_offset R) + span bs = unat (rsize r)"
    by (simp add: hview_def)
next
  assume a: "mapped r \<and> 200 \<le> unat (h_data_offset R) \<and> rh_at (mem s) = R \<and>
     heap_shape (hdrs (mem s) (unat (h_data_offset R))) R bs \<and>
     unat (h_data_offset R) + span bs = unat (rsize r)"
  then have wf: "list_all wf_blk bs"
    by (auto simp: heap_shape_def intro: tiles_wf)
  have "hview r s s (set (starts 0 bs)) (hdrs (mem s) (unat (h_data_offset R))) R"
    using a starts_separated [OF wf] starts_le [OF wf, of _ 0] by (fastforce simp: hview_def hdrs_def)
  with a show "heap_rep r s R bs"
    unfolding heap_rep_def by (auto intro: heap_viewI_exact)
qed

text \<open>The view can be extended to the headers an operation is going to create.\<close>

lemma heap_rep_extend:
  assumes hr: "heap_rep r s R bs" and wf: "list_all wf_blk bs'" "span bs' = span bs"
    and sub: "set (starts 0 bs) \<subseteq> set (starts 0 bs')"
  obtains H where "hview r s s (set (starts 0 bs')) H R" "heap_shape H R bs"
proof
  show "hview r s s (set (starts 0 bs')) (hdrs (mem s) (unat (h_data_offset R))) R"
    using hr starts_separated [OF wf(1)] starts_le [OF wf(1), of _ 0] wf(2)
    by (fastforce simp: heap_rep_bytes hview_def hdrs_def)
  show "heap_shape (hdrs (mem s) (unat (h_data_offset R))) R bs"
    using hr by (simp add: heap_rep_bytes)
qed

lemma bp_nonzero:
  assumes v: "hview r s0 s D H R" "h \<in> D" "d = h_data_offset R"
  shows "bp r d h \<noteq> 0"
proof -
  have le: "unat d + h + 56 \<le> unat (rsize r)" and m: "mapped r"
    using v by (auto simp: hview_def)
  have "bp r d h = rbase r + of_nat (unat d + h)"
    by (simp add: bp_def add.assoc)
  then have "unat (bp r d h) = unat (rbase r) + (unat d + h)"
    using mapped_unat_add [OF m, of "unat d + h"] le by simp
  then show ?thesis
    using m by (auto simp: mapped_def unsigned_eq_0_iff)
qed

lemma bp_add: "bp r d h + of_nat n = bp r d (h + n)"
  by (simp add: bp_def add.assoc)

section \<open>Relinking\<close>

definition relinked_H :: "(nat \<Rightarrow> block_hdr) \<Rightarrow> nat list \<Rightarrow> u64 \<Rightarrow> nat \<Rightarrow> block_hdr" where
  "relinked_H H hs l = (if hs = [] then H else H(last hs := (H (last hs))\<lparr>b_next_free := l\<rparr>))"

definition relinked_R :: "region_hdr \<Rightarrow> nat list \<Rightarrow> u64 \<Rightarrow> region_hdr" where
  "relinked_R R hs l = (if hs = [] then R\<lparr>h_free_list := l\<rparr> else R)"

lemma relinked_R_sel [simp]:
  "h_data_offset (relinked_R R hs l) = h_data_offset R"
  "h_used_bytes (relinked_R R hs l) = h_used_bytes R"
  "h_block_count (relinked_R R hs l) = h_block_count R"
  by (simp_all add: relinked_R_def)

lemma relinked_R_ex: "\<exists>fl. relinked_R R hs l = R\<lparr>h_free_list := fl\<rparr>"
proof (cases "hs = []")
  case False
  then have "relinked_R R hs l = R\<lparr>h_free_list := h_free_list R\<rparr>"
    by (simp add: relinked_R_def)
  then show ?thesis ..
qed (auto simp: relinked_R_def)

lemma relinked_tiles [simp]: "tiles (relinked_H H hs l) h bs = tiles H h bs"
  by (simp add: relinked_H_def)

lemma relinked_other: "hs = [] \<or> x \<noteq> last hs \<Longrightarrow> relinked_H H hs l x = H x"
  by (auto simp: relinked_H_def)

lemma relinked_fseg:
  assumes "fseg H (h_free_list R) hs m" "distinct hs" "fseg H l rest 0" "set hs \<inter> set rest = {}"
  shows "fseg (relinked_H H hs l) (h_free_list (relinked_R R hs l)) (hs @ rest) 0"
proof (cases hs rule: rev_cases)
  case Nil
  then show ?thesis
    using assms by (simp add: relinked_H_def relinked_R_def)
next
  case (snoc us u)
  then show ?thesis
    using assms by (auto simp: relinked_H_def relinked_R_def)
qed

lemma wp_heap_relink:
  assumes v: "hview r s0 s D H R" "set hs \<subseteq> D" "d = h_data_offset R"
    and Q: "\<And>s'. hview r s0 s' D (relinked_H H hs l) (relinked_R R hs l) \<Longrightarrow> Q s'"
  shows "runs (heap_relink r s (last_link 0 hs) l) Q"
proof (cases "hs = []")
  case True
  show ?thesis
    using True Q unfolding heap_relink_def
    by (auto simp: relinked_H_def relinked_R_def intro!: wp_set_rh_free_list [OF v(1)])
next
  case False
  then have p: "last hs \<in> D"
    using v(2) by auto
  have "runs (set_blk_next_free r s (bp r d (last hs)) l) Q"
    by (rule wp_set_blk_next_free [OF v(1) p v(3)])
       (use Q False in \<open>simp add: relinked_H_def relinked_R_def\<close>)
  then show ?thesis
    using False link_to_nonzero [OF hview_bound [OF v(1) p]] hview_link [OF v(1) p v(3)]
    by (simp add: heap_relink_def last_link_def)
qed

section \<open>Carving a block out of a free one\<close>

lemma block_hdr_all_upd:
  "x\<lparr>b_magic := m, b_type_tag := t, b_owner := w, b_perms := p, b_allocated := a, b_obj_id := i,
      b_payload_cap := c, b_total_size := z, b_next_free := l\<rparr> =
   \<lparr>b_magic = m, b_type_tag = t, b_owner = w, b_perms = p, b_allocated = a, b_obj_id = i,
      b_payload_cap = c, b_total_size = z, b_next_free = l\<rparr>"
  by (cases x) simp

lemma wp_heap_split:
  assumes v: "hview r s0 s D H R" "h \<in> D" "h + n \<in> D" "0 < n" and d: "d = h_data_offset R"
    and Q: "\<And>s'. hview r s0 s' D
       (H(h := (H h)\<lparr>b_total_size := of_nat n, b_payload_cap := of_nat n - 56\<rparr>,
          h + n := \<lparr>b_magic = SHM_ALLOC_MAGIC_BLOCK, b_type_tag = 0, b_owner = 0, b_perms = 0,
                    b_allocated = 0, b_obj_id = 0, b_payload_cap = rem - 56, b_total_size = rem,
                    b_next_free = b_next_free (H h)\<rparr>)) R \<Longrightarrow> Q s'"
  shows "runs (heap_split r s (bp r d h) (of_nat n) rem) Q"
proof -
  have ne: "h \<noteq> h + n" using v(4) by simp
  show ?thesis
    unfolding heap_split_def Let_def runs_bind bp_add
    apply (rule wp_set_blk_magic [OF v(1,3) d])
    apply (rule wp_set_blk_type_tag, assumption, rule v(3), rule d)
    apply (rule wp_set_blk_owner, assumption, rule v(3), rule d)
    apply (rule wp_set_blk_perms, assumption, rule v(3), rule d)
    apply (rule wp_set_blk_allocated, assumption, rule v(3), rule d)
    apply (rule wp_set_blk_obj_id, assumption, rule v(3), rule d)
    apply (rule wp_set_blk_payload_cap, assumption, rule v(3), rule d)
    apply (rule wp_set_blk_total_size, assumption, rule v(3), rule d)
    subgoal premises p for s1 s2 s3 s4 s5 s6 s7 s8
      apply (simp only: hview_blk_loads(9) [OF p(8) v(2) d] runs_Some)
      apply (rule wp_set_blk_next_free [OF p(8) v(3) d])
      apply (rule wp_set_blk_total_size, assumption, rule v(2), rule d)
      apply (rule wp_set_blk_payload_cap, assumption, rule v(2), rule d)
      apply (rule wp_persist_blk, assumption, rule v(3), rule d)
      apply (rule Q)
      using ne apply (simp add: SIZEOF_BLOCK_HDR_def fun_upd_twist block_hdr_all_upd)
      done
    done
qed

text \<open>A freshly carved block has no owner data yet.\<close>

definition no_owner :: owner_info where
  "no_owner = \<lparr>o_tag = 0, o_owner = 0, o_perms = 0, o_id = 0\<rparr>"

text \<open>The header changes of one allocation, before the block is marked allocated.\<close>

definition taken_H :: "(nat \<Rightarrow> block_hdr) \<Rightarrow> nat \<Rightarrow> nat \<Rightarrow> nat \<Rightarrow> nat \<Rightarrow> block_hdr" where
  "taken_H H h n sz =
     (if n + 64 \<le> sz
      then H(h := (H h)\<lparr>b_total_size := of_nat n, b_payload_cap := of_nat n - 56\<rparr>,
             h + n := \<lparr>b_magic = SHM_ALLOC_MAGIC_BLOCK, b_type_tag = 0, b_owner = 0, b_perms = 0,
                       b_allocated = 0, b_obj_id = 0, b_payload_cap = of_nat (sz - n) - 56,
                       b_total_size = of_nat (sz - n), b_next_free = b_next_free (H h)\<rparr>)
      else H)"

definition taken_link :: "(nat \<Rightarrow> block_hdr) \<Rightarrow> nat \<Rightarrow> nat \<Rightarrow> nat \<Rightarrow> u64" where
  "taken_link H h n sz = (if n + 64 \<le> sz then link_to (h + n) else b_next_free (H h))"

definition marked_H :: "(nat \<Rightarrow> block_hdr) \<Rightarrow> nat \<Rightarrow> nat \<Rightarrow> block_hdr" where
  "marked_H H h = H(h := (H h)\<lparr>b_allocated := 1, b_next_free := 0\<rparr>)"

lemma heap_shape_take:
  assumes sh: "heap_shape H R (xs @ b # ys)" and fr: "is_free b" and h: "h = span xs"
    and n: "56 \<le> n" "8 dvd n" "n \<le> asz b" and lt: "asz b < 2 ^ 64"
  shows "heap_shape (marked_H (relinked_H (taken_H H h n (asz b)) (frees 0 xs) (taken_link H h n (asz b))) h)
           (relinked_R R (frees 0 xs) (taken_link H h n (asz b))) (xs @ take_block n no_owner b @ ys)"
proof -
  let ?hs1 = "frees 0 xs" and ?hs2 = "frees (h + asz b) ys"
  let ?rest = "(if n + 64 \<le> asz b then [h + n] else []) @ ?hs2"
  let ?H1 = "taken_H H h n (asz b)" and ?l = "taken_link H h n (asz b)"
  have t: "tiles H 0 xs" "blk_ok (H h) b" "wf_blk b" "8 dvd h" "tiles H (h + asz b) ys"
    using sh by (auto simp: heap_shape_def h)
  have wfx: "list_all wf_blk xs"
    using t(1) by (rule tiles_wf)
  have lo: "x + 56 \<le> h" if "x \<in> set (starts 0 xs)" for x
    using starts_le [OF wfx that] h by simp
  have hi: "h + asz b \<le> x" if "x \<in> set (starts (h + asz b) ys)" for x
    using that by (rule starts_ge)
  have outx: "h \<notin> set (starts 0 xs)" "h + n \<notin> set (starts 0 xs)"
    and outy: "h \<notin> set (starts (h + asz b) ys)"
    and outn: "n + 64 \<le> asz b \<Longrightarrow> h + n \<notin> set (starts (h + asz b) ys)"
    using lo [of h] lo [of "h + n"] hi [of h] hi [of "h + n"] t(3) by (auto simp: wf_blk_def)
  note outf = outx [THEN contra_subsetD [OF frees_starts]] outy [THEN contra_subsetD [OF frees_starts]]
  have t1: "tiles ?H1 0 xs" "tiles ?H1 (h + asz b) ys"
    using t outx outy outn by (simp_all add: taken_H_def)
  obtain m where m: "fseg H (h_free_list R) ?hs1 (link_to h)" "fseg H (b_next_free (H h)) ?hs2 0"
    using sh fr by (auto simp: heap_shape_def h)
  have f1: "fseg ?H1 (h_free_list R) ?hs1 (link_to h)"
    using m(1) outf by (simp add: taken_H_def)
  have f2: "fseg ?H1 ?l ?rest 0"
    using m(2) outf outn contra_subsetD [OF frees_starts, of "h + n" "h + asz b" ys]
    by (simp add: taken_H_def taken_link_def)
  have dis: "set ?hs1 \<inter> set ?rest = {}"
    using lo hi frees_starts [of 0 xs] frees_starts [of "h + asz b" ys] t(3)
    by (force simp: wf_blk_def)
  let ?H2 = "relinked_H ?H1 ?hs1 ?l"
  have nl: "?hs1 = [] \<or> h \<noteq> last ?hs1"
    using outf(1) last_in_set [of ?hs1] by metis
  have "fseg ?H2 (h_free_list (relinked_R R ?hs1 ?l)) (?hs1 @ ?rest) 0"
    using f1 frees_distinct [OF wfx] f2 dis by (rule relinked_fseg)
  then have fs: "fseg (marked_H ?H2 h) (h_free_list (relinked_R R ?hs1 ?l)) (?hs1 @ ?rest) 0"
    using outf n(1) by (simp add: marked_H_def)
  have sz: "unat (of_nat n :: u64) = n" "unat (of_nat n - 56 :: u64) = n - 56"
    "unat (of_nat (asz b - n) :: u64) = asz b - n"
    using n lt by (auto intro: unat64 unat64_diff_numeral simp del: of_nat_diff)
  have sz': "unat (of_nat (asz b - n) - 56 :: u64) = asz b - n - 56" if "n + 64 \<le> asz b"
    using that lt by (intro unat64_diff_numeral) simp_all
  show ?thesis
  proof (cases "n + 64 \<le> asz b")
    case True
    have nn: "?hs1 = [] \<or> h + n \<noteq> last ?hs1" "h + n \<noteq> h"
      using outx(2) last_in_set [of ?hs1] subsetD [OF frees_starts [of 0 xs]] n(1) by auto
    have "blk_ok (marked_H ?H2 h h) \<lparr>asz = n, acap = n - 56, aown = Some no_owner\<rparr>"
      using t(2) fr sz nn
      by (simp add: marked_H_def relinked_other [OF nl] taken_H_def True blk_ok_def sizes_ok_def
          owner_ok_simps no_owner_def is_free_def)
    moreover have "blk_ok (marked_H ?H2 h (h + n))
        \<lparr>asz = asz b - n, acap = asz b - n - 56, aown = None\<rparr>"
      using sz sz' True nn
      by (simp add: marked_H_def relinked_other [OF nn(1)] taken_H_def blk_ok_def sizes_ok_def
          owner_ok_simps del: of_nat_diff)
    ultimately have "tiles (marked_H ?H2 h) 0 (xs @ take_block n no_owner b @ ys)"
      using t t1 outx outy True h n
      by (simp add: take_block_def wf_blk_def marked_H_def)
    then show ?thesis
      using fs True fr h by (simp add: heap_shape_def take_block_def)
  next
    case False
    have "blk_ok (marked_H ?H2 h h) (b\<lparr>aown := Some no_owner\<rparr>)"
      using t(2) fr
      by (simp add: marked_H_def relinked_other [OF nl] taken_H_def False blk_ok_def sizes_ok_def
          owner_ok_simps no_owner_def is_free_def)
    then have "tiles (marked_H ?H2 h) 0 (xs @ take_block n no_owner b @ ys)"
      using t t1 outx outy False h n
      by (simp add: take_block_def wf_blk_def marked_H_def)
    then show ?thesis
      using fs False fr h by (simp add: heap_shape_def take_block_def)
  qed
qed

definition taken_size :: "nat \<Rightarrow> ablk \<Rightarrow> nat" where
  "taken_size n b = (if n + 64 \<le> asz b then n else asz b)"

definition count_alloc :: "region_hdr \<Rightarrow> nat \<Rightarrow> region_hdr" where
  "count_alloc R n = R\<lparr>h_used_bytes := h_used_bytes R + of_nat n, h_block_count := h_block_count R + 1\<rparr>"

lemma count_alloc_sel [simp]:
  "h_data_offset (count_alloc R n) = h_data_offset R" "h_free_list (count_alloc R n) = h_free_list R"
  "h_used_bytes (count_alloc R n) = h_used_bytes R + of_nat n"
  "h_block_count (count_alloc R n) = h_block_count R + 1"
  by (simp_all add: count_alloc_def)

lemma heap_shape_R: "h_free_list R' = h_free_list R \<Longrightarrow> heap_shape H R' bs = heap_shape H R bs"
  by (simp add: heap_shape_def)

lemma span_take_block: "n \<le> asz b \<Longrightarrow> span (take_block n i b) = asz b"
  by (simp add: take_block_def)

text \<open>Marking the block allocated, the accounting and the two flushes.\<close>

lemma wp_heap_mark:
  assumes v: "hview r s0 s D H R" "h \<in> D" and d: "d = h_data_offset R"
    and sz: "b_total_size (H h) = of_nat k"
    and Q: "\<And>s'. hview r s0 s' D (marked_H H h) (count_alloc R k) \<Longrightarrow> Q s'"
  shows "runs (heap_mark r s (bp r d h)) Q"
  unfolding heap_mark_def runs_bind
  apply (rule wp_set_blk_allocated [OF v d])
  apply (rule wp_set_blk_next_free, assumption, rule v(2), rule d)
  subgoal premises p for s1 s2
    apply (simp add: hview_rh_loads [OF p(2)] hview_blk_loads [OF p(2) v(2) d] sz)
    apply (rule wp_set_rh_used_bytes [OF p(2)])
    subgoal premises p3 for s3
      apply (simp add: hview_rh_loads [OF p3])
      apply (rule wp_set_rh_block_count [OF p3])
      apply (rule wp_persist_blk, assumption, rule v(2), simp add: d)
      apply (rule wp_persist_rh, assumption, simp)
      apply (rule Q)
      apply (simp add: marked_H_def count_alloc_def)
      done
    done
  done

lemma wp_heap_take:
  assumes v: "hview r s0 s D H R" and D: "D = set (starts 0 (xs @ take_block n no_owner b @ ys))"
    and sh: "heap_shape H R (xs @ b # ys)" and fr: "is_free b" and h: "h = span xs"
    and n: "56 \<le> n" "8 dvd n" "n \<le> asz b" and d: "d = h_data_offset R"
    and tot: "unat (h_data_offset R) + span (xs @ b # ys) = unat (rsize r)"
    and Q: "\<And>s' fl. heap_view r s0 s' D (count_alloc (R\<lparr>h_free_list := fl\<rparr>) (taken_size n b))
        (xs @ take_block n no_owner b @ ys) \<Longrightarrow> Q s'"
  shows "runs (heap_take r s (bp r d h) (of_nat n) (last_link 0 (frees 0 xs))) Q"
proof -
  let ?hs1 = "frees 0 xs"
  let ?H1 = "taken_H H h n (asz b)" and ?l = "taken_link H h n (asz b)"
  let ?H2 = "relinked_H ?H1 ?hs1 ?l" and ?R2 = "relinked_R R ?hs1 ?l"
  have hD: "h \<in> D" and hs: "set ?hs1 \<subseteq> D" and nD: "n + 64 \<le> asz b \<Longrightarrow> h + n \<in> D"
    using h frees_starts [of 0 xs] by (auto simp: D take_block_def)
  have lt: "asz b < 2 ^ 64"
    using tot unat64_bound [of "rsize r"] by simp
  have sz: "b_total_size (H h) = of_nat (asz b)"
    using sh by (intro unat64_eqD) (simp add: heap_shape_def blk_ok_def sizes_ok_def h)
  have rem: "of_nat (asz b) - of_nat n = (of_nat (asz b - n) :: u64)"
    using n(3) by simp
  have bm: "BLOCK_MIN \<le> of_nat (asz b - n) \<longleftrightarrow> n + 64 \<le> asz b"
    using of_nat64_le_iff [of 64 "asz b - n"] lt n by (auto simp: layout_consts simp del: of_nat_diff)
  have nl: "h \<notin> set ?hs1"
    using starts_le [OF tiles_wf, of H 0 xs h 0] sh h frees_starts [of 0 xs] by (auto simp: heap_shape_def)
  have sz2: "b_total_size (?H2 h) = of_nat (taken_size n b)"
    using nl last_in_set [of ?hs1] sz n(1)
    by (subst relinked_other) (auto simp: taken_H_def taken_size_def)
  have tail: "runs (heap_mark r s2 (bp r d h)) Q"
    if v2: "hview r s0 s2 D ?H2 ?R2" for s2
  proof (rule wp_heap_mark [OF v2 hD _ sz2])
    fix s' assume v3: "hview r s0 s' D (marked_H ?H2 h) (count_alloc ?R2 (taken_size n b))"
    have "heap_view r s0 s' D (count_alloc ?R2 (taken_size n b)) (xs @ take_block n no_owner b @ ys)"
      using v3
    proof (rule heap_viewI_exact [OF _ D])
      show "heap_shape (marked_H ?H2 h) (count_alloc ?R2 (taken_size n b)) (xs @ take_block n no_owner b @ ys)"
        using heap_shape_take [OF sh fr h n lt] by (simp add: heap_shape_def)
    qed (use tot n in \<open>simp add: span_take_block\<close>)
    then show "Q s'"
      using relinked_R_ex Q by metis
  qed (simp add: d)
  show ?thesis
  proof (cases "n + 64 \<le> asz b")
    case True
    have v1': "runs (heap_relink r s1 (last_link 0 ?hs1) (link_to (h + n)))
        (\<lambda>s. runs (heap_mark r s (bp r d h)) Q)" if v1: "hview r s0 s1 D ?H1 R" for s1
      by (rule wp_heap_relink [OF v1 hs d], rule tail) (use True in \<open>simp add: taken_link_def\<close>)
    have "runs (heap_split r s (bp r d h) (of_nat n) (of_nat (asz b - n)))
      (\<lambda>s. runs (do { nb_ho \<leftarrow> shm_hoff_of_blk r s (bp r d (h + n));
                       heap_relink r s (last_link 0 ?hs1) (shm_link_enc nb_ho) })
              (\<lambda>s. runs (heap_mark r s (bp r d h)) Q))"
    proof (rule wp_heap_split [OF v hD nD [OF True] _ d])
      fix s1 assume "hview r s0 s1 D (H(h := (H h)\<lparr>b_total_size := of_nat n, b_payload_cap := of_nat n - 56\<rparr>,
          h + n := \<lparr>b_magic = SHM_ALLOC_MAGIC_BLOCK, b_type_tag = 0, b_owner = 0, b_perms = 0,
                    b_allocated = 0, b_obj_id = 0, b_payload_cap = of_nat (asz b - n) - 56,
                    b_total_size = of_nat (asz b - n), b_next_free = b_next_free (H h)\<rparr>)) R"
      then have v1: "hview r s0 s1 D ?H1 R"
        using True by (simp only: taken_H_def if_True)
      show "runs (do { nb_ho \<leftarrow> shm_hoff_of_blk r s1 (bp r d (h + n));
                       heap_relink r s1 (last_link 0 ?hs1) (shm_link_enc nb_ho) })
              (\<lambda>s. runs (heap_mark r s (bp r d h)) Q)"
        using v1' [OF v1] by (simp add: hview_ptrs [OF v1 d] del: of_nat_add)
    qed (use n in simp)
    then show ?thesis
      unfolding heap_take_def Let_def
      by (simp add: hview_blk_loads [OF v hD d] sz rem bm True bp_add del: of_nat_diff)
  next
    case False
    have "runs (heap_relink r s (last_link 0 ?hs1) (b_next_free (H h)))
        (\<lambda>s. runs (heap_mark r s (bp r d h)) Q)"
      by (rule wp_heap_relink [OF v hs d], rule tail)
         (use False in \<open>simp add: taken_link_def taken_H_def\<close>)
    then show ?thesis
      unfolding heap_take_def Let_def
      by (simp add: hview_blk_loads [OF v hD d] sz rem bm False bp_add del: of_nat_diff)
  qed
qed

section \<open>Allocation implements first fit\<close>

lemma heap_alloc_loop_walk:
  assumes v: "hview r s0 s D H R" "set (hs @ rest) \<subseteq> D"
    and small: "\<forall>x\<in>set hs. b_total_size (H x) < need" and ch: "fseg H l (hs @ rest) 0"
  shows "heap_alloc_loop r s need prev l = heap_alloc_loop r s need (last_link prev hs) (first_link rest)"
  using v(2) small ch
proof (induction hs arbitrary: prev l)
  case Nil
  then have "l = first_link rest" by (intro fseg_first_link) simp
  then show ?case by simp
next
  case (Cons h hs)
  then have h: "h \<in> D" "\<not> need \<le> b_total_size (H h)" and l: "l = link_to h"
    by auto
  have "heap_alloc_loop r s need l (b_next_free (H h)) =
      heap_alloc_loop r s need (last_link l hs) (first_link rest)"
    using Cons.prems by (intro Cons.IH) auto
  then show ?case
    using h link_to_nonzero [OF hview_bound [OF v(1) h(1)]]
    by (subst heap_alloc_loop.simps)
       (simp add: l hview_link [OF v(1) h(1) refl] hview_blk_loads [OF v(1) h(1) refl])
qed

text \<open>The size a header of the heap shows is that of its abstract block.\<close>

lemma tiles_size:
  assumes "tiles H 0 (xs @ b # ys)"
  shows "unat (b_total_size (H (span xs))) = asz b" "b_total_size (H (span xs)) = of_nat (asz b)"
proof -
  show "unat (b_total_size (H (span xs))) = asz b"
    using assms by (simp add: blk_ok_def sizes_ok_def)
  then show "b_total_size (H (span xs)) = of_nat (asz b)"
    by (rule unat64_eqD)
qed

lemma small_frees:
  assumes t: "tiles H 0 (xs @ zs)" and lt: "n < 2 ^ 64"
    and small: "\<forall>c\<in>set xs. is_free c \<longrightarrow> asz c < n"
  shows "\<forall>x\<in>set (frees 0 xs). b_total_size (H x) < of_nat n"
proof
  fix x assume "x \<in> set (frees 0 xs)"
  then obtain us b ys where xs: "xs = us @ b # ys" "x = span us" "is_free b"
    using frees_split [of x 0 xs] by auto
  then have "unat (b_total_size (H x)) = asz b"
    using t tiles_size(1) [of H us b "ys @ zs"] by simp
  moreover have "asz b < n"
    using small xs by simp
  ultimately show "b_total_size (H x) < of_nat n"
    using lt by (simp add: word_less_nat_alt unat64)
qed

text \<open>The walk stops at the first block that fits, and knows the link that leads to it.\<close>

lemma heap_alloc_block_eq:
  assumes hv: "heap_rep r s R bs" and n: "n < 2 ^ 64" and d: "d = h_data_offset R"
  shows "first_fit n bs = None \<Longrightarrow> heap_alloc_block r s (of_nat n) = Some (0, s)"
    and "first_fit n bs = Some (xs, b, ys) \<Longrightarrow> heap_alloc_block r s (of_nat n) =
      Option.bind (heap_take r s (bp r d (span xs)) (of_nat n) (last_link 0 (frees 0 xs))) (\<lambda>s'. Some (bp r d (span xs), s'))"
proof -
  obtain H where H: "hview r s s (set (starts 0 bs)) H R" "heap_shape H R bs"
    using hv unfolding heap_rep_def by (rule heap_viewE)
  have t: "tiles H 0 bs" and ch: "fseg H (h_free_list R) (frees 0 bs) 0"
    using H(2) by (auto simp: heap_shape_def)
  have fl: "rh_free_list r s = Some (h_free_list R)"
    using hview_rh_loads [OF H(1)] by simp
  show "heap_alloc_block r s (of_nat n) = Some (0, s)" if none: "first_fit n bs = None"
  proof -
    have "\<forall>x\<in>set (frees 0 bs). b_total_size (H x) < of_nat n"
      using small_frees [of H bs "[]" n] t n first_fit_NoneD [OF none] by auto
    then have "heap_alloc_block r s (of_nat n) = heap_alloc_loop r s (of_nat n) (last_link 0 (frees 0 bs)) 0"
      using heap_alloc_loop_walk [OF H(1), of "frees 0 bs" "[]"] ch frees_starts [of 0 bs]
      by (simp add: heap_alloc_block_def fl)
    then show ?thesis
      by (simp add: heap_alloc_loop.simps)
  qed
  show "heap_alloc_block r s (of_nat n) =
      Option.bind (heap_take r s (bp r d (span xs)) (of_nat n) (last_link 0 (frees 0 xs))) (\<lambda>s'. Some (bp r d (span xs), s'))"
    if some: "first_fit n bs = Some (xs, b, ys)"
  proof -
    let ?h = "span xs"
    have bs: "bs = xs @ b # ys" "is_free b" "n \<le> asz b" and sm: "\<forall>c\<in>set xs. is_free c \<longrightarrow> asz c < n"
      using first_fit_SomeD [OF some] by auto
    have hD: "?h \<in> set (starts 0 bs)"
      by (simp add: bs)
    have sz: "of_nat n \<le> b_total_size (H ?h)"
      using tiles_size(1) [of H xs b ys] t n bs by (simp add: word_le_nat_alt unat64)
    have "heap_alloc_block r s (of_nat n) = heap_alloc_loop r s (of_nat n) (last_link 0 (frees 0 xs)) (link_to ?h)"
      using heap_alloc_loop_walk [OF H(1), of "frees 0 xs" "?h # frees (?h + asz b) ys"] ch bs
        frees_starts [of 0 bs] small_frees [of H xs "b # ys" n] t n sm
      by (simp add: heap_alloc_block_def fl)
    also have "\<dots> = Option.bind (heap_take r s (bp r d ?h) (of_nat n) (last_link 0 (frees 0 xs))) (\<lambda>s. Some (bp r d ?h, s))"
      using sz link_to_nonzero [OF hview_bound [OF H(1) hD]]
      by (subst heap_alloc_loop.simps) (simp add: hview_link [OF H(1) hD d] hview_blk_loads [OF H(1) hD d])
    finally show ?thesis .
  qed
qed

lemma heap_alloc_block_refines:
  assumes hv: "heap_rep r s R bs" and n: "56 \<le> n" "8 dvd n" "n < 2 ^ 64" and d: "d = h_data_offset R"
    and none: "first_fit n bs = None \<Longrightarrow> Q (0, s)"
    and some: "\<And>s' fl xs b ys. first_fit n bs = Some (xs, b, ys) \<Longrightarrow>
        heap_view r s s' (set (starts 0 (xs @ take_block n no_owner b @ ys)))
          (count_alloc (R\<lparr>h_free_list := fl\<rparr>) (taken_size n b)) (xs @ take_block n no_owner b @ ys) \<Longrightarrow>
        Q (bp r d (span xs), s')"
  shows "runs (heap_alloc_block r s (of_nat n)) Q"
proof -
  obtain H where H: "hview r s s (set (starts 0 bs)) H R" "heap_shape H R bs"
    "unat (h_data_offset R) + span bs = unat (rsize r)" "span bs < 2 ^ 64" "list_all wf_blk bs"
    using hv unfolding heap_rep_def by (rule heap_viewE)
  show ?thesis
  proof (cases "first_fit n bs")
    case None
    then show ?thesis
      using none [OF None] heap_alloc_block_eq(1) [OF hv n(3) d] by simp
  next
    case (Some p)
    obtain xs b ys where p: "p = (xs, b, ys)"
      by (cases p) auto
    have bs: "bs = xs @ b # ys" "is_free b" "n \<le> asz b"
      using first_fit_SomeD [of n bs xs b ys] Some p by auto
    define h where "h = span xs"
    have eq: "heap_alloc_block r s (of_nat n) =
        Option.bind (heap_take r s (bp r d h) (of_nat n) (last_link 0 (frees 0 xs))) (\<lambda>s. Some (bp r d h, s))"
      unfolding h_def using Some p by (intro heap_alloc_block_eq(2) [OF hv n(3) d]) simp
    have "runs (heap_take r s (bp r d h) (of_nat n) (last_link 0 (frees 0 xs))) (\<lambda>s'. Q (bp r d h, s'))"
    proof -
      have sub: "set (starts 0 bs) \<subseteq> set (starts 0 (xs @ take_block n no_owner b @ ys))"
        using bs(3) by (auto simp: bs(1) take_block_def)
      obtain H' where H': "hview r s s (set (starts 0 (xs @ take_block n no_owner b @ ys))) H' R"
        "heap_shape H' R bs"
      proof (rule heap_rep_extend [OF hv])
        show "list_all wf_blk (xs @ take_block n no_owner b @ ys)"
          using H(5) n(1) bs(3) by (auto simp: bs(1) take_block_def wf_blk_def)
      qed (use bs(3) sub in \<open>auto simp: bs(1) span_take_block\<close>)
      show ?thesis
      proof (rule wp_heap_take [OF H'(1) refl H'(2) [unfolded bs(1)] bs(2) h_def n(1,2) bs(3) d])
        fix s' fl assume "heap_view r s s' (set (starts 0 (xs @ take_block n no_owner b @ ys)))
          (count_alloc (R\<lparr>h_free_list := fl\<rparr>) (taken_size n b)) (xs @ take_block n no_owner b @ ys)"
        then show "Q (bp r d h, s')"
          using some [of xs b ys] Some p by (simp add: h_def)
      qed (use H(3) bs sub h_def in \<open>auto simp: take_block_def\<close>)
    qed
    then show ?thesis
      unfolding eq by simp
  qed
qed

section \<open>Release implements insertion\<close>

definition count_free :: "region_hdr \<Rightarrow> nat \<Rightarrow> region_hdr" where
  "count_free R n = R\<lparr>h_used_bytes := h_used_bytes R - of_nat n, h_block_count := h_block_count R - 1\<rparr>"

lemma count_free_sel [simp]:
  "h_data_offset (count_free R n) = h_data_offset R" "h_free_list (count_free R n) = h_free_list R"
  "h_used_bytes (count_free R n) = h_used_bytes R - of_nat n"
  "h_block_count (count_free R n) = h_block_count R - 1"
  by (simp_all add: count_free_def)

lemma count_free_fl: "(count_free R n)\<lparr>h_free_list := fl\<rparr> = count_free (R\<lparr>h_free_list := fl\<rparr>) n"
  by (cases R) (simp add: count_free_def)

lemma heap_free_block_refines:
  assumes hv: "heap_rep r s R (xs @ b # ys)" and used: "\<not> is_free b" and d: "d = h_data_offset R"
    and Q: "\<And>s' fl. heap_view r s s' (set (starts 0 (xs @ b # ys)))
        (count_free (R\<lparr>h_free_list := fl\<rparr>) (asz b)) (insert_free xs b ys) \<Longrightarrow> Q s'"
  shows "runs (heap_free_block r s (bp r d (span xs))) Q"
proof -
  let ?D = "set (starts 0 (xs @ b # ys))" and ?h = "span xs"
  obtain H where H: "hview r s s ?D H R" "heap_shape H R (xs @ b # ys)"
    "unat (h_data_offset R) + span (xs @ b # ys) = unat (rsize r)"
    using hv unfolding heap_rep_def by (rule heap_viewE)
  have t: "tiles H 0 (xs @ b # ys)" and ch: "fseg H (h_free_list R) (frees 0 xs @ frees (?h + asz b) ys) 0"
    using H(2) used by (auto simp: heap_shape_def)
  have hD: "?h \<in> ?D" by simp
  have sz: "b_total_size (H ?h) = of_nat (asz b)"
    using t by (rule tiles_size)
  have ins: "runs (freelist_insert r s2 (bp r d ?h)) Q"
    if v2: "hview r s s2 ?D H (count_free R (asz b))" for s2
  proof (rule freelist_insert_refines [OF v2])
    fix s' fl assume "heap_view r s s' ?D ((count_free R (asz b))\<lparr>h_free_list := fl\<rparr>) (insert_free xs b ys)"
    then show "Q s'"
      by (intro Q [of _ fl]) (simp only: count_free_fl)
  qed (use t ch d H(3) in \<open>auto simp: blk_ok_def\<close>)
  show ?thesis
    unfolding heap_free_block_def
    apply (simp add: hview_rh_loads [OF H(1)] hview_blk_loads [OF H(1) hD d] sz)
    apply (rule wp_set_rh_used_bytes [OF H(1)])
    subgoal premises p for s1
      apply (simp add: hview_rh_loads [OF p])
      apply (rule wp_set_rh_block_count [OF p])
      apply (rule ins)
      apply (simp add: count_free_def)
      done
    done
qed

section \<open>The accounting\<close>

text \<open>The two counters of the region header, against the blocks of the heap.\<close>

definition acct :: "region_hdr \<Rightarrow> ablk list \<Rightarrow> bool" where
  "acct R bs \<longleftrightarrow> h_used_bytes R = of_nat (used_span bs) \<and> h_block_count R = of_nat (used_count bs)"

lemma taken_size_used:
  "n \<le> asz b \<Longrightarrow> used_span (take_block n i b) = taken_size n b"
  "used_count (take_block n i b) = 1"
  by (simp_all add: take_block_def taken_size_def)

lemma acct_alloc:
  assumes "acct R (xs @ b # ys)" "is_free b" "n \<le> asz b"
  shows "acct (count_alloc (R\<lparr>h_free_list := fl\<rparr>) (taken_size n b)) (xs @ take_block n i b @ ys)"
  using assms by (simp add: acct_def taken_size_used)

lemma acct_free:
  assumes "acct R (xs @ b # ys)" "\<not> is_free b"
  shows "acct (count_free (R\<lparr>h_free_list := fl\<rparr>) (asz b)) (insert_free xs b ys)"
  using assms by (simp add: acct_def insert_free_sums)

lemma take_block_coalesced:
  assumes "coalesced (xs @ b # ys)" "is_free b"
  shows "coalesced (xs @ take_block n i b @ ys)"
  using assms by (auto simp: take_block_def coalesced_Cons)

section \<open>The freed header\<close>

text \<open>A block that starts where the released block started is free.\<close>

lemma insert_free_at:
  assumes eq: "insert_free xs b ys = us @ c # vs" and sp: "span us = span xs"
    and wf: "list_all wf_blk (xs @ b # ys)"
  shows "is_free c"
proof -
  obtain z zs where z: "merge_next (b\<lparr>aown := None\<rparr>) ys = z # zs" "is_free z" "0 < asz z"
  proof (cases ys)
    case Nil
    then show thesis
      using wf that [of "b\<lparr>aown := None\<rparr>" "[]"] by (simp add: wf_blk_def)
  next
    case (Cons c cs)
    then show thesis
      using wf that [of "absorb (b\<lparr>aown := None\<rparr>) c" cs] that [of "b\<lparr>aown := None\<rparr>" "c # cs"]
      by (cases "is_free c") (simp_all add: wf_blk_def)
  qed
  have eq': "merge_prev xs (z # zs) = us @ c # vs"
    using eq by (simp add: insert_free_def z)
  show ?thesis
  proof (cases "xs \<noteq> [] \<and> is_free (last xs)")
    case True
    then obtain bl p where xs: "xs = bl @ [p]"
      by (cases xs rule: rev_cases) auto
    have p: "0 < asz p"
      using wf by (simp add: xs wf_blk_def)
    have "bl @ absorb p z # zs = us @ c # vs"
      using eq' True by (simp add: merge_prev_def xs)
    then obtain ws where "bl = us @ ws \<or> us = bl @ ws \<and> absorb p z # zs = ws @ c # vs"
      by (auto simp: append_eq_append_conv2)
    then have False
      using sp p z(3) by (cases ws) (auto simp: xs)
    then show ?thesis ..
  next
    case False
    then have "xs @ z # zs = us @ c # vs"
      using eq' by (auto simp: merge_prev_def)
    then obtain ws where ws: "xs = us @ ws \<and> ws @ z # zs = c # vs \<or> us = xs @ ws \<and> z # zs = ws @ c # vs"
      by (auto simp: append_eq_append_conv2)
    have "span ws = 0"
      using ws sp by auto
    moreover have "ws = [] \<or> 0 < asz (hd ws)"
      using ws wf z(3) by (cases ws) (auto simp: wf_blk_def)
    ultimately have "ws = []"
      by (cases ws) auto
    then show ?thesis
      using ws z(2) by auto
  qed
qed

lemma freed_header:
  assumes v: "heap_view r s0 s (set (starts 0 (xs @ b # ys))) R (insert_free xs b ys)"
    and wf: "list_all wf_blk (xs @ b # ys)"
  shows "b_allocated (blk_at (mem s) (unat (h_data_offset R) + span xs)) = 0"
  using v by (rule heap_view_dead) (use insert_free_at [OF _ _ wf] in auto)

end
