(* ===== verification/Shm_Perms.thy ===== *)
theory Shm_Perms
  imports Shm_Heap
begin

text \<open>
  Permission checking, \<open>check_block_access\<close> and \<open>check_dir_access\<close> of
  \<open>src/src/shm_alloc.c\<close>, on the permission bits of \<open>src/include/shm_alloc.h\<close>.

  Both functions decide the same policy, \<open>access_ok\<close>, on different records. The locale
  \<open>access_check\<close> is that contract; its lemmas say what the policy guarantees whatever record
  it is asked about.
\<close>

section \<open>Permission bits\<close>

definition SHM_PERM_NONE :: u32 where "SHM_PERM_NONE = 0x00"
definition SHM_PERM_READ :: u32 where "SHM_PERM_READ = 0x01"
definition SHM_PERM_WRITE :: u32 where "SHM_PERM_WRITE = 0x02"
definition SHM_PERM_FREE :: u32 where "SHM_PERM_FREE = 0x04"
definition SHM_PERM_RESIZE :: u32 where "SHM_PERM_RESIZE = 0x08"
definition SHM_PERM_ADMIN :: u32 where "SHM_PERM_ADMIN = 0x80"

definition SHM_PERM_DEFAULT :: u32 where
  "SHM_PERM_DEFAULT = SHM_PERM_READ OR SHM_PERM_WRITE OR SHM_PERM_FREE OR SHM_PERM_RESIZE"

lemmas perm_defs =
  SHM_PERM_NONE_def SHM_PERM_READ_def SHM_PERM_WRITE_def SHM_PERM_FREE_def SHM_PERM_RESIZE_def
  SHM_PERM_ADMIN_def SHM_PERM_DEFAULT_def

section \<open>The checks\<close>

definition check_block_access ::
    "shm_region \<Rightarrow> machine \<Rightarrow> u64 \<Rightarrow> u32 \<Rightarrow> u32 \<Rightarrow> u32 \<Rightarrow> errno option" where
  "check_block_access r s b caller caller_perms required =
     (if b = 0 then Some EINVAL
      else do {
        magic \<leftarrow> blk_magic r s b;
        if magic \<noteq> SHM_ALLOC_MAGIC_BLOCK then Some EINVAL
        else do {
          allocated \<leftarrow> blk_allocated r s b;
          if allocated = 0 then Some EINVAL
          else if caller_perms AND SHM_PERM_ADMIN \<noteq> 0 then Some OK
          else do {
            owner \<leftarrow> blk_owner r s b;
            if caller \<noteq> owner then Some EACCES
            else do {
              perms \<leftarrow> blk_perms r s b;
              if perms AND required \<noteq> required then Some EACCES
              else if caller_perms AND required \<noteq> required then Some EACCES
              else Some OK } } } })"

definition check_dir_access ::
    "shm_region \<Rightarrow> machine \<Rightarrow> u64 \<Rightarrow> u32 \<Rightarrow> u32 \<Rightarrow> u32 \<Rightarrow> errno option" where
  "check_dir_access r s e caller caller_perms required =
     (if e = 0 then Some ENOENT
      else do {
        alive \<leftarrow> ent_alive r s e;
        if alive = 0 then Some ENOENT
        else do {
          id \<leftarrow> ent_id r s e;
          if id = 0 then Some ENOENT
          else if caller_perms AND SHM_PERM_ADMIN \<noteq> 0 then Some OK
          else do {
            owner \<leftarrow> ent_owner r s e;
            if caller \<noteq> owner then Some EACCES
            else do {
              perms \<leftarrow> ent_perms r s e;
              if perms AND required \<noteq> required then Some EACCES
              else if caller_perms AND required \<noteq> required then Some EACCES
              else Some OK } } } })"

section \<open>The policy\<close>

definition access_ok :: "u32 \<Rightarrow> u32 \<Rightarrow> u32 \<Rightarrow> u32 \<Rightarrow> u32 \<Rightarrow> bool" where
  "access_ok owner perms caller caller_perms required \<longleftrightarrow>
     caller_perms AND SHM_PERM_ADMIN \<noteq> 0 \<or>
     caller = owner \<and> perms AND required = required \<and> caller_perms AND required = required"

text \<open>The record a check is about: \<open>Some None\<close> when it is not a live one, else its owner and permissions.\<close>

definition block_target :: "shm_region \<Rightarrow> machine \<Rightarrow> u64 \<Rightarrow> (u32 \<times> u32) option option" where
  "block_target r s b =
     (if b = 0 then Some None
      else do {
        magic \<leftarrow> blk_magic r s b;
        allocated \<leftarrow> blk_allocated r s b;
        owner \<leftarrow> blk_owner r s b;
        perms \<leftarrow> blk_perms r s b;
        Some (if magic \<noteq> SHM_ALLOC_MAGIC_BLOCK \<or> allocated = 0 then None else Some (owner, perms)) })"

definition dir_target :: "shm_region \<Rightarrow> machine \<Rightarrow> u64 \<Rightarrow> (u32 \<times> u32) option option" where
  "dir_target r s e =
     (if e = 0 then Some None
      else do {
        alive \<leftarrow> ent_alive r s e;
        id \<leftarrow> ent_id r s e;
        owner \<leftarrow> ent_owner r s e;
        perms \<leftarrow> ent_perms r s e;
        Some (if alive = 0 \<or> id = 0 then None else Some (owner, perms)) })"

locale access_check =
  fixes check :: "shm_region \<Rightarrow> machine \<Rightarrow> u64 \<Rightarrow> u32 \<Rightarrow> u32 \<Rightarrow> u32 \<Rightarrow> errno option"
    and target :: "shm_region \<Rightarrow> machine \<Rightarrow> u64 \<Rightarrow> (u32 \<times> u32) option option"
    and bad :: errno
  assumes check_dead: "target r s p = Some None \<Longrightarrow> check r s p caller cp req = Some bad"
    and check_live: "target r s p = Some (Some (ow, pm)) \<Longrightarrow>
      check r s p caller cp req = Some (if access_ok ow pm caller cp req then OK else EACCES)"
    and bad_code: "bad \<noteq> OK" "bad \<noteq> EACCES"
begin

lemma check_total: "target r s p = Some t \<Longrightarrow> \<exists>e. check r s p caller cp req = Some e \<and> e \<in> {OK, bad, EACCES}"
  by (cases t) (auto simp: check_dead check_live)

lemma granted_iff:
  "target r s p = Some t \<Longrightarrow>
     check r s p caller cp req = Some OK \<longleftrightarrow>
     (\<exists>ow pm. t = Some (ow, pm) \<and> access_ok ow pm caller cp req)"
  using bad_code by (cases t) (auto simp: check_dead check_live split: if_splits)

lemma stranger_refused:
  "target r s p = Some (Some (ow, pm)) \<Longrightarrow> caller \<noteq> ow \<Longrightarrow> cp AND SHM_PERM_ADMIN = 0 \<Longrightarrow>
     check r s p caller cp req = Some EACCES"
  by (simp add: check_live access_ok_def)

lemma admin_granted:
  "target r s p = Some (Some t) \<Longrightarrow> cp AND SHM_PERM_ADMIN \<noteq> 0 \<Longrightarrow> check r s p caller cp req = Some OK"
  by (cases t) (simp add: check_live access_ok_def)

text \<open>Asking for fewer rights never turns a granted access into a refused one.\<close>

lemma check_mono:
  assumes t: "target r s p = Some t" and g: "check r s p caller cp req = Some OK"
    and sub: "req' AND req = req'"
  shows "check r s p caller cp req' = Some OK"
proof -
  from g t obtain ow pm where t': "t = Some (ow, pm)" and a: "access_ok ow pm caller cp req"
    by (auto simp: granted_iff)
  have keep: "x AND req' = req'" if "x AND req = req" for x
  proof -
    have "x AND req' = x AND (req' AND req)"
      by (simp only: sub)
    also have "\<dots> = req' AND (x AND req)"
      by (simp only: ac_simps)
    also have "\<dots> = req'"
      by (simp only: that sub)
    finally show ?thesis .
  qed
  have "access_ok ow pm caller cp req'"
    using a by (auto simp: access_ok_def intro: keep)
  then show ?thesis
    using t t' by (simp add: check_live)
qed

end

lemma check_block_access_live:
  "block_target r s b = Some (Some (ow, pm)) \<Longrightarrow>
     check_block_access r s b caller cp req = Some (if access_ok ow pm caller cp req then OK else EACCES)"
  by (cases "blk_magic r s b"; cases "blk_allocated r s b"; cases "blk_owner r s b"; cases "blk_perms r s b")
     (auto simp: block_target_def check_block_access_def access_ok_def split: if_splits)

lemma check_dir_access_live:
  "dir_target r s e = Some (Some (ow, pm)) \<Longrightarrow>
     check_dir_access r s e caller cp req = Some (if access_ok ow pm caller cp req then OK else EACCES)"
  by (cases "ent_alive r s e"; cases "ent_id r s e"; cases "ent_owner r s e"; cases "ent_perms r s e")
     (auto simp: dir_target_def check_dir_access_def access_ok_def split: if_splits)

interpretation blk_check: access_check check_block_access block_target EINVAL
proof unfold_locales
  show "check_block_access r s p caller cp req = Some EINVAL" if "block_target r s p = Some None"
    for r s p caller cp req
    using that by (auto simp: block_target_def check_block_access_def bind_eq_Some_conv split: if_splits)
qed (rule check_block_access_live, simp_all)

interpretation dir_check: access_check check_dir_access dir_target ENOENT
proof unfold_locales
  show "check_dir_access r s p caller cp req = Some ENOENT" if "dir_target r s p = Some None"
    for r s p caller cp req
    using that by (auto simp: dir_target_def check_dir_access_def bind_eq_Some_conv split: if_splits)
qed (rule check_dir_access_live, simp_all)

end
