(* ===== verification/Shm_Directory.thy ===== *)
theory Shm_Directory
  imports Shm_Perms
begin

text \<open>
  The object directory of \<open>src/src/shm_alloc.c\<close>: \<open>dir_find_by_id\<close>,
  \<open>dir_find_by_name\<close>, \<open>dir_find_free_slot\<close> and \<open>dir_count_live\<close>.

  \<open>eview\<close> is the view of one directory slot, with load and store rules like those of
  \<open>hview\<close>. The three searches share the contract \<open>slot_scan\<close>: they return the address of
  the first slot that passes their test, or null.
\<close>

section \<open>The view of one slot\<close>

text \<open>A pointer into the region, by its byte offset.\<close>

definition rp :: "shm_region \<Rightarrow> nat \<Rightarrow> u64" where
  "rp r k = rbase r + of_nat k"

definition eview :: "shm_region \<Rightarrow> machine \<Rightarrow> machine \<Rightarrow> nat \<Rightarrow> obj_entry \<Rightarrow> bool" where
  "eview r s0 s k e \<longleftrightarrow>
     mapped r \<and> k + 96 \<le> unat (rsize r) \<and> ent_at (mem s) k = e \<and>
     (\<forall>a. a < k \<or> k + 96 \<le> a \<longrightarrow> mem s a = mem s0 a) \<and> mutex s = mutex s0 \<and> cmode s = cmode s0"

lemma region_off_rp:
  assumes "k + 96 \<le> unat (rsize r)"
  shows "region_off r (rp r k) = k" "numeral n \<le> (96 :: nat) \<Longrightarrow> region_off r (rp r k + numeral n) = k + numeral n"
proof -
  have lt: "k + 96 < 2 ^ 64"
    using assms unat64_bound [of "rsize r"] by linarith
  then show "region_off r (rp r k) = k"
    by (simp add: rp_def region_off_base)
  show "region_off r (rp r k + numeral n) = k + numeral n" if "numeral n \<le> (96 :: nat)"
    unfolding rp_def using lt that by (intro region_off_base_field) linarith
qed

lemma in_map_rp:
  assumes "k + 96 \<le> unat (rsize r)"
  shows "n \<le> 96 \<Longrightarrow> in_map r (rp r k) n" "numeral j + n \<le> 96 \<Longrightarrow> in_map r (rp r k + numeral j) n"
proof -
  show "n \<le> 96 \<Longrightarrow> in_map r (rp r k) n"
    using assms by (simp add: in_map_def region_off_rp)
  assume le: "numeral j + n \<le> 96"
  then have "numeral j \<le> (96 :: nat)" by linarith
  with le assms show "in_map r (rp r k + numeral j) n"
    by (simp only: in_map_def region_off_rp)
qed

lemma rp_nonzero:
  assumes "mapped r" "k \<le> unat (rsize r)"
  shows "rp r k \<noteq> 0"
proof -
  have "unat (rp r k) = unat (rbase r) + k"
    using mapped_unat_add [of r k] assms by (simp add: rp_def)
  then show ?thesis
    using assms(1) by (auto simp: mapped_def unsigned_eq_0_iff)
qed

lemma ent_at_sel:
  "e_id (ent_at m k) = get64 m k"
  "e_off (ent_at m k) = get64 m (k + 56)"
  "e_capacity (ent_at m k) = get64 m (k + 64)"
  "e_used_size (ent_at m k) = get64 m (k + 72)"
  "e_type_tag (ent_at m k) = get32 m (k + 80)"
  "e_owner (ent_at m k) = get32 m (k + 84)"
  "e_perms (ent_at m k) = get32 m (k + 88)"
  "e_alive (ent_at m k) = get8 m (k + 92)"
  by (simp_all add: ent_at_def)

lemma ent_at_put_id [view_simps]: "ent_at (put64 m k v) k = (ent_at m k)\<lparr>e_id := v\<rparr>"
  by (simp add: ent_at_def get_put_apart put_outside cong: map_cong)

lemma ent_at_put_off [view_simps]: "ent_at (put64 m (k + 56) v) k = (ent_at m k)\<lparr>e_off := v\<rparr>"
  by (simp add: ent_at_def get_put_apart put_outside cong: map_cong)

lemma ent_at_put_capacity [view_simps]: "ent_at (put64 m (k + 64) v) k = (ent_at m k)\<lparr>e_capacity := v\<rparr>"
  by (simp add: ent_at_def get_put_apart put_outside cong: map_cong)

lemma ent_at_put_used_size [view_simps]: "ent_at (put64 m (k + 72) v) k = (ent_at m k)\<lparr>e_used_size := v\<rparr>"
  by (simp add: ent_at_def get_put_apart put_outside cong: map_cong)

lemma ent_at_put_type_tag [view_simps]: "ent_at (put32 m (k + 80) v) k = (ent_at m k)\<lparr>e_type_tag := v\<rparr>"
  by (simp add: ent_at_def get_put_apart put_outside cong: map_cong)

lemma ent_at_put_owner [view_simps]: "ent_at (put32 m (k + 84) v) k = (ent_at m k)\<lparr>e_owner := v\<rparr>"
  by (simp add: ent_at_def get_put_apart put_outside cong: map_cong)

lemma ent_at_put_perms [view_simps]: "ent_at (put32 m (k + 88) v) k = (ent_at m k)\<lparr>e_perms := v\<rparr>"
  by (simp add: ent_at_def get_put_apart put_outside cong: map_cong)

lemma ent_at_put_alive [view_simps]: "ent_at (put8 m (k + 92) v) k = (ent_at m k)\<lparr>e_alive := v\<rparr>"
  by (simp add: ent_at_def get_put_apart put_outside cong: map_cong)

lemma ent_at_cong:
  assumes "\<And>a. k \<le> a \<Longrightarrow> a < k + 96 \<Longrightarrow> m a = m' a"
  shows "ent_at m k = ent_at m' k"
  unfolding ent_at_def using assms
  by (simp add: c8.get_frame [of _ m m'] c32.get_frame [of _ m m'] c64.get_frame [of _ m m'])

lemma eview_put:
  assumes "eview r s0 s k e" "\<And>a. a < k \<or> k + 96 \<le> a \<Longrightarrow> m' a = mem s a" "ent_at m' k = e'"
  shows "eview r s0 (s\<lparr>mem := m'\<rparr>) k e'"
  using assms by (simp add: eview_def)

lemma eview_start: "mapped r \<Longrightarrow> k + 96 \<le> unat (rsize r) \<Longrightarrow> eview r s s k (ent_at (mem s) k)"
  by (simp add: eview_def)

lemma eview_mem_cong:
  "eview r s0 s k e \<Longrightarrow> mem s' = mem s \<Longrightarrow> mutex s' = mutex s \<Longrightarrow> cmode s' = cmode s \<Longrightarrow>
     eview r s0 s' k e"
  by (simp add: eview_def)

section \<open>Loads and stores of a slot\<close>

lemma eview_loads:
  assumes "eview r s0 s k e"
  shows "ent_id r s (rp r k) = Some (e_id e)"
    and "ent_off r s (rp r k) = Some (e_off e)"
    and "ent_capacity r s (rp r k) = Some (e_capacity e)"
    and "ent_used_size r s (rp r k) = Some (e_used_size e)"
    and "ent_type_tag r s (rp r k) = Some (e_type_tag e)"
    and "ent_owner r s (rp r k) = Some (e_owner e)"
    and "ent_perms r s (rp r k) = Some (e_perms e)"
    and "ent_alive r s (rp r k) = Some (e_alive e)"
proof -
  have le: "k + 96 \<le> unat (rsize r)" and e: "ent_at (mem s) k = e"
    using assms by (simp_all add: eview_def)
  show "ent_id r s (rp r k) = Some (e_id e)"
    using le by (simp add: ent_id_def rd64_def in_map_rp region_off_rp e [symmetric] ent_at_sel)
  show "ent_off r s (rp r k) = Some (e_off e)"
    using le by (simp add: ent_off_def rd64_def in_map_rp region_off_rp e [symmetric] ent_at_sel)
  show "ent_capacity r s (rp r k) = Some (e_capacity e)"
    using le by (simp add: ent_capacity_def rd64_def in_map_rp region_off_rp e [symmetric] ent_at_sel)
  show "ent_used_size r s (rp r k) = Some (e_used_size e)"
    using le by (simp add: ent_used_size_def rd64_def in_map_rp region_off_rp e [symmetric] ent_at_sel)
  show "ent_type_tag r s (rp r k) = Some (e_type_tag e)"
    using le by (simp add: ent_type_tag_def rd32_def in_map_rp region_off_rp e [symmetric] ent_at_sel)
  show "ent_owner r s (rp r k) = Some (e_owner e)"
    using le by (simp add: ent_owner_def rd32_def in_map_rp region_off_rp e [symmetric] ent_at_sel)
  show "ent_perms r s (rp r k) = Some (e_perms e)"
    using le by (simp add: ent_perms_def rd32_def in_map_rp region_off_rp e [symmetric] ent_at_sel)
  show "ent_alive r s (rp r k) = Some (e_alive e)"
    using le by (simp add: ent_alive_def rd8_def in_map_rp region_off_rp e [symmetric] ent_at_sel)
qed

lemma wp_set_ent_id [wp_rules]:
  assumes v: "eview r s0 s k e" and Q: "\<And>s'. eview r s0 s' k (e\<lparr>e_id := v\<rparr>) \<Longrightarrow> Q s'"
  shows "runs (set_ent_id r s (rp r k) v) Q"
proof -
  have le: "k + 96 \<le> unat (rsize r)"
    using v by (simp add: eview_def)
  have "eview r s0 (s\<lparr>mem := put64 (mem s) k v\<rparr>) k (e\<lparr>e_id := v\<rparr>)"
    by (rule eview_put [OF v]) (use v in \<open>auto simp: put_outside view_simps eview_def\<close>)
  from Q [OF this] show ?thesis
    using le by (simp add: set_ent_id_def wr64_def in_map_rp region_off_rp)
qed

lemma wp_set_ent_off [wp_rules]:
  assumes v: "eview r s0 s k e" and Q: "\<And>s'. eview r s0 s' k (e\<lparr>e_off := v\<rparr>) \<Longrightarrow> Q s'"
  shows "runs (set_ent_off r s (rp r k) v) Q"
proof -
  have le: "k + 96 \<le> unat (rsize r)"
    using v by (simp add: eview_def)
  have "eview r s0 (s\<lparr>mem := put64 (mem s) (k + 56) v\<rparr>) k (e\<lparr>e_off := v\<rparr>)"
    by (rule eview_put [OF v]) (use v in \<open>auto simp: put_outside view_simps eview_def\<close>)
  from Q [OF this] show ?thesis
    using le by (simp add: set_ent_off_def wr64_def in_map_rp region_off_rp)
qed

lemma wp_set_ent_capacity [wp_rules]:
  assumes v: "eview r s0 s k e" and Q: "\<And>s'. eview r s0 s' k (e\<lparr>e_capacity := v\<rparr>) \<Longrightarrow> Q s'"
  shows "runs (set_ent_capacity r s (rp r k) v) Q"
proof -
  have le: "k + 96 \<le> unat (rsize r)"
    using v by (simp add: eview_def)
  have "eview r s0 (s\<lparr>mem := put64 (mem s) (k + 64) v\<rparr>) k (e\<lparr>e_capacity := v\<rparr>)"
    by (rule eview_put [OF v]) (use v in \<open>auto simp: put_outside view_simps eview_def\<close>)
  from Q [OF this] show ?thesis
    using le by (simp add: set_ent_capacity_def wr64_def in_map_rp region_off_rp)
qed

lemma wp_set_ent_used_size [wp_rules]:
  assumes v: "eview r s0 s k e" and Q: "\<And>s'. eview r s0 s' k (e\<lparr>e_used_size := v\<rparr>) \<Longrightarrow> Q s'"
  shows "runs (set_ent_used_size r s (rp r k) v) Q"
proof -
  have le: "k + 96 \<le> unat (rsize r)"
    using v by (simp add: eview_def)
  have "eview r s0 (s\<lparr>mem := put64 (mem s) (k + 72) v\<rparr>) k (e\<lparr>e_used_size := v\<rparr>)"
    by (rule eview_put [OF v]) (use v in \<open>auto simp: put_outside view_simps eview_def\<close>)
  from Q [OF this] show ?thesis
    using le by (simp add: set_ent_used_size_def wr64_def in_map_rp region_off_rp)
qed

lemma wp_set_ent_type_tag [wp_rules]:
  assumes v: "eview r s0 s k e" and Q: "\<And>s'. eview r s0 s' k (e\<lparr>e_type_tag := v\<rparr>) \<Longrightarrow> Q s'"
  shows "runs (set_ent_type_tag r s (rp r k) v) Q"
proof -
  have le: "k + 96 \<le> unat (rsize r)"
    using v by (simp add: eview_def)
  have "eview r s0 (s\<lparr>mem := put32 (mem s) (k + 80) v\<rparr>) k (e\<lparr>e_type_tag := v\<rparr>)"
    by (rule eview_put [OF v]) (use v in \<open>auto simp: put_outside view_simps eview_def\<close>)
  from Q [OF this] show ?thesis
    using le by (simp add: set_ent_type_tag_def wr32_def in_map_rp region_off_rp)
qed

lemma wp_set_ent_owner [wp_rules]:
  assumes v: "eview r s0 s k e" and Q: "\<And>s'. eview r s0 s' k (e\<lparr>e_owner := v\<rparr>) \<Longrightarrow> Q s'"
  shows "runs (set_ent_owner r s (rp r k) v) Q"
proof -
  have le: "k + 96 \<le> unat (rsize r)"
    using v by (simp add: eview_def)
  have "eview r s0 (s\<lparr>mem := put32 (mem s) (k + 84) v\<rparr>) k (e\<lparr>e_owner := v\<rparr>)"
    by (rule eview_put [OF v]) (use v in \<open>auto simp: put_outside view_simps eview_def\<close>)
  from Q [OF this] show ?thesis
    using le by (simp add: set_ent_owner_def wr32_def in_map_rp region_off_rp)
qed

lemma wp_set_ent_perms [wp_rules]:
  assumes v: "eview r s0 s k e" and Q: "\<And>s'. eview r s0 s' k (e\<lparr>e_perms := v\<rparr>) \<Longrightarrow> Q s'"
  shows "runs (set_ent_perms r s (rp r k) v) Q"
proof -
  have le: "k + 96 \<le> unat (rsize r)"
    using v by (simp add: eview_def)
  have "eview r s0 (s\<lparr>mem := put32 (mem s) (k + 88) v\<rparr>) k (e\<lparr>e_perms := v\<rparr>)"
    by (rule eview_put [OF v]) (use v in \<open>auto simp: put_outside view_simps eview_def\<close>)
  from Q [OF this] show ?thesis
    using le by (simp add: set_ent_perms_def wr32_def in_map_rp region_off_rp)
qed

lemma wp_set_ent_alive [wp_rules]:
  assumes v: "eview r s0 s k e" and Q: "\<And>s'. eview r s0 s' k (e\<lparr>e_alive := v\<rparr>) \<Longrightarrow> Q s'"
  shows "runs (set_ent_alive r s (rp r k) v) Q"
proof -
  have le: "k + 96 \<le> unat (rsize r)"
    using v by (simp add: eview_def)
  have "eview r s0 (s\<lparr>mem := put8 (mem s) (k + 92) v\<rparr>) k (e\<lparr>e_alive := v\<rparr>)"
    by (rule eview_put [OF v]) (use v in \<open>auto simp: put_outside view_simps eview_def\<close>)
  from Q [OF this] show ?thesis
    using le by (simp add: set_ent_alive_def wr8_def in_map_rp region_off_rp)
qed

section \<open>Block operations on a slot\<close>

definition zero_ent :: obj_entry where
  "zero_ent = \<lparr>e_id = 0, e_off = 0, e_capacity = 0, e_used_size = 0, e_type_tag = 0, e_owner = 0,
     e_perms = 0, e_alive = 0, e_name = replicate 48 0\<rparr>"

lemma ent_at_zero:
  assumes "\<And>a. k \<le> a \<Longrightarrow> a < k + 96 \<Longrightarrow> m a = 0"
  shows "ent_at m k = zero_ent"
proof -
  have "get_le n m (k + j) = 0" if "j + n \<le> 96" for j n
    by (rule get_le_zero) (use assms that in auto)
  note z = this
  have "map (\<lambda>i. m (k + 8 + i)) [0..<48] = replicate 48 0"
    by (rule replicate_eqI) (auto intro: assms)
  with z [of 0 8] z [of 56 8] z [of 64 8] z [of 72 8] z [of 80 4] z [of 84 4] z [of 88 4]
  show ?thesis
    using assms by (simp add: ent_at_def zero_ent_def get64_def get32_def get8_def)
qed

lemma wp_memset_slot [wp_rules]:
  assumes v: "eview r s0 s k e" and Q: "\<And>s'. eview r s0 s' k zero_ent \<Longrightarrow> Q s'"
  shows "runs (memset r s (rp r k) 0 SIZEOF_OBJ_ENTRY) Q"
proof -
  have le: "k + 96 \<le> unat (rsize r)"
    using v by (simp add: eview_def)
  have "eview r s0 (s\<lparr>mem := (\<lambda>a. if k \<le> a \<and> a < k + 96 then 0 else mem s a)\<rparr>) k zero_ent"
    by (rule eview_put [OF v]) (auto intro: ent_at_zero)
  from Q [OF this] show ?thesis
    using le by (simp add: memset_def in_map_rp region_off_rp SIZEOF_OBJ_ENTRY_def)
qed

lemma wp_persist_slot [wp_rules]:
  assumes v: "eview r s0 s k e" and Q: "\<And>s'. eview r s0 s' k e \<Longrightarrow> Q s'"
  shows "runs (shm_persist r s (rp r k) SIZEOF_OBJ_ENTRY) Q"
proof -
  have "mapped r" "k + 96 \<le> unat (rsize r)"
    using v by (simp_all add: eview_def)
  then show ?thesis
    using Q eview_mem_cong [OF v]
    by (simp add: shm_persist_region_off region_off_rp SIZEOF_OBJ_ENTRY_def)
qed

lemma wr_bytes_mem:
  assumes "a + length cs \<le> unat (rsize r)"
  shows "wr_bytes r s (rbase r + of_nat a) cs =
     Some (s\<lparr>mem := (\<lambda>x. if a \<le> x \<and> x < a + length cs then cs ! (x - a) else mem s x)\<rparr>)"
  using assms
proof (induction cs arbitrary: a s)
  case (Cons c cs)
  have "region_off r (rbase r + of_nat a) = a"
    using Cons.prems unat64_bound [of "rsize r"] by (intro region_off_base) simp
  moreover have p: "rbase r + of_nat a + 1 = rbase r + of_nat (Suc a)"
    by (simp add: add.commute)
  ultimately have "wr_bytes r s (rbase r + of_nat a) (c # cs) =
      wr_bytes r (s\<lparr>mem := (mem s)(a := c)\<rparr>) (rbase r + of_nat (Suc a)) cs"
    using Cons.prems unfolding p [symmetric] by (simp add: wr8_def in_map_def put8_def)
  also have "\<dots> = Some (s\<lparr>mem := (\<lambda>x. if a \<le> x \<and> x < a + length (c # cs) then (c # cs) ! (x - a)
      else mem s x)\<rparr>)"
    using Cons.prems by (subst Cons.IH) (auto simp: fun_eq_iff nth_Cons')
  finally show ?case .
next
  case Nil
  have "(\<lambda>x. if a \<le> x \<and> x < a + length [] then [] ! (x - a) else mem s x) = mem s"
    by (rule ext) auto
  then show ?case by simp
qed

text \<open>\<open>strncpy\<close> into the name of a zeroed slot: the name is cut and stays NUL-terminated.\<close>

definition stored_name :: "cstring \<Rightarrow> u8 list" where
  "stored_name nm = take 47 (nm @ replicate 47 0) @ [0]"

lemma ent_at_name:
  assumes "\<And>a. a < k + 8 \<or> k + 56 \<le> a \<Longrightarrow> m' a = m a"
  shows "ent_at m' k = (ent_at m k)\<lparr>e_name := map (\<lambda>i. m' (k + 8 + i)) [0..<48]\<rparr>"
proof -
  have g64: "get64 m' (k + j) = get64 m (k + j)" if "j + 8 \<le> 8 \<or> 56 \<le> j" for j
    by (rule c64.get_cong) (use that in \<open>auto intro: assms\<close>)
  have "get32 m' (k + j) = get32 m (k + j)" if "56 \<le> j" for j
    by (rule c32.get_cong) (use that in \<open>auto intro: assms\<close>)
  with g64 show ?thesis
    using assms g64 [of 0] by (simp add: ent_at_def get8_def)
qed

lemma wp_strncpy_slot [wp_rules]:
  assumes v: "eview r s0 s k e" and z: "e_name e ! 47 = 0"
    and Q: "\<And>s'. eview r s0 s' k (e\<lparr>e_name := stored_name nm\<rparr>) \<Longrightarrow> Q s'"
  shows "runs (strncpy r s (ent_name_ptr (rp r k)) nm (DIR_NAME_MAX - 1)) Q"
proof -
  define cs where "cs = take 47 (nm @ replicate 47 0)"
  let ?m' = "\<lambda>x. if k + 8 \<le> x \<and> x < k + 8 + length cs then cs ! (x - (k + 8)) else mem s x"
  have le: "k + 96 \<le> unat (rsize r)" and e: "ent_at (mem s) k = e"
    using v by (simp_all add: eview_def)
  have len: "length cs = 47" by (simp add: cs_def)
  have z47: "mem s (k + 8 + i) = 0" if "i < 48" "\<not> i < 47" for i
  proof -
    have "i = 47" using that by simp
    then show ?thesis
      using z by (simp add: e [symmetric] ent_at_def add.commute)
  qed
  then have "map (\<lambda>i. ?m' (k + 8 + i)) [0..<48] = cs @ [0]"
    by (intro nth_equalityI) (auto simp: nth_append len intro!: z47)
  moreover have "ent_at ?m' k = (ent_at (mem s) k)\<lparr>e_name := map (\<lambda>i. ?m' (k + 8 + i)) [0..<48]\<rparr>"
    by (rule ent_at_name) (auto simp: len)
  ultimately have "ent_at ?m' k = e\<lparr>e_name := stored_name nm\<rparr>"
    by (simp only: e stored_name_def cs_def)
  then have "eview r s0 (s\<lparr>mem := ?m'\<rparr>) k (e\<lparr>e_name := stored_name nm\<rparr>)"
    by (intro eview_put [OF v]) (auto simp: len)
  note q = Q [OF this]
  have p: "ent_name_ptr (rp r k) = rbase r + of_nat (k + 8)"
    by (simp add: ent_name_ptr_def rp_def add.assoc)
  have "strncpy r s (ent_name_ptr (rp r k)) nm (DIR_NAME_MAX - 1) = wr_bytes r s (rbase r + of_nat (k + 8)) cs"
    unfolding p strncpy_def DIR_NAME_MAX_def cs_def by simp
  also have "\<dots> = Some (s\<lparr>mem := ?m'\<rparr>)"
    by (rule wr_bytes_mem) (use le len in linarith)
  finally show ?thesis
    using q by simp
qed

section \<open>The directory searches\<close>

definition slot_has_id :: "shm_region \<Rightarrow> machine \<Rightarrow> u64 \<Rightarrow> u64 \<Rightarrow> bool option" where
  "slot_has_id r s obj_id e = do {
     id \<leftarrow> ent_id r s e;
     if id = obj_id then do { alive \<leftarrow> ent_alive r s e; Some (alive \<noteq> 0) } else Some False }"

definition slot_has_name :: "shm_region \<Rightarrow> machine \<Rightarrow> cstring \<Rightarrow> u64 \<Rightarrow> bool option" where
  "slot_has_name r s nm e = do {
     alive \<leftarrow> ent_alive r s e;
     if alive \<noteq> 0 then strcmp_eq r s (ent_name_ptr e) nm else Some False }"

definition slot_is_free :: "shm_region \<Rightarrow> machine \<Rightarrow> u64 \<Rightarrow> bool option" where
  "slot_is_free r s e = do {
     id \<leftarrow> ent_id r s e;
     if id = 0 then Some True else do { alive \<leftarrow> ent_alive r s e; Some (alive = 0) } }"

partial_function (option) find_by_id_loop :: "shm_region \<Rightarrow> machine \<Rightarrow> u64 \<Rightarrow> u32 \<Rightarrow> u64 option" where
  "find_by_id_loop r s obj_id i =
     Option.bind (rh_dir_capacity r s) (\<lambda>cap.
     if i < cap
     then Option.bind (shm_dir_slot r s i) (\<lambda>e.
          Option.bind (slot_has_id r s obj_id e) (\<lambda>hit.
          if hit then Some e else find_by_id_loop r s obj_id (i + 1)))
     else Some 0)"

partial_function (option) find_by_name_loop :: "shm_region \<Rightarrow> machine \<Rightarrow> cstring \<Rightarrow> u32 \<Rightarrow> u64 option" where
  "find_by_name_loop r s nm i =
     Option.bind (rh_dir_capacity r s) (\<lambda>cap.
     if i < cap
     then Option.bind (shm_dir_slot r s i) (\<lambda>e.
          Option.bind (slot_has_name r s nm e) (\<lambda>hit.
          if hit then Some e else find_by_name_loop r s nm (i + 1)))
     else Some 0)"

partial_function (option) find_free_slot_loop :: "shm_region \<Rightarrow> machine \<Rightarrow> u32 \<Rightarrow> u64 option" where
  "find_free_slot_loop r s i =
     Option.bind (rh_dir_capacity r s) (\<lambda>cap.
     if i < cap
     then Option.bind (shm_dir_slot r s i) (\<lambda>e.
          Option.bind (slot_is_free r s e) (\<lambda>hit.
          if hit then Some e else find_free_slot_loop r s (i + 1)))
     else Some 0)"

partial_function (option) count_live_loop :: "shm_region \<Rightarrow> machine \<Rightarrow> u32 \<Rightarrow> u32 \<Rightarrow> u32 option" where
  "count_live_loop r s count i =
     Option.bind (rh_dir_capacity r s) (\<lambda>cap.
     if i < cap
     then Option.bind (shm_dir_slot r s i) (\<lambda>e.
          Option.bind (ent_alive r s e) (\<lambda>alive.
          count_live_loop r s (if alive \<noteq> 0 then count + 1 else count) (i + 1)))
     else Some count)"

definition dir_find_by_id :: "shm_region \<Rightarrow> machine \<Rightarrow> u64 \<Rightarrow> u64 option" where
  "dir_find_by_id r s obj_id = find_by_id_loop r s obj_id 0"

definition dir_find_by_name :: "shm_region \<Rightarrow> machine \<Rightarrow> cstring \<Rightarrow> u64 option" where
  "dir_find_by_name r s nm = find_by_name_loop r s nm 0"

definition dir_find_free_slot :: "shm_region \<Rightarrow> machine \<Rightarrow> u64 option" where
  "dir_find_free_slot r s = find_free_slot_loop r s 0"

definition dir_count_live :: "shm_region \<Rightarrow> machine \<Rightarrow> u32 option" where
  "dir_count_live r s = count_live_loop r s 0 0"

section \<open>Representation of the directory\<close>

definition slot_pos :: "region_hdr \<Rightarrow> nat \<Rightarrow> nat" where
  "slot_pos R i = unat (h_dir_offset R) + 96 * i"

definition dir_at :: "bytes \<Rightarrow> region_hdr \<Rightarrow> obj_entry list" where
  "dir_at m R = map (\<lambda>i. ent_at m (slot_pos R i)) [0..<unat (h_dir_capacity R)]"

definition dir_rep :: "shm_region \<Rightarrow> machine \<Rightarrow> region_hdr \<Rightarrow> obj_entry list \<Rightarrow> bool" where
  "dir_rep r s R es \<longleftrightarrow>
     mapped r \<and> rh_at (mem s) = R \<and> 200 \<le> unat (h_dir_offset R) \<and>
     slot_pos R (unat (h_dir_capacity R)) \<le> unat (h_data_offset R) \<and>
     unat (h_data_offset R) \<le> unat (rsize r) \<and> dir_at (mem s) R = es"

lemma dir_rep_length: "dir_rep r s R es \<Longrightarrow> length es = unat (h_dir_capacity R)"
  by (auto simp: dir_rep_def dir_at_def)

lemma dir_rep_hview: "dir_rep r s R es \<Longrightarrow> hview r s s {} H R"
  by (auto simp: dir_rep_def hview_def separated_def slot_pos_def)

lemmas dir_rep_rh = hview_rh_loads [OF dir_rep_hview]

lemma slot_pos_le: "i < n \<Longrightarrow> slot_pos R i + 96 \<le> slot_pos R n"
  by (simp add: slot_pos_def)

lemma dir_rep_eview:
  assumes "dir_rep r s R es" "i < length es"
  shows "eview r s s (slot_pos R i) (es ! i)"
  using assms slot_pos_le [of i "length es" R] dir_rep_length [OF assms(1)]
  by (auto simp: dir_rep_def eview_def dir_at_def)

lemma dir_slot_ptr:
  assumes "dir_rep r s R es"
  shows "shm_dir_slot r s i = Some (rp r (slot_pos R (unat i)))"
  using dir_rep_rh [OF assms]
  by (simp add: shm_dir_slot_def shm_dir_base_def rp_def slot_pos_def SIZEOF_OBJ_ENTRY_def add.assoc)

text \<open>The tests on a represented slot.\<close>

definition live :: "obj_entry \<Rightarrow> bool" where
  "live e \<longleftrightarrow> e_alive e \<noteq> 0 \<and> e_id e \<noteq> 0"

lemma slot_has_id_eq:
  assumes "dir_rep r s R es" "i < length es"
  shows "slot_has_id r s obj_id (rp r (slot_pos R i)) = Some (e_id (es ! i) = obj_id \<and> e_alive (es ! i) \<noteq> 0)"
  using eview_loads [OF dir_rep_eview [OF assms]] by (simp add: slot_has_id_def)

lemma slot_is_free_eq:
  assumes "dir_rep r s R es" "i < length es"
  shows "slot_is_free r s (rp r (slot_pos R i)) = Some (\<not> live (es ! i))"
  using eview_loads [OF dir_rep_eview [OF assms]] by (simp add: slot_is_free_def live_def)

text \<open>A stored name as a C string, and the comparison with a string of the caller.\<close>

definition cstr :: "u8 list \<Rightarrow> cstring" where
  "cstr cs = takeWhile (\<lambda>c. c \<noteq> 0) cs"

lemma cstr_Cons [simp]: "cstr (c # cs) = (if c = 0 then [] else c # cstr cs)"
  by (simp add: cstr_def)

lemma cstr_stored_name: "0 \<notin> set nm \<Longrightarrow> cstr (stored_name nm) = take 47 nm"
proof -
  assume nz: "0 \<notin> set nm"
  have "cstr (xs @ replicate k 0 @ [0]) = xs" if "0 \<notin> set xs" for xs k
    using that by (induction xs) (cases k, auto)
  from this [of "take 47 nm" "47 - length nm"] show ?thesis
    using nz by (simp add: stored_name_def) (meson in_set_takeD)
qed

lemma strcmp_eq_rd:
  assumes "\<And>j. j < length cs \<Longrightarrow> rd8 r s (p + of_nat j) = Some (cs ! j)" "0 \<in> set cs" "0 \<notin> set nm"
  shows "strcmp_eq r s p nm = Some (cstr cs = nm)"
  using assms
proof (induction nm arbitrary: p cs)
  case Nil
  then obtain c cs' where cs: "cs = c # cs'" by (cases cs) auto
  then have "rd8 r s p = Some c"
    using Nil.prems(1) [of 0] by simp
  then show ?case by (simp add: cs)
next
  case (Cons n nm)
  then obtain c cs' where cs: "cs = c # cs'" by (cases cs) auto
  then have c: "rd8 r s p = Some c"
    using Cons.prems(1) [of 0] by simp
  show ?case
  proof (cases "c = n")
    case True
    then have "0 \<in> set cs'" "n \<noteq> 0"
      using Cons.prems cs by auto
    moreover have "rd8 r s (p + 1 + of_nat j) = Some (cs' ! j)" if "j < length cs'" for j
      using Cons.prems(1) [of "Suc j"] that by (simp add: cs add.assoc)
    ultimately have "strcmp_eq r s (p + 1) nm = Some (cstr cs' = nm)"
      using Cons.prems by (intro Cons.IH) auto
    then show ?thesis
      using True c \<open>n \<noteq> 0\<close> by (simp add: cs)
  next
    case False
    then show ?thesis
      using c Cons.prems by (auto simp: cs)
  qed
qed

lemma slot_has_name_eq:
  assumes d: "dir_rep r s R es" "i < length es" and z: "0 \<in> set (e_name (es ! i))" "0 \<notin> set nm"
  shows "slot_has_name r s nm (rp r (slot_pos R i)) =
    Some (e_alive (es ! i) \<noteq> 0 \<and> cstr (e_name (es ! i)) = nm)"
proof -
  let ?k = "slot_pos R i"
  note ev = dir_rep_eview [OF d]
  have le: "?k + 96 \<le> unat (rsize r)" and e: "ent_at (mem s) ?k = es ! i"
    using ev by (simp_all add: eview_def)
  have lt: "?k + 96 < 2 ^ 64"
    using le unat64_bound [of "rsize r"] by linarith
  have "rd8 r s (ent_name_ptr (rp r ?k) + of_nat j) = Some (e_name (es ! i) ! j)"
    if j: "j < length (e_name (es ! i))" for j
  proof -
    have j48: "j < 48"
      using j by (simp add: e [symmetric] ent_at_def)
    have p: "ent_name_ptr (rp r ?k) + of_nat j = rbase r + of_nat (?k + 8 + j)"
      by (simp add: ent_name_ptr_def rp_def add.assoc)
    have "region_off r (rbase r + of_nat (?k + 8 + j)) = ?k + 8 + j"
      using lt j48 by (intro region_off_base) simp
    then show ?thesis
      unfolding p using le j48 by (simp add: rd8_def in_map_def get8_def e [symmetric] ent_at_def)
  qed
  then have "strcmp_eq r s (ent_name_ptr (rp r ?k)) nm = Some (cstr (e_name (es ! i)) = nm)"
    by (rule strcmp_eq_rd) (use z in auto)
  then show ?thesis
    using eview_loads [OF ev] by (simp add: slot_has_name_def)
qed

section \<open>The contract of a search\<close>

definition first_slot :: "(obj_entry \<Rightarrow> bool) \<Rightarrow> obj_entry list \<Rightarrow> nat \<Rightarrow> nat option" where
  "first_slot P es j = find (\<lambda>i. P (es ! i)) [j..<length es]"

lemma first_slot_step:
  "j < length es \<Longrightarrow> first_slot P es j = (if P (es ! j) then Some j else first_slot P es (Suc j))"
  "length es \<le> j \<Longrightarrow> first_slot P es j = None"
  by (simp_all add: first_slot_def upt_conv_Cons)

lemma first_slot_SomeD:
  assumes "first_slot P es 0 = Some i"
  shows "i < length es" "P (es ! i)" "\<forall>j<i. \<not> P (es ! j)"
proof -
  from assms obtain k where k: "k < length es" "P (es ! ([0..<length es] ! k))" "i = [0..<length es] ! k"
    "\<forall>j<k. \<not> P (es ! ([0..<length es] ! j))"
    by (auto simp: first_slot_def find_Some_iff)
  then show "i < length es" "P (es ! i)" "\<forall>j<i. \<not> P (es ! j)"
    by auto
qed

lemma first_slot_NoneD: "first_slot P es 0 = None \<longleftrightarrow> (\<forall>e\<in>set es. \<not> P e)"
  by (auto simp: first_slot_def find_None_iff in_set_conv_nth all_set_conv_all_nth)

locale slot_scan =
  fixes r :: shm_region and s :: machine
    and hit :: "u64 \<Rightarrow> bool option" and scan :: "u32 \<Rightarrow> u64 option"
  assumes scan_step:
    "scan i = Option.bind (rh_dir_capacity r s) (\<lambda>cap.
       if i < cap
       then Option.bind (shm_dir_slot r s i) (\<lambda>e. Option.bind (hit e) (\<lambda>h. if h then Some e else scan (i + 1)))
       else Some 0)"
begin

lemma scan_from:
  assumes d: "dir_rep r s R es" and j: "j \<le> length es"
    and hit: "\<And>i. i < length es \<Longrightarrow> hit (rp r (slot_pos R i)) = Some (P (es ! i))"
  shows "scan (of_nat j) =
    Some (case first_slot P es j of None \<Rightarrow> 0 | Some i \<Rightarrow> rp r (slot_pos R i))"
  using j
proof (induction "length es - j" arbitrary: j)
  case 0
  then have j: "j = length es" by simp
  have "(of_nat j :: u32) = h_dir_capacity R"
    using dir_rep_length [OF d] by (simp add: j)
  then show ?case
    using dir_rep_rh [OF d] by (subst scan_step) (simp add: first_slot_step j)
next
  case (Suc n)
  then have j: "j < length es" by simp
  have cap: "length es = unat (h_dir_capacity R)"
    by (rule dir_rep_length [OF d])
  have uj: "unat (of_nat j :: u32) = j"
    using j cap unat32_bound [of "h_dir_capacity R"] by (simp add: unat_of_nat)
  then have lt: "(of_nat j :: u32) < h_dir_capacity R"
    using j cap by (simp add: word_less_nat_alt)
  have "scan (of_nat (Suc j)) =
      Some (case first_slot P es (Suc j) of None \<Rightarrow> 0 | Some i \<Rightarrow> rp r (slot_pos R i))"
    using Suc j by (intro Suc.hyps(1)) simp_all
  then show ?case
    using dir_rep_rh [OF d] dir_slot_ptr [OF d, of "of_nat j"] hit [OF j] lt uj j
    by (subst scan_step) (simp add: first_slot_step add.commute)
qed

lemma scan_first:
  assumes "dir_rep r s R es" "\<And>i. i < length es \<Longrightarrow> hit (rp r (slot_pos R i)) = Some (P (es ! i))"
  shows "scan 0 = Some (case first_slot P es 0 of None \<Rightarrow> 0 | Some i \<Rightarrow> rp r (slot_pos R i))"
  using scan_from [OF assms(1) _ assms(2), of 0] by simp

end

interpretation by_id: slot_scan r s "slot_has_id r s obj_id" "find_by_id_loop r s obj_id" for r s obj_id
  by unfold_locales (rule find_by_id_loop.simps)

interpretation by_name: slot_scan r s "slot_has_name r s nm" "find_by_name_loop r s nm" for r s nm
  by unfold_locales (rule find_by_name_loop.simps)

interpretation free_slot: slot_scan r s "slot_is_free r s" "find_free_slot_loop r s" for r s
  by unfold_locales (rule find_free_slot_loop.simps)

definition slot_ptr :: "shm_region \<Rightarrow> region_hdr \<Rightarrow> nat option \<Rightarrow> u64" where
  "slot_ptr r R x = (case x of None \<Rightarrow> 0 | Some i \<Rightarrow> rp r (slot_pos R i))"

lemma dir_find_by_id_eq:
  "dir_rep r s R es \<Longrightarrow>
     dir_find_by_id r s obj_id =
       Some (slot_ptr r R (first_slot (\<lambda>e. e_id e = obj_id \<and> e_alive e \<noteq> 0) es 0))"
  unfolding dir_find_by_id_def slot_ptr_def by (rule by_id.scan_first) (simp_all add: slot_has_id_eq)

lemma dir_find_by_name_eq:
  "dir_rep r s R es \<Longrightarrow> \<forall>e\<in>set es. 0 \<in> set (e_name e) \<Longrightarrow> 0 \<notin> set nm \<Longrightarrow>
     dir_find_by_name r s nm =
       Some (slot_ptr r R (first_slot (\<lambda>e. e_alive e \<noteq> 0 \<and> cstr (e_name e) = nm) es 0))"
  unfolding dir_find_by_name_def slot_ptr_def by (rule by_name.scan_first) (simp_all add: slot_has_name_eq)

lemma dir_find_free_slot_eq:
  "dir_rep r s R es \<Longrightarrow> dir_find_free_slot r s = Some (slot_ptr r R (first_slot (\<lambda>e. \<not> live e) es 0))"
  unfolding dir_find_free_slot_def slot_ptr_def by (rule free_slot.scan_first) (simp_all add: slot_is_free_eq)

lemma slot_ptr_nonzero:
  assumes "dir_rep r s R es" "i < length es"
  shows "rp r (slot_pos R i) \<noteq> 0"
  using dir_rep_eview [OF assms] by (intro rp_nonzero) (auto simp: eview_def)

lemma count_live_from:
  assumes d: "dir_rep r s R es" and j: "j \<le> length es"
  shows "count_live_loop r s c (of_nat j) =
    Some (c + of_nat (length (filter (\<lambda>e. e_alive e \<noteq> 0) (drop j es))))"
  using j
proof (induction "length es - j" arbitrary: j c)
  case 0
  then have j: "j = length es" by simp
  have "(of_nat j :: u32) = h_dir_capacity R"
    using dir_rep_length [OF d] by (simp add: j)
  then show ?case
    using dir_rep_rh [OF d] by (subst count_live_loop.simps) (simp add: j)
next
  case (Suc n)
  then have j: "j < length es" by simp
  have cap: "length es = unat (h_dir_capacity R)"
    by (rule dir_rep_length [OF d])
  have uj: "unat (of_nat j :: u32) = j"
    using j cap unat32_bound [of "h_dir_capacity R"] by (simp add: unat_of_nat)
  then have lt: "(of_nat j :: u32) < h_dir_capacity R"
    using j cap by (simp add: word_less_nat_alt)
  have "count_live_loop r s c' (of_nat (Suc j)) =
      Some (c' + of_nat (length (filter (\<lambda>e. e_alive e \<noteq> 0) (drop (Suc j) es))))" for c'
    using Suc j by (intro Suc.hyps(1)) simp_all
  moreover have "drop j es = es ! j # drop (Suc j) es"
    using j by (rule Cons_nth_drop_Suc [symmetric])
  ultimately show ?case
    using dir_rep_rh [OF d] dir_slot_ptr [OF d, of "of_nat j"] eview_loads [OF dir_rep_eview [OF d j]] lt uj
    by (subst count_live_loop.simps) (simp add: add.commute)
qed

lemma dir_count_live_eq:
  "dir_rep r s R es \<Longrightarrow> dir_count_live r s = Some (of_nat (length (filter (\<lambda>e. e_alive e \<noteq> 0) es)))"
  using count_live_from [of r s R es 0 0] by (simp add: dir_count_live_def)

section \<open>Changing one slot\<close>

lemma dir_at_update:
  assumes d: "dir_rep r s R es" and i: "i < length es"
    and v: "eview r s0 s' (slot_pos R i) e" and s0: "mem s0 = mem s"
  shows "dir_rep r s' R (es[i := e])"
proof -
  have out: "mem s' a = mem s a" if "a < slot_pos R i \<or> slot_pos R i + 96 \<le> a" for a
    using v that s0 by (auto simp: eview_def)
  have 200: "200 \<le> slot_pos R i"
    using d by (simp add: dir_rep_def slot_pos_def)
  have rh: "rh_at (mem s') = R"
    using d rh_at_cong [of "mem s'" "mem s"] out 200 by (simp add: dir_rep_def)
  have "ent_at (mem s') (slot_pos R j) = es[i := e] ! j" if j: "j < length es" for j
  proof (cases "j = i")
    case True
    then show ?thesis
      using v i by (simp add: eview_def)
  next
    case False
    have "ent_at (mem s') (slot_pos R j) = ent_at (mem s) (slot_pos R j)"
      using False by (intro ent_at_cong out) (auto simp: slot_pos_def)
    then show ?thesis
      using False dir_rep_eview [OF d j] by (simp add: eview_def)
  qed
  then have "dir_at (mem s') R = es[i := e]"
    using dir_rep_length [OF d] by (intro nth_equalityI) (simp_all add: dir_at_def)
  with d rh show ?thesis
    by (simp add: dir_rep_def)
qed

end
