(* ===== verification/Shm_Region.thy ===== *)
theory Shm_Region
  imports Shm_Directory "HOL-Library.Multiset"
begin

text \<open>
  The region as a whole: the robust mutex with its recovery, \<open>region_lock\<close> and
  \<open>region_unlock\<close>, the pool invariant, and \<open>region_init\<close> (\<open>src/src/shm_alloc.c\<close>).

  \<open>pool_inv\<close> ties the parts of a region together: the heap represents a coalesced list of
  blocks, the counters agree with it, and the live directory entries are exactly the allocated
  blocks, with the same offsets, capacities, owners, permissions and ids. \<open>region_init\<close>
  establishes it whenever the directory and one block fit, and faults when they do not.
\<close>

section \<open>The mutex\<close>

text \<open>The robust mutex operations of the pthread library, as POSIX documents them.\<close>

definition pthread_mutex_lock :: "machine \<Rightarrow> (errno \<times> machine) option" where
  "pthread_mutex_lock s =
     (case mutex s of
        MUnlocked \<Rightarrow> Some (OK, s\<lparr>mutex := MLocked\<rparr>)
      | MLocked \<Rightarrow> None
      | MInconsistent \<Rightarrow> None
      | MOwnerDead \<Rightarrow> Some (EOWNERDEAD, s\<lparr>mutex := MInconsistent\<rparr>)
      | MNotRecoverable \<Rightarrow> Some (ENOTRECOVERABLE, s))"

definition pthread_mutex_consistent :: "machine \<Rightarrow> machine" where
  "pthread_mutex_consistent s = (if mutex s = MInconsistent then s\<lparr>mutex := MLocked\<rparr> else s)"

definition pthread_mutex_unlock :: "machine \<Rightarrow> machine" where
  "pthread_mutex_unlock s =
     (case mutex s of
        MLocked \<Rightarrow> s\<lparr>mutex := MUnlocked\<rparr>
      | MInconsistent \<Rightarrow> s\<lparr>mutex := MNotRecoverable\<rparr>
      | _ \<Rightarrow> s)"

definition region_lock :: "shm_region \<Rightarrow> machine \<Rightarrow> (errno \<times> machine) option" where
  "region_lock r s =
     (if in_map r (shm_rh r + 16) 40
      then do {
        (rc, s) \<leftarrow> pthread_mutex_lock s;
        if rc = EOWNERDEAD then Some (OK, pthread_mutex_consistent s) else Some (rc, s) }
      else None)"

definition region_unlock :: "shm_region \<Rightarrow> machine \<Rightarrow> machine option" where
  "region_unlock r s = (if in_map r (shm_rh r + 16) 40 then Some (pthread_mutex_unlock s) else None)"

text \<open>The states in which a lock attempt succeeds.\<close>

definition lockable :: "machine \<Rightarrow> bool" where
  "lockable s \<longleftrightarrow> mutex s = MUnlocked \<or> mutex s = MOwnerDead"

lemma mutex_in_map: "mapped r \<Longrightarrow> 200 \<le> unat (rsize r) \<Longrightarrow> in_map r (shm_rh r + 16) 40"
  using region_off_base_field [of 0 "num.Bit0 (num.Bit0 (num.Bit0 (num.Bit0 num.One)))" r]
  by (simp add: in_map_def shm_rh_def)

lemma region_lock_lockable:
  "mapped r \<Longrightarrow> 200 \<le> unat (rsize r) \<Longrightarrow> lockable s \<Longrightarrow>
     region_lock r s = Some (OK, s\<lparr>mutex := MLocked\<rparr>)"
  by (auto simp: region_lock_def lockable_def pthread_mutex_lock_def pthread_mutex_consistent_def mutex_in_map)

lemma region_unlock_locked:
  "mapped r \<Longrightarrow> 200 \<le> unat (rsize r) \<Longrightarrow> mutex s = MLocked \<Longrightarrow>
     region_unlock r s = Some (s\<lparr>mutex := MUnlocked\<rparr>)"
  by (simp add: region_unlock_def pthread_mutex_unlock_def mutex_in_map)

section \<open>Objects\<close>

text \<open>An object is its payload offset, its capacity and its owner data.\<close>

type_synonym obj = "nat \<times> nat \<times> owner_info"

primrec blk_objs :: "nat \<Rightarrow> ablk list \<Rightarrow> obj list" where
  "blk_objs h [] = []"
| "blk_objs h (b # bs) =
     (case aown b of None \<Rightarrow> [] | Some i \<Rightarrow> [(h + 56, acap b, i)]) @ blk_objs (h + asz b) bs"

definition ent_obj :: "obj_entry \<Rightarrow> obj" where
  "ent_obj e = (unat (e_off e), unat (e_capacity e),
     \<lparr>o_tag = e_type_tag e, o_owner = e_owner e, o_perms = e_perms e, o_id = e_id e\<rparr>)"

definition dir_objs :: "obj_entry list \<Rightarrow> obj list" where
  "dir_objs es = map ent_obj (filter live es)"

lemma blk_objs_append [simp]: "blk_objs h (xs @ ys) = blk_objs h xs @ blk_objs (h + span xs) ys"
  by (induction xs arbitrary: h) (simp_all add: add.assoc)

lemma blk_objs_free: "is_free b \<Longrightarrow> blk_objs h (b # bs) = blk_objs (h + asz b) bs"
  by (simp add: is_free_def)

lemma merge_next_objs:
  "is_free b \<Longrightarrow> blk_objs h (merge_next b ys) = blk_objs (h + asz b) ys"
  by (cases ys) (simp_all add: blk_objs_free add.assoc is_free_def)

lemma merge_prev_objs:
  assumes "zs \<noteq> []" "is_free (hd zs)"
  shows "blk_objs h (merge_prev xs zs) = blk_objs h xs @ blk_objs (h + span xs) zs"
proof -
  obtain z zs' where zs: "zs = z # zs'" using assms by (cases zs) auto
  show ?thesis
    using assms by (cases xs rule: rev_cases) (auto simp: merge_prev_def zs is_free_def add.assoc)
qed

text \<open>Releasing a block removes its object and moves no other.\<close>

lemma insert_free_objs:
  "blk_objs 0 (insert_free xs b ys) = blk_objs 0 xs @ blk_objs (span xs + asz b) ys"
  by (simp add: insert_free_def merge_prev_objs merge_next_props merge_next_objs)

lemma take_block_objs:
  assumes "n \<le> asz b"
  shows "blk_objs h (take_block n i b) = [(h + 56, if n + 64 \<le> asz b then n - 56 else acap b, i)]"
  using assms by (simp add: take_block_def)

lemma blk_objs_split:
  assumes "(off, cap, i) \<in> set (blk_objs h bs)"
  obtains xs b ys where "bs = xs @ b # ys" "aown b = Some i" "off = h + span xs + 56" "cap = acap b"
proof -
  have "\<exists>xs b ys. bs = xs @ b # ys \<and> aown b = Some i \<and> off = h + span xs + 56 \<and> cap = acap b"
    using assms
  proof (induction bs arbitrary: h)
    case (Cons c bs)
    show ?case
    proof (cases "(off, cap, i) \<in> set (blk_objs (h + asz c) bs)")
      case True
      with Cons.IH obtain xs b ys where "bs = xs @ b # ys" "aown b = Some i"
        "off = h + asz c + span xs + 56" "cap = acap b" by blast
      then show ?thesis by (intro exI [of _ "c # xs"]) auto
    next
      case False
      with Cons.prems show ?thesis
        by (intro exI [of _ "[]"]) (auto split: option.splits)
    qed
  qed simp
  with that show thesis by blast
qed

section \<open>The pool invariant\<close>

definition entry_ok :: "u64 \<Rightarrow> obj_entry \<Rightarrow> bool" where
  "entry_ok nid e \<longleftrightarrow>
     0 \<in> set (e_name e) \<and> (if live e then e_alive e = 1 \<and> e_id e < nid else e_alive e = 0 \<and> e_id e = 0)"

definition dir_ok :: "u64 \<Rightarrow> obj_entry list \<Rightarrow> ablk list \<Rightarrow> bool" where
  "dir_ok nid es bs \<longleftrightarrow>
     list_all (entry_ok nid) es \<and> distinct (map e_id (filter live es)) \<and>
     mset (dir_objs es) = mset (blk_objs 0 bs)"

definition pool_inv :: "shm_region \<Rightarrow> machine \<Rightarrow> region_hdr \<Rightarrow> ablk list \<Rightarrow> obj_entry list \<Rightarrow> bool" where
  "pool_inv r s R bs es \<longleftrightarrow>
     heap_rep r s R bs \<and> dir_rep r s R es \<and> acct R bs \<and> coalesced bs \<and>
     dir_ok (h_next_id R) es bs \<and>
     h_magic R = SHM_ALLOC_MAGIC_REGION \<and> h_version R = SHM_ALLOC_VERSION \<and> 1 \<le> h_next_id R"

definition region_inv :: "shm_region \<Rightarrow> machine \<Rightarrow> bool" where
  "region_inv r s \<longleftrightarrow> (\<exists>R bs es. pool_inv r s R bs es)"

lemma pool_invD:
  assumes "pool_inv r s R bs es"
  shows "heap_rep r s R bs" "dir_rep r s R es" "acct R bs" "coalesced bs" "dir_ok (h_next_id R) es bs"
    "mapped r" "200 \<le> unat (rsize r)" "rh_at (mem s) = R"
  using assms by (auto simp: pool_inv_def heap_rep_bytes)

text \<open>The invariant speaks of bytes only: neither the mutex nor the place of the mapping matters.\<close>

lemma pool_inv_bytes:
  assumes "pool_inv r s R bs es" "mem s' = mem s" "mapped r'" "rsize r' = rsize r"
  shows "pool_inv r' s' R bs es"
  using assms by (simp add: pool_inv_def heap_rep_bytes dir_rep_def)

lemma dir_objs_update:
  assumes "i < length es"
  shows "mset (dir_objs (es[i := e])) + (if live (es ! i) then {#ent_obj (es ! i)#} else {#}) =
     mset (dir_objs es) + (if live e then {#ent_obj e#} else {#})"
proof -
  have *: "es = take i es @ es ! i # drop (Suc i) es"
    using assms by (rule id_take_nth_drop)
  have "es[i := e] = take i es @ e # drop (Suc i) es"
    using assms by (rule upd_conv_take_nth_drop)
  moreover have "dir_objs es = dir_objs (take i es) @ dir_objs [es ! i] @ dir_objs (drop (Suc i) es)"
    by (subst *) (simp add: dir_objs_def)
  ultimately show ?thesis
    by (simp add: dir_objs_def)
qed

section \<open>Writing the region header before the layout is known\<close>

text \<open>
  \<open>rview\<close> is the view \<open>region_init\<close> starts with: only the region header is interpreted.
\<close>

definition rview :: "shm_region \<Rightarrow> machine \<Rightarrow> machine \<Rightarrow> region_hdr \<Rightarrow> bool" where
  "rview r s0 s R \<longleftrightarrow>
     mapped r \<and> 200 \<le> unat (rsize r) \<and> rh_at (mem s) = R \<and>
     (\<forall>a. 200 \<le> a \<longrightarrow> mem s a = mem s0 a) \<and> cmode s = cmode s0"

lemma rview_put:
  assumes "rview r s0 s R" "\<And>a. 200 \<le> a \<Longrightarrow> m' a = mem s a" "rh_at m' = R'"
  shows "rview r s0 (s\<lparr>mem := m'\<rparr>) R'"
  using assms by (simp add: rview_def)

lemma region_off_rh_field:
  assumes "numeral k \<le> (200 :: nat)"
  shows "region_off r (shm_rh r + numeral k) = numeral k"
proof -
  have "0 + numeral k < (2 ^ 64 :: nat)"
    using le_less_trans [OF assms, of "2 ^ 64"] by simp
  then show ?thesis
    using region_off_base_field [of 0 k r] by (simp add: shm_rh_def)
qed

lemma rview_field:
  assumes "rview r s0 s R" "numeral k + n \<le> (200 :: nat)"
  shows "in_map r (shm_rh r + numeral k) n"
proof -
  have "numeral k \<le> (200 :: nat)"
    using assms(2) by linarith
  then show ?thesis
    unfolding in_map_def using assms by (simp only: region_off_rh_field) (simp add: rview_def)
qed

lemma region_off_rh: "region_off r (shm_rh r) = 0"
  by (simp add: region_off_def shm_rh_def)

lemma rview_magic_field: "rview r s0 s R \<Longrightarrow> in_map r (shm_rh r) 4"
  by (simp add: in_map_def region_off_rh rview_def)

lemma wp_init_magic:
  assumes v: "rview r s0 s R" and Q: "\<And>s'. rview r s0 s' (R\<lparr>h_magic := v\<rparr>) \<Longrightarrow> Q s'"
  shows "runs (set_rh_magic r s v) Q"
proof -
  have "rview r s0 (s\<lparr>mem := put32 (mem s) 0 v\<rparr>) (R\<lparr>h_magic := v\<rparr>)"
    by (rule rview_put [OF v]) (use v in \<open>auto simp: put_outside view_simps rview_def\<close>)
  from Q [OF this] show ?thesis
    by (simp add: set_rh_magic_def wr32_def region_off_rh region_off_rh_field rview_magic_field [OF v] rview_field [OF v])
qed

lemma wp_init_version:
  assumes v: "rview r s0 s R" and Q: "\<And>s'. rview r s0 s' (R\<lparr>h_version := v\<rparr>) \<Longrightarrow> Q s'"
  shows "runs (set_rh_version r s v) Q"
proof -
  have "rview r s0 (s\<lparr>mem := put32 (mem s) 4 v\<rparr>) (R\<lparr>h_version := v\<rparr>)"
    by (rule rview_put [OF v]) (use v in \<open>auto simp: put_outside view_simps rview_def\<close>)
  from Q [OF this] show ?thesis
    by (simp add: set_rh_version_def wr32_def region_off_rh region_off_rh_field rview_magic_field [OF v] rview_field [OF v])
qed

lemma wp_init_backend:
  assumes v: "rview r s0 s R" and Q: "\<And>s'. rview r s0 s' (R\<lparr>h_backend := v\<rparr>) \<Longrightarrow> Q s'"
  shows "runs (set_rh_backend r s v) Q"
proof -
  have "rview r s0 (s\<lparr>mem := put32 (mem s) 8 v\<rparr>) (R\<lparr>h_backend := v\<rparr>)"
    by (rule rview_put [OF v]) (use v in \<open>auto simp: put_outside view_simps rview_def\<close>)
  from Q [OF this] show ?thesis
    by (simp add: set_rh_backend_def wr32_def region_off_rh region_off_rh_field rview_magic_field [OF v] rview_field [OF v])
qed

lemma wp_init_dir_capacity:
  assumes v: "rview r s0 s R" and Q: "\<And>s'. rview r s0 s' (R\<lparr>h_dir_capacity := v\<rparr>) \<Longrightarrow> Q s'"
  shows "runs (set_rh_dir_capacity r s v) Q"
proof -
  have "rview r s0 (s\<lparr>mem := put32 (mem s) 12 v\<rparr>) (R\<lparr>h_dir_capacity := v\<rparr>)"
    by (rule rview_put [OF v]) (use v in \<open>auto simp: put_outside view_simps rview_def\<close>)
  from Q [OF this] show ?thesis
    by (simp add: set_rh_dir_capacity_def wr32_def region_off_rh region_off_rh_field rview_magic_field [OF v] rview_field [OF v])
qed

lemma wp_init_host_count:
  assumes v: "rview r s0 s R" and Q: "\<And>s'. rview r s0 s' (R\<lparr>h_host_count := v\<rparr>) \<Longrightarrow> Q s'"
  shows "runs (set_rh_host_count r s v) Q"
proof -
  have "rview r s0 (s\<lparr>mem := put32 (mem s) 56 v\<rparr>) (R\<lparr>h_host_count := v\<rparr>)"
    by (rule rview_put [OF v]) (use v in \<open>auto simp: put_outside view_simps rview_def\<close>)
  from Q [OF this] show ?thesis
    by (simp add: set_rh_host_count_def wr32_def region_off_rh region_off_rh_field rview_magic_field [OF v] rview_field [OF v])
qed

lemma wp_init_region_size:
  assumes v: "rview r s0 s R" and Q: "\<And>s'. rview r s0 s' (R\<lparr>h_region_size := v\<rparr>) \<Longrightarrow> Q s'"
  shows "runs (set_rh_region_size r s v) Q"
proof -
  have "rview r s0 (s\<lparr>mem := put64 (mem s) 64 v\<rparr>) (R\<lparr>h_region_size := v\<rparr>)"
    by (rule rview_put [OF v]) (use v in \<open>auto simp: put_outside view_simps rview_def\<close>)
  from Q [OF this] show ?thesis
    by (simp add: set_rh_region_size_def wr64_def region_off_rh region_off_rh_field rview_magic_field [OF v] rview_field [OF v])
qed

lemma wp_init_dir_offset:
  assumes v: "rview r s0 s R" and Q: "\<And>s'. rview r s0 s' (R\<lparr>h_dir_offset := v\<rparr>) \<Longrightarrow> Q s'"
  shows "runs (set_rh_dir_offset r s v) Q"
proof -
  have "rview r s0 (s\<lparr>mem := put64 (mem s) 72 v\<rparr>) (R\<lparr>h_dir_offset := v\<rparr>)"
    by (rule rview_put [OF v]) (use v in \<open>auto simp: put_outside view_simps rview_def\<close>)
  from Q [OF this] show ?thesis
    by (simp add: set_rh_dir_offset_def wr64_def region_off_rh region_off_rh_field rview_magic_field [OF v] rview_field [OF v])
qed

lemma wp_init_data_offset:
  assumes v: "rview r s0 s R" and Q: "\<And>s'. rview r s0 s' (R\<lparr>h_data_offset := v\<rparr>) \<Longrightarrow> Q s'"
  shows "runs (set_rh_data_offset r s v) Q"
proof -
  have "rview r s0 (s\<lparr>mem := put64 (mem s) 80 v\<rparr>) (R\<lparr>h_data_offset := v\<rparr>)"
    by (rule rview_put [OF v]) (use v in \<open>auto simp: put_outside view_simps rview_def\<close>)
  from Q [OF this] show ?thesis
    by (simp add: set_rh_data_offset_def wr64_def region_off_rh region_off_rh_field rview_magic_field [OF v] rview_field [OF v])
qed

lemma wp_init_free_list:
  assumes v: "rview r s0 s R" and Q: "\<And>s'. rview r s0 s' (R\<lparr>h_free_list := v\<rparr>) \<Longrightarrow> Q s'"
  shows "runs (set_rh_free_list r s v) Q"
proof -
  have "rview r s0 (s\<lparr>mem := put64 (mem s) 88 v\<rparr>) (R\<lparr>h_free_list := v\<rparr>)"
    by (rule rview_put [OF v]) (use v in \<open>auto simp: put_outside view_simps rview_def\<close>)
  from Q [OF this] show ?thesis
    by (simp add: set_rh_free_list_def wr64_def region_off_rh region_off_rh_field rview_magic_field [OF v] rview_field [OF v])
qed

lemma wp_init_used_bytes:
  assumes v: "rview r s0 s R" and Q: "\<And>s'. rview r s0 s' (R\<lparr>h_used_bytes := v\<rparr>) \<Longrightarrow> Q s'"
  shows "runs (set_rh_used_bytes r s v) Q"
proof -
  have "rview r s0 (s\<lparr>mem := put64 (mem s) 96 v\<rparr>) (R\<lparr>h_used_bytes := v\<rparr>)"
    by (rule rview_put [OF v]) (use v in \<open>auto simp: put_outside view_simps rview_def\<close>)
  from Q [OF this] show ?thesis
    by (simp add: set_rh_used_bytes_def wr64_def region_off_rh region_off_rh_field rview_magic_field [OF v] rview_field [OF v])
qed

lemma wp_init_block_count:
  assumes v: "rview r s0 s R" and Q: "\<And>s'. rview r s0 s' (R\<lparr>h_block_count := v\<rparr>) \<Longrightarrow> Q s'"
  shows "runs (set_rh_block_count r s v) Q"
proof -
  have "rview r s0 (s\<lparr>mem := put64 (mem s) 104 v\<rparr>) (R\<lparr>h_block_count := v\<rparr>)"
    by (rule rview_put [OF v]) (use v in \<open>auto simp: put_outside view_simps rview_def\<close>)
  from Q [OF this] show ?thesis
    by (simp add: set_rh_block_count_def wr64_def region_off_rh region_off_rh_field rview_magic_field [OF v] rview_field [OF v])
qed

lemma wp_init_next_id:
  assumes v: "rview r s0 s R" and Q: "\<And>s'. rview r s0 s' (R\<lparr>h_next_id := v\<rparr>) \<Longrightarrow> Q s'"
  shows "runs (set_rh_next_id r s v) Q"
proof -
  have "rview r s0 (s\<lparr>mem := put64 (mem s) 112 v\<rparr>) (R\<lparr>h_next_id := v\<rparr>)"
    by (rule rview_put [OF v]) (use v in \<open>auto simp: put_outside view_simps rview_def\<close>)
  from Q [OF this] show ?thesis
    by (simp add: set_rh_next_id_def wr64_def region_off_rh region_off_rh_field rview_magic_field [OF v] rview_field [OF v])
qed

lemma wp_init_ns_inode:
  assumes v: "rview r s0 s R" and Q: "\<And>s'. rview r s0 s' (R\<lparr>h_ns_inode := v\<rparr>) \<Longrightarrow> Q s'"
  shows "runs (set_rh_ns_inode r s v) Q"
proof -
  have "rview r s0 (s\<lparr>mem := put64 (mem s) 120 v\<rparr>) (R\<lparr>h_ns_inode := v\<rparr>)"
    by (rule rview_put [OF v]) (use v in \<open>auto simp: put_outside view_simps rview_def\<close>)
  from Q [OF this] show ?thesis
    by (simp add: set_rh_ns_inode_def wr64_def region_off_rh region_off_rh_field rview_magic_field [OF v] rview_field [OF v])
qed

lemma wp_init_cgroup_hash:
  assumes v: "rview r s0 s R" and Q: "\<And>s'. rview r s0 s' (R\<lparr>h_cgroup_hash := v\<rparr>) \<Longrightarrow> Q s'"
  shows "runs (set_rh_cgroup_hash r s v) Q"
proof -
  have "rview r s0 (s\<lparr>mem := put64 (mem s) 128 v\<rparr>) (R\<lparr>h_cgroup_hash := v\<rparr>)"
    by (rule rview_put [OF v]) (use v in \<open>auto simp: put_outside view_simps rview_def\<close>)
  from Q [OF this] show ?thesis
    by (simp add: set_rh_cgroup_hash_def wr64_def region_off_rh region_off_rh_field rview_magic_field [OF v] rview_field [OF v])
qed

lemmas wp_init_rules =
  wp_init_magic wp_init_version wp_init_backend wp_init_dir_capacity
  wp_init_host_count wp_init_region_size wp_init_dir_offset wp_init_data_offset
  wp_init_free_list wp_init_used_bytes wp_init_block_count wp_init_next_id
  wp_init_ns_inode wp_init_cgroup_hash

section \<open>region_init\<close>

text \<open>\<open>(uint32_t) backend\<close>.\<close>

primrec backend_code :: "shm_backend \<Rightarrow> u32" where
  "backend_code SHM_BACKEND_POSIX = 0"
| "backend_code SHM_BACKEND_DAX = 1"

definition region_init_hdr ::
    "shm_region \<Rightarrow> machine \<Rightarrow> u64 \<Rightarrow> shm_backend \<Rightarrow> u32 \<Rightarrow> u64 \<Rightarrow> u64 \<Rightarrow> u64 \<Rightarrow> u64 \<Rightarrow> machine option" where
  "region_init_hdr r s total_size backend dir_cap dir_off data_off ns cg = do {
     s \<leftarrow> set_rh_magic r s SHM_ALLOC_MAGIC_REGION;
     s \<leftarrow> set_rh_version r s SHM_ALLOC_VERSION;
     s \<leftarrow> set_rh_backend r s (backend_code backend);
     s \<leftarrow> set_rh_dir_capacity r s dir_cap;
     s \<leftarrow> set_rh_region_size r s total_size;
     s \<leftarrow> set_rh_dir_offset r s dir_off;
     s \<leftarrow> set_rh_data_offset r s data_off;
     s \<leftarrow> set_rh_used_bytes r s 0;
     s \<leftarrow> set_rh_block_count r s 0;
     s \<leftarrow> set_rh_next_id r s 1;
     s \<leftarrow> set_rh_host_count r s 0;
     s \<leftarrow> set_rh_ns_inode r s ns;
     set_rh_cgroup_hash r s cg }"

definition region_init_block :: "shm_region \<Rightarrow> machine \<Rightarrow> u64 \<Rightarrow> machine option" where
  "region_init_block r s heap_sz = do {
     initial \<leftarrow> shm_blk_at_hoff r s 0;
     s \<leftarrow> set_blk_magic r s initial SHM_ALLOC_MAGIC_BLOCK;
     s \<leftarrow> set_blk_type_tag r s initial 0;
     s \<leftarrow> set_blk_owner r s initial 0;
     s \<leftarrow> set_blk_perms r s initial 0;
     s \<leftarrow> set_blk_allocated r s initial 0;
     s \<leftarrow> set_blk_obj_id r s initial 0;
     s \<leftarrow> set_blk_payload_cap r s initial (heap_sz - SIZEOF_BLOCK_HDR);
     s \<leftarrow> set_blk_total_size r s initial heap_sz;
     set_blk_next_free r s initial 0 }"

text \<open>\<open>ns\<close> and \<open>cg\<close> are the results of \<open>shm_ns_ipc_inode\<close> and \<open>shm_ns_cgroup_hash\<close>.\<close>

definition region_init ::
    "shm_region \<Rightarrow> machine \<Rightarrow> u64 \<Rightarrow> shm_backend \<Rightarrow> u32 \<Rightarrow> cstring option \<Rightarrow> u64 \<Rightarrow> u64 \<Rightarrow> machine option" where
  "region_init r s total_size backend dir_cap name ns cg = do {
     let hdr_sz = shm_align_up SIZEOF_REGION_HDR HEAP_ALIGN;
     let dir_off = hdr_sz;
     let dir_sz = shm_align_up (ucast dir_cap * SIZEOF_OBJ_ENTRY) HEAP_ALIGN;
     let data_off = dir_off + dir_sz;
     s \<leftarrow> memset r s (rbase r) 0 total_size;
     s \<leftarrow> region_init_hdr r s total_size backend dir_cap dir_off data_off ns cg;
     s \<leftarrow> (case name of None \<Rightarrow> Some s | Some nm \<Rightarrow> strncpy r s (shm_rh r + 136) nm (64 - 1));
     let s = s\<lparr>mutex := MUnlocked\<rparr>;
     let heap_sz = total_size - data_off;
     s \<leftarrow> region_init_block r s heap_sz;
     s \<leftarrow> set_rh_free_list r s (shm_link_enc 0);
     s \<leftarrow> shm_persist r s (rbase r) (data_off + SIZEOF_BLOCK_HDR);
     Some (shm_drain s) }"

text \<open>What it leaves in the header, for the data offset \<open>d\<close>.\<close>

definition init_rh :: "u64 \<Rightarrow> shm_backend \<Rightarrow> u32 \<Rightarrow> u64 \<Rightarrow> u64 \<Rightarrow> u64 \<Rightarrow> region_hdr" where
  "init_rh total_size backend dir_cap fl ns cg =
     \<lparr>h_magic = SHM_ALLOC_MAGIC_REGION, h_version = SHM_ALLOC_VERSION, h_backend = backend_code backend,
      h_dir_capacity = dir_cap, h_host_count = 0, h_region_size = total_size, h_dir_offset = 200,
      h_data_offset = 200 + ucast dir_cap * 96, h_free_list = fl, h_used_bytes = 0, h_block_count = 0,
      h_next_id = 1, h_ns_inode = ns, h_cgroup_hash = cg\<rparr>"

lemma shm_align_up_8:
  assumes "unat n + 7 < 2 ^ 64"
  shows "unat (shm_align_up n 8) = (unat n + 7) div 8 * 8"
proof -
  have "shm_align_up n 8 = (n + 7) AND NOT (mask 3)"
    by (simp add: shm_align_up_def mask_eq_exp_minus_1 add.commute)
  moreover have "unat (n + 7) = unat n + 7"
    using assms by (rule unat64_add_numeral)
  ultimately show ?thesis
    using unat_and_not_mask [of "n + 7" 3] by simp
qed

lemma unat_dir_bytes: "unat (ucast (cap :: u32) * 96 :: u64) = 96 * unat cap"
proof -
  have "96 * unat cap < 2 ^ 64"
    using unat32_bound [of cap] by simp
  then have "unat (of_nat (96 * unat cap) :: u64) = 96 * unat cap"
    by (rule unat64)
  then show ?thesis
    by (simp add: mult.commute)
qed

lemma init_layout:
  "shm_align_up SIZEOF_REGION_HDR HEAP_ALIGN = 200"
  "shm_align_up (ucast (cap :: u32) * SIZEOF_OBJ_ENTRY) HEAP_ALIGN = ucast cap * 96"
proof -
  show "shm_align_up SIZEOF_REGION_HDR HEAP_ALIGN = 200"
    by (simp add: shm_align_up_def layout_consts)
  have "unat (shm_align_up (ucast cap * 96) 8) = unat (ucast cap * 96 :: u64)"
    using unat32_bound [of cap] by (subst shm_align_up_8) (simp_all add: unat_dir_bytes)
  then have "shm_align_up (ucast cap * 96) 8 = (ucast cap * 96 :: u64)"
    by (rule word_unat_eq_iff [THEN iffD2])
  then show "shm_align_up (ucast (cap :: u32) * SIZEOF_OBJ_ENTRY) HEAP_ALIGN = ucast cap * 96"
    by (simp add: layout_consts)
qed

lemma unat_init_data_offset: "unat (200 + ucast (cap :: u32) * 96 :: u64) = 200 + 96 * unat cap"
proof -
  have "unat (ucast cap * 96 :: u64) + numeral (num.Bit0 (num.Bit0 (num.Bit0 (num.Bit1 (num.Bit0 (num.Bit0 (num.Bit1 num.One))))))) < 2 ^ 64"
    using unat32_bound [of cap] by (simp add: unat_dir_bytes)
  from unat64_add_numeral [OF this] show ?thesis
    by (simp add: unat_dir_bytes add.commute)
qed

lemma wp_region_init_hdr:
  assumes v: "rview r s0 s R"
    and Q: "\<And>s'. rview r s0 s' (init_rh total_size backend dir_cap (h_free_list R) ns cg) \<Longrightarrow> Q s'"
  shows "runs (region_init_hdr r s total_size backend dir_cap 200 (200 + ucast dir_cap * 96) ns cg) Q"
  unfolding region_init_hdr_def runs_bind
  by (insert v, (rule wp_init_rules, assumption)+, rule Q) (cases R, simp add: init_rh_def)

lemma rh_at_cong_136:
  assumes "\<And>a. a < 136 \<Longrightarrow> m a = m' a"
  shows "rh_at m = rh_at m'"
  unfolding rh_at_def using assms
  by (simp add: c32.get_frame [of _ m m'] c64.get_frame [of _ m m'])

lemma wp_init_name:
  assumes v: "rview r s0 s R" and Q: "\<And>s'. rview r s0 s' R \<Longrightarrow> Q s'"
  shows "runs (case name of None \<Rightarrow> Some s | Some nm \<Rightarrow> strncpy r s (shm_rh r + 136) nm (64 - 1)) Q"
proof (cases name)
  case None
  then show ?thesis using v Q by simp
next
  case (Some nm)
  define cs where "cs = take 63 (nm @ replicate 63 0)"
  have len: "length cs = 63" by (simp add: cs_def)
  let ?m' = "\<lambda>x. if 136 \<le> x \<and> x < 136 + length cs then cs ! (x - 136) else mem s x"
  have "rh_at ?m' = rh_at (mem s)"
    by (rule rh_at_cong_136) simp
  then have "rview r s0 (s\<lparr>mem := ?m'\<rparr>) R"
    using v by (intro rview_put [OF v]) (auto simp: len rview_def)
  moreover have "strncpy r s (shm_rh r + 136) nm (64 - 1) = Some (s\<lparr>mem := ?m'\<rparr>)"
    using wr_bytes_mem [of 136 cs r s] v len by (simp add: strncpy_def shm_rh_def cs_def rview_def)
  ultimately show ?thesis
    using Q Some by simp
qed

text \<open>The first block of a fresh region.\<close>

definition init_blocks :: "nat \<Rightarrow> ablk list" where
  "init_blocks sz = [\<lparr>asz = sz, acap = sz - 56, aown = None\<rparr>]"

lemma wp_region_init_block:
  assumes v: "hview r s0 s D H R" "0 \<in> D"
    and Q: "\<And>s'. hview r s0 s' D (H(0 := \<lparr>b_magic = SHM_ALLOC_MAGIC_BLOCK, b_type_tag = 0, b_owner = 0,
        b_perms = 0, b_allocated = 0, b_obj_id = 0, b_payload_cap = heap_sz - 56,
        b_total_size = heap_sz, b_next_free = 0\<rparr>)) R \<Longrightarrow> Q s'"
  shows "runs (region_init_block r s heap_sz) Q"
proof -
  have ptr: "shm_blk_at_hoff r s 0 = Some (bp r (h_data_offset R) 0)"
    using hview_ptrs(3) [OF v(1) refl, of 0] by simp
  show ?thesis
    unfolding region_init_block_def ptr runs_bind runs_Some
    apply (insert v(1))
    apply (rule wp_set_blk_magic, assumption, rule v(2), rule refl)
    apply (rule wp_set_blk_type_tag, assumption, rule v(2), rule refl)
    apply (rule wp_set_blk_owner, assumption, rule v(2), rule refl)
    apply (rule wp_set_blk_perms, assumption, rule v(2), rule refl)
    apply (rule wp_set_blk_allocated, assumption, rule v(2), rule refl)
    apply (rule wp_set_blk_obj_id, assumption, rule v(2), rule refl)
    apply (rule wp_set_blk_payload_cap, assumption, rule v(2), rule refl)
    apply (rule wp_set_blk_total_size, assumption, rule v(2), rule refl)
    apply (rule wp_set_blk_next_free, assumption, rule v(2), rule refl)
    apply (rule Q)
    apply (simp add: block_hdr_all_upd SIZEOF_BLOCK_HDR_def)
    done
qed

lemma hview_mutex: "hview r s0 s D H R \<Longrightarrow> hview r s s' D H R' \<Longrightarrow> mutex s' = mutex s \<and> cmode s' = cmode s"
  by (simp add: hview_def)

lemma heap_rep_mem: "mem s' = mem s \<Longrightarrow> heap_rep r s' R bs = heap_rep r s R bs"
  by (simp add: heap_rep_bytes)

lemma dir_rep_mem: "mem s' = mem s \<Longrightarrow> dir_rep r s' R es = dir_rep r s R es"
  by (simp add: dir_rep_def)

lemma region_init_rep:
  assumes m: "mapped r" and fit: "256 + 96 * unat cap \<le> unat (rsize r)"
  shows "runs (region_init r s (rsize r) backend cap name ns cg)
    (\<lambda>s'. heap_rep r s' (init_rh (rsize r) backend cap 1 ns cg) (init_blocks (unat (rsize r) - (200 + 96 * unat cap))) \<and>
         dir_rep r s' (init_rh (rsize r) backend cap 1 ns cg) (replicate (unat cap) zero_ent) \<and>
         mutex s' = MUnlocked \<and> cmode s' = cmode s \<and>
         (\<forall>a. 256 + 96 * unat cap \<le> a \<and> a < unat (rsize r) \<longrightarrow> mem s' a = 0))"
proof -
  let ?d = "200 + 96 * unat cap"
  let ?d64 = "200 + ucast cap * 96 :: u64"
  let ?sz = "unat (rsize r) - ?d"
  let ?Ri = "init_rh (rsize r) backend cap 0 ns cg" and ?R = "init_rh (rsize r) backend cap 1 ns cg"
  let ?m1 = "\<lambda>a. if a < unat (rsize r) then 0 else mem s a"
  have d64: "unat ?d64 = ?d" by (rule unat_init_data_offset)
  have heap: "rsize r - ?d64 = of_nat ?sz"
    using fit d64 by (intro unat64_eqD) (simp add: unat_sub word_le_nat_alt)
  have sz_lt: "?sz < 2 ^ 64"
    using unat64_bound [of "rsize r"] by linarith
  have memset: "memset r s (rbase r) 0 (rsize r) = Some (s\<lparr>mem := ?m1\<rparr>)"
    using fit region_off_rh [of r] by (auto simp: memset_def in_map_def shm_rh_def unat_eq_0)
  have fl0: "h_free_list (rh_at ?m1) = 0"
    using get_le_zero [of 8 ?m1 88] fit by (simp add: rh_at_def get64_def)
  have v1: "rview r (s\<lparr>mem := ?m1\<rparr>) (s\<lparr>mem := ?m1\<rparr>) (rh_at ?m1)"
    using m fit by (simp add: rview_def)
  have fin: "heap_rep r s' ?R (init_blocks ?sz) \<and> dir_rep r s' ?R (replicate (unat cap) zero_ent) \<and>
      (\<forall>a. 256 + 96 * unat cap \<le> a \<and> a < unat (rsize r) \<longrightarrow> mem s' a = 0)"
    if v: "hview r s0 s' {0} (H(0 := \<lparr>b_magic = SHM_ALLOC_MAGIC_BLOCK, b_type_tag = 0, b_owner = 0,
        b_perms = 0, b_allocated = 0, b_obj_id = 0, b_payload_cap = of_nat ?sz - 56,
        b_total_size = of_nat ?sz, b_next_free = 0\<rparr>)) ?R"
      and m0: "\<And>a. 200 \<le> a \<Longrightarrow> mem s0 a = ?m1 a" for s0 s' H
  proof -
    let ?b = "\<lparr>asz = ?sz, acap = ?sz - 56, aown = None\<rparr> :: ablk"
    have out: "mem s' a = 0" if "200 \<le> a" "a < unat (rsize r)" "a < ?d \<or> ?d + 56 \<le> a" for a
      using hviewD(8) [OF v, of a] m0 [of a] that d64 by (auto simp: hdr_bytes_def init_rh_def)
    have ge: "56 \<le> ?sz"
      using fit by simp
    have sz56: "unat (of_nat ?sz - 56 :: u64) = ?sz - 56" "unat (of_nat ?sz :: u64) = ?sz"
      by (rule unat64_diff_numeral [OF ge sz_lt], rule unat64 [OF sz_lt])
    have hr: "heap_view r s0 s' {0} ?R (init_blocks ?sz)"
      using v
    proof (rule heap_viewI_exact)
      show "heap_shape (H(0 := \<lparr>b_magic = SHM_ALLOC_MAGIC_BLOCK, b_type_tag = 0, b_owner = 0,
        b_perms = 0, b_allocated = 0, b_obj_id = 0, b_payload_cap = of_nat ?sz - 56,
        b_total_size = of_nat ?sz, b_next_free = 0\<rparr>)) ?R (init_blocks ?sz)"
        using fit sz56
        by (simp add: heap_shape_def init_blocks_def blk_ok_def sizes_ok_def owner_ok_simps wf_blk_def
            init_rh_def link_to_def del: of_nat_diff)
    qed (use fit d64 in \<open>simp_all add: init_blocks_def init_rh_def\<close>)
    have "ent_at (mem s') (slot_pos ?R i) = zero_ent" if "i < unat cap" for i
    proof (rule ent_at_zero, rule out)
      fix a assume "slot_pos ?R i \<le> a" "a < slot_pos ?R i + 96"
      then show "200 \<le> a" "a < unat (rsize r)" "a < ?d \<or> ?d + 56 \<le> a"
        using that slot_pos_le [OF that, of ?R] fit by (auto simp: slot_pos_def init_rh_def)
    qed
    then have "dir_at (mem s') ?R = replicate (unat cap) zero_ent"
      by (intro nth_equalityI) (simp_all add: dir_at_def init_rh_def)
    moreover have "h_data_offset ?R = ?d64" "h_dir_offset ?R = 200" "h_dir_capacity ?R = cap"
      by (simp_all add: init_rh_def)
    ultimately have "dir_rep r s' ?R (replicate (unat cap) zero_ent)"
      using hviewD(6) [OF v] m fit d64 by (simp add: dir_rep_def slot_pos_def)
    then show ?thesis
      using heap_view_rep [OF hr] out by auto
  qed
  show ?thesis
    unfolding region_init_def Let_def init_layout memset runs_bind runs_Some
  proof (rule wp_region_init_hdr [OF v1], rule wp_init_name, assumption)
    fix s1 s2 assume "rview r (s\<lparr>mem := ?m1\<rparr>) s2 (init_rh (rsize r) backend cap (h_free_list (rh_at ?m1)) ns cg)"
    then have v2: "rview r (s\<lparr>mem := ?m1\<rparr>) s2 ?Ri" by (simp add: fl0)
    define s3 where "s3 = s2\<lparr>mutex := MUnlocked\<rparr>"
    have h3: "hview r s3 s3 {0} (\<lambda>_. blk_at (mem s3) ?d) ?Ri"
      using v2 fit d64 by (simp add: s3_def rview_def hview_def separated_def init_rh_def)
    have s3: "mutex s3 = MUnlocked" "cmode s3 = cmode s" "\<And>a. 200 \<le> a \<Longrightarrow> mem s3 a = ?m1 a"
      using v2 by (simp_all add: s3_def rview_def)
    have rh1: "h_data_offset ?Ri = ?d64" "?Ri\<lparr>h_free_list := 1\<rparr> = ?R"
      by (simp_all add: init_rh_def)
    show "runs (region_init_block r (s2\<lparr>mutex := MUnlocked\<rparr>) (rsize r - ?d64))
      (\<lambda>s4. runs (set_rh_free_list r s4 (shm_link_enc 0))
         (\<lambda>s5. runs (shm_persist r s5 (rbase r) (?d64 + SIZEOF_BLOCK_HDR))
           (\<lambda>s6. heap_rep r (shm_drain s6) ?R (init_blocks ?sz) \<and>
             dir_rep r (shm_drain s6) ?R (replicate (unat cap) zero_ent) \<and>
             mutex (shm_drain s6) = MUnlocked \<and> cmode (shm_drain s6) = cmode s \<and>
             (\<forall>a. 256 + 96 * unat cap \<le> a \<and> a < unat (rsize r) \<longrightarrow> mem (shm_drain s6) a = 0))))"
      unfolding s3_def [symmetric] heap
    proof (rule wp_region_init_block [OF h3], simp, rule wp_set_rh_free_list, assumption)
      fix s4 s5
      assume "hview r s3 s5 {0} ((\<lambda>_. blk_at (mem s3) ?d)(0 := \<lparr>b_magic = SHM_ALLOC_MAGIC_BLOCK,
          b_type_tag = 0, b_owner = 0, b_perms = 0, b_allocated = 0, b_obj_id = 0,
          b_payload_cap = of_nat ?sz - 56, b_total_size = of_nat ?sz, b_next_free = 0\<rparr>))
        (?Ri\<lparr>h_free_list := shm_link_enc 0\<rparr>)"
      then have v5: "hview r s3 s5 {0} ((\<lambda>_. blk_at (mem s3) ?d)(0 := \<lparr>b_magic = SHM_ALLOC_MAGIC_BLOCK,
          b_type_tag = 0, b_owner = 0, b_perms = 0, b_allocated = 0, b_obj_id = 0,
          b_payload_cap = of_nat ?sz - 56, b_total_size = of_nat ?sz, b_next_free = 0\<rparr>)) ?R"
        by (simp add: shm_link_enc_def rh1 del: of_nat_diff)
      show "runs (shm_persist r s5 (rbase r) (?d64 + SIZEOF_BLOCK_HDR))
           (\<lambda>s6. heap_rep r (shm_drain s6) ?R (init_blocks ?sz) \<and>
             dir_rep r (shm_drain s6) ?R (replicate (unat cap) zero_ent) \<and>
             mutex (shm_drain s6) = MUnlocked \<and> cmode (shm_drain s6) = cmode s \<and>
             (\<forall>a. 256 + 96 * unat cap \<le> a \<and> a < unat (rsize r) \<longrightarrow> mem (shm_drain s6) a = 0))"
      proof (rule wp_shm_persist [OF v5])
        show "region_off r (rbase r) + unat (?d64 + SIZEOF_BLOCK_HDR) \<le> unat (rsize r)"
          using fit d64 region_off_rh [of r] unat64_add_numeral [of ?d64 "num.Bit0 (num.Bit0 (num.Bit0 (num.Bit1 (num.Bit1 num.One))))"]
            unat64_bound [of "rsize r"]
          by (simp add: SIZEOF_BLOCK_HDR_def shm_rh_def)
        fix s6 assume v6: "hview r s3 s6 {0} ((\<lambda>_. blk_at (mem s3) ?d)(0 := \<lparr>b_magic = SHM_ALLOC_MAGIC_BLOCK,
          b_type_tag = 0, b_owner = 0, b_perms = 0, b_allocated = 0, b_obj_id = 0,
          b_payload_cap = of_nat ?sz - 56, b_total_size = of_nat ?sz, b_next_free = 0\<rparr>)) ?R"
        show "heap_rep r (shm_drain s6) ?R (init_blocks ?sz) \<and>
             dir_rep r (shm_drain s6) ?R (replicate (unat cap) zero_ent) \<and>
             mutex (shm_drain s6) = MUnlocked \<and> cmode (shm_drain s6) = cmode s \<and>
             (\<forall>a. 256 + 96 * unat cap \<le> a \<and> a < unat (rsize r) \<longrightarrow> mem (shm_drain s6) a = 0)"
          using fin [OF v6 s3(3)] hviewD(9,10) [OF v6] s3
          by (simp add: heap_rep_mem [OF shm_drain_sel(1)] dir_rep_mem [OF shm_drain_sel(1)] del: of_nat_diff)
      qed
    qed
  qed
qed

lemma filter_live_zero [simp]: "filter live (replicate n zero_ent) = []"
  by (induction n) (simp_all add: live_def zero_ent_def)

lemma entry_ok_zero [simp]: "entry_ok nid zero_ent"
  by (simp add: entry_ok_def live_def zero_ent_def)

lemma region_init_inv:
  assumes m: "mapped r" and fit: "256 + 96 * unat cap \<le> unat (rsize r)"
  shows "runs (region_init r s (rsize r) backend cap name ns cg)
    (\<lambda>s'. pool_inv r s' (init_rh (rsize r) backend cap 1 ns cg)
            (init_blocks (unat (rsize r) - (200 + 96 * unat cap))) (replicate (unat cap) zero_ent) \<and>
         mutex s' = MUnlocked \<and> cmode s' = cmode s)"
proof -
  have "acct (init_rh (rsize r) backend cap 1 ns cg) (init_blocks n)"
    "coalesced (init_blocks n)" "dir_ok nid (replicate (unat cap) zero_ent) (init_blocks n)" for n nid
    by (simp_all add: acct_def init_rh_def init_blocks_def dir_ok_def dir_objs_def list_all_iff)
  then show ?thesis
    by (intro runs_mono [OF region_init_rep [OF assms]]) (simp add: pool_inv_def init_rh_def)
qed

text \<open>When the first block does not fit behind the directory, the initialisation runs out of the mapping.\<close>

lemma bind_None: "(\<And>v. f v = None) \<Longrightarrow> Option.bind c f = None"
  by (cases c) simp_all

lemma region_init_block_fault:
  assumes d: "rh_data_offset r s = Some d" and big: "unat (rsize r) < unat d + 56" "unat d + 56 < 2 ^ 64"
  shows "region_init_block r s sz = None"
proof -
  have "shm_blk_at_hoff r s 0 = Some (rbase r + of_nat (unat d))"
    by (simp add: shm_blk_at_hoff_def shm_heap_base_def d)
  moreover have "region_off r (rbase r + of_nat (unat d) + 48) = unat d + 48"
    using big(2) by (intro region_off_base_field) simp
  then have "set_blk_next_free r s' (rbase r + of_nat (unat d)) 0 = None" for s'
    using big(1) by (simp add: set_blk_next_free_def wr64_def in_map_def)
  ultimately show ?thesis
    unfolding region_init_block_def by (simp add: bind_None)
qed

lemma region_init_fault:
  assumes m: "mapped r" "200 \<le> unat (rsize r)" and small: "unat (rsize r) < 256 + 96 * unat cap"
  shows "region_init r s (rsize r) backend cap name ns cg = None"
proof -
  let ?d64 = "200 + ucast cap * 96 :: u64"
  let ?m1 = "\<lambda>a. if a < unat (rsize r) then 0 else mem s a"
  have memset: "memset r s (rbase r) 0 (rsize r) = Some (s\<lparr>mem := ?m1\<rparr>)"
    using m region_off_rh [of r] by (auto simp: memset_def in_map_def shm_rh_def unat_eq_0)
  have v1: "rview r (s\<lparr>mem := ?m1\<rparr>) (s\<lparr>mem := ?m1\<rparr>) (rh_at ?m1)"
    using m by (simp add: rview_def)
  have blk: "region_init_block r (s2\<lparr>mutex := MUnlocked\<rparr>) sz = None"
    if v2: "rview r (s\<lparr>mem := ?m1\<rparr>) s2 (init_rh (rsize r) backend cap fl ns cg)" for s2 fl sz
  proof (rule region_init_block_fault)
    show "rh_data_offset r (s2\<lparr>mutex := MUnlocked\<rparr>) = Some ?d64"
      using v2 rview_field [OF v2]
      by (simp add: rh_data_offset_def rd64_def region_off_rh_field rview_def init_rh_def rh_at_def)
    show "unat (rsize r) < unat ?d64 + 56" "unat ?d64 + 56 < 2 ^ 64"
      using small unat32_bound [of cap] by (simp_all add: unat_init_data_offset)
  qed
  have "runs (region_init_hdr r (s\<lparr>mem := ?m1\<rparr>) (rsize r) backend cap 200 ?d64 ns cg)
    (\<lambda>s1. runs (case name of None \<Rightarrow> Some s1 | Some nm \<Rightarrow> strncpy r s1 (shm_rh r + 136) nm (64 - 1))
       (\<lambda>s2. \<forall>sz. region_init_block r (s2\<lparr>mutex := MUnlocked\<rparr>) sz = None))"
    by (rule wp_region_init_hdr [OF v1], rule wp_init_name, assumption) (simp add: blk)
  then obtain s1 s2 where
    "region_init_hdr r (s\<lparr>mem := ?m1\<rparr>) (rsize r) backend cap 200 ?d64 ns cg = Some s1"
    "(case name of None \<Rightarrow> Some s1 | Some nm \<Rightarrow> strncpy r s1 (shm_rh r + 136) nm (64 - 1)) = Some s2"
    "\<And>sz. region_init_block r (s2\<lparr>mutex := MUnlocked\<rparr>) sz = None"
    unfolding runs_iff by blast
  then show ?thesis
    unfolding region_init_def Let_def init_layout memset by simp
qed

end
