(* ===== verification/Shm_Alloc.thy ===== *)
theory Shm_Alloc
  imports Shm_Region
begin

text \<open>
  \<open>shm_alloc\<close> and \<open>shm_free\<close> of \<open>src/src/shm_alloc.c\<close>, every guard, early return
  and flush included. A null handle is \<open>None\<close>; a pointer to a result is a flag that says
  whether it is given, and the value stored through it is part of the result.

  The refinement theorems describe both calls on the block list and the directory: which error
  is returned when, which block is carved or released, that the pool invariant holds again, that the
  mutex is free again on every path, and that no other object's payload changes.
\<close>

section \<open>shm_alloc\<close>

text \<open>Header and payload of the new block: owner data, zeroed payload, both flushed.\<close>

definition alloc_init_block ::
    "shm_region \<Rightarrow> machine \<Rightarrow> u64 \<Rightarrow> u64 \<Rightarrow> u32 \<Rightarrow> u32 \<Rightarrow> u32 \<Rightarrow> machine option" where
  "alloc_init_block r s b new_id user_id perms type_tag = do {
     s \<leftarrow> set_blk_type_tag r s b type_tag;
     s \<leftarrow> set_blk_owner r s b user_id;
     s \<leftarrow> set_blk_perms r s b perms;
     s \<leftarrow> set_blk_obj_id r s b new_id;
     cap \<leftarrow> blk_payload_cap r s b;
     s \<leftarrow> memset r s (b + SIZEOF_BLOCK_HDR) 0 cap;
     cap \<leftarrow> blk_payload_cap r s b;
     s \<leftarrow> shm_persist r s (b + SIZEOF_BLOCK_HDR) cap;
     shm_persist r s b SIZEOF_BLOCK_HDR }"

text \<open>The directory entry of the new object.\<close>

definition alloc_fill_slot ::
    "shm_region \<Rightarrow> machine \<Rightarrow> u64 \<Rightarrow> u64 \<Rightarrow> u64 \<Rightarrow> u64 \<Rightarrow> cstring option \<Rightarrow> u32 \<Rightarrow> u32 \<Rightarrow> u32 \<Rightarrow> machine option" where
  "alloc_fill_slot r s slot b new_id payload_size name user_id perms type_tag = do {
     s \<leftarrow> memset r s slot 0 SIZEOF_OBJ_ENTRY;
     s \<leftarrow> set_ent_id r s slot new_id;
     off \<leftarrow> shm_poff_of_blk r s b;
     s \<leftarrow> set_ent_off r s slot off;
     cap \<leftarrow> blk_payload_cap r s b;
     s \<leftarrow> set_ent_capacity r s slot cap;
     s \<leftarrow> set_ent_used_size r s slot payload_size;
     s \<leftarrow> set_ent_type_tag r s slot type_tag;
     s \<leftarrow> set_ent_owner r s slot user_id;
     s \<leftarrow> set_ent_perms r s slot perms;
     s \<leftarrow> set_ent_alive r s slot 1;
     (case name of
        None \<Rightarrow> Some s
      | Some nm \<Rightarrow> if nm \<noteq> [] then strncpy r s (ent_name_ptr slot) nm (DIR_NAME_MAX - 1) else Some s) }"

definition alloc_size :: "u64 \<Rightarrow> u64" where
  "alloc_size payload_size = shm_align_up (SIZEOF_BLOCK_HDR + payload_size) HEAP_ALIGN"

definition shm_alloc ::
    "shm_region option \<Rightarrow> machine \<Rightarrow> u64 \<Rightarrow> cstring option \<Rightarrow> u32 \<Rightarrow> u32 \<Rightarrow> u32 \<Rightarrow> bool \<Rightarrow> bool \<Rightarrow>
     (errno \<times> (u64 \<times> u64) option \<times> machine) option" where
  "shm_alloc region s payload_size name user_id perms type_tag out_id out_off =
     (case region of
        None \<Rightarrow> Some (EINVAL, None, s)
      | Some r \<Rightarrow>
          if payload_size = 0 \<or> \<not> out_id \<or> \<not> out_off then Some (EINVAL, None, s)
          else do {
            let need_total = alloc_size payload_size;
            (_, s) \<leftarrow> region_lock r s;
            slot \<leftarrow> dir_find_free_slot r s;
            if slot = 0 then do { s \<leftarrow> region_unlock r s; Some (ENOSPC, None, s) }
            else do {
              (b, s) \<leftarrow> heap_alloc_block r s need_total;
              if b = 0 then do { s \<leftarrow> region_unlock r s; Some (ENOMEM, None, s) }
              else do {
                new_id \<leftarrow> rh_next_id r s;
                s \<leftarrow> set_rh_next_id r s (new_id + 1);
                s \<leftarrow> alloc_init_block r s b new_id user_id perms type_tag;
                s \<leftarrow> alloc_fill_slot r s slot b new_id payload_size name user_id perms type_tag;
                s \<leftarrow> shm_persist r s slot SIZEOF_OBJ_ENTRY;
                s \<leftarrow> shm_persist r s (shm_rh r + 112) 8;
                let s = shm_drain s;
                off \<leftarrow> ent_off r s slot;
                s \<leftarrow> region_unlock r s;
                Some (OK, Some (new_id, off), s) } } })"

section \<open>shm_free\<close>

definition shm_free ::
    "shm_region option \<Rightarrow> machine \<Rightarrow> u64 \<Rightarrow> u32 \<Rightarrow> u32 \<Rightarrow> (errno \<times> machine) option" where
  "shm_free region s obj_id user_id caller_perms =
     (case region of
        None \<Rightarrow> Some (EINVAL, s)
      | Some r \<Rightarrow>
          if obj_id = 0 then Some (EINVAL, s)
          else do {
            (_, s) \<leftarrow> region_lock r s;
            slot \<leftarrow> dir_find_by_id r s obj_id;
            if slot = 0 then do { s \<leftarrow> region_unlock r s; Some (ENOENT, s) }
            else do {
              acc \<leftarrow> check_dir_access r s slot user_id caller_perms SHM_PERM_FREE;
              if acc \<noteq> OK then do { s \<leftarrow> region_unlock r s; Some (acc, s) }
              else do {
                off \<leftarrow> ent_off r s slot;
                b \<leftarrow> shm_blk_of_poff r s off;
                s \<leftarrow> heap_free_block r s b;
                s \<leftarrow> memset r s slot 0 SIZEOF_OBJ_ENTRY;
                s \<leftarrow> shm_persist r s slot SIZEOF_OBJ_ENTRY;
                let s = shm_drain s;
                s \<leftarrow> region_unlock r s;
                Some (OK, s) } } })"

section \<open>Payloads\<close>

definition zeroed :: "bytes \<Rightarrow> nat \<Rightarrow> nat \<Rightarrow> bytes" where
  "zeroed m a n = (\<lambda>x. if a \<le> x \<and> x < a + n then 0 else m x)"

definition in_payload :: "nat \<Rightarrow> obj \<Rightarrow> nat \<Rightarrow> bool" where
  "in_payload d ob a \<longleftrightarrow> d + fst ob \<le> a \<and> a < d + fst ob + fst (snd ob)"

text \<open>No payload of an object of \<open>bs\<close> changes from \<open>s\<close> to \<open>s'\<close>.\<close>

definition payloads_kept :: "nat \<Rightarrow> obj list \<Rightarrow> machine \<Rightarrow> machine \<Rightarrow> bool" where
  "payloads_kept d obs s s' \<longleftrightarrow> (\<forall>ob\<in>set obs. \<forall>a. in_payload d ob a \<longrightarrow> mem s' a = mem s a)"

lemma blk_objs_bounds:
  assumes "(off, cap, i) \<in> set (blk_objs h bs)" "list_all wf_blk bs"
  shows "h + 56 \<le> off" "off + cap \<le> h + span bs"
proof -
  obtain xs b ys where "bs = xs @ b # ys" "off = h + span xs + 56" "cap = acap b"
    using assms(1) by (rule blk_objs_split)
  then show "h + 56 \<le> off" "off + cap \<le> h + span bs"
    using assms(2) by (auto simp: wf_blk_def)
qed

lemma payload_no_hdr:
  assumes wf: "list_all wf_blk bs" and ob: "ob \<in> set (blk_objs 0 bs)" and a: "in_payload d ob a"
  shows "a \<notin> hdr_bytes d (set (starts 0 bs))"
proof -
  obtain off cap i where ob': "ob = (off, cap, i)" by (cases ob)
  obtain xs b ys where bs: "bs = xs @ b # ys" "aown b = Some i" "off = 0 + span xs + 56" "cap = acap b"
    using ob unfolding ob' by (rule blk_objs_split)
  with ob' have lo: "d + span xs + 56 \<le> a" and hi: "a < d + span xs + asz b"
    using a wf by (auto simp: in_payload_def wf_blk_def)
  show ?thesis
  proof
    assume "a \<in> hdr_bytes d (set (starts 0 bs))"
    then obtain x where x: "x \<in> set (starts 0 bs)" "d + x \<le> a" "a < d + x + 56"
      by (auto simp: hdr_bytes_def)
    from x(1) consider "x \<in> set (starts 0 xs)" | "x = span xs" | "x \<in> set (starts (span xs + asz b) ys)"
      by (auto simp: bs)
    then show False
      using starts_le [of xs x 0] starts_ge [of x "span xs + asz b" ys] wf x lo hi bs by cases auto
  qed
qed

lemma wp_memset_payload:
  assumes v: "hview r s0 s D H R" "h \<in> D" and d: "d = h_data_offset R"
    and fits: "unat d + h + 56 + c \<le> unat (rsize r)"
    and out: "\<And>a. unat d + h + 56 \<le> a \<Longrightarrow> a < unat d + h + 56 + c \<Longrightarrow> a \<notin> hdr_bytes (unat d) D"
    and Q: "\<And>s'. hview r (s0\<lparr>mem := zeroed (mem s0) (unat d + h + 56) c\<rparr>) s' D H R \<Longrightarrow> Q s'"
  shows "runs (memset r s (bp r d h + SIZEOF_BLOCK_HDR) 0 (of_nat c)) Q"
proof -
  let ?a = "unat d + h + 56"
  have c: "unat (of_nat c :: u64) = c"
    using fits unat64_bound [of "rsize r"] by (intro unat64) linarith
  have off: "region_off r (bp r d h + SIZEOF_BLOCK_HDR) = ?a"
    using v(1) hviewD(5) [OF v(1,2)] d by (simp add: region_off_bp SIZEOF_BLOCK_HDR_def)
  have d200: "200 \<le> unat d"
    using hviewD(2) [OF v(1)] d by simp
  have blk: "blk_at (zeroed (mem s) ?a c) (unat d + x) = H x" if x: "x \<in> D" for x
  proof -
    have "blk_at (zeroed (mem s) ?a c) (unat d + x) = blk_at (mem s) (unat d + x)"
      by (rule blk_at_cong) (use out x in \<open>auto simp: zeroed_def hdr_bytes_def\<close>)
    then show ?thesis
      using hviewD(7) [OF v(1) x] d by simp
  qed
  have rh: "rh_at (zeroed (mem s) ?a c) = R"
    using rh_at_cong [of "zeroed (mem s) ?a c" "mem s"] hviewD(6) [OF v(1)] d200 by (simp add: zeroed_def)
  have rest: "zeroed (mem s) ?a c a = zeroed (mem s0) ?a c a"
    if "200 \<le> a" "a \<notin> hdr_bytes (unat d) D" for a
    using hviewD(8) [OF v(1)] that d by (simp add: zeroed_def)
  have v': "hview r (s0\<lparr>mem := zeroed (mem s0) ?a c\<rparr>) (s\<lparr>mem := zeroed (mem s) ?a c\<rparr>) D H R"
    using v(1) blk rh rest d by (simp add: hview_def)
  show ?thesis
  proof (cases "c = 0")
    case True
    then have "zeroed m ?a c = m" for m
      unfolding zeroed_def by (intro ext) auto
    with v' Q True show ?thesis by (simp add: memset_def)
  next
    case False
    then have "(of_nat c :: u64) \<noteq> 0"
      using c by auto
    then show ?thesis
      using Q [OF v'] fits by (simp add: memset_def c off in_map_def zeroed_def)
  qed
qed

section \<open>The stages of an allocation\<close>

definition owned :: "block_hdr \<Rightarrow> owner_info \<Rightarrow> block_hdr" where
  "owned x i = x\<lparr>b_type_tag := o_tag i, b_owner := o_owner i, b_perms := o_perms i, b_obj_id := o_id i\<rparr>"

lemma owned_sel [simp]:
  "b_magic (owned x i) = b_magic x" "b_allocated (owned x i) = b_allocated x"
  "b_payload_cap (owned x i) = b_payload_cap x" "b_total_size (owned x i) = b_total_size x"
  "b_next_free (owned x i) = b_next_free x" "b_obj_id (owned x i) = o_id i"
  "b_type_tag (owned x i) = o_tag i" "b_owner (owned x i) = o_owner i" "b_perms (owned x i) = o_perms i"
  by (simp_all add: owned_def)

lemma wp_alloc_init_block:
  assumes v: "hview r s0 s D H R" "h \<in> D" and d: "d = h_data_offset R"
    and cap: "unat (b_payload_cap (H h)) = c" and fits: "unat d + h + 56 + c \<le> unat (rsize r)"
    and out: "\<And>a. unat d + h + 56 \<le> a \<Longrightarrow> a < unat d + h + 56 + c \<Longrightarrow> a \<notin> hdr_bytes (unat d) D"
    and Q: "\<And>s'. hview r (s0\<lparr>mem := zeroed (mem s0) (unat d + h + 56) c\<rparr>) s' D
        (H(h := owned (H h) \<lparr>o_tag = tag, o_owner = user, o_perms = pm, o_id = nid\<rparr>)) R \<Longrightarrow> Q s'"
  shows "runs (alloc_init_block r s (bp r d h) nid user pm tag) Q"
proof -
  have c: "b_payload_cap (H h) = of_nat c"
    using cap by (rule unat64_eqD)
  have off: "region_off r (bp r d h + SIZEOF_BLOCK_HDR) = unat d + h + 56"
    using hviewD(5) [OF v] d by (simp add: region_off_bp SIZEOF_BLOCK_HDR_def)
  show ?thesis
    unfolding alloc_init_block_def runs_bind
    apply (rule wp_set_blk_type_tag [OF v d])
    apply (rule wp_set_blk_owner, assumption, rule v(2), rule d)
    apply (rule wp_set_blk_perms, assumption, rule v(2), rule d)
    apply (rule wp_set_blk_obj_id, assumption, rule v(2), rule d)
    subgoal premises p for s1 s2 s3 s4
      apply (simp add: hview_blk_loads(7) [OF p(4) v(2) d] c)
      apply (rule wp_memset_payload [OF p(4) v(2) d fits out], assumption, assumption)
      subgoal premises q for s5
        apply (simp add: hview_blk_loads(7) [OF q v(2) d] c)
        apply (rule wp_shm_persist [OF q])
        using cap c fits apply (simp add: off)
        apply (rule wp_persist_blk, assumption, rule v(2), rule d)
        apply (rule Q)
        apply (simp add: owned_def)
        done
      done
    done
qed

text \<open>A view of the headers survives changes to a slot of the directory.\<close>

lemma eview_hview:
  assumes v: "hview r s0 s1 D H R" and e: "eview r s1 s k e" and k: "200 \<le> k" "k + 96 \<le> unat (h_data_offset R)"
  shows "hview r s s D H R"
proof -
  have out: "mem s a = mem s1 a" if "a < k \<or> k + 96 \<le> a" for a
    using e that by (auto simp: eview_def)
  have "rh_at (mem s) = R"
    using rh_at_cong [of "mem s" "mem s1"] out k(1) hviewD(6) [OF v] by simp
  moreover have "blk_at (mem s) (unat (h_data_offset R) + h) = H h" if "h \<in> D" for h
  proof -
    have "blk_at (mem s) (unat (h_data_offset R) + h) = blk_at (mem s1) (unat (h_data_offset R) + h)"
      by (rule blk_at_cong) (use out k(2) in auto)
    then show ?thesis
      using hviewD(7) [OF v that] by simp
  qed
  ultimately show ?thesis
    using v by (simp add: hview_def)
qed

definition alloc_entry ::
    "u64 \<Rightarrow> u64 \<Rightarrow> u64 \<Rightarrow> u64 \<Rightarrow> u32 \<Rightarrow> u32 \<Rightarrow> u32 \<Rightarrow> cstring option \<Rightarrow> obj_entry" where
  "alloc_entry nid off cap used tag user pm name =
     \<lparr>e_id = nid, e_off = off, e_capacity = cap, e_used_size = used, e_type_tag = tag, e_owner = user,
      e_perms = pm, e_alive = 1, e_name = stored_name (case name of None \<Rightarrow> [] | Some nm \<Rightarrow> nm)\<rparr>"

lemma stored_name_Nil: "stored_name [] = replicate 48 0"
proof -
  have "replicate 48 (0 :: u8) = replicate (47 + 1) 0" by simp
  then show ?thesis
    by (simp only: stored_name_def replicate_add) simp
qed

lemma obj_entry_all_upd:
  "zero_ent\<lparr>e_id := i, e_off := f, e_capacity := c, e_used_size := u, e_type_tag := t, e_owner := w,
      e_perms := p, e_alive := a\<rparr> =
   \<lparr>e_id = i, e_off = f, e_capacity = c, e_used_size = u, e_type_tag = t, e_owner = w, e_perms = p,
      e_alive = a, e_name = stored_name []\<rparr>"
  by (simp add: zero_ent_def stored_name_Nil)

lemma wp_name_step:
  assumes v: "eview r s0 s k \<lparr>e_id = i, e_off = f, e_capacity = c, e_used_size = u, e_type_tag = t,
      e_owner = w, e_perms = p, e_alive = a, e_name = stored_name []\<rparr>"
    and Q: "\<And>s'. eview r s0 s' k \<lparr>e_id = i, e_off = f, e_capacity = c, e_used_size = u, e_type_tag = t,
      e_owner = w, e_perms = p, e_alive = a, e_name = stored_name (case name of None \<Rightarrow> [] | Some nm \<Rightarrow> nm)\<rparr> \<Longrightarrow> Q s'"
  shows "runs (case name of
        None \<Rightarrow> Some s
      | Some nm \<Rightarrow> if nm \<noteq> [] then strncpy r s (ent_name_ptr (rp r k)) nm (DIR_NAME_MAX - 1) else Some s) Q"
proof (cases "name = None \<or> name = Some []")
  case True
  then show ?thesis
    using v Q by (auto split: option.splits)
next
  case False
  then obtain nm where nm: "name = Some nm" "nm \<noteq> []"
    by (cases name) auto
  have "runs (strncpy r s (ent_name_ptr (rp r k)) nm (DIR_NAME_MAX - 1)) Q"
    by (rule wp_strncpy_slot [OF v]) (use Q nm in \<open>simp_all add: stored_name_Nil\<close>)
  then show ?thesis
    using nm by simp
qed

lemma wp_alloc_fill_slot:
  assumes v: "hview r s1 s1 D H R" "h \<in> D" and d: "d = h_data_offset R"
    and k: "200 \<le> k" "k + 96 \<le> unat d"
    and Q: "\<And>s'. eview r s1 s' k (alloc_entry nid (of_nat (h + 56)) (b_payload_cap (H h)) used tag user pm name) \<Longrightarrow> Q s'"
  shows "runs (alloc_fill_slot r s1 (rp r k) (bp r d h) nid used name user pm tag) Q"
proof -
  have k': "k + 96 \<le> unat (h_data_offset R)"
    using k d by simp
  have e: "eview r s1 s1 k (ent_at (mem s1) k)"
    using v(1) k' hviewD(3) [OF v(1)] by (intro eview_start) (simp_all add: hview_def)
  note hv = eview_hview [OF v(1) _ k(1) k']
  show ?thesis
    unfolding alloc_fill_slot_def runs_bind
    apply (rule wp_memset_slot [OF e])
    apply (rule wp_set_ent_id, assumption)
    subgoal premises p for s2 s3
      apply (simp only: hview_ptrs(5) [OF hv [OF p(2)] d] runs_Some)
      apply (rule wp_set_ent_off [OF p(2)])
      subgoal premises q for s4
        apply (simp only: hview_blk_loads(7) [OF hv [OF q] v(2) d] runs_Some)
        apply (rule wp_set_ent_capacity [OF q])
        apply (rule wp_set_ent_used_size, assumption)
        apply (rule wp_set_ent_type_tag, assumption)
        apply (rule wp_set_ent_owner, assumption)
        apply (rule wp_set_ent_perms, assumption)
        apply (rule wp_set_ent_alive, assumption)
        apply (simp only: obj_entry_all_upd)
        apply (erule wp_name_step)
        apply (rule Q)
        apply (simp add: alloc_entry_def)
        done
      done
    done
qed

section \<open>What an allocation does\<close>

lemma alloc_size_dvd: "8 dvd unat (alloc_size p)"
proof -
  have "alloc_size p = (p + 63) AND NOT (mask 3)"
    by (simp add: alloc_size_def shm_align_up_def layout_consts mask_eq_exp_minus_1 add.commute)
  then have "unat (alloc_size p) = 2 ^ 3 * (unat (p + 63) div 2 ^ 3)"
    by (simp only: unat_and_not_mask)
  then show ?thesis by simp
qed

lemma alloc_size_eq:
  assumes "unat p + 63 < 2 ^ 64"
  shows "unat (alloc_size p) = (unat p + 63) div 8 * 8"
proof -
  have "unat (p + 56) = unat p + 56"
    using assms by (intro unat64_add_numeral) simp
  then show ?thesis
    using assms shm_align_up_8 [of "p + 56"] by (simp add: alloc_size_def layout_consts add.commute)
qed

lemma alloc_size_ge:
  assumes "unat p + 63 < 2 ^ 64" "p \<noteq> 0"
  shows "unat p + 56 \<le> unat (alloc_size p)" "64 \<le> unat (alloc_size p)"
proof -
  have "1 \<le> unat p"
    using assms(2) by (simp add: Suc_le_eq unat_gt_0)
  then have "64 div 8 \<le> (unat p + 63) div 8"
    by (intro div_le_mono) simp
  then show "64 \<le> unat (alloc_size p)"
    using alloc_size_eq [OF assms(1)] by simp
  show "unat p + 56 \<le> unat (alloc_size p)"
    using alloc_size_eq [OF assms(1)] by linarith
qed

definition taken :: "nat \<Rightarrow> owner_info \<Rightarrow> ablk \<Rightarrow> ablk" where
  "taken n i b = (if n + 64 \<le> asz b then \<lparr>asz = n, acap = n - 56, aown = Some i\<rparr> else b\<lparr>aown := Some i\<rparr>)"

definition taken_rest :: "nat \<Rightarrow> ablk \<Rightarrow> ablk list" where
  "taken_rest n b =
     (if n + 64 \<le> asz b then [\<lparr>asz = asz b - n, acap = asz b - n - 56, aown = None\<rparr>] else [])"

lemma take_block_Cons: "take_block n i b = taken n i b # taken_rest n b"
  by (simp add: take_block_def taken_def taken_rest_def)

lemma taken_sel [simp]: "aown (taken n i b) = Some i" "is_free (taken n i b) = False"
  by (simp_all add: taken_def is_free_def)

lemma taken_owner: "(taken n i b)\<lparr>aown := Some j\<rparr> = taken n j b"
  by (simp add: taken_def)

lemma taken_span: "n \<le> asz b \<Longrightarrow> asz (taken n i b) + span (taken_rest n b) = asz b"
  by (simp add: taken_def taken_rest_def)

lemma taken_rest_objs [simp]: "blk_objs h (taken_rest n b) = []"
  by (simp add: taken_rest_def)

lemma heap_shape_owned:
  assumes sh: "heap_shape H R (xs @ c # ys)" and c: "aown c = Some i"
  shows "heap_shape (H(span xs := owned (H (span xs)) j)) R (xs @ c\<lparr>aown := Some j\<rparr> # ys)"
proof -
  have t: "tiles H 0 (xs @ c # ys)"
    using sh by (simp add: heap_shape_def)
  then have wf: "list_all wf_blk (xs @ c # ys)"
    by (rule tiles_wf)
  have out: "span xs \<notin> set (starts 0 xs)" "span xs \<notin> set (starts (span xs + asz c) ys)"
    using starts_le [of xs "span xs" 0] starts_ge [of "span xs" "span xs + asz c" ys] wf
    by (auto simp: wf_blk_def)
  have "blk_ok (owned (H (span xs)) j) (c\<lparr>aown := Some j\<rparr>)"
    using t c by (simp add: blk_ok_def sizes_ok_def owner_ok_simps)
  moreover have "wf_blk (c\<lparr>aown := Some j\<rparr>)"
    using wf by (simp add: wf_blk_def)
  moreover have "frees 0 (xs @ c\<lparr>aown := Some j\<rparr> # ys) = frees 0 (xs @ c # ys)"
    using c by (simp add: is_free_def)
  moreover have "fseg (H(span xs := owned (H (span xs)) j)) l hs l' = fseg H l hs l'" for l hs l'
    by (rule fseg_upd_same_next) simp
  ultimately show ?thesis
    using sh out by (simp add: heap_shape_def)
qed

lemma dir_rep_frame:
  assumes d: "dir_rep r s R es" and out: "\<And>a. 200 \<le> a \<Longrightarrow> a < unat (h_data_offset R) \<Longrightarrow> mem s' a = mem s a"
    and R': "rh_at (mem s') = R'" "h_dir_offset R' = h_dir_offset R" "h_dir_capacity R' = h_dir_capacity R"
      "h_data_offset R' = h_data_offset R"
  shows "dir_rep r s' R' es"
proof -
  have "ent_at (mem s') (slot_pos R i) = ent_at (mem s) (slot_pos R i)" if "i < unat (h_dir_capacity R)" for i
    by (rule ent_at_cong, rule out) (use d slot_pos_le [OF that, of R] in \<open>auto simp: dir_rep_def slot_pos_def\<close>)
  then have "dir_at (mem s') R' = dir_at (mem s) R"
    using R' by (simp add: dir_at_def slot_pos_def)
  then show ?thesis
    using d R' by (simp add: dir_rep_def slot_pos_def)
qed

text \<open>A slot of the directory lies between the region header and the heap.\<close>

lemma slot_bounds:
  assumes "dir_rep r s R es" "i < length es"
  shows "200 \<le> slot_pos R i" "slot_pos R i + 96 \<le> unat (h_data_offset R)"
  using assms slot_pos_le [of i "unat (h_dir_capacity R)" R] dir_rep_length [OF assms(1)]
  by (auto simp: dir_rep_def slot_pos_def)

lemma wp_rh_next_id_step:
  assumes v: "hview r s0 s D H R" and Q: "\<And>s'. hview r s0 s' D H (R\<lparr>h_next_id := h_next_id R + 1\<rparr>) \<Longrightarrow> Q s'"
  shows "runs (do { x \<leftarrow> rh_next_id r s; set_rh_next_id r s (x + 1) }) Q"
  using hview_rh_loads(12) [OF v] by (simp add: wp_set_rh_next_id [OF v Q])

text \<open>
  The state after a successful call: the block that \<open>first_fit\<close> found is carved, the slot
  \<open>i\<close> holds the new entry, the id counter has advanced, the payload is zero, and no other
  payload has changed.
\<close>

definition alloc_info :: "region_hdr \<Rightarrow> u32 \<Rightarrow> u32 \<Rightarrow> u32 \<Rightarrow> owner_info" where
  "alloc_info R user pm tag = \<lparr>o_tag = tag, o_owner = user, o_perms = pm, o_id = h_next_id R\<rparr>"

definition alloc_hdr :: "region_hdr \<Rightarrow> u64 \<Rightarrow> nat \<Rightarrow> region_hdr" where
  "alloc_hdr R fl k = (count_alloc (R\<lparr>h_free_list := fl\<rparr>) k)\<lparr>h_next_id := h_next_id R + 1\<rparr>"

lemma alloc_hdr_sel [simp]:
  "h_data_offset (alloc_hdr R fl k) = h_data_offset R" "h_dir_offset (alloc_hdr R fl k) = h_dir_offset R"
  "h_dir_capacity (alloc_hdr R fl k) = h_dir_capacity R" "h_next_id (alloc_hdr R fl k) = h_next_id R + 1"
  "h_magic (alloc_hdr R fl k) = h_magic R" "h_version (alloc_hdr R fl k) = h_version R"
  by (simp_all add: alloc_hdr_def count_alloc_def)

definition alloc_done ::
    "shm_region \<Rightarrow> machine \<Rightarrow> machine \<Rightarrow> region_hdr \<Rightarrow> obj_entry list \<Rightarrow> nat \<Rightarrow> u64 \<Rightarrow> cstring option \<Rightarrow> owner_info \<Rightarrow>
     nat \<Rightarrow> ablk list \<Rightarrow> ablk \<Rightarrow> ablk list \<Rightarrow> bool" where
  "alloc_done r s s' R es n psize name oi i xs b ys \<longleftrightarrow>
     (\<exists>fl. pool_inv r s' (alloc_hdr R fl (taken_size n b)) (xs @ take_block n oi b @ ys)
        (es[i := alloc_entry (o_id oi) (of_nat (span xs + 56)) (of_nat (acap (taken n oi b))) psize
                   (o_tag oi) (o_owner oi) (o_perms oi) name])) \<and>
     payloads_kept (unat (h_data_offset R)) (blk_objs 0 (xs @ b # ys)) s s' \<and>
     (\<forall>a. in_payload (unat (h_data_offset R)) (span xs + 56, acap (taken n oi b), oi) a \<longrightarrow> mem s' a = 0)"

lemma live_update:
  assumes "i < length es"
  shows "mset (filter live (es[i := e])) + (if live (es ! i) then {#es ! i#} else {#}) =
     mset (filter live es) + (if live e then {#e#} else {#})"
proof -
  have *: "es = take i es @ es ! i # drop (Suc i) es"
    using assms by (rule id_take_nth_drop)
  have "es[i := e] = take i es @ e # drop (Suc i) es"
    using assms by (rule upd_conv_take_nth_drop)
  moreover have "filter live es = filter live (take i es) @ filter live [es ! i] @ filter live (drop (Suc i) es)"
    by (subst *) simp
  ultimately show ?thesis
    by simp
qed

lemma alloc_entry_live:
  assumes "nid \<noteq> 0"
  shows "live (alloc_entry nid off cap used tag user pm name)"
  using assms by (simp add: live_def alloc_entry_def)

lemma alloc_dir_ok:
  assumes d: "dir_ok nid es (xs @ b # ys)" and b: "is_free b" "n \<le> asz b"
    and i: "i < length es" "\<not> live (es ! i)" and nid: "nid + 1 \<noteq> 0" "1 \<le> nid"
    and fits: "span xs + asz b < 2 ^ 64" "wf_blk (taken n oi b)" and oi: "o_id oi = nid"
  shows "dir_ok (nid + 1) (es[i := alloc_entry nid (of_nat (span xs + 56)) (of_nat (acap (taken n oi b))) used
      (o_tag oi) (o_owner oi) (o_perms oi) name]) (xs @ take_block n oi b @ ys)"
proof -
  let ?e = "alloc_entry nid (of_nat (span xs + 56)) (of_nat (acap (taken n oi b))) used
      (o_tag oi) (o_owner oi) (o_perms oi) name"
  have nz: "nid \<noteq> 0"
    using nid(2) by auto
  have lt: "nid < nid + 1"
    using nid(1) unatSuc [of nid] by (simp add: word_less_nat_alt add.commute)
  have le: "asz (taken n oi b) \<le> asz b"
    using b(2) by (simp add: taken_def)
  have live_e: "live ?e"
    using nz by (rule alloc_entry_live)
  have ms: "mset (filter live (es[i := ?e])) = mset (filter live es) + {#?e#}"
    using live_update [OF i(1), of ?e] i(2) live_e by simp
  have "unat (of_nat (span xs + 56) :: u64) = span xs + 56" "unat (of_nat (acap (taken n oi b)) :: u64) = acap (taken n oi b)"
    using fits le by (auto simp: wf_blk_def intro!: unat64 simp del: of_nat_add)
  then have ob: "ent_obj ?e = (span xs + 56, acap (taken n oi b), oi)"
    using oi by (cases oi) (simp add: ent_obj_def alloc_entry_def del: of_nat_add)
  have ids: "\<forall>e\<in>set (filter live es). e_id e < nid"
    using d by (auto simp: dir_ok_def list_all_iff entry_ok_def)
  have "mset (map e_id (filter live (es[i := ?e]))) = add_mset (e_id ?e) (mset (map e_id (filter live es)))"
    by (simp only: mset_map ms) simp
  then have "mset (map e_id (filter live (es[i := ?e]))) = mset (nid # map e_id (filter live es))"
    by (simp add: alloc_entry_def)
  moreover have "distinct (nid # map e_id (filter live es))"
    using d ids by (auto simp: dir_ok_def)
  ultimately have "distinct (map e_id (filter live (es[i := ?e])))"
    by (metis mset_eq_imp_distinct_iff)
  moreover have "mset (dir_objs (es[i := ?e])) = mset (blk_objs 0 (xs @ take_block n oi b @ ys))"
  proof -
    have "mset (dir_objs (es[i := ?e])) = add_mset (ent_obj ?e) (mset (dir_objs es))"
      by (simp only: dir_objs_def mset_map ms) simp
    then show ?thesis
      using d b by (simp add: dir_ok_def ob take_block_Cons blk_objs_free add.assoc taken_span is_free_def
          del: of_nat_add)
  qed
  moreover have "list_all (entry_ok (nid + 1)) (es[i := ?e])"
  proof -
    have "entry_ok (nid + 1) ?e"
      using live_e lt nz by (simp add: entry_ok_def alloc_entry_def stored_name_def)
    moreover have "entry_ok (nid + 1) x" if "x \<in> set es" for x
      using d that lt by (auto simp: dir_ok_def list_all_iff entry_ok_def split: if_splits)
    ultimately show ?thesis
      using set_update_subset_insert [of es i ?e] by (auto simp: list_all_iff)
  qed
  ultimately show ?thesis
    by (simp add: dir_ok_def)
qed

lemma taken_wf: "wf_blk b \<Longrightarrow> 56 \<le> n \<Longrightarrow> wf_blk (taken n i b)"
  by (simp add: taken_def wf_blk_def)

text \<open>Frames: payloads of the other objects, and the new payload.\<close>

lemma alloc_payloads:
  assumes wf: "list_all wf_blk (xs @ take_block n oi b @ ys)" and b: "is_free b" "n \<le> asz b"
    and out: "\<And>a. d \<le> a \<Longrightarrow> a \<notin> hdr_bytes d (set (starts 0 (xs @ take_block n oi b @ ys))) \<Longrightarrow>
        mem s' a = zeroed (mem s) (d + span xs + 56) (acap (taken n oi b)) a"
  shows "payloads_kept d (blk_objs 0 (xs @ b # ys)) s s'"
    and "in_payload d (span xs + 56, acap (taken n oi b), oi) a \<Longrightarrow> mem s' a = 0"
proof -
  let ?bs' = "xs @ take_block n oi b @ ys" and ?ob = "(span xs + 56, acap (taken n oi b), oi)"
  have objs: "blk_objs 0 ?bs' = blk_objs 0 xs @ ?ob # blk_objs (span xs + asz b) ys"
    using b(2) by (simp add: take_block_Cons add.assoc taken_span)
  have objs0: "blk_objs 0 (xs @ b # ys) = blk_objs 0 xs @ blk_objs (span xs + asz b) ys"
    using b(1) by (simp add: is_free_def)
  have val: "mem s' a = zeroed (mem s) (d + span xs + 56) (acap (taken n oi b)) a"
    if "ob \<in> set (blk_objs 0 ?bs')" "in_payload d ob a" for ob a
    using out [of a] payload_no_hdr [OF wf that] that(2) by (simp add: in_payload_def)
  show "mem s' a = 0" if a: "in_payload d ?ob a"
  proof -
    have "?ob \<in> set (blk_objs 0 ?bs')"
      unfolding objs by simp
    from val [OF this a] show ?thesis
      using a by (simp add: in_payload_def zeroed_def)
  qed
  show "payloads_kept d (blk_objs 0 (xs @ b # ys)) s s'"
    unfolding payloads_kept_def objs0
  proof (intro ballI allI impI)
    fix ob a assume ob: "ob \<in> set (blk_objs 0 xs @ blk_objs (span xs + asz b) ys)" and a: "in_payload d ob a"
    obtain off cap i where ob': "ob = (off, cap, i)" by (cases ob)
    have wfs: "list_all wf_blk xs" "list_all wf_blk ys" "wf_blk (taken n oi b)"
      using wf by (simp_all add: take_block_Cons)
    have "asz (taken n oi b) \<le> asz b"
      using b(2) by (simp add: taken_def)
    moreover have "off + cap \<le> span xs \<or> span xs + asz b + 56 \<le> off"
      using ob ob' blk_objs_bounds [of off cap i 0 xs] blk_objs_bounds [of off cap i "span xs + asz b" ys] wfs
      by auto
    ultimately have "\<not> (d + span xs + 56 \<le> a \<and> a < d + span xs + 56 + acap (taken n oi b))"
      using a ob' wfs(3) by (auto simp: in_payload_def wf_blk_def)
    moreover have "ob \<in> set (blk_objs 0 ?bs')"
      using ob unfolding objs by auto
    ultimately show "mem s' a = mem s a"
      using val [of ob a] a by (auto simp: zeroed_def)
  qed
qed

lemma wp_persist_any:
  assumes "mapped r" "region_off r p + unat n \<le> unat (rsize r)"
    and "\<And>s'. mem s' = mem s \<Longrightarrow> mutex s' = mutex s \<Longrightarrow> cmode s' = cmode s \<Longrightarrow> Q s'"
  shows "runs (shm_persist r s p n) Q"
  using assms by (simp add: shm_persist_region_off)

lemma rh_field_fits:
  "200 \<le> unat (rsize r) \<Longrightarrow> numeral k + unat n \<le> (200 :: nat) \<Longrightarrow>
     region_off r (shm_rh r + numeral k) + unat n \<le> unat (rsize r)"
proof -
  assume le: "200 \<le> unat (rsize r)" "numeral k + unat n \<le> (200 :: nat)"
  then have "numeral k \<le> (200 :: nat)" by linarith
  then have "region_off r (shm_rh r + numeral k) = numeral k"
    by (rule region_off_rh_field)
  then show ?thesis
    using le by linarith
qed

text \<open>From the carved heap to the end of the call, for slot \<open>i\<close>.\<close>

lemma alloc_tail:
  assumes inv: "pool_inv r s R bs es" and bs: "bs = xs @ b # ys" "is_free b" "n \<le> asz b" "56 \<le> n"
    and hv: "heap_view r s s2 (set (starts 0 (xs @ take_block n no_owner b @ ys)))
          (count_alloc (R\<lparr>h_free_list := fl\<rparr>) (taken_size n b)) (xs @ take_block n no_owner b @ ys)"
    and lock: "mutex s = MLocked" and i: "i < length es" "\<not> live (es ! i)"
    and nid: "h_next_id R + 1 \<noteq> 0" and oi: "oi = alloc_info R user pm tag"
  shows "runs (do {
       new_id \<leftarrow> rh_next_id r s2;
       s \<leftarrow> set_rh_next_id r s2 (new_id + 1);
       s \<leftarrow> alloc_init_block r s (bp r (h_data_offset R) (span xs)) new_id user pm tag;
       s \<leftarrow> alloc_fill_slot r s (rp r (slot_pos R i)) (bp r (h_data_offset R) (span xs)) new_id psize name user pm tag;
       s \<leftarrow> shm_persist r s (rp r (slot_pos R i)) SIZEOF_OBJ_ENTRY;
       s \<leftarrow> shm_persist r s (shm_rh r + 112) 8;
       let s = shm_drain s;
       off \<leftarrow> ent_off r s (rp r (slot_pos R i));
       s \<leftarrow> region_unlock r s;
       Some (OK, Some (new_id, off), s) })
    (\<lambda>(rc, out, s'). rc = OK \<and> out = Some (h_next_id R, of_nat (span xs + 56)) \<and> mutex s' = MUnlocked \<and>
       cmode s' = cmode s \<and> alloc_done r s s' R es n psize name oi i xs b ys)"
proof -
  let ?bs1 = "xs @ take_block n no_owner b @ ys" and ?bs2 = "xs @ take_block n oi b @ ys"
  let ?h = "span xs" and ?d = "unat (h_data_offset R)" and ?k = "slot_pos R i"
  let ?R1 = "count_alloc (R\<lparr>h_free_list := fl\<rparr>) (taken_size n b)" and ?R2 = "alloc_hdr R fl (taken_size n b)"
  let ?c = "acap (taken n oi b)"
  from hv obtain H where H: "hview r s s2 (set (starts 0 ?bs1)) H ?R1" "heap_shape H ?R1 ?bs1"
    "unat (h_data_offset ?R1) + span ?bs1 = unat (rsize r)" "span ?bs1 < 2 ^ 64" "list_all wf_blk ?bs1"
    by (rule heap_viewE)
  have D: "set (starts 0 ?bs2) = set (starts 0 ?bs1)"
    using bs(3) by (auto simp: take_block_def)
  have hD: "?h \<in> set (starts 0 ?bs1)"
    by (simp add: take_block_Cons)
  have wf2: "list_all wf_blk ?bs2"
    using H(5) by (auto simp: take_block_def wf_blk_def split: if_splits)
  have sp: "span ?bs2 = span bs" "span ?bs1 = span bs"
    using bs by (simp_all add: span_take_block)
  have rh: "?R1\<lparr>h_next_id := h_next_id ?R1 + 1\<rparr> = ?R2" "h_next_id ?R1 = h_next_id R"
    by (simp_all add: alloc_hdr_def count_alloc_def)
  have sh2: "heap_shape (H(?h := owned (H ?h) oi)) ?R2 ?bs2"
  proof -
    have "heap_shape (H(?h := owned (H ?h) oi)) ?R1 (xs @ (taken n no_owner b)\<lparr>aown := Some oi\<rparr> # taken_rest n b @ ys)"
      by (rule heap_shape_owned) (use H(2) in \<open>simp_all add: take_block_Cons\<close>)
    then show ?thesis
      by (simp add: taken_owner take_block_Cons heap_shape_def alloc_hdr_def)
  qed
  have cap: "unat (b_payload_cap (H ?h)) = ?c"
    using H(2) by (simp add: heap_shape_def take_block_Cons blk_ok_def sizes_ok_def taken_def)
  have obin: "(?h + 56, ?c, oi) \<in> set (blk_objs 0 ?bs2)"
    by (simp add: take_block_Cons)
  have fits: "?d + ?h + 56 + ?c \<le> unat (rsize r)"
    using blk_objs_bounds(2) [OF obin wf2] H(3) sp by simp
  have nohdr: "a \<notin> hdr_bytes ?d (set (starts 0 ?bs1))" if "?d + ?h + 56 \<le> a" "a < ?d + ?h + 56 + ?c" for a
    using payload_no_hdr [OF wf2 obin, of ?d a] that D by (simp add: in_payload_def)
  note dr = pool_invD(2) [OF inv]
  note sb = slot_bounds [OF dr i(1)]
  have m: "mapped r" "200 \<le> unat (rsize r)"
    using pool_invD(6,7) [OF inv] by auto
  have fin: "alloc_done r s s' R es n psize name oi i xs b ys"
    if v3: "hview r (s\<lparr>mem := zeroed (mem s) (?d + ?h + 56) ?c\<rparr>) s3 (set (starts 0 ?bs1)) (H(?h := owned (H ?h) oi)) ?R2"
      and e: "eview r s3 s4 ?k (alloc_entry (o_id oi) (of_nat (?h + 56)) (of_nat ?c) psize (o_tag oi) (o_owner oi) (o_perms oi) name)"
      and ms: "mem s' = mem s4" for s3 s4 s'
  proof -
    have v4: "hview r s4 s4 (set (starts 0 ?bs1)) (H(?h := owned (H ?h) oi)) ?R2"
      using sb by (intro eview_hview [OF v3 e]) simp_all
    have "heap_view r s4 s4 (set (starts 0 ?bs1)) ?R2 ?bs2"
      using v4 _ sh2 by (rule heap_viewI_exact) (use D H(3) sp in simp_all)
    then have hr: "heap_rep r s4 ?R2 ?bs2"
      by (rule heap_view_rep)
    have out: "mem s3 a = zeroed (mem s) (?d + ?h + 56) ?c a" if "200 \<le> a" "a \<notin> hdr_bytes ?d (set (starts 0 ?bs1))" for a
      using hviewD(8) [OF v3, of a] that by simp
    have "dir_rep r s3 ?R2 es"
    proof (rule dir_rep_frame [OF dr])
      show "mem s3 a = mem s a" if "200 \<le> a" "a < ?d" for a
        using out [of a] that by (auto simp: hdr_bytes_def zeroed_def)
      show "rh_at (mem s3) = ?R2"
        using hviewD(6) [OF v3] .
    qed simp_all
    then have dr4: "dir_rep r s4 ?R2 (es[i := alloc_entry (o_id oi) (of_nat (?h + 56)) (of_nat ?c) psize (o_tag oi)
        (o_owner oi) (o_perms oi) name])"
      by (rule dir_at_update [OF _ i(1)]) (use e in \<open>simp_all add: slot_pos_def\<close>)
    have "dir_ok (h_next_id R + 1) (es[i := alloc_entry (h_next_id R) (of_nat (?h + 56)) (of_nat ?c) psize (o_tag oi)
        (o_owner oi) (o_perms oi) name]) ?bs2"
    proof (rule alloc_dir_ok [OF _ bs(2,3) i nid])
      show "dir_ok (h_next_id R) es (xs @ b # ys)"
        using pool_invD(5) [OF inv] bs(1) by simp
      show "?h + asz b < 2 ^ 64"
        using H(4) sp bs(1) by simp
      show "wf_blk (taken n oi b)"
        using wf2 by (simp add: take_block_Cons)
      show "1 \<le> h_next_id R"
        using inv by (simp add: pool_inv_def)
    qed (simp add: oi alloc_info_def)
    moreover have "acct ?R2 ?bs2"
      using acct_alloc [of R xs b ys n fl oi] pool_invD(3) [OF inv] bs by (simp add: acct_def alloc_hdr_def)
    moreover have "coalesced ?bs2"
      using take_block_coalesced [of xs b ys n oi] pool_invD(4) [OF inv] bs by simp
    moreover have "1 \<le> h_next_id R + 1"
      using nid by (simp add: word_le_nat_alt unat_gt_0 Suc_le_eq)
    ultimately have "pool_inv r s4 ?R2 ?bs2 (es[i := alloc_entry (o_id oi) (of_nat (?h + 56)) (of_nat ?c) psize (o_tag oi)
        (o_owner oi) (o_perms oi) name])"
      using hr dr4 inv by (simp add: pool_inv_def oi alloc_info_def)
    then have "pool_inv r s' ?R2 ?bs2 (es[i := alloc_entry (o_id oi) (of_nat (?h + 56)) (of_nat ?c) psize (o_tag oi)
        (o_owner oi) (o_perms oi) name])"
      using ms m(1) by (rule pool_inv_bytes) simp
    moreover have "mem s' a = zeroed (mem s) (?d + ?h + 56) ?c a"
      if "?d \<le> a" "a \<notin> hdr_bytes ?d (set (starts 0 ?bs2))" for a
      using out [of a] that D sb e ms by (auto simp: eview_def)
    note alloc_payloads [OF wf2 bs(2,3) this]
    ultimately show ?thesis
      by (auto simp: alloc_done_def)
  qed
  have cd: "h_data_offset R = h_data_offset ?R2"
    by simp
  have rh1: "?R1\<lparr>h_next_id := h_next_id R + 1\<rparr> = ?R2"
    by (simp add: alloc_hdr_def)
  have oi': "\<lparr>o_tag = tag, o_owner = user, o_perms = pm, o_id = h_next_id R\<rparr> = oi"
    by (simp add: oi alloc_info_def)
  have cap': "unat (b_payload_cap (H (span xs))) = ?c"
    using cap .
  show ?thesis
    apply (simp only: runs_bind hview_rh_loads(12) [OF H(1)] rh(2) runs_Some)
    apply (rule wp_set_rh_next_id [OF H(1)])
    subgoal premises p1 for s3
      apply (rule wp_alloc_init_block [OF p1 [unfolded rh1] hD cd cap' fits nohdr], assumption, assumption)
      subgoal premises p2 for s4
        apply (rule wp_alloc_fill_slot [OF hview_refl [OF p2 subset_refl] hD cd sb])
        apply (rule wp_persist_slot, assumption)
        subgoal premises p3 for s5 s6
        proof -
          note p2' = p2 [unfolded oi']
          have e: "eview r s4 s6 ?k (alloc_entry (o_id oi) (of_nat (?h + 56)) (of_nat ?c) psize (o_tag oi) (o_owner oi) (o_perms oi) name)"
            using p3(2) cap unat64_eqD [OF cap] by (simp add: oi alloc_info_def owned_def del: of_nat_add)
          show ?thesis
            apply (rule wp_persist_any [OF m(1) rh_field_fits [OF m(2)]], simp)
            subgoal premises p4 for s7
            proof -
              have e8: "eview r s4 (shm_drain s7) ?k (alloc_entry (o_id oi) (of_nat (?h + 56)) (of_nat ?c) psize
                  (o_tag oi) (o_owner oi) (o_perms oi) name)"
                by (rule eview_mem_cong [OF e]) (simp_all add: p4)
              have mu: "mutex (shm_drain s7) = MLocked" "cmode (shm_drain s7) = cmode s"
                using e8 p2' lock by (simp_all add: eview_def hview_def)
              have off: "ent_off r (shm_drain s7) (rp r ?k) = Some (of_nat (?h + 56))"
                using eview_loads(2) [OF e8] by (simp add: alloc_entry_def)
              show ?thesis
                using fin [OF p2' e8, of "shm_drain s7\<lparr>mutex := MUnlocked\<rparr>"] mu
                by (simp add: Let_def off region_unlock_locked [OF m mu(1)] del: of_nat_add)
            qed
            done
        qed
        done
      done
    done
qed

text \<open>
  The whole call, for a request whose block size does not wrap below a header and while ids last.
\<close>

definition alloc_post ::
    "shm_region \<Rightarrow> machine \<Rightarrow> region_hdr \<Rightarrow> ablk list \<Rightarrow> obj_entry list \<Rightarrow> u64 \<Rightarrow> cstring option \<Rightarrow> owner_info \<Rightarrow>
     errno \<times> (u64 \<times> u64) option \<times> machine \<Rightarrow> bool" where
  "alloc_post r s R bs es psize name oi = (\<lambda>(rc, out, s').
     mutex s' = MUnlocked \<and> cmode s' = cmode s \<and>
     (case first_slot (\<lambda>e. \<not> live e) es 0 of
        None \<Rightarrow> rc = ENOSPC \<and> out = None \<and> mem s' = mem s
      | Some i \<Rightarrow>
          (case first_fit (unat (alloc_size psize)) bs of
             None \<Rightarrow> rc = ENOMEM \<and> out = None \<and> mem s' = mem s
           | Some (xs, b, ys) \<Rightarrow>
               rc = OK \<and> out = Some (h_next_id R, of_nat (span xs + 56)) \<and>
               alloc_done r s s' R es (unat (alloc_size psize)) psize name oi i xs b ys)))"

lemma shm_alloc_refines:
  assumes inv: "pool_inv r s R bs es" and lk: "lockable s" and p: "psize \<noteq> 0"
    and n: "56 \<le> unat (alloc_size psize)" and nid: "h_next_id R + 1 \<noteq> 0"
  shows "runs (shm_alloc (Some r) s psize name user pm tag True True)
           (alloc_post r s R bs es psize name (alloc_info R user pm tag))"
proof -
  let ?s1 = "s\<lparr>mutex := MLocked\<rparr>" and ?n = "unat (alloc_size psize)"
  have m: "mapped r" "200 \<le> unat (rsize r)"
    using pool_invD(6,7) [OF inv] by auto
  have lock: "region_lock r s = Some (OK, ?s1)"
    using m lk by (rule region_lock_lockable)
  have inv1: "pool_inv r ?s1 R bs es"
    using inv by (rule pool_inv_bytes) (simp_all add: m)
  note dr = pool_invD(2) [OF inv1]
  note slot = dir_find_free_slot_eq [OF dr]
  have unlock: "region_unlock r ?s1 = Some (s\<lparr>mutex := MUnlocked\<rparr>)"
    using region_unlock_locked [OF m, of ?s1] by simp
  show ?thesis
  proof (cases "first_slot (\<lambda>e. \<not> live e) es 0")
    case None
    then show ?thesis
      using p by (simp add: shm_alloc_def lock slot slot_ptr_def unlock alloc_post_def)
  next
    case (Some i)
    have i: "i < length es" "\<not> live (es ! i)"
      using first_slot_SomeD [OF Some] by auto
    have slot_i: "dir_find_free_slot r ?s1 = Some (rp r (slot_pos R i))" "rp r (slot_pos R i) \<noteq> 0"
      using slot Some slot_ptr_nonzero [OF dr i(1)] by (simp_all add: slot_ptr_def)
    have sz: "alloc_size psize = of_nat ?n" by simp
    show ?thesis
      unfolding shm_alloc_def
      using p slot_i
      apply (simp add: lock Let_def)
      apply (subst sz)
      apply (rule heap_alloc_block_refines [OF pool_invD(1) [OF inv1] n alloc_size_dvd unat64_bound refl])
      subgoal by (simp add: unlock alloc_post_def Some)
      subgoal premises q for s2 fl xs b ys
      proof -
        have b: "bs = xs @ b # ys" "is_free b" "?n \<le> asz b"
          using first_fit_SomeD [OF q(4)] by auto
        obtain H where H: "hview r ?s1 s2 (set (starts 0 (xs @ take_block ?n no_owner b @ ys))) H
            (count_alloc (R\<lparr>h_free_list := fl\<rparr>) (taken_size ?n b))"
          using q(5) by (rule heap_viewE)
        have nz: "bp r (h_data_offset R) (span xs) \<noteq> 0"
          by (rule bp_nonzero [OF H]) (simp_all add: take_block_Cons)
        have post: "alloc_post r s R bs es psize name (alloc_info R user pm tag) v"
          if "case v of (rc, out, s') \<Rightarrow> rc = OK \<and> out = Some (h_next_id R, of_nat (span xs + 56)) \<and>
              mutex s' = MUnlocked \<and> cmode s' = cmode ?s1 \<and>
              alloc_done r ?s1 s' R es ?n psize name (alloc_info R user pm tag) i xs b ys" for v
          using that by (auto simp: alloc_post_def Some q(4) alloc_done_def payloads_kept_def)
        have mu: "mutex ?s1 = MLocked" by simp
        show ?thesis
          using nz runs_mono [OF alloc_tail [OF inv1 b n q(5) mu i nid refl, of user pm tag psize name] post]
          by (simp add: Let_def)
      qed
      done
  qed
qed

section \<open>What a release does\<close>

lemma dir_target_eq:
  assumes "dir_rep r s R es" "i < length es"
  shows "dir_target r s (rp r (slot_pos R i)) =
    Some (if live (es ! i) then Some (e_owner (es ! i), e_perms (es ! i)) else None)"
  using eview_loads [OF dir_rep_eview [OF assms]] slot_ptr_nonzero [OF assms]
  by (auto simp: dir_target_def live_def)

lemma check_dir_access_eq:
  assumes "dir_rep r s R es" "i < length es" "live (es ! i)"
  shows "check_dir_access r s (rp r (slot_pos R i)) caller cp req =
    Some (if access_ok (e_owner (es ! i)) (e_perms (es ! i)) caller cp req then OK else EACCES)"
  using dir_target_eq [OF assms(1,2)] assms(3) by (intro check_dir_access_live) simp

text \<open>The block behind a live entry.\<close>

lemma entry_block:
  assumes d: "dir_ok nid es bs" and i: "i < length es" "live (es ! i)"
  obtains xs b ys where "bs = xs @ b # ys" "\<not> is_free b" "unat (e_off (es ! i)) = span xs + 56"
    "unat (e_capacity (es ! i)) = acap b" "ent_obj (es ! i) = (span xs + 56, acap b, the (aown b))"
    "aown b = Some (snd (snd (ent_obj (es ! i))))"
proof -
  let ?e = "es ! i"
  have "ent_obj ?e \<in> set (dir_objs es)"
    using i by (auto simp: dir_objs_def)
  moreover have "set (dir_objs es) = set (blk_objs 0 bs)"
    using d by (metis dir_ok_def set_mset_mset)
  ultimately have m: "(unat (e_off ?e), unat (e_capacity ?e), snd (snd (ent_obj ?e))) \<in> set (blk_objs 0 bs)"
    by (simp add: ent_obj_def)
  from m obtain xs b ys where "bs = xs @ b # ys" "aown b = Some (snd (snd (ent_obj ?e)))"
    "unat (e_off ?e) = 0 + span xs + 56" "unat (e_capacity ?e) = acap b"
    by (rule blk_objs_split)
  then show thesis
    by (intro that [of xs b ys]) (auto simp: ent_obj_def is_free_def)
qed

lemma free_dir_ok:
  assumes d: "dir_ok nid es (xs @ b # ys)" and i: "i < length es" "live (es ! i)"
    and ob: "ent_obj (es ! i) = (span xs + 56, acap b, oi)" "aown b = Some oi"
  shows "dir_ok nid (es[i := zero_ent]) (insert_free xs b ys)"
proof -
  have nl: "\<not> live zero_ent"
    by (simp add: live_def zero_ent_def)
  have ms: "mset (filter live es) = add_mset (es ! i) (mset (filter live (es[i := zero_ent])))"
    using live_update [OF i(1), of zero_ent] i(2) nl by simp
  have "mset (map e_id (filter live es)) = mset (e_id (es ! i) # map e_id (filter live (es[i := zero_ent])))"
    by (simp only: mset_map ms) simp
  then have "distinct (e_id (es ! i) # map e_id (filter live (es[i := zero_ent])))"
    using d by (metis dir_ok_def mset_eq_imp_distinct_iff)
  moreover have "mset (dir_objs es) = add_mset (ent_obj (es ! i)) (mset (dir_objs (es[i := zero_ent])))"
    by (simp only: dir_objs_def mset_map ms) simp
  moreover have "list_all (entry_ok nid) (es[i := zero_ent])"
    using d set_update_subset_insert [of es i zero_ent] by (auto simp: dir_ok_def list_all_iff)
  ultimately show ?thesis
    using d ob by (simp add: dir_ok_def insert_free_objs)
qed

definition free_done ::
    "shm_region \<Rightarrow> machine \<Rightarrow> machine \<Rightarrow> region_hdr \<Rightarrow> obj_entry list \<Rightarrow> nat \<Rightarrow> ablk list \<Rightarrow> ablk \<Rightarrow> ablk list \<Rightarrow> bool" where
  "free_done r s s' R es i xs b ys \<longleftrightarrow>
     (\<exists>fl. pool_inv r s' (count_free (R\<lparr>h_free_list := fl\<rparr>) (asz b)) (insert_free xs b ys) (es[i := zero_ent])) \<and>
     payloads_kept (unat (h_data_offset R)) (blk_objs 0 (insert_free xs b ys)) s s' \<and>
     b_allocated (blk_at (mem s') (unat (h_data_offset R) + span xs)) = 0"

lemma count_free_sel2 [simp]:
  "h_dir_offset (count_free R n) = h_dir_offset R" "h_dir_capacity (count_free R n) = h_dir_capacity R"
  "h_next_id (count_free R n) = h_next_id R" "h_magic (count_free R n) = h_magic R"
  "h_version (count_free R n) = h_version R"
  by (simp_all add: count_free_def)

text \<open>From the freed block to the end of the call.\<close>

lemma free_tail:
  assumes inv: "pool_inv r s R (xs @ b # ys) es" and used: "\<not> is_free b"
    and hv: "heap_view r s s2 (set (starts 0 (xs @ b # ys)))
        (count_free (R\<lparr>h_free_list := fl\<rparr>) (asz b)) (insert_free xs b ys)"
    and lock: "mutex s = MLocked" and i: "i < length es" "live (es ! i)"
    and ob: "ent_obj (es ! i) = (span xs + 56, acap b, oi)" "aown b = Some oi"
  shows "runs (do {
       s \<leftarrow> memset r s2 (rp r (slot_pos R i)) 0 SIZEOF_OBJ_ENTRY;
       s \<leftarrow> shm_persist r s (rp r (slot_pos R i)) SIZEOF_OBJ_ENTRY;
       let s = shm_drain s;
       s \<leftarrow> region_unlock r s;
       Some (OK, s) })
    (\<lambda>(rc, s'). rc = OK \<and> mutex s' = MUnlocked \<and> cmode s' = cmode s \<and> free_done r s s' R es i xs b ys)"
proof -
  let ?bs = "xs @ b # ys" and ?bs' = "insert_free xs b ys" and ?k = "slot_pos R i"
  let ?d = "unat (h_data_offset R)" and ?R' = "count_free (R\<lparr>h_free_list := fl\<rparr>) (asz b)"
  from hv obtain H where H: "hview r s s2 (set (starts 0 ?bs)) H ?R'" "set (starts 0 ?bs') \<subseteq> set (starts 0 ?bs)"
    "heap_shape H ?R' ?bs'" "unat (h_data_offset ?R') + span ?bs' = unat (rsize r)"
    "\<forall>h\<in>set (starts 0 ?bs) - set (starts 0 ?bs'). b_allocated (H h) = 0"
    by (rule heap_viewE)
  note dr = pool_invD(2) [OF inv]
  note sb = slot_bounds [OF dr i(1)]
  have m: "mapped r" "200 \<le> unat (rsize r)"
    using pool_invD(6,7) [OF inv] by auto
  have wf: "list_all wf_blk ?bs"
    using pool_invD(1) [OF inv] by (auto simp: heap_rep_bytes heap_shape_def dest: tiles_wf)
  have out: "mem s2 a = mem s a" if "200 \<le> a" "a \<notin> hdr_bytes ?d (set (starts 0 ?bs))" for a
    using hviewD(8) [OF H(1), of a] that by simp
  have fin: "free_done r s s' R es i xs b ys"
    if e: "eview r s2 s4 ?k zero_ent" and ms: "mem s' = mem s4" for s4 s'
  proof -
    have v4: "hview r s4 s4 (set (starts 0 ?bs)) H ?R'"
      using sb by (intro eview_hview [OF H(1) e]) simp_all
    then have hr: "heap_rep r s4 ?R' ?bs'"
      using H(2-5) by (intro heap_view_rep heap_viewI)
    have "dir_rep r s2 ?R' es"
    proof (rule dir_rep_frame [OF dr])
      show "mem s2 a = mem s a" if "200 \<le> a" "a < ?d" for a
        using out [of a] that by (auto simp: hdr_bytes_def)
      show "rh_at (mem s2) = ?R'"
        using hviewD(6) [OF H(1)] .
    qed simp_all
    then have dr4: "dir_rep r s4 ?R' (es[i := zero_ent])"
      by (rule dir_at_update [OF _ i(1)]) (use e in \<open>simp_all add: slot_pos_def\<close>)
    have "pool_inv r s4 ?R' ?bs' (es[i := zero_ent])"
      using inv hr dr4 free_dir_ok [OF pool_invD(5) [OF inv] i ob] acct_free [OF pool_invD(3) [OF inv] used]
        insert_free_coalesced [of xs ys b] pool_invD(4) [OF inv]
      by (simp add: pool_inv_def coalesced_Cons)
    then have "pool_inv r s' ?R' ?bs' (es[i := zero_ent])"
      using ms m(1) by (rule pool_inv_bytes) simp
    moreover have "payloads_kept ?d (blk_objs 0 ?bs') s s'"
      unfolding payloads_kept_def
    proof (intro ballI allI impI)
      fix ob' a assume ob': "ob' \<in> set (blk_objs 0 ?bs')" and a: "in_payload ?d ob' a"
      then have "ob' \<in> set (blk_objs 0 ?bs)"
        by (auto simp: insert_free_objs)
      from payload_no_hdr [OF wf this a] have "mem s2 a = mem s a"
        using a sb by (intro out) (auto simp: in_payload_def)
      then show "mem s' a = mem s a"
        using e ms a sb by (auto simp: eview_def in_payload_def)
    qed
    moreover have "b_allocated (blk_at (mem s') (?d + span xs)) = 0"
    proof -
      have "blk_at (mem s4) (?d + span xs) = H (span xs)"
        using hviewD(7) [OF v4, of "span xs"] by simp
      also have "H (span xs) = blk_at (mem s2) (?d + span xs)"
        using hviewD(7) [OF H(1), of "span xs"] by simp
      finally show ?thesis
        using freed_header [OF hv wf] ms by simp
    qed
    ultimately show ?thesis
      by (auto simp: free_done_def)
  qed
  have e2: "eview r s2 s2 ?k (ent_at (mem s2) ?k)"
    using m sb hviewD(3) [OF H(1)] by (intro eview_start) simp_all
  show ?thesis
    unfolding runs_bind
    apply (rule wp_memset_slot [OF e2])
    apply (rule wp_persist_slot, assumption)
    subgoal premises p for s3 s4
    proof -
      have e8: "eview r s2 (shm_drain s4) ?k zero_ent"
        by (rule eview_mem_cong [OF p(2)]) simp_all
      have mu: "mutex (shm_drain s4) = MLocked" "cmode (shm_drain s4) = cmode s"
        using e8 H(1) lock by (simp_all add: eview_def hview_def)
      show ?thesis
        using fin [OF e8, of "shm_drain s4\<lparr>mutex := MUnlocked\<rparr>"] mu
        by (simp add: Let_def region_unlock_locked [OF m mu(1)])
    qed
    done
qed

definition free_post ::
    "shm_region \<Rightarrow> machine \<Rightarrow> region_hdr \<Rightarrow> ablk list \<Rightarrow> obj_entry list \<Rightarrow> u64 \<Rightarrow> u32 \<Rightarrow> u32 \<Rightarrow> errno \<times> machine \<Rightarrow> bool" where
  "free_post r s R bs es obj_id user cp = (\<lambda>(rc, s').
     mutex s' = MUnlocked \<and> cmode s' = cmode s \<and>
     (case first_slot (\<lambda>e. e_id e = obj_id \<and> e_alive e \<noteq> 0) es 0 of
        None \<Rightarrow> rc = ENOENT \<and> mem s' = mem s
      | Some i \<Rightarrow>
          if access_ok (e_owner (es ! i)) (e_perms (es ! i)) user cp SHM_PERM_FREE
          then rc = OK \<and>
            (\<exists>xs b ys. bs = xs @ b # ys \<and> unat (e_off (es ! i)) = span xs + 56 \<and>
               aown b = Some (snd (snd (ent_obj (es ! i)))) \<and> free_done r s s' R es i xs b ys)
          else rc = EACCES \<and> mem s' = mem s))"

lemma shm_free_refines:
  assumes inv: "pool_inv r s R bs es" and lk: "lockable s" and nz: "obj_id \<noteq> 0"
  shows "runs (shm_free (Some r) s obj_id user cp) (free_post r s R bs es obj_id user cp)"
proof -
  let ?s1 = "s\<lparr>mutex := MLocked\<rparr>"
  have m: "mapped r" "200 \<le> unat (rsize r)"
    using pool_invD(6,7) [OF inv] by auto
  have lock: "region_lock r s = Some (OK, ?s1)"
    using m lk by (rule region_lock_lockable)
  have inv1: "pool_inv r ?s1 R bs es"
    using inv by (rule pool_inv_bytes) (simp_all add: m)
  note dr = pool_invD(2) [OF inv1]
  note slot = dir_find_by_id_eq [OF dr, of obj_id]
  have unlock: "region_unlock r ?s1 = Some (s\<lparr>mutex := MUnlocked\<rparr>)"
    using region_unlock_locked [OF m, of ?s1] by simp
  show ?thesis
  proof (cases "first_slot (\<lambda>e. e_id e = obj_id \<and> e_alive e \<noteq> 0) es 0")
    case None
    then show ?thesis
      using nz by (simp add: shm_free_def lock slot slot_ptr_def unlock free_post_def)
  next
    case (Some i)
    have i: "i < length es" "live (es ! i)"
      using first_slot_SomeD [OF Some] nz by (auto simp: live_def)
    have slot_i: "dir_find_by_id r ?s1 obj_id = Some (rp r (slot_pos R i))" "rp r (slot_pos R i) \<noteq> 0"
      using slot Some slot_ptr_nonzero [OF dr i(1)] by (simp_all add: slot_ptr_def)
    note chk = check_dir_access_eq [OF dr i]
    show ?thesis
    proof (cases "access_ok (e_owner (es ! i)) (e_perms (es ! i)) user cp SHM_PERM_FREE")
      case False
      then show ?thesis
        using nz slot_i by (simp add: shm_free_def lock chk unlock free_post_def Some)
    next
      case True
      obtain xs b ys where b: "bs = xs @ b # ys" "\<not> is_free b" "unat (e_off (es ! i)) = span xs + 56"
        "unat (e_capacity (es ! i)) = acap b" "ent_obj (es ! i) = (span xs + 56, acap b, the (aown b))"
        "aown b = Some (snd (snd (ent_obj (es ! i))))"
        by (rule entry_block [OF pool_invD(5) [OF inv] i])
      have off: "ent_off r ?s1 (rp r (slot_pos R i)) = Some (of_nat (span xs + 56))"
        using eview_loads(2) [OF dir_rep_eview [OF dr i(1)]] unat64_eqD [OF b(3)] by simp
      have blk: "shm_blk_of_poff r ?s1 (of_nat (span xs + 56)) = Some (bp r (h_data_offset R) (span xs))"
        using hview_ptrs(6) [OF dir_rep_hview [OF dr] refl] .
      have mu: "mutex ?s1 = MLocked" by simp
      have own: "aown b = Some (the (aown b))"
        using b(6) by simp
      have post: "free_post r s R bs es obj_id user cp v"
        if "case v of (rc, s') \<Rightarrow> rc = OK \<and> mutex s' = MUnlocked \<and> cmode s' = cmode ?s1 \<and>
              free_done r ?s1 s' R es i xs b ys" for v
        using that True Some b by (auto simp: free_post_def free_done_def payloads_kept_def)
      show ?thesis
        unfolding shm_free_def
        using nz slot_i True
        apply (simp add: lock chk off blk del: of_nat_add)
        apply (rule heap_free_block_refines [OF pool_invD(1) [OF inv1 [unfolded b(1)]] b(2) refl])
        subgoal premises q for s2 fl
          using runs_mono [OF free_tail [OF inv1 [unfolded b(1)] b(2) q(5) mu i b(5) own] post]
          by (simp add: Let_def)
        done
    qed
  qed
qed

end
