(* ===== verification/Shm_Api.thy ===== *)
theory Shm_Api
  imports Shm_Alloc
begin

text \<open>
  The rest of the public allocator interface of \<open>src/src/shm_alloc.c\<close> that works on existing
  objects: \<open>shm_lookup\<close>, \<open>shm_lookup_by_name\<close>, \<open>shm_dir_next\<close>, \<open>shm_ptr\<close>,
  \<open>shm_block_info\<close>, \<open>shm_block_set_perms\<close>, \<open>shm_pool_stats\<close>,
  \<open>shm_region_base\<close> and \<open>shm_region_size\<close>.

  A call that only reads returns no new state. The lemmas give the result of each call on a
  region that satisfies the pool invariant, in terms of its blocks and directory entries.
\<close>

section \<open>Lookup\<close>

text \<open>\<open>if (out) *out = \<dots>\<close>: the value is loaded only when the caller wants it.\<close>

definition opt_out :: "bool \<Rightarrow> 'a option \<Rightarrow> 'a option option" where
  "opt_out want c = (if want then map_option Some c else Some None)"

definition shm_lookup ::
    "shm_region option \<Rightarrow> machine \<Rightarrow> u64 \<Rightarrow> u32 \<Rightarrow> u32 \<Rightarrow> bool \<Rightarrow> bool \<Rightarrow>
     (errno \<times> u64 option \<times> u64 option \<times> machine) option" where
  "shm_lookup region s obj_id user_id caller_perms out_off out_used_size =
     (case region of
        None \<Rightarrow> Some (EINVAL, None, None, s)
      | Some r \<Rightarrow>
          if obj_id = 0 then Some (EINVAL, None, None, s)
          else do {
            (_, s) \<leftarrow> region_lock r s;
            slot \<leftarrow> dir_find_by_id r s obj_id;
            if slot = 0 then do { s \<leftarrow> region_unlock r s; Some (ENOENT, None, None, s) }
            else do {
              acc \<leftarrow> check_dir_access r s slot user_id caller_perms SHM_PERM_READ;
              if acc \<noteq> OK then do { s \<leftarrow> region_unlock r s; Some (acc, None, None, s) }
              else do {
                off \<leftarrow> opt_out out_off (ent_off r s slot);
                used \<leftarrow> opt_out out_used_size (ent_used_size r s slot);
                s \<leftarrow> region_unlock r s;
                Some (OK, off, used, s) } } })"

definition shm_lookup_by_name ::
    "shm_region option \<Rightarrow> machine \<Rightarrow> cstring option \<Rightarrow> u32 \<Rightarrow> u32 \<Rightarrow> bool \<Rightarrow> bool \<Rightarrow>
     (errno \<times> u64 option \<times> u64 option \<times> machine) option" where
  "shm_lookup_by_name region s name user_id caller_perms out_id out_off =
     (case (region, name) of
        (Some r, Some nm) \<Rightarrow> do {
          (_, s) \<leftarrow> region_lock r s;
          slot \<leftarrow> dir_find_by_name r s nm;
          if slot = 0 then do { s \<leftarrow> region_unlock r s; Some (ENOENT, None, None, s) }
          else do {
            acc \<leftarrow> check_dir_access r s slot user_id caller_perms SHM_PERM_READ;
            if acc \<noteq> OK then do { s \<leftarrow> region_unlock r s; Some (acc, None, None, s) }
            else do {
              id \<leftarrow> opt_out out_id (ent_id r s slot);
              off \<leftarrow> opt_out out_off (ent_off r s slot);
              s \<leftarrow> region_unlock r s;
              Some (OK, id, off, s) } } }
      | _ \<Rightarrow> Some (EINVAL, None, None, s))"

section \<open>Directory iteration\<close>

text \<open>\<open>shm_dir_entry_t\<close>.\<close>

record dir_entry =
  d_id :: u64
  d_name :: "u8 list"
  d_off :: u64
  d_capacity :: u64
  d_used_size :: u64
  d_type_tag :: u32
  d_owner :: u32
  d_perms :: u32

text \<open>The characters \<open>strncpy\<close> reads: at most \<open>n\<close>, up to the terminating NUL.\<close>

primrec rd_str :: "shm_region \<Rightarrow> machine \<Rightarrow> u64 \<Rightarrow> nat \<Rightarrow> cstring option" where
  "rd_str r s p 0 = Some []"
| "rd_str r s p (Suc n) = do {
     c \<leftarrow> rd8 r s p;
     if c = 0 then Some [] else do { cs \<leftarrow> rd_str r s (p + 1) n; Some (c # cs) } }"

definition read_entry :: "shm_region \<Rightarrow> machine \<Rightarrow> u64 \<Rightarrow> dir_entry option" where
  "read_entry r s e = do {
     id \<leftarrow> ent_id r s e;
     off \<leftarrow> ent_off r s e;
     capacity \<leftarrow> ent_capacity r s e;
     used \<leftarrow> ent_used_size r s e;
     tag \<leftarrow> ent_type_tag r s e;
     owner \<leftarrow> ent_owner r s e;
     perms \<leftarrow> ent_perms r s e;
     nm \<leftarrow> rd_str r s (ent_name_ptr e) (DIR_NAME_MAX - 1);
     Some \<lparr>d_id = id, d_name = take 47 (nm @ replicate 47 0) @ [0], d_off = off, d_capacity = capacity,
       d_used_size = used, d_type_tag = tag, d_owner = owner, d_perms = perms\<rparr> }"

partial_function (option) dir_next_loop ::
    "shm_region \<Rightarrow> machine \<Rightarrow> u32 \<Rightarrow> (errno \<times> u32 \<times> dir_entry option) option" where
  "dir_next_loop r s cursor =
     Option.bind (rh_dir_capacity r s) (\<lambda>cap.
     if cursor < cap
     then Option.bind (shm_dir_slot r s cursor) (\<lambda>e.
          Option.bind (ent_alive r s e) (\<lambda>alive.
          Option.bind (ent_id r s e) (\<lambda>id.
          if alive \<noteq> 0 \<and> id \<noteq> 0
          then Option.bind (read_entry r s e) (\<lambda>out. Some (OK, cursor + 1, Some out))
          else dir_next_loop r s (cursor + 1))))
     else Some (ENOENT, cursor, None))"

text \<open>The cursor is read and written through its pointer; \<open>None\<close> is a null pointer.\<close>

definition shm_dir_next ::
    "shm_region option \<Rightarrow> machine \<Rightarrow> u32 option \<Rightarrow> bool \<Rightarrow> (errno \<times> u32 option \<times> dir_entry option) option" where
  "shm_dir_next region s cursor out =
     (case (region, cursor) of
        (Some r, Some c) \<Rightarrow>
          if \<not> out then Some (EINVAL, cursor, None)
          else do { (rc, c, e) \<leftarrow> dir_next_loop r s c; Some (rc, Some c, e) }
      | _ \<Rightarrow> Some (EINVAL, cursor, None))"

section \<open>Pointers, block data and statistics\<close>

definition shm_ptr :: "shm_region option \<Rightarrow> machine \<Rightarrow> u64 \<Rightarrow> u32 \<Rightarrow> u32 \<Rightarrow> u32 \<Rightarrow> u64 option" where
  "shm_ptr region s off user_id caller_perms required_perms =
     (case region of
        None \<Rightarrow> Some 0
      | Some r \<Rightarrow> do {
          b \<leftarrow> shm_blk_of_poff r s off;
          acc \<leftarrow> check_block_access r s b user_id caller_perms required_perms;
          if acc \<noteq> OK then Some 0 else Some (b + SIZEOF_BLOCK_HDR) })"

definition shm_block_info ::
    "shm_region option \<Rightarrow> machine \<Rightarrow> u64 \<Rightarrow> bool \<Rightarrow> bool \<Rightarrow> bool \<Rightarrow> bool \<Rightarrow> bool \<Rightarrow>
     (errno \<times> u64 option \<times> u32 option \<times> u32 option \<times> u32 option \<times> u64 option) option" where
  "shm_block_info region s off out_payload_cap out_owner out_perms out_type_tag out_obj_id =
     (case region of
        None \<Rightarrow> Some (EINVAL, None, None, None, None, None)
      | Some r \<Rightarrow> do {
          b \<leftarrow> shm_blk_of_poff r s off;
          if b = 0 then Some (EINVAL, None, None, None, None, None)
          else do {
            magic \<leftarrow> blk_magic r s b;
            if magic \<noteq> SHM_ALLOC_MAGIC_BLOCK then Some (EINVAL, None, None, None, None, None)
            else do {
              cap \<leftarrow> opt_out out_payload_cap (blk_payload_cap r s b);
              owner \<leftarrow> opt_out out_owner (blk_owner r s b);
              perms \<leftarrow> opt_out out_perms (blk_perms r s b);
              tag \<leftarrow> opt_out out_type_tag (blk_type_tag r s b);
              id \<leftarrow> opt_out out_obj_id (blk_obj_id r s b);
              Some (OK, cap, owner, perms, tag, id) } } })"

definition shm_block_set_perms ::
    "shm_region option \<Rightarrow> machine \<Rightarrow> u64 \<Rightarrow> u32 \<Rightarrow> u32 \<Rightarrow> u32 \<Rightarrow> (errno \<times> machine) option" where
  "shm_block_set_perms region s off user_id caller_perms new_perms =
     (case region of
        None \<Rightarrow> Some (EINVAL, s)
      | Some r \<Rightarrow> do {
          (_, s) \<leftarrow> region_lock r s;
          b \<leftarrow> shm_blk_of_poff r s off;
          acc \<leftarrow> check_block_access r s b user_id caller_perms SHM_PERM_WRITE;
          if acc \<noteq> OK then do { s \<leftarrow> region_unlock r s; Some (acc, s) }
          else do {
            s \<leftarrow> set_blk_perms r s b new_perms;
            s \<leftarrow> shm_persist r s b SIZEOF_BLOCK_HDR;
            id \<leftarrow> blk_obj_id r s b;
            slot \<leftarrow> dir_find_by_id r s id;
            s \<leftarrow> (if slot \<noteq> 0 then do {
                   s \<leftarrow> set_ent_perms r s slot new_perms;
                   shm_persist r s slot SIZEOF_OBJ_ENTRY }
                 else Some s);
            let s = shm_drain s;
            s \<leftarrow> region_unlock r s;
            Some (OK, s) } })"

text \<open>\<open>shm_pool_stats_t\<close>.\<close>

record pool_stats =
  total_bytes :: u64
  used_bytes :: u64
  free_bytes :: u64
  block_count :: u64
  next_id :: u64
  host_count :: u32
  dir_capacity :: u32
  dir_used :: u32

definition shm_pool_stats :: "shm_region option \<Rightarrow> machine \<Rightarrow> bool \<Rightarrow> (errno \<times> pool_stats option) option" where
  "shm_pool_stats region s out =
     (case region of
        None \<Rightarrow> Some (EINVAL, None)
      | Some r \<Rightarrow>
          if \<not> out then Some (EINVAL, None)
          else do {
            d \<leftarrow> rh_data_offset r s;
            used \<leftarrow> rh_used_bytes r s;
            cnt \<leftarrow> rh_block_count r s;
            nid \<leftarrow> rh_next_id r s;
            hosts \<leftarrow> rh_host_count r s;
            cap \<leftarrow> rh_dir_capacity r s;
            live_n \<leftarrow> dir_count_live r s;
            Some (OK, Some \<lparr>total_bytes = rsize r - d, used_bytes = used, free_bytes = rsize r - d - used,
              block_count = cnt, next_id = nid, host_count = hosts, dir_capacity = cap, dir_used = live_n\<rparr>) })"

definition shm_region_base :: "shm_region option \<Rightarrow> u64" where
  "shm_region_base region = (case region of None \<Rightarrow> 0 | Some r \<Rightarrow> rbase r)"

definition shm_region_size :: "shm_region option \<Rightarrow> u64" where
  "shm_region_size region = (case region of None \<Rightarrow> 0 | Some r \<Rightarrow> rsize r)"

section \<open>Results of the lookups\<close>

lemma pool_lock:
  assumes inv: "pool_inv r s R bs es" and lk: "lockable s"
  shows "region_lock r s = Some (OK, s\<lparr>mutex := MLocked\<rparr>)"
    and "pool_inv r (s\<lparr>mutex := MLocked\<rparr>) R bs es"
    and "region_unlock r (s\<lparr>mutex := MLocked\<rparr>) = Some (s\<lparr>mutex := MUnlocked\<rparr>)"
proof -
  have m: "mapped r" "200 \<le> unat (rsize r)"
    using pool_invD(6,7) [OF inv] by auto
  show "region_lock r s = Some (OK, s\<lparr>mutex := MLocked\<rparr>)"
    using m lk by (rule region_lock_lockable)
  show "pool_inv r (s\<lparr>mutex := MLocked\<rparr>) R bs es"
    using inv by (rule pool_inv_bytes) (simp_all add: m)
  show "region_unlock r (s\<lparr>mutex := MLocked\<rparr>) = Some (s\<lparr>mutex := MUnlocked\<rparr>)"
    using region_unlock_locked [OF m, of "s\<lparr>mutex := MLocked\<rparr>"] by simp
qed

lemma opt_out_Some [simp]: "opt_out w (Some v) = Some (if w then Some v else None)"
  by (simp add: opt_out_def)

lemma shm_lookup_none:
  assumes inv: "pool_inv r s R bs es" and lk: "lockable s" and nz: "obj_id \<noteq> 0"
    and fs: "first_slot (\<lambda>e. e_id e = obj_id \<and> e_alive e \<noteq> 0) es 0 = None"
  shows "shm_lookup (Some r) s obj_id user cp wo wu = Some (ENOENT, None, None, s\<lparr>mutex := MUnlocked\<rparr>)"
proof -
  note l = pool_lock [OF inv lk]
  note slot = dir_find_by_id_eq [OF pool_invD(2) [OF l(2)], of obj_id]
  show ?thesis
    using nz fs by (simp add: shm_lookup_def l(1,3) slot slot_ptr_def)
qed

lemma shm_lookup_some:
  assumes inv: "pool_inv r s R bs es" and lk: "lockable s" and nz: "obj_id \<noteq> 0"
    and fs: "first_slot (\<lambda>e. e_id e = obj_id \<and> e_alive e \<noteq> 0) es 0 = Some i"
  shows "shm_lookup (Some r) s obj_id user cp wo wu =
    (if access_ok (e_owner (es ! i)) (e_perms (es ! i)) user cp SHM_PERM_READ
     then Some (OK, if wo then Some (e_off (es ! i)) else None, if wu then Some (e_used_size (es ! i)) else None,
            s\<lparr>mutex := MUnlocked\<rparr>)
     else Some (EACCES, None, None, s\<lparr>mutex := MUnlocked\<rparr>))"
proof -
  note l = pool_lock [OF inv lk]
  note dr = pool_invD(2) [OF l(2)]
  note slot = dir_find_by_id_eq [OF dr, of obj_id]
  have i: "i < length es" "live (es ! i)"
    using first_slot_SomeD [OF fs] nz by (auto simp: live_def)
  show ?thesis
    using nz fs slot_ptr_nonzero [OF dr i(1)]
    by (simp add: shm_lookup_def l(1,3) slot slot_ptr_def check_dir_access_eq [OF dr i]
        eview_loads [OF dir_rep_eview [OF dr i(1)]])
qed

text \<open>A live entry with a given name that is found is live in the stronger sense as well.\<close>

lemma alive_live: "dir_ok nid es bs \<Longrightarrow> e \<in> set es \<Longrightarrow> e_alive e \<noteq> 0 \<longleftrightarrow> live e"
proof -
  assume "dir_ok nid es bs" "e \<in> set es"
  then have "entry_ok nid e"
    unfolding dir_ok_def list_all_iff by blast
  then have "\<not> live e \<Longrightarrow> e_alive e = 0"
    by (simp add: entry_ok_def)
  moreover have "live e \<Longrightarrow> e_alive e \<noteq> 0"
    by (simp add: live_def)
  ultimately show ?thesis
    by blast
qed

lemma names_terminated: "pool_inv r s R bs es \<Longrightarrow> \<forall>e\<in>set es. 0 \<in> set (e_name e)"
  by (auto simp: pool_inv_def dir_ok_def list_all_iff entry_ok_def)

lemma shm_lookup_by_name_none:
  assumes inv: "pool_inv r s R bs es" and lk: "lockable s" and nm: "0 \<notin> set nm"
    and fs: "first_slot (\<lambda>e. e_alive e \<noteq> 0 \<and> cstr (e_name e) = nm) es 0 = None"
  shows "shm_lookup_by_name (Some r) s (Some nm) user cp wi wo = Some (ENOENT, None, None, s\<lparr>mutex := MUnlocked\<rparr>)"
proof -
  note l = pool_lock [OF inv lk]
  note slot = dir_find_by_name_eq [OF pool_invD(2) [OF l(2)] names_terminated [OF inv] nm]
  show ?thesis
    using fs by (simp add: shm_lookup_by_name_def l(1,3) slot slot_ptr_def)
qed

lemma shm_lookup_by_name_some:
  assumes inv: "pool_inv r s R bs es" and lk: "lockable s" and nm: "0 \<notin> set nm"
    and fs: "first_slot (\<lambda>e. e_alive e \<noteq> 0 \<and> cstr (e_name e) = nm) es 0 = Some i"
  shows "shm_lookup_by_name (Some r) s (Some nm) user cp wi wo =
    (if access_ok (e_owner (es ! i)) (e_perms (es ! i)) user cp SHM_PERM_READ
     then Some (OK, if wi then Some (e_id (es ! i)) else None, if wo then Some (e_off (es ! i)) else None,
            s\<lparr>mutex := MUnlocked\<rparr>)
     else Some (EACCES, None, None, s\<lparr>mutex := MUnlocked\<rparr>))"
proof -
  note l = pool_lock [OF inv lk]
  note dr = pool_invD(2) [OF l(2)]
  note slot = dir_find_by_name_eq [OF dr names_terminated [OF inv] nm]
  have i: "i < length es" "e_alive (es ! i) \<noteq> 0"
    using first_slot_SomeD [OF fs] by auto
  then have li: "live (es ! i)"
    using alive_live [OF pool_invD(5) [OF inv]] by simp
  show ?thesis
    using fs slot_ptr_nonzero [OF dr i(1)]
    by (simp add: shm_lookup_by_name_def l(1,3) slot slot_ptr_def check_dir_access_eq [OF dr i(1) li]
        eview_loads [OF dir_rep_eview [OF dr i(1)]])
qed

section \<open>Reading a block\<close>

lemma heap_rep_block:
  assumes "heap_rep r s R (xs @ b # ys)"
  obtains H where "hview r s s (set (starts 0 (xs @ b # ys))) H R" "span xs \<in> set (starts 0 (xs @ b # ys))"
    "blk_ok (H (span xs)) b" "heap_shape H R (xs @ b # ys)"
    "unat (h_data_offset R) + span (xs @ b # ys) = unat (rsize r)" "list_all wf_blk (xs @ b # ys)"
proof -
  obtain H where H: "hview r s s (set (starts 0 (xs @ b # ys))) H R" "heap_shape H R (xs @ b # ys)"
    "unat (h_data_offset R) + span (xs @ b # ys) = unat (rsize r)" "list_all wf_blk (xs @ b # ys)"
    using assms unfolding heap_rep_def by (rule heap_viewE)
  moreover have "blk_ok (H (span xs)) b"
    using H(2) by (simp add: heap_shape_def)
  ultimately show thesis
    by (intro that [of H]) simp_all
qed

lemma block_target_eq:
  assumes "heap_rep r s R (xs @ b # ys)" and d: "d = h_data_offset R"
  shows "block_target r s (bp r d (span xs)) =
    Some (case aown b of None \<Rightarrow> None | Some oi \<Rightarrow> Some (o_owner oi, o_perms oi))"
proof -
  obtain H where H: "hview r s s (set (starts 0 (xs @ b # ys))) H R" "span xs \<in> set (starts 0 (xs @ b # ys))"
    "blk_ok (H (span xs)) b"
    using assms(1) by (rule heap_rep_block)
  show ?thesis
    using H(3) hview_blk_loads [OF H(1,2) d] bp_nonzero [OF H(1,2) d]
    by (auto simp: block_target_def blk_ok_def sizes_ok_def owner_ok_def split: option.splits)
qed

lemma blk_of_poff_eq:
  assumes "heap_rep r s R bs"
  shows "shm_blk_of_poff r s (of_nat (h + 56)) = Some (bp r (h_data_offset R) h)"
proof -
  obtain H where "hview r s s (set (starts 0 bs)) H R"
    using assms unfolding heap_rep_def by (rule heap_viewE)
  then show ?thesis
    by (rule hview_ptrs(6)) simp
qed

text \<open>The pointer to the payload of the block that starts at \<open>h\<close>.\<close>

definition payload_ptr :: "shm_region \<Rightarrow> region_hdr \<Rightarrow> nat \<Rightarrow> u64" where
  "payload_ptr r R h = rp r (unat (h_data_offset R) + h + 56)"

lemma bp_payload: "bp r (h_data_offset R) h + SIZEOF_BLOCK_HDR = payload_ptr r R h"
  by (simp add: bp_def payload_ptr_def rp_def SIZEOF_BLOCK_HDR_def add.assoc)

lemma payload_in_map:
  assumes "heap_rep r s R (xs @ b # ys)" and i: "i + n \<le> acap b"
  shows "region_off r (payload_ptr r R (span xs) + of_nat i) = unat (h_data_offset R) + span xs + 56 + i"
    and "in_map r (payload_ptr r R (span xs) + of_nat i) n"
proof -
  obtain H where H: "unat (h_data_offset R) + span (xs @ b # ys) = unat (rsize r)" "list_all wf_blk (xs @ b # ys)"
    using assms(1) by (rule heap_rep_block)
  let ?a = "unat (h_data_offset R) + span xs + 56 + i"
  have le: "?a + n \<le> unat (rsize r)"
    using H i by (simp add: wf_blk_def)
  then have "?a < 2 ^ 64"
    using unat64_bound [of "rsize r"] by linarith
  moreover have "payload_ptr r R (span xs) + of_nat i = rbase r + of_nat ?a"
    by (simp add: payload_ptr_def rp_def add.assoc)
  ultimately show off: "region_off r (payload_ptr r R (span xs) + of_nat i) = ?a"
    by (simp only: region_off_base)
  show "in_map r (payload_ptr r R (span xs) + of_nat i) n"
    unfolding in_map_def off by (rule le)
qed

lemma shm_ptr_eq:
  assumes h: "heap_rep r s R (xs @ b # ys)"
  shows "shm_ptr (Some r) s (of_nat (span xs + 56)) user cp req =
    Some (case aown b of
        None \<Rightarrow> 0
      | Some oi \<Rightarrow> if access_ok (o_owner oi) (o_perms oi) user cp req then payload_ptr r R (span xs) else 0)"
proof (cases "aown b")
  case None
  then have "check_block_access r s (bp r (h_data_offset R) (span xs)) user cp req = Some EINVAL"
    using block_target_eq [OF h refl] by (intro blk_check.check_dead) simp
  then show ?thesis
    using None by (simp add: shm_ptr_def blk_of_poff_eq [OF h] del: of_nat_add)
next
  case (Some oi)
  then have "check_block_access r s (bp r (h_data_offset R) (span xs)) user cp req =
      Some (if access_ok (o_owner oi) (o_perms oi) user cp req then OK else EACCES)"
    using block_target_eq [OF h refl] by (intro blk_check.check_live) simp
  then show ?thesis
    using Some by (simp add: shm_ptr_def blk_of_poff_eq [OF h] bp_payload del: of_nat_add)
qed

lemma shm_block_info_eq:
  assumes h: "heap_rep r s R (xs @ b # ys)"
  shows "shm_block_info (Some r) s (of_nat (span xs + 56)) True True True True True =
    Some (OK, Some (of_nat (acap b)),
      Some (case aown b of None \<Rightarrow> 0 | Some oi \<Rightarrow> o_owner oi), Some (case aown b of None \<Rightarrow> 0 | Some oi \<Rightarrow> o_perms oi),
      Some (case aown b of None \<Rightarrow> 0 | Some oi \<Rightarrow> o_tag oi), Some (case aown b of None \<Rightarrow> 0 | Some oi \<Rightarrow> o_id oi))"
proof -
  obtain H where H: "hview r s s (set (starts 0 (xs @ b # ys))) H R" "span xs \<in> set (starts 0 (xs @ b # ys))"
    "blk_ok (H (span xs)) b"
    using h by (rule heap_rep_block)
  have cap: "b_payload_cap (H (span xs)) = of_nat (acap b)"
    using H(3) by (intro unat64_eqD) (simp add: blk_ok_def sizes_ok_def)
  show ?thesis
    using H(3) hview_blk_loads [OF H(1,2) refl] bp_nonzero [OF H(1,2) refl] cap
    by (simp add: shm_block_info_def blk_of_poff_eq [OF h] blk_ok_def sizes_ok_def owner_ok_def
        del: of_nat_add split: option.splits)
qed

section \<open>Statistics\<close>

text \<open>Bytes in free blocks, and the objects of a region counted in two ways.\<close>

definition free_span :: "ablk list \<Rightarrow> nat" where
  "free_span bs = sum_list (map asz (filter is_free bs))"

lemma span_split: "span bs = used_span bs + free_span bs"
  by (induction bs) (simp_all add: free_span_def used_span_def)

lemma blk_objs_count: "length (blk_objs h bs) = used_count bs"
  by (induction bs arbitrary: h) (simp_all add: used_count_def is_free_def split: option.splits)

lemma live_count: "dir_ok nid es bs \<Longrightarrow> length (filter live es) = used_count bs"
  using blk_objs_count [of 0 bs] unfolding dir_ok_def dir_objs_def by (metis length_map size_mset)

lemma shm_pool_stats_eq:
  assumes inv: "pool_inv r s R bs es"
  shows "shm_pool_stats (Some r) s True =
    Some (OK, Some \<lparr>total_bytes = of_nat (span bs), used_bytes = of_nat (used_span bs),
      free_bytes = of_nat (free_span bs), block_count = of_nat (used_count bs), next_id = h_next_id R,
      host_count = h_host_count R, dir_capacity = h_dir_capacity R, dir_used = of_nat (used_count bs)\<rparr>)"
proof -
  note dr = pool_invD(2) [OF inv]
  have "unat (h_data_offset R) + span bs = unat (rsize r)"
    using pool_invD(1) [OF inv] by (simp add: heap_rep_bytes)
  then have "rsize r = h_data_offset R + of_nat (span bs)"
    by (metis of_nat_add of_nat_unat ucast_id)
  then have total: "rsize r - h_data_offset R = of_nat (span bs)"
    by simp
  have "filter (\<lambda>e. e_alive e \<noteq> 0) es = filter live es"
    using alive_live [OF pool_invD(5) [OF inv]] by (intro filter_cong) simp_all
  then have cnt: "dir_count_live r s = Some (of_nat (used_count bs))"
    using dir_count_live_eq [OF dr] live_count [OF pool_invD(5) [OF inv]] by simp
  have "of_nat (span bs) - of_nat (used_span bs) = (of_nat (free_span bs) :: u64)"
    by (simp add: span_split)
  then show ?thesis
    using pool_invD(3) [OF inv] total by (simp add: shm_pool_stats_def dir_rep_rh [OF dr] cnt acct_def)
qed

section \<open>Iteration\<close>

text \<open>What a caller gets for an entry.\<close>

definition snapshot :: "obj_entry \<Rightarrow> dir_entry" where
  "snapshot e = \<lparr>d_id = e_id e, d_name = stored_name (cstr (e_name e)), d_off = e_off e,
     d_capacity = e_capacity e, d_used_size = e_used_size e, d_type_tag = e_type_tag e,
     d_owner = e_owner e, d_perms = e_perms e\<rparr>"

lemma rd_str_eq:
  assumes "\<And>j. j < length cs \<Longrightarrow> rd8 r s (p + of_nat j) = Some (cs ! j)" "n < length cs"
  shows "rd_str r s p n = Some (cstr (take n cs))"
  using assms
proof (induction n arbitrary: p cs)
  case (Suc n)
  then obtain c cs' where cs: "cs = c # cs'" by (cases cs) auto
  have c: "rd8 r s p = Some c"
    using Suc.prems(1) [of 0] by (simp add: cs)
  have "rd_str r s (p + 1) n = Some (cstr (take n cs'))"
  proof (rule Suc.IH)
    show "rd8 r s (p + 1 + of_nat j) = Some (cs' ! j)" if "j < length cs'" for j
      using Suc.prems(1) [of "Suc j"] that by (simp add: cs add.assoc)
    show "n < length cs'"
      using Suc.prems(2) by (simp add: cs)
  qed
  then show ?case
    using c by (simp add: cs)
qed (simp add: cstr_def)

lemma ent_name_rd8:
  assumes ev: "eview r s s k e" and j: "j < length (e_name e)"
  shows "rd8 r s (ent_name_ptr (rp r k) + of_nat j) = Some (e_name e ! j)" "length (e_name e) = 48"
proof -
  have le: "k + 96 \<le> unat (rsize r)" and e: "ent_at (mem s) k = e"
    using ev by (simp_all add: eview_def)
  show len: "length (e_name e) = 48"
    by (simp add: e [symmetric] ent_at_def)
  have lt: "k + 96 < 2 ^ 64"
    using le unat64_bound [of "rsize r"] by linarith
  have p: "ent_name_ptr (rp r k) + of_nat j = rbase r + of_nat (k + 8 + j)"
    by (simp add: ent_name_ptr_def rp_def add.assoc)
  have "region_off r (rbase r + of_nat (k + 8 + j)) = k + 8 + j"
    using lt j len by (intro region_off_base) simp
  then show "rd8 r s (ent_name_ptr (rp r k) + of_nat j) = Some (e_name e ! j)"
    unfolding p using le j len by (simp add: rd8_def in_map_def get8_def e [symmetric] ent_at_def)
qed

lemma cstr_take:
  assumes "0 \<in> set cs" "length cs = Suc n"
  shows "cstr (take n cs) = cstr cs"
  using assms
proof (induction cs arbitrary: n)
  case (Cons c cs)
  then show ?case by (cases n) (auto simp: cstr_def)
qed simp

lemma read_entry_eq:
  assumes ev: "eview r s s k e" and z: "0 \<in> set (e_name e)"
  shows "read_entry r s (rp r k) = Some (snapshot e)"
proof -
  have len: "length (e_name e) = 48"
    using ev by (auto simp: eview_def ent_at_def)
  have "rd_str r s (ent_name_ptr (rp r k)) (DIR_NAME_MAX - 1) = Some (cstr (take 47 (e_name e)))"
    using rd_str_eq [of "e_name e" r s "ent_name_ptr (rp r k)" 47] ent_name_rd8(1) [OF ev] len
    by (simp add: DIR_NAME_MAX_def)
  also have "cstr (take 47 (e_name e)) = cstr (e_name e)"
    using z by (rule cstr_take) (simp add: len)
  finally show ?thesis
    using eview_loads [OF ev] by (simp add: read_entry_def snapshot_def stored_name_def)
qed

lemma dir_next_loop_eq:
  assumes d: "dir_rep r s R es" and z: "\<forall>e\<in>set es. 0 \<in> set (e_name e)" and j: "j \<le> length es"
  shows "dir_next_loop r s (of_nat j) =
    Some (case first_slot live es j of
        None \<Rightarrow> (ENOENT, h_dir_capacity R, None)
      | Some i \<Rightarrow> (OK, of_nat (Suc i), Some (snapshot (es ! i))))"
  using j
proof (induction "length es - j" arbitrary: j)
  case 0
  then have j: "j = length es" by simp
  have "(of_nat j :: u32) = h_dir_capacity R"
    using dir_rep_length [OF d] by (simp add: j)
  then show ?case
    using dir_rep_rh [OF d] by (subst dir_next_loop.simps) (simp add: first_slot_step j)
next
  case (Suc n)
  then have j: "j < length es" by simp
  have cap: "length es = unat (h_dir_capacity R)"
    by (rule dir_rep_length [OF d])
  have uj: "unat (of_nat j :: u32) = j"
    using j cap unat32_bound [of "h_dir_capacity R"] by (simp add: unat_of_nat)
  then have lt: "(of_nat j :: u32) < h_dir_capacity R"
    using j cap by (simp add: word_less_nat_alt)
  have IH: "dir_next_loop r s (of_nat (Suc j)) =
      Some (case first_slot live es (Suc j) of
        None \<Rightarrow> (ENOENT, h_dir_capacity R, None)
      | Some i \<Rightarrow> (OK, of_nat (Suc i), Some (snapshot (es ! i))))"
    using Suc j by (intro Suc.hyps(1)) simp_all
  note ev = dir_rep_eview [OF d j]
  have rd: "read_entry r s (rp r (slot_pos R j)) = Some (snapshot (es ! j))"
    using ev z j by (intro read_entry_eq) simp_all
  show ?case
    using dir_rep_rh [OF d] dir_slot_ptr [OF d, of "of_nat j"] eview_loads [OF ev] lt uj j rd IH
    by (subst dir_next_loop.simps) (simp add: first_slot_step live_def add.commute)
qed

text \<open>
  The discovery loop of a client: start with cursor 0 and call \<open>shm_dir_next\<close> until it
  returns an error.
\<close>

partial_function (option) dir_walk :: "shm_region \<Rightarrow> machine \<Rightarrow> u32 \<Rightarrow> dir_entry list option" where
  "dir_walk r s c =
     Option.bind (shm_dir_next (Some r) s (Some c) True) (\<lambda>(rc, c', out).
     case (c', out) of
       (Some c', Some e) \<Rightarrow> if rc = OK then Option.bind (dir_walk r s c') (\<lambda>es. Some (e # es)) else Some []
     | _ \<Rightarrow> Some [])"

lemma first_slot_filter:
  assumes "first_slot live es j = x" "j \<le> length es"
  shows "x = None \<Longrightarrow> filter live (drop j es) = []"
    and "x = Some i \<Longrightarrow> j \<le> i \<and> i < length es \<and> filter live (drop j es) = es ! i # filter live (drop (Suc i) es)"
proof -
  have "(x = None \<longrightarrow> filter live (drop j es) = []) \<and>
    (\<forall>i. x = Some i \<longrightarrow> j \<le> i \<and> i < length es \<and> filter live (drop j es) = es ! i # filter live (drop (Suc i) es))"
    using assms
  proof (induction "length es - j" arbitrary: j x)
    case 0
    then show ?case by (simp add: first_slot_step)
  next
    case (Suc n)
    then have j: "j < length es" by simp
    have "drop j es = es ! j # drop (Suc j) es"
      using j by (rule Cons_nth_drop_Suc [symmetric])
    moreover have "n = length es - Suc j"
      using Suc.hyps(2) by simp
    ultimately show ?case
      using Suc.hyps(1) [of "Suc j" x] Suc.prems j by (auto simp: first_slot_step split: if_splits)
  qed
  then show "x = None \<Longrightarrow> filter live (drop j es) = []"
    "x = Some i \<Longrightarrow> j \<le> i \<and> i < length es \<and> filter live (drop j es) = es ! i # filter live (drop (Suc i) es)"
    by auto
qed

lemma dir_walk_eq:
  assumes d: "dir_rep r s R es" and z: "\<forall>e\<in>set es. 0 \<in> set (e_name e)" and j: "j \<le> length es"
  shows "dir_walk r s (of_nat j) = Some (map snapshot (filter live (drop j es)))"
  using j
proof (induction "length es - j" arbitrary: j rule: less_induct)
  case less
  note step = dir_next_loop_eq [OF d z less.prems]
  show ?case
  proof (cases "first_slot live es j")
    case None
    then show ?thesis
      using first_slot_filter(1) [OF None less.prems]
      by (subst dir_walk.simps) (simp add: shm_dir_next_def step)
  next
    case (Some i)
    from first_slot_filter(2) [OF Some less.prems, of i]
    have i: "j \<le> i" "i < length es" "filter live (drop j es) = es ! i # filter live (drop (Suc i) es)"
      by auto
    have "dir_walk r s (of_nat (Suc i)) = Some (map snapshot (filter live (drop (Suc i) es)))"
      using i by (intro less.hyps) auto
    then show ?thesis
      using i Some by (subst dir_walk.simps) (simp add: shm_dir_next_def step)
  qed
qed

section \<open>Changing permissions\<close>

lemma distinct_filter_index:
  "distinct (map f (filter P xs)) \<Longrightarrow> i < length xs \<Longrightarrow> j < length xs \<Longrightarrow> P (xs ! i) \<Longrightarrow> P (xs ! j) \<Longrightarrow>
     f (xs ! i) = f (xs ! j) \<Longrightarrow> i = j"
proof (induction xs arbitrary: i j)
  case (Cons x xs)
  have notin: "P x \<Longrightarrow> k < length xs \<Longrightarrow> P (xs ! k) \<Longrightarrow> f x \<noteq> f (xs ! k)" for k
    using Cons.prems(1) by (auto simp: image_iff)
  have "distinct (map f (filter P xs))"
    using Cons.prems(1) by (auto split: if_splits)
  then show ?case
    using Cons.prems Cons.IH [of "i - 1" "j - 1"] notin by (cases i; cases j) fastforce+
qed simp

text \<open>The entry of an object, found by its id.\<close>

lemma object_slot:
  assumes d: "dir_ok nid es (xs @ b # ys)" and b: "aown b = Some oi"
  obtains i where "i < length es" "live (es ! i)" "ent_obj (es ! i) = (span xs + 56, acap b, oi)"
    "first_slot (\<lambda>e. e_id e = o_id oi \<and> e_alive e \<noteq> 0) es 0 = Some i"
proof -
  have "(span xs + 56, acap b, oi) \<in> set (blk_objs 0 (xs @ b # ys))"
    using b by simp
  moreover have "set (dir_objs es) = set (blk_objs 0 (xs @ b # ys))"
    using d by (metis dir_ok_def set_mset_mset)
  ultimately have "(span xs + 56, acap b, oi) \<in> set (dir_objs es)"
    by simp
  then obtain e where e: "e \<in> set es" "live e" "ent_obj e = (span xs + 56, acap b, oi)"
    by (auto simp: dir_objs_def)
  then obtain i where i: "i < length es" "es ! i = e"
    by (auto simp: in_set_conv_nth)
  have id: "e_id e = o_id oi"
    using e(3) by (auto simp: ent_obj_def)
  have nz: "o_id oi \<noteq> 0"
    using e(2) id by (simp add: live_def)
  have "first_slot (\<lambda>e. e_id e = o_id oi \<and> e_alive e \<noteq> 0) es 0 \<noteq> None"
    using e id by (auto simp: first_slot_NoneD live_def)
  then obtain j where j: "first_slot (\<lambda>e. e_id e = o_id oi \<and> e_alive e \<noteq> 0) es 0 = Some j"
    by blast
  have "j < length es" "e_id (es ! j) = o_id oi" "live (es ! j)"
    using first_slot_SomeD [OF j] nz by (auto simp: live_def)
  then have "j = i"
    using d e i id by (intro distinct_filter_index [of e_id live es]) (simp_all add: dir_ok_def)
  then show thesis
    using that [of i] i e j by simp
qed

lemma owned_perms:
  "owner_ok x (Some oi) \<Longrightarrow> x\<lparr>b_perms := np\<rparr> = owned x (oi\<lparr>o_perms := np\<rparr>)"
  by (cases x; cases oi) (simp add: owned_def owner_ok_simps)

lemma perms_dir_ok:
  assumes d: "dir_ok nid es (xs @ b # ys)" and i: "i < length es" "live (es ! i)"
    and ob: "ent_obj (es ! i) = (span xs + 56, acap b, oi)" "aown b = Some oi"
  shows "dir_ok nid (es[i := (es ! i)\<lparr>e_perms := np\<rparr>]) (xs @ b\<lparr>aown := Some (oi\<lparr>o_perms := np\<rparr>)\<rparr> # ys)"
proof -
  let ?e = "(es ! i)\<lparr>e_perms := np\<rparr>"
  have l: "live ?e"
    using i(2) by (simp add: live_def)
  have ms: "mset (filter live (es[i := ?e])) + {#es ! i#} = mset (filter live es) + {#?e#}"
    using live_update [OF i(1), of ?e] i(2) l by simp
  have ob': "ent_obj ?e = (span xs + 56, acap b, oi\<lparr>o_perms := np\<rparr>)"
    using ob(1) by (cases oi) (simp add: ent_obj_def)
  have "image_mset e_id (mset (filter live (es[i := ?e])) + {#es ! i#}) = image_mset e_id (mset (filter live es) + {#?e#})"
    by (simp only: ms)
  then have "mset (map e_id (filter live (es[i := ?e]))) = mset (map e_id (filter live es))"
    by (simp only: image_mset_union mset_map) simp
  then have "distinct (map e_id (filter live (es[i := ?e])))"
    using d by (metis dir_ok_def mset_eq_imp_distinct_iff)
  moreover have "mset (dir_objs (es[i := ?e])) = mset (blk_objs 0 (xs @ b\<lparr>aown := Some (oi\<lparr>o_perms := np\<rparr>)\<rparr> # ys))"
  proof -
    have "image_mset ent_obj (mset (filter live (es[i := ?e])) + {#es ! i#}) =
        image_mset ent_obj (mset (filter live es) + {#?e#})"
      by (simp only: ms)
    then have "add_mset (ent_obj (es ! i)) (mset (dir_objs (es[i := ?e]))) = add_mset (ent_obj ?e) (mset (dir_objs es))"
      by (simp only: dir_objs_def image_mset_union mset_map) simp
    then show ?thesis
      using d ob by (simp add: dir_ok_def ob')
  qed
  moreover have "list_all (entry_ok nid) (es[i := ?e])"
  proof -
    have "entry_ok nid (es ! i)"
      using d i(1) by (simp add: dir_ok_def list_all_length)
    then have "entry_ok nid ?e"
      using l i(2) by (simp add: entry_ok_def)
    then show ?thesis
      using d set_update_subset_insert [of es i ?e] unfolding dir_ok_def list_all_iff by blast
  qed
  ultimately show ?thesis
    by (simp add: dir_ok_def)
qed

definition perms_post ::
    "shm_region \<Rightarrow> machine \<Rightarrow> region_hdr \<Rightarrow> obj_entry list \<Rightarrow> ablk list \<Rightarrow> ablk \<Rightarrow> ablk list \<Rightarrow> owner_info \<Rightarrow>
     u32 \<Rightarrow> u32 \<Rightarrow> u32 \<Rightarrow> errno \<times> machine \<Rightarrow> bool" where
  "perms_post r s R es xs b ys oi user cp np = (\<lambda>(rc, s').
     mutex s' = MUnlocked \<and> cmode s' = cmode s \<and>
     (if access_ok (o_owner oi) (o_perms oi) user cp SHM_PERM_WRITE
      then rc = OK \<and>
        (\<exists>i<length es. e_id (es ! i) = o_id oi \<and> live (es ! i) \<and>
           pool_inv r s' R (xs @ b\<lparr>aown := Some (oi\<lparr>o_perms := np\<rparr>)\<rparr> # ys) (es[i := (es ! i)\<lparr>e_perms := np\<rparr>])) \<and>
        payloads_kept (unat (h_data_offset R)) (blk_objs 0 (xs @ b # ys)) s s'
      else rc = EACCES \<and> mem s' = mem s))"

lemma shm_block_set_perms_refines:
  assumes inv: "pool_inv r s R (xs @ b # ys) es" and lk: "lockable s" and own: "aown b = Some oi"
  shows "runs (shm_block_set_perms (Some r) s (of_nat (span xs + 56)) user cp np)
           (perms_post r s R es xs b ys oi user cp np)"
proof -
  let ?s1 = "s\<lparr>mutex := MLocked\<rparr>" and ?bs = "xs @ b # ys" and ?h = "span xs"
  let ?d = "unat (h_data_offset R)" and ?b' = "b\<lparr>aown := Some (oi\<lparr>o_perms := np\<rparr>)\<rparr>"
  note l = pool_lock [OF inv lk]
  note dr = pool_invD(2) [OF l(2)]
  note hr = pool_invD(1) [OF l(2)]
  have m: "mapped r" "200 \<le> unat (rsize r)"
    using pool_invD(6,7) [OF inv] by auto
  note blk = blk_of_poff_eq [OF hr, of ?h]
  have chk: "check_block_access r ?s1 (bp r (h_data_offset R) ?h) user cp SHM_PERM_WRITE =
      Some (if access_ok (o_owner oi) (o_perms oi) user cp SHM_PERM_WRITE then OK else EACCES)"
    using block_target_eq [OF hr refl] own by (intro blk_check.check_live) simp
  show ?thesis
  proof (cases "access_ok (o_owner oi) (o_perms oi) user cp SHM_PERM_WRITE")
    case False
    then show ?thesis
      by (simp add: shm_block_set_perms_def l(1,3) blk chk perms_post_def del: of_nat_add)
  next
    case True
    obtain H where H: "hview r ?s1 ?s1 (set (starts 0 ?bs)) H R" "?h \<in> set (starts 0 ?bs)"
      "blk_ok (H ?h) b" "heap_shape H R ?bs" "?d + span ?bs = unat (rsize r)" "list_all wf_blk ?bs"
      using hr by (rule heap_rep_block)
    obtain i where i: "i < length es" "live (es ! i)" "ent_obj (es ! i) = (?h + 56, acap b, oi)"
      "first_slot (\<lambda>e. e_id e = o_id oi \<and> e_alive e \<noteq> 0) es 0 = Some i"
      using pool_invD(5) [OF inv] own by (rule object_slot)
    note sb = slot_bounds [OF dr i(1)]
    let ?k = "slot_pos R i" and ?e = "(es ! i)\<lparr>e_perms := np\<rparr>"
    have ow: "owner_ok (H ?h) (Some oi)"
      using H(3) own by (simp add: blk_ok_def)
    have id: "b_obj_id (H ?h) = o_id oi"
      using ow by (simp add: owner_ok_simps)
    have fin: "perms_post r s R es xs b ys oi user cp np (OK, s')"
      if v: "hview r ?s1 s3 (set (starts 0 ?bs)) (H(?h := (H ?h)\<lparr>b_perms := np\<rparr>)) R"
        and e: "eview r s3 s5 ?k ?e" and ms: "mem s' = mem s5" "mutex s' = MUnlocked" "cmode s' = cmode s" for s3 s5 s'
    proof -
      have v5: "hview r s5 s5 (set (starts 0 ?bs)) (H(?h := owned (H ?h) (oi\<lparr>o_perms := np\<rparr>))) R"
        using eview_hview [OF v e sb] by (simp only: owned_perms [OF ow])
      have sh: "heap_shape (H(?h := owned (H ?h) (oi\<lparr>o_perms := np\<rparr>))) R (xs @ ?b' # ys)"
        using H(4) own by (rule heap_shape_owned)
      have "heap_rep r s5 R (xs @ ?b' # ys)"
        by (rule heap_view_rep, rule heap_viewI_exact [OF v5 _ sh]) (use H(5) in simp_all)
      moreover have dr3: "dir_rep r s3 R es"
        by (rule dir_rep_frame [OF dr]) (use hviewD(6,8) [OF v] in \<open>auto simp: hdr_bytes_def\<close>)
      have "dir_rep r s5 R (es[i := ?e])"
        by (rule dir_at_update [OF dr3 i(1) e refl])
      ultimately have "pool_inv r s5 R (xs @ ?b' # ys) (es[i := ?e])"
        using inv own perms_dir_ok [OF pool_invD(5) [OF inv] i(1-3) own, of np]
        by (simp add: pool_inv_def acct_def coalesced_Cons is_free_def)
      then have "pool_inv r s' R (xs @ ?b' # ys) (es[i := ?e])"
        using ms(1) m(1) by (rule pool_inv_bytes) simp
      moreover have "payloads_kept ?d (blk_objs 0 ?bs) s s'"
        unfolding payloads_kept_def
      proof (intro ballI allI impI)
        fix ob a assume ob: "ob \<in> set (blk_objs 0 ?bs)" and a: "in_payload ?d ob a"
        have "mem s3 a = mem s a"
          using hviewD(8) [OF v, of a] payload_no_hdr [OF H(6) ob a] a sb by (simp add: in_payload_def)
        then show "mem s' a = mem s a"
          using e ms a sb by (auto simp: eview_def in_payload_def)
      qed
      moreover have "e_id (es ! i) = o_id oi"
        using i(3) by (auto simp: ent_obj_def)
      ultimately show ?thesis
        using True i(1,2) ms by (auto simp: perms_post_def)
    qed
    show ?thesis
      unfolding shm_block_set_perms_def
      using True
      apply (simp add: l(1) blk chk del: of_nat_add)
      apply (rule wp_set_blk_perms [OF H(1,2) refl])
      apply (rule wp_persist_blk, assumption, rule H(2), rule refl)
      subgoal premises p for s2 s3
      proof -
        have dr3: "dir_rep r s3 R es"
          by (rule dir_rep_frame [OF dr]) (use hviewD(6,8) [OF p(3)] in \<open>auto simp: hdr_bytes_def\<close>)
        have slot: "dir_find_by_id r s3 (o_id oi) = Some (rp r ?k)" "rp r ?k \<noteq> 0"
          using dir_find_by_id_eq [OF dr3] i(4) slot_ptr_nonzero [OF dr3 i(1)] by (simp_all add: slot_ptr_def)
        have rdid: "blk_obj_id r s3 (bp r (h_data_offset R) ?h) = Some (o_id oi)"
          using hview_blk_loads(6) [OF p(3) H(2) refl] id by simp
        have "runs (set_ent_perms r s3 (rp r ?k) np)
            (\<lambda>s4. runs (shm_persist r s4 (rp r ?k) SIZEOF_OBJ_ENTRY)
              (\<lambda>s5. runs (region_unlock r (shm_drain s5)) (\<lambda>s6. perms_post r s R es xs b ys oi user cp np (OK, s6))))"
        proof (rule wp_set_ent_perms [OF dir_rep_eview [OF dr3 i(1)]], rule wp_persist_slot, assumption)
          fix s4 s5 assume e5: "eview r s3 s5 ?k ?e"
          have mu: "mutex (shm_drain s5) = MLocked" "cmode (shm_drain s5) = cmode s"
            using e5 p(3) by (simp_all add: eview_def hview_def)
          show "runs (region_unlock r (shm_drain s5)) (\<lambda>s6. perms_post r s R es xs b ys oi user cp np (OK, s6))"
            using fin [OF p(3) e5, of "shm_drain s5\<lparr>mutex := MUnlocked\<rparr>"] mu
            by (simp add: region_unlock_locked [OF m mu(1)])
        qed
        then show ?thesis
          by (simp add: rdid slot Let_def)
      qed
      done
  qed
qed

end
