(* ===== verification/Shm_Resize.thy ===== *)
theory Shm_Resize
  imports Shm_Api
begin

text \<open>
  \<open>shm_resize\<close> of \<open>src/src/shm_alloc.c\<close>: shrinking with a tail fragment that returns to
  the free list, growing in place by absorbing a free successor, and relocation. The tail fragment
  is cut by the same statements in the shrink and the grow branch, \<open>resize_cut\<close>.

  On the abstract heap a block is first widened by its free successor or not, then cut; or its
  contents move to the block that first fit finds. The lemmas show this for the bytes, with the
  contents of the object preserved, under the condition that the recorded capacity of the target
  of a relocation is no smaller than that of the source.
\<close>

section \<open>The stages\<close>

definition resize_tail :: "shm_region \<Rightarrow> machine \<Rightarrow> u64 \<Rightarrow> u64 \<Rightarrow> machine option" where
  "resize_tail r s tail rem = do {
     s \<leftarrow> set_blk_magic r s tail SHM_ALLOC_MAGIC_BLOCK;
     s \<leftarrow> set_blk_allocated r s tail 0;
     s \<leftarrow> set_blk_obj_id r s tail 0;
     s \<leftarrow> set_blk_owner r s tail 0;
     s \<leftarrow> set_blk_perms r s tail 0;
     s \<leftarrow> set_blk_type_tag r s tail 0;
     s \<leftarrow> set_blk_total_size r s tail rem;
     s \<leftarrow> set_blk_payload_cap r s tail (rem - SIZEOF_BLOCK_HDR);
     set_blk_next_free r s tail 0 }"

text \<open>The block keeps \<open>new_total\<close> bytes; the \<open>rem\<close> bytes behind them become a free block.\<close>

definition resize_cut :: "shm_region \<Rightarrow> machine \<Rightarrow> u64 \<Rightarrow> u64 \<Rightarrow> u64 \<Rightarrow> machine option" where
  "resize_cut r s b new_total rem = do {
     let tail = b + new_total;
     s \<leftarrow> resize_tail r s tail rem;
     used \<leftarrow> rh_used_bytes r s;
     s \<leftarrow> set_rh_used_bytes r s (used - rem);
     s \<leftarrow> set_blk_total_size r s b new_total;
     s \<leftarrow> set_blk_payload_cap r s b (new_total - SIZEOF_BLOCK_HDR);
     s \<leftarrow> shm_persist r s b SIZEOF_BLOCK_HDR;
     freelist_insert r s tail }"

definition resize_shrink :: "shm_region \<Rightarrow> machine \<Rightarrow> u64 \<Rightarrow> u64 \<Rightarrow> machine option" where
  "resize_shrink r s b new_total = do {
     sz \<leftarrow> blk_total_size r s b;
     let rem = sz - new_total;
     if BLOCK_MIN \<le> rem then resize_cut r s b new_total rem else Some s }"

definition resize_absorb :: "shm_region \<Rightarrow> machine \<Rightarrow> u64 \<Rightarrow> u64 \<Rightarrow> u64 \<Rightarrow> u64 \<Rightarrow> machine option" where
  "resize_absorb r s b nxt combined new_total = do {
     s \<leftarrow> freelist_remove r s nxt;
     used \<leftarrow> rh_used_bytes r s;
     nsz \<leftarrow> blk_total_size r s nxt;
     s \<leftarrow> set_rh_used_bytes r s (used + nsz);
     s \<leftarrow> set_blk_total_size r s b combined;
     s \<leftarrow> set_blk_payload_cap r s b (combined - SIZEOF_BLOCK_HDR);
     s \<leftarrow> set_blk_magic r s nxt 0;
     s \<leftarrow> shm_persist r s nxt SIZEOF_BLOCK_HDR;
     let leftover = combined - new_total;
     s \<leftarrow> (if BLOCK_MIN \<le> leftover then resize_cut r s b new_total leftover
          else shm_persist r s b SIZEOF_BLOCK_HDR);
     shm_persist r s (shm_rh r + 96) 8 }"

text \<open>The result says whether the block grew.\<close>

definition resize_in_place :: "shm_region \<Rightarrow> machine \<Rightarrow> u64 \<Rightarrow> u64 \<Rightarrow> (bool \<times> machine) option" where
  "resize_in_place r s b new_total = do {
     b_ho \<leftarrow> shm_hoff_of_blk r s b;
     sz \<leftarrow> blk_total_size r s b;
     let next_ho = b_ho + sz;
     hs \<leftarrow> shm_heap_size r s;
     if next_ho + SIZEOF_BLOCK_HDR < hs then do {
       nxt \<leftarrow> shm_blk_at_hoff r s next_ho;
       magic \<leftarrow> blk_magic r s nxt;
       if magic \<noteq> SHM_ALLOC_MAGIC_BLOCK then Some (False, s)
       else do {
         allocated \<leftarrow> blk_allocated r s nxt;
         if allocated \<noteq> 0 then Some (False, s)
         else do {
           nsz \<leftarrow> blk_total_size r s nxt;
           let combined = sz + nsz;
           if new_total \<le> combined
           then do { s \<leftarrow> resize_absorb r s b nxt combined new_total; Some (True, s) }
           else Some (False, s) } } }
     else Some (False, s) }"

text \<open>The copy to the new block: contents, zero fill, owner data, flush.\<close>

definition resize_copy :: "shm_region \<Rightarrow> machine \<Rightarrow> u64 \<Rightarrow> u64 \<Rightarrow> machine option" where
  "resize_copy r s b nb = do {
     bcap \<leftarrow> blk_payload_cap r s b;
     s \<leftarrow> memcpy r s (nb + SIZEOF_BLOCK_HDR) (b + SIZEOF_BLOCK_HDR) bcap;
     ncap \<leftarrow> blk_payload_cap r s nb;
     bcap \<leftarrow> blk_payload_cap r s b;
     let extra = ncap - bcap;
     s \<leftarrow> (if 0 < extra then memset r s (nb + SIZEOF_BLOCK_HDR + bcap) 0 extra else Some s);
     tag \<leftarrow> blk_type_tag r s b;
     s \<leftarrow> set_blk_type_tag r s nb tag;
     owner \<leftarrow> blk_owner r s b;
     s \<leftarrow> set_blk_owner r s nb owner;
     perms \<leftarrow> blk_perms r s b;
     s \<leftarrow> set_blk_perms r s nb perms;
     id \<leftarrow> blk_obj_id r s b;
     s \<leftarrow> set_blk_obj_id r s nb id;
     ncap \<leftarrow> blk_payload_cap r s nb;
     s \<leftarrow> shm_persist r s (nb + SIZEOF_BLOCK_HDR) ncap;
     shm_persist r s nb SIZEOF_BLOCK_HDR }"

text \<open>The result says whether a block was found.\<close>

definition resize_move :: "shm_region \<Rightarrow> machine \<Rightarrow> u64 \<Rightarrow> u64 \<Rightarrow> u64 \<Rightarrow> (bool \<times> machine) option" where
  "resize_move r s slot b new_total = do {
     (nb, s) \<leftarrow> heap_alloc_block r s new_total;
     if nb = 0 then Some (False, s)
     else do {
       s \<leftarrow> resize_copy r s b nb;
       s \<leftarrow> heap_free_block r s b;
       off \<leftarrow> shm_poff_of_blk r s nb;
       s \<leftarrow> set_ent_off r s slot off;
       cap \<leftarrow> blk_payload_cap r s nb;
       s \<leftarrow> set_ent_capacity r s slot cap;
       Some (True, s) } }"

text \<open>The grow branch; the result says whether the object now has its new size.\<close>

definition resize_grow :: "shm_region \<Rightarrow> machine \<Rightarrow> u64 \<Rightarrow> u64 \<Rightarrow> u64 \<Rightarrow> (bool \<times> machine) option" where
  "resize_grow r s slot b new_total = do {
     (grew, s) \<leftarrow> resize_in_place r s b new_total;
     if \<not> grew then resize_move r s slot b new_total
     else do {
       cap \<leftarrow> blk_payload_cap r s b;
       s \<leftarrow> set_ent_capacity r s slot cap;
       Some (True, s) } }"

section \<open>shm_resize\<close>

definition shm_resize ::
    "shm_region option \<Rightarrow> machine \<Rightarrow> u64 \<Rightarrow> u64 \<Rightarrow> u32 \<Rightarrow> u32 \<Rightarrow> (errno \<times> machine) option" where
  "shm_resize region s obj_id new_size user_id caller_perms =
     (case region of
        None \<Rightarrow> Some (EINVAL, s)
      | Some r \<Rightarrow>
          if obj_id = 0 \<or> new_size = 0 then Some (EINVAL, s)
          else do {
            (_, s) \<leftarrow> region_lock r s;
            slot \<leftarrow> dir_find_by_id r s obj_id;
            if slot = 0 then do { s \<leftarrow> region_unlock r s; Some (ENOENT, s) }
            else do {
              acc \<leftarrow> check_dir_access r s slot user_id caller_perms SHM_PERM_RESIZE;
              if acc \<noteq> OK then do { s \<leftarrow> region_unlock r s; Some (acc, s) }
              else do {
                off \<leftarrow> ent_off r s slot;
                b \<leftarrow> shm_blk_of_poff r s off;
                let new_total = alloc_size new_size;
                sz \<leftarrow> blk_total_size r s b;
                (done, s) \<leftarrow>
                  (if new_total \<le> sz then do {
                     s \<leftarrow> resize_shrink r s b new_total;
                     cap \<leftarrow> blk_payload_cap r s b;
                     s \<leftarrow> set_ent_capacity r s slot cap;
                     Some (True, s) }
                   else resize_grow r s slot b new_total);
                if \<not> done then do { s \<leftarrow> region_unlock r s; Some (ENOMEM, s) }
                else do {
                  s \<leftarrow> set_ent_used_size r s slot new_size;
                  s \<leftarrow> shm_persist r s slot SIZEOF_OBJ_ENTRY;
                  let s = shm_drain s;
                  s \<leftarrow> region_unlock r s;
                  Some (OK, s) } } } })"

section \<open>Cutting a block\<close>

text \<open>On the abstract heap: what stays of the block, and what follows it.\<close>

definition cut_block :: "nat \<Rightarrow> ablk \<Rightarrow> ablk" where
  "cut_block n b = (if n + 64 \<le> asz b then b\<lparr>asz := n, acap := n - 56\<rparr> else b)"

definition cut_tail :: "nat \<Rightarrow> ablk \<Rightarrow> ablk" where
  "cut_tail n b = \<lparr>asz = asz b - n, acap = asz b - n - 56, aown = None\<rparr>"

definition cut_rest :: "nat \<Rightarrow> ablk \<Rightarrow> ablk list \<Rightarrow> ablk list" where
  "cut_rest n b ys = (if n + 64 \<le> asz b then merge_next (cut_tail n b) ys else ys)"

lemma cut_block_own [simp]: "aown (cut_block n b) = aown b" "is_free (cut_block n b) = is_free b"
  by (simp_all add: cut_block_def is_free_def)

lemma cut_tail_free [simp]: "is_free (cut_tail n b)"
  by (simp add: cut_tail_def)

lemma cut_tail_sel [simp]: "asz (cut_tail n b) = asz b - n" "aown (cut_tail n b) = None"
  by (simp_all add: cut_tail_def)

text \<open>The header of the tail fragment.\<close>

definition tail_hdr :: "nat \<Rightarrow> block_hdr" where
  "tail_hdr m = \<lparr>b_magic = SHM_ALLOC_MAGIC_BLOCK, b_type_tag = 0, b_owner = 0, b_perms = 0, b_allocated = 0,
     b_obj_id = 0, b_payload_cap = of_nat m - 56, b_total_size = of_nat m, b_next_free = 0\<rparr>"

lemma wp_resize_tail:
  assumes v: "hview r s0 s D H R" "h \<in> D" and d: "d = h_data_offset R"
    and Q: "\<And>s'. hview r s0 s' D (H(h := tail_hdr m)) R \<Longrightarrow> Q s'"
  shows "runs (resize_tail r s (bp r d h) (of_nat m)) Q"
  unfolding resize_tail_def runs_bind
  apply (insert v(1))
  apply (rule wp_set_blk_magic, assumption, rule v(2), rule d)
  apply (rule wp_set_blk_allocated, assumption, rule v(2), rule d)
  apply (rule wp_set_blk_obj_id, assumption, rule v(2), rule d)
  apply (rule wp_set_blk_owner, assumption, rule v(2), rule d)
  apply (rule wp_set_blk_perms, assumption, rule v(2), rule d)
  apply (rule wp_set_blk_type_tag, assumption, rule v(2), rule d)
  apply (rule wp_set_blk_total_size, assumption, rule v(2), rule d)
  apply (rule wp_set_blk_payload_cap, assumption, rule v(2), rule d)
  apply (rule wp_set_blk_next_free, assumption, rule v(2), rule d)
  apply (rule Q)
  subgoal premises p
    using p(10) by (cases "H h") (simp add: tail_hdr_def SIZEOF_BLOCK_HDR_def)
  done

definition cut_hdr :: "region_hdr \<Rightarrow> nat \<Rightarrow> region_hdr" where
  "cut_hdr R m = R\<lparr>h_used_bytes := h_used_bytes R - of_nat m\<rparr>"

lemma cut_hdr_sel [simp]:
  "h_data_offset (cut_hdr R m) = h_data_offset R" "h_free_list (cut_hdr R m) = h_free_list R"
  by (simp_all add: cut_hdr_def)

lemma insert_free_after_used:
  "\<not> is_free c \<Longrightarrow> insert_free (xs @ [c]) t ys = xs @ c # merge_next (t\<lparr>aown := None\<rparr>) ys"
  by (simp add: insert_free_def merge_prev_def)

lemma resize_cut_refines:
  assumes hr: "heap_rep r s R (xs @ b # ys)" and used: "\<not> is_free b"
    and n: "56 \<le> n" "8 dvd n" "n + 64 \<le> asz b" and d: "d = h_data_offset R"
    and Q: "\<And>s' fl. heap_view r s s' (set (starts 0 (xs @ cut_block n b # cut_tail n b # ys)))
        ((cut_hdr R (asz b - n))\<lparr>h_free_list := fl\<rparr>) (xs @ cut_block n b # cut_rest n b ys) \<Longrightarrow> Q s'"
  shows "runs (resize_cut r s (bp r d (span xs)) (of_nat n) (of_nat (asz b - n))) Q"
proof -
  let ?h = "span xs" and ?m = "asz b - n" and ?c = "cut_block n b" and ?t = "cut_tail n b"
  let ?bs' = "xs @ ?c # ?t # ys"
  let ?D = "set (starts 0 ?bs')"
  have c: "asz ?c = n" "acap ?c = n - 56"
    using n by (simp_all add: cut_block_def)
  have wf: "list_all wf_blk (xs @ b # ys)"
    using hr by (auto simp: heap_rep_bytes heap_shape_def dest: tiles_wf)
  have wf': "list_all wf_blk ?bs'"
    using wf n by (auto simp: wf_blk_def cut_block_def cut_tail_def)
  obtain H where H: "hview r s s ?D H R" "heap_shape H R (xs @ b # ys)"
    by (rule heap_rep_extend [OF hr wf']) (use n in \<open>auto simp: c\<close>)
  have tot: "unat (h_data_offset R) + span (xs @ b # ys) = unat (rsize r)"
    using hr by (simp add: heap_rep_bytes)
  have lt: "asz b < 2 ^ 64"
    using tot unat64_bound [of "rsize r"] by simp
  have hD: "?h \<in> ?D" "?h + n \<in> ?D"
    by (simp_all add: c)
  have ne: "?h + n \<noteq> ?h" using n(1) by simp
  have t: "tiles H 0 xs" "blk_ok (H ?h) b" "8 dvd ?h" "tiles H (?h + asz b) ys"
    and ch: "fseg H (h_free_list R) (frees 0 xs @ frees (?h + asz b) ys) 0"
    using H(2) used by (auto simp: heap_shape_def)
  let ?H2 = "H(?h := (H ?h)\<lparr>b_total_size := of_nat n, b_payload_cap := of_nat n - 56\<rparr>, ?h + n := tail_hdr ?m)"
  have out: "?h \<notin> set (starts 0 xs)" "?h + n \<notin> set (starts 0 xs)"
    "?h \<notin> set (starts (?h + asz b) ys)" "?h + n \<notin> set (starts (?h + asz b) ys)"
    using starts_le [of xs _ 0] starts_ge [of _ "?h + asz b" ys] wf n(3) by (fastforce simp: wf_blk_def)+
  have sz: "unat (of_nat n - 56 :: u64) = n - 56" "unat (of_nat n :: u64) = n"
    "unat (of_nat ?m - 56 :: u64) = ?m - 56" "unat (of_nat ?m :: u64) = ?m"
    using n lt by (simp_all add: unat64_diff_numeral unat64 del: of_nat_diff)
  have c_ok: "blk_ok (?H2 ?h) ?c"
    using t(2) sz(1,2) ne n by (simp add: blk_ok_def sizes_ok_def c del: of_nat_diff)
  have t_ok: "sizes_ok (?H2 (?h + n)) ?t"
    using sz(3,4) by (simp add: sizes_ok_def tail_hdr_def cut_tail_def del: of_nat_diff)
  have ins: "runs (freelist_insert r s' (bp r d (?h + n))) Q"
    if v: "hview r s s' ?D ?H2 (cut_hdr R ?m)" for s'
  proof (rule freelist_insert_refines [where xs = "xs @ [?c]" and b = ?t and ys = ys, OF v])
    show "tiles ?H2 0 (xs @ [?c])"
      using t(1,3) c_ok out wf' ne by (simp del: of_nat_diff)
    show "tiles ?H2 (?h + n + asz ?t) ys"
      using t(4) out n by (simp del: of_nat_diff)
    have "?h \<notin> set (frees 0 xs @ frees (?h + asz b) ys)" "?h + n \<notin> set (frees 0 xs @ frees (?h + asz b) ys)"
      using out frees_starts [of 0 xs] frees_starts [of "?h + asz b" ys] by auto
    then have "fseg ?H2 l (frees 0 xs @ frees (?h + asz b) ys) l' = fseg H l (frees 0 xs @ frees (?h + asz b) ys) l'" for l l'
      by (simp only: fseg_upd_other not_False_eq_True)
    then show "fseg ?H2 (h_free_list (cut_hdr R ?m)) (frees 0 (xs @ [?c]) @ frees (?h + n + asz ?t) ys) 0"
      using ch n(3) used by (simp del: of_nat_diff fseg_append)
    show "8 dvd ?h + n"
      using t(3) n(2) by simp
    show "unat (h_data_offset (cut_hdr R ?m)) + span ((xs @ [?c]) @ ?t # ys) = unat (rsize r)"
      using tot n by (simp add: c)
    fix s'' fl
    assume "heap_view r s s'' ?D ((cut_hdr R ?m)\<lparr>h_free_list := fl\<rparr>) (insert_free (xs @ [?c]) ?t ys)"
    then show "Q s''"
      by (intro Q [of _ fl]) (use used n(3) in \<open>simp add: insert_free_after_used cut_rest_def cut_tail_def\<close>)
  qed (use t_ok wf' d in \<open>simp_all add: c\<close>)
  have comm: "H(?h + n := tail_hdr ?m, ?h := (H ?h)\<lparr>b_total_size := of_nat n, b_payload_cap := of_nat n - 56\<rparr>) = ?H2"
    using ne by (simp add: fun_upd_twist del: of_nat_diff)
  show ?thesis
    unfolding resize_cut_def Let_def runs_bind bp_add
    apply (rule wp_resize_tail [OF H(1) hD(2) d])
    subgoal premises p for s1
      apply (simp add: hview_rh_loads [OF p] del: of_nat_diff)
      apply (rule wp_set_rh_used_bytes [OF p])
      apply (rule wp_set_blk_total_size, assumption, rule hD(1), simp add: d)
      apply (rule wp_set_blk_payload_cap, assumption, rule hD(1), simp add: d)
      apply (rule wp_persist_blk, assumption, rule hD(1), simp add: d)
      apply (rule ins)
      subgoal premises q for s2 s3 s4 s5
        using q(4) ne
        by (simp add: cut_hdr_def comm [symmetric] SIZEOF_BLOCK_HDR_def fun_upd_other del: of_nat_diff)
      done
    done
qed

section \<open>Absorbing a free successor\<close>

definition widen :: "ablk \<Rightarrow> ablk \<Rightarrow> ablk" where
  "widen b t = b\<lparr>asz := asz b + asz t, acap := asz b + asz t - 56\<rparr>"

lemma widen_sel [simp]:
  "asz (widen b t) = asz b + asz t" "acap (widen b t) = asz b + asz t - 56" "aown (widen b t) = aown b"
  "is_free (widen b t) = is_free b"
  by (simp_all add: widen_def is_free_def)

text \<open>Between two states only bytes of the region header and of block headers at \<open>D\<close> differ.\<close>

definition hdrs_only :: "nat \<Rightarrow> nat set \<Rightarrow> machine \<Rightarrow> machine \<Rightarrow> bool" where
  "hdrs_only d D s s' \<longleftrightarrow>
     (\<forall>a. 200 \<le> a \<longrightarrow> a \<notin> hdr_bytes d D \<longrightarrow> mem s' a = mem s a) \<and> mutex s' = mutex s \<and> cmode s' = cmode s"

lemma hdrs_only_refl: "hdrs_only d D s s"
  by (simp add: hdrs_only_def)

lemma hdrs_only_trans:
  assumes "hdrs_only d D s s'" "hdrs_only d E s' s''" "D \<subseteq> F" "E \<subseteq> F"
  shows "hdrs_only d F s s''"
  using assms by (auto simp: hdrs_only_def hdr_bytes_def subset_iff)

lemma hdrs_only_mem:
  "hdrs_only d D s s' \<Longrightarrow> mem s'' = mem s' \<Longrightarrow> mutex s'' = mutex s' \<Longrightarrow> cmode s'' = cmode s' \<Longrightarrow> hdrs_only d D s s''"
  by (simp add: hdrs_only_def)

lemma heap_view_only: "heap_view r s0 s D R bs \<Longrightarrow> hdrs_only (unat (h_data_offset R)) D s0 s"
  by (auto simp: heap_view_def hview_def hdrs_only_def)

lemma heap_shape_widen:
  assumes sh: "heap_shape H R (xs @ b # t # ys)" and used: "\<not> is_free b" and fr: "is_free t"
    and lt: "asz b + asz t < 2 ^ 64"
    and H': "\<forall>x. \<exists>nf. H' x = (H x)\<lparr>b_next_free := nf\<rparr>"
    and ch: "fseg H' fl (frees 0 (xs @ [b]) @ frees (span xs + asz b + asz t) ys) 0"
    and nt: "nt = span xs + asz b" and fl: "h_free_list R' = fl"
  shows "heap_shape (H'(span xs := (H' (span xs))\<lparr>b_total_size := of_nat (asz b + asz t),
            b_payload_cap := of_nat (asz b + asz t) - 56\<rparr>, nt := (H' nt)\<lparr>b_magic := 0\<rparr>)) R' (xs @ widen b t # ys)"
    (is "heap_shape ?H2 R' _")
proof -
  let ?h = "span xs" and ?w = "widen b t"
  have t: "tiles H 0 xs" "blk_ok (H ?h) b" "wf_blk b" "wf_blk t" "8 dvd ?h" "tiles H (?h + asz b + asz t) ys"
    using sh by (auto simp: heap_shape_def)
  have wf: "list_all wf_blk xs" "list_all wf_blk ys"
    using t by (auto dest: tiles_wf)
  have same: "blk_ok (H' x) = blk_ok (H x)" for x
  proof -
    obtain nf where "H' x = (H x)\<lparr>b_next_free := nf\<rparr>"
      using H' by blast
    then show ?thesis by (simp add: fun_eq_iff)
  qed
  have tl: "tiles H' h bs = tiles H h bs" for h bs
    by (rule tiles_cong) (simp add: same)
  have out: "?h \<notin> set (starts 0 xs)" "nt \<notin> set (starts 0 xs)"
    "?h \<notin> set (starts (?h + asz b + asz t) ys)" "nt \<notin> set (starts (?h + asz b + asz t) ys)"
    using starts_le [OF wf(1), of _ 0] starts_ge [of _ "?h + asz b + asz t" ys] t(3,4) nt
    by (fastforce simp: wf_blk_def)+
  have ne: "nt \<noteq> ?h"
    using t(3) by (simp add: nt wf_blk_def)
  have ge: "56 \<le> asz b + asz t"
    using t(3) by (simp add: wf_blk_def)
  have sz: "unat (of_nat (asz b + asz t) - 56 :: u64) = asz b + asz t - 56" "unat (of_nat (asz b + asz t) :: u64) = asz b + asz t"
    by (rule unat64_diff_numeral [OF ge lt], rule unat64 [OF lt])
  have "blk_ok (H' ?h) b"
    using t(2) by (simp add: same)
  then have "blk_ok (?H2 ?h) ?w"
    using ne sz by (simp add: blk_ok_def sizes_ok_def del: of_nat_add)
  moreover have "wf_blk ?w"
    using ge by (simp add: wf_blk_def)
  moreover have "fseg ?H2 fl (frees 0 xs @ frees (?h + asz b + asz t) ys) 0"
  proof -
    have "?h \<notin> set (frees 0 xs @ frees (?h + asz b + asz t) ys)" "nt \<notin> set (frees 0 xs @ frees (?h + asz b + asz t) ys)"
      using out frees_starts [of 0 xs] frees_starts [of "?h + asz b + asz t" ys] by auto
    then show ?thesis
      using ch used by (simp del: fseg_append of_nat_add)
  qed
  ultimately show ?thesis
    using t(1,5,6) out tl used fl by (simp add: heap_shape_def add.assoc del: fseg_append of_nat_add)
qed

definition cut_raw :: "nat \<Rightarrow> ablk \<Rightarrow> ablk list \<Rightarrow> ablk list" where
  "cut_raw n b ys = (if n + 64 \<le> asz b then cut_tail n b # ys else ys)"

definition resized_hdr :: "region_hdr \<Rightarrow> u64 \<Rightarrow> nat \<Rightarrow> ablk \<Rightarrow> ablk \<Rightarrow> region_hdr" where
  "resized_hdr R fl n b w =
     R\<lparr>h_free_list := fl, h_used_bytes := h_used_bytes R + of_nat (asz w - asz b) - of_nat (asz w - asz (cut_block n w))\<rparr>"

text \<open>The successor unlinked, its header cleared and the block widened: the view that is reached.\<close>

lemma absorbed_view:
  assumes H: "heap_shape H R (xs @ b # t # ys)" "unat (h_data_offset R) + span (xs @ b # t # ys) = unat (rsize r)"
    and used: "\<not> is_free b" and fr: "is_free t"
    and nf: "\<forall>x. \<exists>nf. H' x = (H x)\<lparr>b_next_free := nf\<rparr>"
    and ch: "fseg H' fl (frees 0 (xs @ [b]) @ frees (span xs + asz b + asz t) ys) 0"
    and v: "hview r s0 s (set (starts 0 (xs @ b # t # ys)))
      (H'(span xs := (H' (span xs))\<lparr>b_total_size := of_nat (asz b + asz t), b_payload_cap := of_nat (asz b + asz t) - 56\<rparr>,
          span xs + asz b := (H' (span xs + asz b))\<lparr>b_magic := 0\<rparr>)) (R\<lparr>h_free_list := fl, h_used_bytes := u\<rparr>)"
  shows "heap_view r s0 s (set (starts 0 (xs @ b # t # ys))) (R\<lparr>h_free_list := fl, h_used_bytes := u\<rparr>) (xs @ widen b t # ys)"
proof -
  have lt: "asz b + asz t < 2 ^ 64"
    using H(2) unat64_bound [of "rsize r"] by simp
  have wf: "list_all wf_blk (xs @ b # t # ys)"
    using H(1) by (auto simp: heap_shape_def dest: tiles_wf)
  then have ne: "span xs + asz b \<noteq> span xs"
    by (simp add: wf_blk_def)
  have dead: "b_allocated (H' (span xs + asz b)) = 0"
  proof -
    have "b_allocated (H (span xs + asz b)) = 0"
      using H(1) fr free_allocated [of "H (span xs + asz b)" t] by (simp add: heap_shape_def)
    then show ?thesis
      using nf by (metis block_hdr.select_convs(5) block_hdr.surjective block_hdr.update_convs(9))
  qed
  have "heap_shape (H'(span xs := (H' (span xs))\<lparr>b_total_size := of_nat (asz b + asz t), b_payload_cap := of_nat (asz b + asz t) - 56\<rparr>,
      span xs + asz b := (H' (span xs + asz b))\<lparr>b_magic := 0\<rparr>)) (R\<lparr>h_free_list := fl, h_used_bytes := u\<rparr>) (xs @ widen b t # ys)"
    by (rule heap_shape_widen [OF H(1) used fr lt nf _ refl, of fl]) (use ch in simp_all)
  then show ?thesis
    by (rule heap_viewI [OF v, rotated]) (use H(2) dead in \<open>auto simp: add.assoc\<close>)
qed

lemma resize_absorb_refines:
  assumes hr: "heap_rep r s R (xs @ b # t # ys)" and used: "\<not> is_free b" and fr: "is_free t"
    and n: "56 \<le> n" "8 dvd n" "n \<le> asz b + asz t" and d: "d = h_data_offset R"
    and Q: "\<And>s' fl. heap_rep r s' (resized_hdr R fl n b (widen b t))
          (xs @ cut_block n (widen b t) # cut_rest n (widen b t) ys) \<Longrightarrow>
        hdrs_only (unat d) (set (starts 0 (xs @ b # t # ys)) \<union>
          set (starts 0 (xs @ cut_block n (widen b t) # cut_raw n (widen b t) ys))) s s' \<Longrightarrow> Q s'"
  shows "runs (resize_absorb r s (bp r d (span xs)) (bp r d (span xs + asz b))
           (of_nat (asz b + asz t)) (of_nat n)) Q"
proof -
  let ?h = "span xs" and ?nt = "span xs + asz b" and ?w = "widen b t" and ?sz = "asz b + asz t"
  let ?D = "set (starts 0 (xs @ b # t # ys))" and ?D2 = "set (starts 0 (xs @ cut_block n ?w # cut_raw n ?w ys))"
  obtain H where H: "hview r s s ?D H R" "heap_shape H R (xs @ b # t # ys)"
    "unat (h_data_offset R) + span (xs @ b # t # ys) = unat (rsize r)" "list_all wf_blk (xs @ b # t # ys)"
    using hr unfolding heap_rep_def by (rule heap_viewE)
  have lt: "?sz < 2 ^ 64"
    using H(3) unat64_bound [of "rsize r"] by simp
  have hD: "?h \<in> ?D" "?nt \<in> ?D"
    by simp_all
  have ne: "?nt \<noteq> ?h"
    using H(4) by (simp add: wf_blk_def)
  have m: "mapped r" "200 \<le> unat (rsize r)"
    using H(1,3) by (auto simp: hview_def)
  have nsz: "b_total_size (H ?nt) = of_nat (asz t)"
    using tiles_size(2) [of H "xs @ [b]" t ys] H(2) by (simp add: heap_shape_def)
  have bm: "BLOCK_MIN \<le> of_nat (?sz - n) \<longleftrightarrow> n + 64 \<le> ?sz"
    using of_nat64_le_iff [of 64 "?sz - n"] lt n by (auto simp: layout_consts simp del: of_nat_diff of_nat_add)
  have rem: "of_nat ?sz - of_nat n = (of_nat (?sz - n) :: u64)"
    using n(3) by simp
  let ?R1 = "\<lambda>fl. R\<lparr>h_free_list := fl, h_used_bytes := h_used_bytes R + of_nat (asz t)\<rparr>"
  have last: "runs (shm_persist r s2 (shm_rh r + 96) 8) Q"
    if "heap_rep r s2 (resized_hdr R fl n b ?w) (xs @ cut_block n ?w # cut_rest n ?w ys)"
      "hdrs_only (unat d) (?D \<union> ?D2) s s2" for s2 fl
  proof (rule wp_persist_any [OF m(1) rh_field_fits [OF m(2)]])
    fix s3 :: machine assume e: "mem s3 = mem s2" "mutex s3 = mutex s2" "cmode s3 = cmode s2"
    show "Q s3"
      using that(1) heap_rep_mem [OF e(1)] hdrs_only_mem [OF that(2) e] by (intro Q [of _ fl]) simp_all
  qed simp
  have rest: "runs (if BLOCK_MIN \<le> of_nat (?sz - n) then resize_cut r s1 (bp r d ?h) (of_nat n) (of_nat (?sz - n))
        else shm_persist r s1 (bp r d ?h) SIZEOF_BLOCK_HDR) (\<lambda>s. runs (shm_persist r s (shm_rh r + 96) 8) Q)"
    if hv: "heap_view r s s1 ?D (?R1 fl) (xs @ ?w # ys)" for s1 fl
  proof -
    have o1: "hdrs_only (unat d) ?D s s1"
      using heap_view_only [OF hv] d by simp
    have hr1: "heap_rep r s1 (?R1 fl) (xs @ ?w # ys)"
      using hv by (rule heap_view_rep)
    show ?thesis
    proof (cases "n + 64 \<le> ?sz")
      case True
      have "runs (resize_cut r s1 (bp r d ?h) (of_nat n) (of_nat (asz ?w - n)))
          (\<lambda>s. runs (shm_persist r s (shm_rh r + 96) 8) Q)"
      proof (rule resize_cut_refines [OF hr1 _ n(1,2)])
        fix s2 fl'
        let ?R2 = "(cut_hdr (?R1 fl) (asz ?w - n))\<lparr>h_free_list := fl'\<rparr>"
        assume v2: "heap_view r s1 s2 (set (starts 0 (xs @ cut_block n ?w # cut_tail n ?w # ys))) ?R2
          (xs @ cut_block n ?w # cut_rest n ?w ys)"
        have "?R2 = resized_hdr R fl' n b ?w"
          using True by (simp add: cut_hdr_def resized_hdr_def cut_block_def)
        moreover have o2: "hdrs_only (unat d) (set (starts 0 (xs @ cut_block n ?w # cut_tail n ?w # ys))) s1 s2"
          using heap_view_only [OF v2] d by simp
        have "hdrs_only (unat d) (?D \<union> ?D2) s s2"
          by (rule hdrs_only_trans [OF o1 o2]) (use True in \<open>auto simp: cut_raw_def\<close>)
        ultimately show "runs (shm_persist r s2 (shm_rh r + 96) 8) Q"
          using heap_view_rep [OF v2] \<open>hdrs_only (unat d) (?D \<union> ?D2) s s2\<close> by (intro last [of _ fl']) simp_all
      qed (use True used d in simp_all)
      then show ?thesis
        using True bm by simp
    next
      case False
      have "?R1 fl = resized_hdr R fl n b ?w"
        using False by (simp add: resized_hdr_def cut_block_def)
      moreover have "hdrs_only (unat d) (?D \<union> ?D2) s s1"
        by (rule hdrs_only_trans [OF o1 hdrs_only_refl]) auto
      moreover have "xs @ cut_block n ?w # cut_rest n ?w ys = xs @ ?w # ys"
        using False by (simp add: cut_block_def cut_rest_def)
      ultimately have l: "runs (shm_persist r s2 (shm_rh r + 96) 8) Q"
        if "mem s2 = mem s1" "mutex s2 = mutex s1" "cmode s2 = cmode s1" for s2
        using hr1 heap_rep_mem [OF that(1)] hdrs_only_mem [OF _ that] by (intro last [of _ fl]) simp_all
      have "unat d + ?h + 56 \<le> unat (rsize r)"
        using H(3,4) d by (simp add: wf_blk_def)
      then have "region_off r (bp r d ?h) + unat SIZEOF_BLOCK_HDR \<le> unat (rsize r)"
        by (simp add: region_off_bp SIZEOF_BLOCK_HDR_def)
      then have "runs (shm_persist r s1 (bp r d ?h) SIZEOF_BLOCK_HDR) (\<lambda>s. runs (shm_persist r s (shm_rh r + 96) 8) Q)"
        using l by (rule wp_persist_any [OF m(1)])
      then show ?thesis
        using False bm by simp
    qed
  qed
  show ?thesis
    unfolding resize_absorb_def runs_bind Let_def rem
  proof (rule freelist_remove_refines [where xs = "xs @ [b]" and t = t and ys = ys, OF H(1)])
    fix s1 H' fl
    assume v1: "hview r s s1 ?D H' (R\<lparr>h_free_list := fl\<rparr>)"
      and nf: "\<forall>x. \<exists>nf. H' x = (H x)\<lparr>b_next_free := nf\<rparr>"
      and ch: "fseg H' fl (frees 0 (xs @ [b]) @ frees (?nt + asz t) ys) 0"
    have nsz1: "b_total_size (H' ?nt) = of_nat (asz t)"
      using nf nsz by (metis block_hdr.select_convs(8) block_hdr.surjective block_hdr.update_convs(9))
    have fin: "heap_view r s s' ?D (?R1 fl) (xs @ ?w # ys)"
      if "hview r s s' ?D (H'(?h := (H' ?h)\<lparr>b_total_size := of_nat ?sz, b_payload_cap := of_nat ?sz - 56\<rparr>,
          ?nt := (H' ?nt)\<lparr>b_magic := 0\<rparr>)) (?R1 fl)" for s'
      by (rule absorbed_view [OF H(2,3) used fr nf _ that]) (use ch in simp)
    show "runs (rh_used_bytes r s1) (\<lambda>used. runs (blk_total_size r s1 (bp r d ?nt)) (\<lambda>nsz.
        runs (set_rh_used_bytes r s1 (used + nsz)) (\<lambda>s. runs (set_blk_total_size r s (bp r d ?h) (of_nat ?sz))
        (\<lambda>s. runs (set_blk_payload_cap r s (bp r d ?h) (of_nat ?sz - SIZEOF_BLOCK_HDR))
        (\<lambda>s. runs (set_blk_magic r s (bp r d ?nt) 0) (\<lambda>s. runs (shm_persist r s (bp r d ?nt) SIZEOF_BLOCK_HDR)
        (\<lambda>s. runs (if BLOCK_MIN \<le> of_nat (?sz - n) then resize_cut r s (bp r d ?h) (of_nat n) (of_nat (?sz - n))
              else shm_persist r s (bp r d ?h) SIZEOF_BLOCK_HDR)
        (\<lambda>s. runs (shm_persist r s (shm_rh r + 96) 8) Q))))))))"
      apply (simp add: hview_rh_loads [OF v1] hview_blk_loads [OF v1 hD(2)] d nsz1 del: of_nat_add of_nat_diff split del: if_split)
      apply (rule wp_set_rh_used_bytes [OF v1])
      apply (rule wp_set_blk_total_size, assumption, rule hD(1), simp)
      apply (rule wp_set_blk_payload_cap, assumption, rule hD(1), simp)
      apply (rule wp_set_blk_magic, assumption, rule hD(2), simp)
      apply (rule wp_persist_blk, assumption, rule hD(2), simp)
      subgoal premises q for s2 s3 s4 s5 s6
        using rest [OF fin] q(5) ne
        by (simp add: d SIZEOF_BLOCK_HDR_def del: of_nat_add of_nat_diff split del: if_split)
      done
  qed (use H(2) fr d in \<open>simp_all\<close>)
qed

section \<open>Growing in place\<close>

fun growable :: "nat \<Rightarrow> ablk \<Rightarrow> ablk list \<Rightarrow> bool" where
  "growable n b [] \<longleftrightarrow> False"
| "growable n b (t # ys) \<longleftrightarrow> is_free t \<and> n \<le> asz b + asz t \<and> 56 < asz t + span ys"

lemma resize_in_place_eq:
  assumes hr: "heap_rep r s R (xs @ b # ys)" and n: "n < 2 ^ 64" and d: "d = h_data_offset R"
  shows "\<not> growable n b ys \<Longrightarrow> resize_in_place r s (bp r d (span xs)) (of_nat n) = Some (False, s)"
    and "growable n b ys \<Longrightarrow> resize_in_place r s (bp r d (span xs)) (of_nat n) =
      Option.bind (resize_absorb r s (bp r d (span xs)) (bp r d (span xs + asz b)) (of_nat (asz b + asz (hd ys))) (of_nat n))
        (\<lambda>s. Some (True, s))"
proof -
  let ?h = "span xs" and ?bs = "xs @ b # ys"
  obtain H where H: "hview r s s (set (starts 0 ?bs)) H R" "heap_shape H R ?bs"
    "unat (h_data_offset R) + span ?bs = unat (rsize r)" "list_all wf_blk ?bs"
    using hr unfolding heap_rep_def by (rule heap_viewE)
  have lt: "?h + asz b + span ys + 56 < 2 ^ 64"
    using H(1,3) by (auto simp: hview_def mapped_def)
  have hD: "?h \<in> set (starts 0 ?bs)" by simp
  have sz: "b_total_size (H ?h) = of_nat (asz b)"
    using tiles_size(2) [of H xs b ys] H(2) by (simp add: heap_shape_def)
  have heap: "rsize r - d = of_nat (span ?bs)"
    using H(3) d by (intro unat64_eqD) (simp add: unat_sub word_le_nat_alt)
  have cond: "of_nat ?h + of_nat (asz b) + SIZEOF_BLOCK_HDR < (of_nat (span ?bs) :: u64) \<longleftrightarrow> 56 < span ys"
    using of_nat64_less_iff [of "?h + asz b + 56" "span ?bs"] lt by (simp add: SIZEOF_BLOCK_HDR_def)
  have ptr: "shm_blk_at_hoff r s (of_nat ?h + of_nat (asz b)) = Some (bp r d (?h + asz b))"
    using hview_ptrs(3) [OF H(1) d, of "?h + asz b"] by simp
  note simps = hview_ptrs(2,4) [OF H(1) d] hview_blk_loads(8) [OF H(1) hD d] sz heap cond ptr
  let ?absorb = "Option.bind (resize_absorb r s (bp r d ?h) (bp r d (?h + asz b)) (of_nat (asz b + asz (hd ys))) (of_nat n))
        (\<lambda>s. Some (True, s))"
  have "resize_in_place r s (bp r d ?h) (of_nat n) = (if growable n b ys then ?absorb else Some (False, s))"
  proof (cases "56 < span ys")
    case False
    then have "\<not> growable n b ys"
      by (cases ys) auto
    with False show ?thesis
      by (simp add: resize_in_place_def simps Let_def del: of_nat_add span_simps)
  next
    case True
    then obtain t zs where ys: "ys = t # zs"
      by (cases ys) auto
    have tD: "?h + asz b \<in> set (starts 0 ?bs)"
      by (simp add: ys)
    have t_ok: "blk_ok (H (?h + asz b)) t"
      using H(2) by (simp add: heap_shape_def ys)
    then have mg: "b_magic (H (?h + asz b)) = SHM_ALLOC_MAGIC_BLOCK" "b_total_size (H (?h + asz b)) = of_nat (asz t)"
      and al: "b_allocated (H (?h + asz b)) = 0 \<longleftrightarrow> is_free t"
      by (auto simp: blk_ok_def sizes_ok_def is_free_def owner_ok_def intro: unat64_eqD split: option.splits)
    note loads = hview_blk_loads [OF H(1) tD d] mg al
    have sum: "of_nat (asz b) + of_nat (asz t) = (of_nat (asz b + asz t) :: u64)"
      by simp
    have le: "of_nat n \<le> (of_nat (asz b + asz t) :: u64) \<longleftrightarrow> n \<le> asz b + asz t"
      using lt n by (intro of_nat64_le_iff) (simp_all add: ys)
    have g: "growable n b ys \<longleftrightarrow> is_free t \<and> n \<le> asz b + asz t" and hd: "hd ys = t"
      using True by (simp_all add: ys)
    show ?thesis
      using True by (simp add: resize_in_place_def simps loads sum le Let_def g hd del: of_nat_add span_simps)
  qed
  then show "\<not> growable n b ys \<Longrightarrow> resize_in_place r s (bp r d ?h) (of_nat n) = Some (False, s)"
    and "growable n b ys \<Longrightarrow> resize_in_place r s (bp r d ?h) (of_nat n) = ?absorb"
    by (simp_all del: of_nat_add)
qed

lemma resize_in_place_refines:
  assumes hr: "heap_rep r s R (xs @ b # ys)" and used: "\<not> is_free b"
    and n: "56 \<le> n" "8 dvd n" "n < 2 ^ 64" and d: "d = h_data_offset R"
    and no: "\<not> growable n b ys \<Longrightarrow> Q (False, s)"
    and yes: "\<And>s' fl t zs. growable n b ys \<Longrightarrow> ys = t # zs \<Longrightarrow>
        heap_rep r s' (resized_hdr R fl n b (widen b t))
          (xs @ cut_block n (widen b t) # cut_rest n (widen b t) zs) \<Longrightarrow>
        hdrs_only (unat d) (set (starts 0 (xs @ b # t # zs)) \<union>
          set (starts 0 (xs @ cut_block n (widen b t) # cut_raw n (widen b t) zs))) s s' \<Longrightarrow> Q (True, s')"
  shows "runs (resize_in_place r s (bp r d (span xs)) (of_nat n)) Q"
proof (cases "growable n b ys")
  case False
  then show ?thesis
    using no by (simp add: resize_in_place_eq [OF hr n(3) d])
next
  case True
  then obtain t zs where ys: "ys = t # zs"
    by (cases ys) auto
  have "runs (resize_absorb r s (bp r d (span xs)) (bp r d (span xs + asz b)) (of_nat (asz b + asz t)) (of_nat n))
      (\<lambda>s. Q (True, s))"
    by (rule resize_absorb_refines [OF hr [unfolded ys] used _ n(1,2) _ d]) (use True yes ys in simp_all)
  then show ?thesis
    using resize_in_place_eq(2) [OF hr n(3) d True] by (simp add: runs_bind ys del: of_nat_add)
qed

section \<open>Copying to another block\<close>

definition copied :: "bytes \<Rightarrow> nat \<Rightarrow> nat \<Rightarrow> nat \<Rightarrow> nat \<Rightarrow> bytes" where
  "copied m dst src k n =
     (\<lambda>a. if dst \<le> a \<and> a < dst + n then if a < dst + k then m (src + (a - dst)) else 0 else m a)"

text \<open>A view is insensitive to writes outside headers.\<close>

lemma hview_rebase:
  assumes v: "hview r s0 s D H R" and m': "\<And>a. a < 200 \<or> a \<in> hdr_bytes (unat (h_data_offset R)) D \<Longrightarrow> mem s' a = mem s a"
    and s': "mutex s' = mutex s" "cmode s' = cmode s"
  shows "hview r s' s' D H R"
proof -
  have "rh_at (mem s') = R"
    using rh_at_cong [of "mem s'" "mem s"] m' hviewD(6) [OF v] by simp
  moreover have "blk_at (mem s') (unat (h_data_offset R) + h) = H h" if "h \<in> D" for h
  proof -
    have "blk_at (mem s') (unat (h_data_offset R) + h) = blk_at (mem s) (unat (h_data_offset R) + h)"
      by (rule blk_at_cong, rule m') (use that in \<open>auto simp: hdr_bytes_def\<close>)
    then show ?thesis
      using hviewD(7) [OF v that] by simp
  qed
  ultimately show ?thesis
    using v by (simp add: hview_def)
qed

lemma wp_memcpy_payload:
  assumes v: "hview r s0 s D H R" and d: "d = h_data_offset R"
    and fit: "unat d + h + 56 + k \<le> unat (rsize r)" "unat d + h' + 56 + k \<le> unat (rsize r)"
    and apart: "h + 56 + k \<le> h' \<or> h' + 56 + k \<le> h"
    and out: "\<And>a. unat d + h' + 56 \<le> a \<Longrightarrow> a < unat d + h' + 56 + k \<Longrightarrow> a \<notin> hdr_bytes (unat d) D"
    and Q: "\<And>s'. hview r s' s' D H R \<Longrightarrow> mem s' = copied (mem s) (unat d + h' + 56) (unat d + h + 56) k k \<Longrightarrow>
        mutex s' = mutex s \<Longrightarrow> cmode s' = cmode s \<Longrightarrow> Q s'"
  shows "runs (memcpy r s (bp r d h' + SIZEOF_BLOCK_HDR) (bp r d h + SIZEOF_BLOCK_HDR) (of_nat k)) Q"
proof -
  let ?A = "unat d + h' + 56" and ?B = "unat d + h + 56"
  have lt: "k < 2 ^ 64"
    using fit unat64_bound [of "rsize r"] by linarith
  have off: "region_off r (bp r d h' + SIZEOF_BLOCK_HDR) = ?A" "region_off r (bp r d h + SIZEOF_BLOCK_HDR) = ?B"
    using fit by (simp_all add: region_off_bp SIZEOF_BLOCK_HDR_def)
  have "memcpy r s (bp r d h' + SIZEOF_BLOCK_HDR) (bp r d h + SIZEOF_BLOCK_HDR) (of_nat k) =
      Some (s\<lparr>mem := copied (mem s) ?A ?B k k\<rparr>)"
  proof (cases "k = 0")
    case True
    then have "copied (mem s) ?A ?B k k = mem s"
      by (auto simp: copied_def fun_eq_iff)
    with True show ?thesis by (simp add: memcpy_def)
  next
    case False
    then have "(of_nat k :: u64) \<noteq> 0"
      using of_nat64_eq_0 lt by blast
    moreover have "copied (mem s) ?A ?B k k = (\<lambda>a. if ?A \<le> a \<and> a < ?A + k then mem s (?B + (a - ?A)) else mem s a)"
      by (auto simp: copied_def fun_eq_iff)
    ultimately show ?thesis
      using fit apart by (auto simp: memcpy_def in_map_def off unat64 [OF lt] cong: if_cong)
  qed
  moreover have "hview r (s\<lparr>mem := copied (mem s) ?A ?B k k\<rparr>) (s\<lparr>mem := copied (mem s) ?A ?B k k\<rparr>) D H R"
    by (rule hview_rebase [OF v]) (use out hviewD(2) [OF v] d in \<open>auto simp: copied_def\<close>)
  ultimately show ?thesis
    using Q by simp
qed

text \<open>The zero fill behind the copy.\<close>

lemma wp_fill_payload:
  assumes v: "hview r s0 s D H R" and d: "d = h_data_offset R" and k: "k \<le> n"
    and m: "mem s = copied m (unat d + h' + 56) b k k"
    and fit: "unat d + h' + 56 + n \<le> unat (rsize r)"
    and out: "\<And>a. unat d + h' + 56 \<le> a \<Longrightarrow> a < unat d + h' + 56 + n \<Longrightarrow> a \<notin> hdr_bytes (unat d) D"
    and Q: "\<And>s'. hview r s' s' D H R \<Longrightarrow> mem s' = copied m (unat d + h' + 56) b k n \<Longrightarrow>
        mutex s' = mutex s \<Longrightarrow> cmode s' = cmode s \<Longrightarrow> Q s'"
  shows "runs (if (0 :: u64) < of_nat n - of_nat k
               then memset r s (bp r d h' + SIZEOF_BLOCK_HDR + of_nat k) 0 (of_nat n - of_nat k) else Some s) Q"
proof -
  let ?A = "unat d + h' + 56"
  have lt: "n < 2 ^ 64" "?A + n < 2 ^ 64"
    using fit unat64_bound [of "rsize r"] by linarith+
  have "bp r d h' + SIZEOF_BLOCK_HDR + of_nat k = rbase r + of_nat (?A + k)"
    by (simp add: bp_def SIZEOF_BLOCK_HDR_def add.assoc)
  then have offk: "region_off r (bp r d h' + SIZEOF_BLOCK_HDR + of_nat k) = ?A + k"
    using lt k by (simp only: region_off_base)
  have diff: "of_nat n - of_nat k = (of_nat (n - k) :: u64)"
    using k by simp
  have pos: "(0 :: u64) < of_nat (n - k) \<longleftrightarrow> k < n"
    using lt(1) by (auto simp: word_gt_0 of_nat64_eq_0 simp del: of_nat_diff)
  show ?thesis
  proof (cases "k < n")
    case True
    have nk: "unat (of_nat (n - k) :: u64) = n - k" "(of_nat (n - k) :: u64) \<noteq> 0"
      using True lt(1) by (simp_all add: unat64 of_nat64_eq_0 del: of_nat_diff)
    have "memset r s (bp r d h' + SIZEOF_BLOCK_HDR + of_nat k) 0 (of_nat (n - k)) = Some (s\<lparr>mem := copied m ?A b k n\<rparr>)"
      using True fit nk
      by (auto simp: memset_def in_map_def offk copied_def m fun_eq_iff simp del: of_nat_diff)
    moreover have "hview r (s\<lparr>mem := copied m ?A b k n\<rparr>) (s\<lparr>mem := copied m ?A b k n\<rparr>) D H R"
      by (rule hview_rebase [OF v]) (use out hviewD(2) [OF v] d k in \<open>auto simp: copied_def m\<close>)
    ultimately show ?thesis
      using True Q by (simp add: diff pos del: of_nat_diff)
  next
    case False
    then have "k = n" using k by simp
    then show ?thesis
      using False Q hview_refl [OF v subset_refl] m by (simp add: diff pos del: of_nat_diff)
  qed
qed

lemma two_splits:
  assumes "us @ c # ws = xs @ b # ys" "span us \<noteq> span xs"
  shows "span xs + asz b \<le> span us \<or> span us + asz c \<le> span xs"
proof -
  obtain zs where "us = xs @ zs \<and> b # ys = zs @ c # ws \<or> xs = us @ zs \<and> c # ws = zs @ b # ys"
    using assms(1) unfolding append_eq_append_conv2 by metis
  then show ?thesis
    using assms(2) by (cases zs) auto
qed

lemma resize_copy_refines:
  assumes hr: "heap_rep r s R (us @ c # ws)" and L: "us @ c # ws = xs @ b # ys" and ne: "span us \<noteq> span xs"
    and own: "aown b = Some oi" "aown c = Some no_owner" and cap: "acap b \<le> acap c" and d: "d = h_data_offset R"
    and Q: "\<And>s'. heap_rep r s' R (us @ c\<lparr>aown := Some oi\<rparr> # ws) \<Longrightarrow>
        (\<And>a. 200 \<le> a \<Longrightarrow> a \<notin> hdr_bytes (unat d) (set (starts 0 (us @ c # ws))) \<Longrightarrow>
           mem s' a = copied (mem s) (unat d + span us + 56) (unat d + span xs + 56) (acap b) (acap c) a) \<Longrightarrow>
        mutex s' = mutex s \<Longrightarrow> cmode s' = cmode s \<Longrightarrow> Q s'"
  shows "runs (resize_copy r s (bp r d (span xs)) (bp r d (span us))) Q"
proof -
  let ?bs = "us @ c # ws" and ?h = "span xs" and ?k = "span us"
  let ?D = "set (starts 0 ?bs)"
  obtain H where H: "hview r s s ?D H R" "heap_shape H R ?bs"
    "unat (h_data_offset R) + span ?bs = unat (rsize r)" "list_all wf_blk ?bs"
    using hr unfolding heap_rep_def by (rule heap_viewE)
  have D: "?h \<in> ?D" "?k \<in> ?D"
    by (simp add: L) simp
  have b_ok: "blk_ok (H ?h) b" and c_ok: "blk_ok (H ?k) c"
    using H(2) [unfolded L] H(2) by (simp_all add: heap_shape_def del: fseg_append)
  have caps: "b_payload_cap (H ?h) = of_nat (acap b)" "b_payload_cap (H ?k) = of_nat (acap c)"
    using b_ok c_ok by (auto simp: blk_ok_def sizes_ok_def intro: unat64_eqD)
  have ow: "b_type_tag (H ?h) = o_tag oi" "b_owner (H ?h) = o_owner oi" "b_perms (H ?h) = o_perms oi" "b_obj_id (H ?h) = o_id oi"
    using b_ok own(1) by (simp_all add: blk_ok_def owner_ok_simps)
  have wf: "wf_blk b" "wf_blk c"
    using H(4) [unfolded L] H(4) by simp_all
  have tot: "span ?bs = span xs + asz b + span ys" "span ?bs = span us + asz c + span ws"
    by (simp add: L) simp
  have fit: "unat d + ?h + 56 + acap b \<le> unat (rsize r)" "unat d + ?k + 56 + acap c \<le> unat (rsize r)"
    using H(3) d wf tot by (auto simp: wf_blk_def)
  have apart: "?h + 56 + acap b \<le> ?k \<or> ?k + 56 + acap c \<le> ?h"
    using two_splits [OF L ne] wf by (auto simp: wf_blk_def)
  have obin: "(?k + 56, acap c, no_owner) \<in> set (blk_objs 0 ?bs)"
    using own(2) by simp
  have out: "a \<notin> hdr_bytes (unat d) ?D" if "unat d + ?k + 56 \<le> a" "a < unat d + ?k + 56 + acap c" for a
    using payload_no_hdr [OF H(4) obin, of "unat d" a] that by (simp add: in_payload_def)
  have kh: "?k \<noteq> ?h" using ne .
  have offk: "region_off r (bp r d ?k + SIZEOF_BLOCK_HDR) = unat d + ?k + 56" "unat (of_nat (acap c) :: u64) = acap c"
    using fit(2) unat64_bound [of "rsize r"] by (simp_all add: region_off_bp SIZEOF_BLOCK_HDR_def unat64)
  have fin: "Q s'"
    if v: "hview r s1 s' ?D (H(?k := owned (H ?k) oi)) R"
      and m1: "mem s1 = copied (mem s) (unat d + ?k + 56) (unat d + ?h + 56) (acap b) (acap c)" "mutex s1 = mutex s" "cmode s1 = cmode s"
    for s1 s'
  proof (rule Q)
    have "heap_shape (H(?k := owned (H ?k) oi)) R (us @ c\<lparr>aown := Some oi\<rparr> # ws)"
      using H(2) own(2) by (rule heap_shape_owned)
    then show "heap_rep r s' R (us @ c\<lparr>aown := Some oi\<rparr> # ws)"
      by (intro heap_view_rep [of r s1 s' ?D] heap_viewI_exact [OF v]) (use H(3) in simp_all)
    show "mem s' a = copied (mem s) (unat d + ?k + 56) (unat d + ?h + 56) (acap b) (acap c) a"
      if "200 \<le> a" "a \<notin> hdr_bytes (unat d) ?D" for a
      using hviewD(8) [OF v, of a] that d m1(1) by simp
  qed (use v m1 in \<open>simp_all add: hview_def\<close>)
  have tail: "runs (blk_type_tag r s1 (bp r d ?h)) (\<lambda>tag. runs (set_blk_type_tag r s1 (bp r d ?k) tag)
      (\<lambda>s. runs (blk_owner r s (bp r d ?h)) (\<lambda>ow. runs (set_blk_owner r s (bp r d ?k) ow)
      (\<lambda>s. runs (blk_perms r s (bp r d ?h)) (\<lambda>pm. runs (set_blk_perms r s (bp r d ?k) pm)
      (\<lambda>s. runs (blk_obj_id r s (bp r d ?h)) (\<lambda>id. runs (set_blk_obj_id r s (bp r d ?k) id)
      (\<lambda>s. runs (blk_payload_cap r s (bp r d ?k)) (\<lambda>ncap. runs (shm_persist r s (bp r d ?k + SIZEOF_BLOCK_HDR) ncap)
      (\<lambda>s. runs (shm_persist r s (bp r d ?k) SIZEOF_BLOCK_HDR) Q))))))))))"
    if v: "hview r s1 s1 ?D H R"
      and m1: "mem s1 = copied (mem s) (unat d + ?k + 56) (unat d + ?h + 56) (acap b) (acap c)" "mutex s1 = mutex s" "cmode s1 = cmode s"
    for s1
    apply (simp add: hview_blk_loads [OF v D(1) d] ow)
    apply (rule wp_set_blk_type_tag [OF v D(2) d])
    subgoal premises p1 for s2
      apply (simp add: hview_blk_loads [OF p1 D(1) d] kh [symmetric] ow)
      apply (rule wp_set_blk_owner [OF p1 D(2) d])
      subgoal premises p2 for s3
        apply (simp add: hview_blk_loads [OF p2 D(1) d] kh [symmetric] ow)
        apply (rule wp_set_blk_perms [OF p2 D(2) d])
        subgoal premises p3 for s4
          apply (simp add: hview_blk_loads [OF p3 D(1) d] kh [symmetric] ow)
          apply (rule wp_set_blk_obj_id [OF p3 D(2) d])
          subgoal premises p4 for s5
            apply (simp add: hview_blk_loads [OF p4 D(2) d] caps)
            apply (rule wp_shm_persist [OF p4])
            apply (simp add: offk fit(2))
            apply (rule wp_persist_blk, assumption, rule D(2), rule d)
            apply (rule fin [OF _ m1])
            apply (simp add: owned_def)
            done
          done
        done
      done
    done
  show ?thesis
    unfolding resize_copy_def runs_bind Let_def
    apply (simp only: hview_blk_loads [OF H(1) D(1) d] caps runs_Some)
    apply (rule wp_memcpy_payload [OF H(1) d fit(1)])
    using fit(2) cap apply simp
    using apart cap apply linarith
    apply (rule out, assumption, use cap in simp)
    subgoal premises p for s1
      apply (simp only: hview_blk_loads [OF p(1) D(1) d] hview_blk_loads [OF p(1) D(2) d] caps runs_Some)
      apply (rule wp_fill_payload [OF p(1) d cap p(2) fit(2) out], assumption, assumption)
      apply (rule tail)
      using p(3,4) apply simp_all
      done
    done
qed

section \<open>Relocation\<close>

text \<open>Carving a free block moves no other block.\<close>

lemma take_keeps_block:
  assumes eq: "us @ f # vs = xs @ b # ys" and f: "is_free f" "\<not> is_free b" "n \<le> asz f"
    and pos: "0 < asz f" "0 < asz b"
  obtains xs' ys' where "us @ take_block n i f @ vs = xs' @ b # ys'" "span xs' = span xs" "span us \<noteq> span xs"
proof -
  obtain zs where z: "us = xs @ zs \<and> zs @ f # vs = b # ys \<or> us @ zs = xs \<and> f # vs = zs @ b # ys"
    using eq unfolding append_eq_append_conv2 by metis
  show thesis
  proof (cases zs)
    case Nil
    then show thesis
      using z f by auto
  next
    case (Cons c cs)
    from z show thesis
    proof
      assume "us = xs @ zs \<and> zs @ f # vs = b # ys"
      then have "us = xs @ b # cs"
        using Cons by simp
      then show thesis
        using pos by (intro that [of xs "cs @ take_block n i f @ vs"]) simp_all
    next
      assume "us @ zs = xs \<and> f # vs = zs @ b # ys"
      then have "xs = us @ f # cs" "vs = cs @ b # ys"
        using Cons by auto
      then show thesis
        using pos f(3) by (intro that [of "us @ take_block n i f @ cs" ys]) (simp_all add: span_take_block)
    qed
  qed
qed

lemma moved_objs:
  assumes "us @ f # vs = xs @ b # ys" "us @ take_block n oi f @ vs = xs' @ b # ys'" "span xs' = span xs"
    and "is_free f" "n \<le> asz f" "aown b = Some oi"
  shows "mset (blk_objs 0 xs') + mset (blk_objs (span xs' + asz b) ys') =
      add_mset (span us + 56, acap (taken n oi f), oi) (mset (blk_objs 0 xs) + mset (blk_objs (span xs + asz b) ys))"
proof -
  have "blk_objs 0 (us @ f # vs) = blk_objs 0 us @ blk_objs (span us + asz f) vs"
    using assms(4) by (simp add: is_free_def)
  moreover have "blk_objs 0 (us @ take_block n oi f @ vs) =
      blk_objs 0 us @ (span us + 56, acap (taken n oi f), oi) # blk_objs (span us + asz f) vs"
    using assms(5) by (simp add: take_block_Cons add.assoc taken_span)
  ultimately have "mset (blk_objs 0 (xs' @ b # ys')) = add_mset (span us + 56, acap (taken n oi f), oi) (mset (blk_objs 0 (xs @ b # ys)))"
    by (simp only: assms(1,2) [symmetric]) simp
  then show ?thesis
    using assms(3,6) by simp
qed

definition moved_hdr :: "region_hdr \<Rightarrow> u64 \<Rightarrow> nat \<Rightarrow> ablk \<Rightarrow> ablk \<Rightarrow> region_hdr" where
  "moved_hdr R fl n f b =
     R\<lparr>h_free_list := fl, h_used_bytes := h_used_bytes R + of_nat (taken_size n f) - of_nat (asz b)\<rparr>"

lemma moved_hdr_eq:
  "count_free ((count_alloc (R\<lparr>h_free_list := fl'\<rparr>) (taken_size n f))\<lparr>h_free_list := fl\<rparr>) (asz b) = moved_hdr R fl n f b"
  by (simp add: count_free_def count_alloc_def moved_hdr_def)

lemma resize_move_refines:
  assumes hr: "heap_rep r s R (xs @ b # ys)" and own: "aown b = Some oi"
    and n: "56 \<le> n" "8 dvd n" "n < 2 ^ 64" and d: "d = h_data_offset R"
    and k: "200 \<le> k" "k + 96 \<le> unat d"
    and cap: "\<And>us f vs. first_fit n (xs @ b # ys) = Some (us, f, vs) \<Longrightarrow> acap b \<le> acap (taken n oi f)"
    and none: "first_fit n (xs @ b # ys) = None \<Longrightarrow> Q (False, s)"
    and some: "\<And>s2 s' us f vs xs' ys' fl. first_fit n (xs @ b # ys) = Some (us, f, vs) \<Longrightarrow>
        us @ take_block n oi f @ vs = xs' @ b # ys' \<Longrightarrow> span xs' = span xs \<Longrightarrow> span us \<noteq> span xs \<Longrightarrow>
        heap_rep r s2 (moved_hdr R fl n f b) (insert_free xs' b ys') \<Longrightarrow>
        b_allocated (blk_at (mem s2) (unat d + span xs)) = 0 \<Longrightarrow>
        (\<And>a. 200 \<le> a \<Longrightarrow> a \<notin> hdr_bytes (unat d) (set (starts 0 (xs' @ b # ys'))) \<Longrightarrow>
           mem s2 a = copied (mem s) (unat d + span us + 56) (unat d + span xs + 56) (acap b) (acap (taken n oi f)) a) \<Longrightarrow>
        mutex s2 = mutex s \<Longrightarrow> cmode s2 = cmode s \<Longrightarrow>
        eview r s2 s' k ((ent_at (mem s2) k)\<lparr>e_off := of_nat (span us + 56),
          e_capacity := of_nat (acap (taken n oi f))\<rparr>) \<Longrightarrow> Q (True, s')"
  shows "runs (resize_move r s (rp r k) (bp r d (span xs)) (of_nat n)) Q"
  unfolding resize_move_def runs_bind
proof (rule heap_alloc_block_refines [OF hr n d])
  assume "first_fit n (xs @ b # ys) = None"
  then show "runs (case (0, s) of (nb, s) \<Rightarrow> if nb = 0 then Some (False, s)
      else do { s \<leftarrow> resize_copy r s (bp r d (span xs)) nb; s \<leftarrow> heap_free_block r s (bp r d (span xs));
        off \<leftarrow> shm_poff_of_blk r s nb; s \<leftarrow> set_ent_off r s (rp r k) off; cap \<leftarrow> blk_payload_cap r s nb;
        s \<leftarrow> set_ent_capacity r s (rp r k) cap; Some (True, s) }) Q"
    using none by simp
next
  fix s1 fl us f vs
  assume ff: "first_fit n (xs @ b # ys) = Some (us, f, vs)"
    and hv: "heap_view r s s1 (set (starts 0 (us @ take_block n no_owner f @ vs)))
      (count_alloc (R\<lparr>h_free_list := fl\<rparr>) (taken_size n f)) (us @ take_block n no_owner f @ vs)"
  let ?R1 = "count_alloc (R\<lparr>h_free_list := fl\<rparr>) (taken_size n f)"
  let ?c = "taken n no_owner f" and ?ws = "taken_rest n f @ vs"
  have f: "us @ f # vs = xs @ b # ys" "is_free f" "n \<le> asz f"
    using first_fit_SomeD [OF ff] by simp_all
  have used: "\<not> is_free b"
    using own by (simp add: is_free_def)
  have wf: "list_all wf_blk (xs @ b # ys)"
    using hr by (auto simp: heap_rep_bytes heap_shape_def dest: tiles_wf)
  have pos: "0 < asz f" "0 < asz b"
    using wf wf [folded f(1)] by (auto simp: wf_blk_def)
  obtain xs1 ys1 where s1: "us @ take_block n no_owner f @ vs = xs1 @ b # ys1" "span xs1 = span xs" "span us \<noteq> span xs"
    by (rule take_keeps_block [OF f(1,2) used f(3) pos])
  obtain xs' ys' where s': "us @ take_block n oi f @ vs = xs' @ b # ys'" "span xs' = span xs"
    by (rule take_keeps_block [OF f(1,2) used f(3) pos])
  have ne: "span us \<noteq> span xs1"
    using s1(2,3) by simp
  have L1: "us @ ?c # ?ws = xs1 @ b # ys1"
    using s1(1) by (simp add: take_block_Cons)
  have L2: "us @ ?c\<lparr>aown := Some oi\<rparr> # ?ws = xs' @ b # ys'"
    using s'(1) by (simp add: take_block_Cons taken_owner)
  have D: "set (starts 0 (us @ ?c # ?ws)) = set (starts 0 (xs' @ b # ys'))"
    using f(3) by (simp add: L2 [symmetric])
  have hr1: "heap_rep r s1 ?R1 (us @ ?c # ?ws)"
    using heap_view_rep [OF hv] by (simp add: take_block_Cons)
  have o1: "hdrs_only (unat d) (set (starts 0 (xs' @ b # ys'))) s s1"
    using heap_view_only [OF hv] d D by (simp add: take_block_Cons)
  have caps: "acap ?c = acap (taken n oi f)"
    by (simp add: taken_def)
  let ?A = "unat d + span us + 56" and ?B = "unat d + span xs + 56"
  have wf1: "list_all wf_blk (us @ ?c # ?ws)"
    using hr1 by (auto simp: heap_rep_bytes heap_shape_def dest: tiles_wf)
  have src: "mem s1 a = mem s a" if "?B \<le> a" "a < ?B + acap b" for a
  proof -
    have "(span xs1 + 56, acap b, oi) \<in> set (blk_objs 0 (us @ ?c # ?ws))"
      using own by (simp add: L1)
    from payload_no_hdr [OF wf1 this, of "unat d" a] have "a \<notin> hdr_bytes (unat d) (set (starts 0 (xs' @ b # ys')))"
      using that s1(2) D by (simp add: in_payload_def)
    then show ?thesis
      using o1 that k by (simp add: hdrs_only_def)
  qed
  have "runs (do { s \<leftarrow> resize_copy r s1 (bp r d (span xs1)) (bp r d (span us)); s \<leftarrow> heap_free_block r s (bp r d (span xs));
        off \<leftarrow> shm_poff_of_blk r s (bp r d (span us)); s \<leftarrow> set_ent_off r s (rp r k) off;
        cap \<leftarrow> blk_payload_cap r s (bp r d (span us));
        s \<leftarrow> set_ent_capacity r s (rp r k) cap; Some (True, s) }) Q"
    unfolding runs_bind
  proof (rule resize_copy_refines [OF hr1 L1 ne own])
    show "aown ?c = Some no_owner" by simp
    show "acap b \<le> acap ?c"
      using cap [OF ff] by (simp only: caps)
    show "d = h_data_offset ?R1"
      using d by simp
    fix s2
    assume hr2: "heap_rep r s2 ?R1 (us @ ?c\<lparr>aown := Some oi\<rparr> # ?ws)"
      and m2: "\<And>a. 200 \<le> a \<Longrightarrow> a \<notin> hdr_bytes (unat d) (set (starts 0 (us @ ?c # ?ws))) \<Longrightarrow>
           mem s2 a = copied (mem s1) (unat d + span us + 56) (unat d + span xs1 + 56) (acap b) (acap ?c) a"
      and e2: "mutex s2 = mutex s1" "cmode s2 = cmode s1"
    show "runs (heap_free_block r s2 (bp r d (span xs))) (\<lambda>s. runs (shm_poff_of_blk r s (bp r d (span us)))
        (\<lambda>off. runs (set_ent_off r s (rp r k) off) (\<lambda>s. runs (blk_payload_cap r s (bp r d (span us)))
        (\<lambda>cap. runs (set_ent_capacity r s (rp r k) cap) (\<lambda>s. runs (Some (True, s)) Q)))))"
    proof (rule heap_free_block_refines [OF hr2 [unfolded L2] used, where d = d, unfolded s'(2)])
      show "d = h_data_offset ?R1"
        using d by simp
      fix s3 fl'
      let ?R3 = "count_free (?R1\<lparr>h_free_list := fl'\<rparr>) (asz b)"
      assume v3: "heap_view r s2 s3 (set (starts 0 (xs' @ b # ys'))) ?R3 (insert_free xs' b ys')"
      have R3: "?R3 = moved_hdr R fl' n f b"
        by (rule moved_hdr_eq)
      have hr3: "heap_rep r s3 (moved_hdr R fl' n f b) (insert_free xs' b ys')"
        using heap_view_rep [OF v3] by (simp only: R3)
      have o3: "hdrs_only (unat d) (set (starts 0 (xs' @ b # ys'))) s2 s3"
        using heap_view_only [OF v3] d by simp
      have wf2: "list_all wf_blk (xs' @ b # ys')"
        using hr2 by (auto simp: L2 heap_rep_bytes heap_shape_def dest: tiles_wf)
      have dead: "b_allocated (blk_at (mem s3) (unat d + span xs)) = 0"
        using freed_header [OF v3 wf2] d s'(2) by simp
      have m3: "mem s3 a = copied (mem s) ?A ?B (acap b) (acap (taken n oi f)) a"
        if "200 \<le> a" "a \<notin> hdr_bytes (unat d) (set (starts 0 (xs' @ b # ys')))" for a
        using that o3 m2 [of a] o1 src [of "?B + (a - ?A)"] D s1(2) caps
        by (auto simp: hdrs_only_def copied_def)
      obtain H3 where H3: "hview r s2 s3 (set (starts 0 (xs' @ b # ys'))) H3 ?R3"
        using v3 by (rule heap_viewE)
      have d3: "d = h_data_offset ?R3"
        using d by simp
      have m: "mapped r" "unat d \<le> unat (rsize r)"
        using hviewD(1,3) [OF H3] d by simp_all
      have usD: "span us \<in> set (starts 0 (xs' @ b # ys'))"
        unfolding L2 [symmetric] by simp
      have capH: "b_payload_cap (H3 (span us)) = of_nat (acap (taken n oi f))"
      proof -
        have "mset (blk_objs 0 (insert_free xs' b ys')) = add_mset (span us + 56, acap (taken n oi f), oi)
            (mset (blk_objs 0 xs) + mset (blk_objs (span xs + asz b) ys))"
          using moved_objs [OF f(1) s' f(2,3) own] by (simp add: insert_free_objs)
        then have "(span us + 56, acap (taken n oi f), oi) \<in> set (blk_objs 0 (insert_free xs' b ys'))"
          by (metis set_mset_add_mset_insert set_mset_mset insertI1)
        then obtain ps c qs where c: "insert_free xs' b ys' = ps @ c # qs" "span us + 56 = 0 + span ps + 56"
          "acap (taken n oi f) = acap c"
          by (rule blk_objs_split)
        obtain H' where "hview r s3 s3 (set (starts 0 (ps @ c # qs))) H' (moved_hdr R fl' n f b)"
          "span ps \<in> set (starts 0 (ps @ c # qs))" "blk_ok (H' (span ps)) c"
          by (rule heap_rep_block [OF hr3 [unfolded c(1)]])
        then have "unat (b_payload_cap (blk_at (mem s3) (unat d + span ps))) = acap c"
          using d by (auto simp: hview_def blk_ok_def sizes_ok_def moved_hdr_def)
        then show ?thesis
          using hviewD(7) [OF H3 usD] d c(2,3) by (intro unat64_eqD) simp
      qed
      have e3: "eview r s3 s3 k (ent_at (mem s3) k)"
        using m k by (intro eview_start) simp_all
      show "runs (shm_poff_of_blk r s3 (bp r d (span us))) (\<lambda>off. runs (set_ent_off r s3 (rp r k) off)
          (\<lambda>s. runs (blk_payload_cap r s (bp r d (span us))) (\<lambda>cap. runs (set_ent_capacity r s (rp r k) cap)
          (\<lambda>s. runs (Some (True, s)) Q))))"
        unfolding hview_ptrs(5) [OF H3 d3] runs_Some
      proof (rule wp_set_ent_off [OF e3])
        fix s4 assume e4: "eview r s3 s4 k ((ent_at (mem s3) k)\<lparr>e_off := of_nat (span us + 56)\<rparr>)"
        have v4: "hview r s4 s4 (set (starts 0 (xs' @ b # ys'))) H3 ?R3"
          by (rule eview_hview [OF H3 e4 k(1)]) (use k d in simp)
        show "runs (blk_payload_cap r s4 (bp r d (span us))) (\<lambda>cap. runs (set_ent_capacity r s4 (rp r k) cap)
          (\<lambda>s. Q (True, s)))"
          unfolding hview_blk_loads(7) [OF v4 usD d3] runs_Some capH
          by (rule wp_set_ent_capacity [OF e4], rule some [OF ff s'(1,2) s1(3) hr3 dead m3])
            (use e2 o1 o3 in \<open>simp_all add: hdrs_only_def\<close>)
      qed
    qed
  qed
  moreover have "bp r d (span us) \<noteq> 0"
  proof -
    obtain H1 where "hview r s1 s1 (set (starts 0 (us @ ?c # ?ws))) H1 ?R1"
      "span us \<in> set (starts 0 (us @ ?c # ?ws))"
      by (rule heap_rep_block [OF hr1])
    then show ?thesis
      by (rule bp_nonzero) (simp add: d)
  qed
  ultimately show "runs (case (bp r d (span us), s1) of (nb, s) \<Rightarrow> if nb = 0 then Some (False, s)
      else do { s \<leftarrow> resize_copy r s (bp r d (span xs)) nb; s \<leftarrow> heap_free_block r s (bp r d (span xs));
        off \<leftarrow> shm_poff_of_blk r s nb; s \<leftarrow> set_ent_off r s (rp r k) off; cap \<leftarrow> blk_payload_cap r s nb;
        s \<leftarrow> set_ent_capacity r s (rp r k) cap; Some (True, s) }) Q"
    using s1(2) by simp
qed

section \<open>The directory entry\<close>

definition resized_entry :: "obj_entry \<Rightarrow> nat \<Rightarrow> nat \<Rightarrow> u64 \<Rightarrow> obj_entry" where
  "resized_entry e off cap used = e\<lparr>e_off := of_nat off, e_capacity := of_nat cap, e_used_size := used\<rparr>"

lemma resize_dir_ok:
  assumes d: "dir_ok nid es bs" and i: "i < length es" "live (es ! i)"
    and fits: "off < 2 ^ 64" "cap < 2 ^ 64" and oi: "oi = snd (snd (ent_obj (es ! i)))"
    and objs: "add_mset (ent_obj (es ! i)) (mset (blk_objs 0 bs')) = add_mset (off, cap, oi) (mset (blk_objs 0 bs))"
  shows "dir_ok nid (es[i := resized_entry (es ! i) off cap used]) bs'"
proof -
  let ?e = "resized_entry (es ! i) off cap used"
  have e: "live ?e" "e_id ?e = e_id (es ! i)" "entry_ok nid ?e = entry_ok nid (es ! i)"
    using i(2) by (simp_all add: resized_entry_def live_def entry_ok_def)
  have ob: "ent_obj ?e = (off, cap, oi)"
    using fits by (simp add: ent_obj_def resized_entry_def oi unat64)
  have upd: "add_mset (ent_obj (es ! i)) (mset (dir_objs (es[i := ?e]))) = add_mset (ent_obj ?e) (mset (dir_objs es))"
    using dir_objs_update [OF i(1), of ?e] i(2) e(1) by simp
  have "add_mset (ent_obj (es ! i)) (mset (dir_objs (es[i := ?e]))) = add_mset (ent_obj (es ! i)) (mset (blk_objs 0 bs'))"
    using upd objs d by (simp add: ob dir_ok_def)
  then have objs': "mset (dir_objs (es[i := ?e])) = mset (blk_objs 0 bs')"
    by simp
  have ms: "add_mset (es ! i) (mset (filter live (es[i := ?e]))) = add_mset ?e (mset (filter live es))"
    using live_update [OF i(1), of ?e] i(2) e(1) by simp
  have "image_mset e_id (add_mset (es ! i) (mset (filter live (es[i := ?e])))) = image_mset e_id (add_mset ?e (mset (filter live es)))"
    by (simp only: ms)
  then have "mset (map e_id (filter live (es[i := ?e]))) = mset (map e_id (filter live es))"
    by (simp add: e(2))
  then have "distinct (map e_id (filter live (es[i := ?e])))"
    using d by (metis dir_ok_def mset_eq_imp_distinct_iff)
  moreover have "list_all (entry_ok nid) (es[i := ?e])"
    using d i(1) e(3) set_update_subset_insert [of es i ?e] by (auto simp: dir_ok_def list_all_iff)
  ultimately show ?thesis
    using objs' by (simp add: dir_ok_def)
qed

text \<open>From the changed heap and the rewritten slot to the end of the call.\<close>

lemma resize_finish:
  assumes inv: "pool_inv r s R bs es" and lock: "mutex s = MLocked" and i: "i < length es" "live (es ! i)"
    and hr: "heap_rep r s2 (R\<lparr>h_free_list := fl, h_used_bytes := of_nat (used_span bs')\<rparr>) bs'"
    and bs': "used_count bs' = used_count bs" "coalesced bs'"
    and out: "\<And>a. 200 \<le> a \<Longrightarrow> a < unat (h_data_offset R) \<Longrightarrow> mem s2 a = mem s a" "mutex s2 = mutex s" "cmode s2 = cmode s"
    and e: "eview r s2 s3 (slot_pos R i) ((es ! i)\<lparr>e_off := of_nat off, e_capacity := of_nat cap\<rparr>)"
    and fits: "off < 2 ^ 64" "cap < 2 ^ 64" and oi: "oi = snd (snd (ent_obj (es ! i)))"
    and objs: "add_mset (ent_obj (es ! i)) (mset (blk_objs 0 bs')) = add_mset (off, cap, oi) (mset (blk_objs 0 bs))"
    and Q: "\<And>s'. pool_inv r s' (R\<lparr>h_free_list := fl, h_used_bytes := of_nat (used_span bs')\<rparr>) bs'
          (es[i := resized_entry (es ! i) off cap used]) \<Longrightarrow> mutex s' = MUnlocked \<Longrightarrow> cmode s' = cmode s \<Longrightarrow>
        (\<And>a. unat (h_data_offset R) \<le> a \<Longrightarrow> mem s' a = mem s2 a) \<Longrightarrow> Q (OK, s')"
  shows "runs (do {
       s \<leftarrow> set_ent_used_size r s3 (rp r (slot_pos R i)) used;
       s \<leftarrow> shm_persist r s (rp r (slot_pos R i)) SIZEOF_OBJ_ENTRY;
       let s = shm_drain s;
       s \<leftarrow> region_unlock r s;
       Some (OK, s) }) Q"
proof -
  let ?R = "R\<lparr>h_free_list := fl, h_used_bytes := of_nat (used_span bs')\<rparr>" and ?k = "slot_pos R i"
  let ?e = "resized_entry (es ! i) off cap used"
  note dr = pool_invD(2) [OF inv]
  note sb = slot_bounds [OF dr i(1)]
  have m: "mapped r" "200 \<le> unat (rsize r)"
    using pool_invD(6,7) [OF inv] by auto
  have fin: "Q (OK, s')"
    if e4: "eview r s2 s4 ?k ?e" and ms: "mem s' = mem s4" "mutex s' = MUnlocked" "cmode s' = cmode s" for s4 s'
  proof (rule Q [OF _ ms(2,3)])
    have v2: "hview r s2 s2 (set (starts 0 bs')) (hdrs (mem s2) (unat (h_data_offset ?R))) ?R"
    proof -
      obtain H where H: "hview r s2 s2 (set (starts 0 bs')) H ?R"
        using hr unfolding heap_rep_def by (rule heap_viewE)
      then show ?thesis
        by (simp add: hview_def hdrs_def)
    qed
    have v4: "hview r s4 s4 (set (starts 0 bs')) (hdrs (mem s2) (unat (h_data_offset ?R))) ?R"
      using sb by (intro eview_hview [OF v2 e4]) simp_all
    have "heap_rep r s4 ?R bs'"
      using hr v4
      by (intro heap_view_rep [OF heap_viewI_exact [OF v4 refl]]) (simp_all add: heap_rep_bytes)
    moreover have "dir_rep r s2 ?R es"
      by (rule dir_rep_frame [OF dr]) (use out(1) hviewD(6) [OF v2] in simp_all)
    then have "dir_rep r s4 ?R (es[i := ?e])"
      by (rule dir_at_update [OF _ i(1)]) (use e4 in \<open>simp_all add: slot_pos_def\<close>)
    moreover have "acct ?R bs'"
      using pool_invD(3) [OF inv] bs'(1) by (simp add: acct_def)
    ultimately have "pool_inv r s4 ?R bs' (es[i := ?e])"
      using inv bs'(2) resize_dir_ok [OF pool_invD(5) [OF inv] i fits oi objs, of used] by (simp add: pool_inv_def)
    then show "pool_inv r s' ?R bs' (es[i := ?e])"
      using ms(1) m(1) by (rule pool_inv_bytes) simp
    show "mem s' a = mem s2 a" if "unat (h_data_offset R) \<le> a" for a
      using e4 ms(1) that sb by (simp add: eview_def)
  qed
  show ?thesis
    unfolding runs_bind
    apply (rule wp_set_ent_used_size [OF e])
    apply (rule wp_persist_slot, assumption)
    subgoal premises p for s4 s5
    proof -
      have e5: "eview r s2 (shm_drain s5) ?k ?e"
        by (rule eview_mem_cong [OF p(2) [folded resized_entry_def]]) simp_all
      have mu: "mutex (shm_drain s5) = MLocked" "cmode (shm_drain s5) = cmode s"
        using e5 out lock by (simp_all add: eview_def)
      show ?thesis
        using fin [OF e5, of "shm_drain s5\<lparr>mutex := MUnlocked\<rparr>"] mu
        by (simp add: Let_def region_unlock_locked [OF m mu(1)])
    qed
    done
qed

end
