(* ===== verification/Shm_Resize_Spec.thy ===== *)
theory Shm_Resize_Spec
  imports Shm_Resize
begin

text \<open>
  What \<open>shm_resize\<close> of \<open>src/src/shm_alloc.c\<close> does to the pool: the three ways it
  ends (shrink, growth in place, relocation) share \<open>resized_to\<close>, which says where the
  payload is afterwards, how large it is, what of its contents is kept and that the pool invariant
  holds; \<open>shm_resize_refines\<close> puts them together with the error returns, and
  \<open>resize_safe\<close> is the condition under which a relocation finds room for the recorded capacity.
\<close>

section \<open>What a resize does\<close>

text \<open>The first \<open>k\<close> bytes at payload offset \<open>off\<close> are found at \<open>off'\<close> afterwards.\<close>

definition kept_contents :: "nat \<Rightarrow> nat \<Rightarrow> nat \<Rightarrow> nat \<Rightarrow> machine \<Rightarrow> machine \<Rightarrow> bool" where
  "kept_contents d off off' k s s' \<longleftrightarrow> (\<forall>j<k. mem s' (d + off' + j) = mem s (d + off + j))"

text \<open>
  The object in slot \<open>i\<close>, whose block was \<open>b\<close> between \<open>xs\<close> and \<open>ys\<close>, now has the
  payload offset \<open>off\<close> and the capacity \<open>cap\<close>; the heap consists of the blocks \<open>bs'\<close>.
  Its contents are kept up to the smaller capacity, the other payloads entirely.
\<close>

definition resized_to ::
    "shm_region \<Rightarrow> machine \<Rightarrow> machine \<Rightarrow> region_hdr \<Rightarrow> obj_entry list \<Rightarrow> nat \<Rightarrow> ablk list \<Rightarrow> ablk \<Rightarrow> ablk list \<Rightarrow>
     ablk list \<Rightarrow> nat \<Rightarrow> nat \<Rightarrow> u64 \<Rightarrow> bool" where
  "resized_to r s s' R es i xs b ys bs' off cap used \<longleftrightarrow>
     (\<exists>fl. pool_inv r s' (R\<lparr>h_free_list := fl, h_used_bytes := of_nat (used_span bs')\<rparr>) bs'
        (es[i := resized_entry (es ! i) off cap used])) \<and>
     payloads_kept (unat (h_data_offset R)) (blk_objs 0 xs @ blk_objs (span xs + asz b) ys) s s' \<and>
     kept_contents (unat (h_data_offset R)) (span xs + 56) off (min (acap b) cap) s s'"

text \<open>The block before the cut: the block itself, or widened by its free successor.\<close>

definition grown :: "ablk \<Rightarrow> ablk list \<Rightarrow> ablk \<Rightarrow> ablk list \<Rightarrow> bool" where
  "grown b ys w zs \<longleftrightarrow> w = b \<and> zs = ys \<or> (\<exists>t. ys = t # zs \<and> is_free t \<and> wf_blk t \<and> w = widen b t)"

lemma grownD:
  assumes "grown b ys w zs"
  shows "asz w + span zs = asz b + span ys" "used_span zs = used_span ys" "used_count zs = used_count ys"
    "blk_objs (h + asz w) zs = blk_objs (h + asz b) ys" "aown w = aown b" "asz b \<le> asz w"
    "\<not> is_free b \<Longrightarrow> coalesced (xs @ b # ys) \<Longrightarrow> coalesced (xs @ w # zs)"
    "wf_blk b \<Longrightarrow> wf_blk w" "list_all wf_blk ys \<Longrightarrow> list_all wf_blk zs" "wf_blk b \<Longrightarrow> acap b \<le> acap w"
  using assms by (auto simp: grown_def is_free_def wf_blk_def coalesced_Cons add.assoc)

lemma cut_objs:
  assumes "n \<le> asz w" "aown w = Some oi"
  shows "blk_objs 0 (xs @ cut_block n w # cut_rest n w zs) =
      blk_objs 0 xs @ (span xs + 56, acap (cut_block n w), oi) # blk_objs (span xs + asz w) zs"
    and "blk_objs 0 (xs @ cut_block n w # cut_raw n w zs) =
      blk_objs 0 xs @ (span xs + 56, acap (cut_block n w), oi) # blk_objs (span xs + asz w) zs"
  using assms merge_next_objs [OF cut_tail_free, of "span xs + n" n w zs]
  by (simp_all add: cut_rest_def cut_raw_def) (simp_all add: cut_block_def)

lemma cut_sums:
  assumes "n \<le> asz w" "\<not> is_free w"
  shows "used_span (cut_block n w # cut_rest n w zs) = asz (cut_block n w) + used_span zs"
    "used_count (cut_block n w # cut_rest n w zs) = Suc (used_count zs)"
    "asz (cut_block n w) \<le> asz w"
  using assms merge_next_props(4,5) [OF cut_tail_free, of n w zs]
  by (simp_all add: cut_rest_def) (simp_all add: cut_block_def)

lemma cut_coalesced:
  assumes "coalesced (xs @ w # zs)" "\<not> is_free w"
  shows "coalesced (xs @ cut_block n w # cut_rest n w zs)"
  using assms merge_next_coalesced [of zs "cut_tail n w"]
  by (auto simp: cut_rest_def coalesced_Cons cut_block_own)

lemma cut_wf:
  assumes "list_all wf_blk (xs @ w # zs)" "56 \<le> n"
  shows "list_all wf_blk (xs @ cut_block n w # cut_raw n w zs)"
  using assms by (auto simp: cut_block_def cut_raw_def cut_tail_def wf_blk_def)

lemma hdrs_only_payload:
  assumes "hdrs_only d (set (starts 0 bs) \<union> set (starts 0 cs)) s s'" "list_all wf_blk bs" "list_all wf_blk cs"
    and "ob \<in> set (blk_objs 0 bs)" "in_payload d ob a" "ob' \<in> set (blk_objs 0 cs)" "in_payload d ob' a" "200 \<le> d"
  shows "mem s' a = mem s a"
proof -
  have "a \<notin> hdr_bytes d (set (starts 0 bs))" "a \<notin> hdr_bytes d (set (starts 0 cs))"
    using payload_no_hdr assms by blast+
  then have "a \<notin> hdr_bytes d (set (starts 0 bs) \<union> set (starts 0 cs))"
    by (auto simp: hdr_bytes_def)
  moreover have "200 \<le> a"
    using assms(5,8) by (simp add: in_payload_def)
  ultimately show ?thesis
    using assms(1) by (simp add: hdrs_only_def)
qed

lemma in_place_done:
  assumes inv: "pool_inv r s R (xs @ b # ys) es" and lock: "mutex s = MLocked" and i: "i < length es" "live (es ! i)"
    and ob: "ent_obj (es ! i) = (span xs + 56, acap b, oi)" and own: "aown b = Some oi"
    and g: "grown b ys w zs" and n: "56 \<le> n" "n \<le> asz w"
    and hr: "heap_rep r s2 (resized_hdr R fl n b w) (xs @ cut_block n w # cut_rest n w zs)"
    and only: "hdrs_only (unat (h_data_offset R))
        (set (starts 0 (xs @ b # ys)) \<union> set (starts 0 (xs @ cut_block n w # cut_raw n w zs))) s s2"
    and e: "eview r s2 s3 (slot_pos R i) ((ent_at (mem s2) (slot_pos R i))\<lparr>e_capacity := of_nat (acap (cut_block n w))\<rparr>)"
  shows "runs (do {
       s \<leftarrow> set_ent_used_size r s3 (rp r (slot_pos R i)) used;
       s \<leftarrow> shm_persist r s (rp r (slot_pos R i)) SIZEOF_OBJ_ENTRY;
       let s = shm_drain s;
       s \<leftarrow> region_unlock r s;
       Some (OK, s) })
    (\<lambda>(rc, s'). rc = OK \<and> mutex s' = MUnlocked \<and> cmode s' = cmode s \<and>
       resized_to r s s' R es i xs b ys (xs @ cut_block n w # cut_rest n w zs) (span xs + 56) (acap (cut_block n w)) used)"
proof -
  let ?bs' = "xs @ cut_block n w # cut_rest n w zs" and ?raw = "xs @ cut_block n w # cut_raw n w zs"
  let ?d = "unat (h_data_offset R)" and ?c = "cut_block n w"
  have used: "\<not> is_free b" "\<not> is_free w" "aown w = Some oi"
    using own grownD(5) [OF g] by (auto simp: is_free_def)
  note dr = pool_invD(2) [OF inv]
  note sb = slot_bounds [OF dr i(1)]
  have wf: "list_all wf_blk (xs @ b # ys)"
    using pool_invD(1) [OF inv] by (auto simp: heap_rep_bytes heap_shape_def dest: tiles_wf)
  have wfw: "list_all wf_blk (xs @ w # zs)"
    using wf grownD(8,9) [OF g] by simp
  have wfr: "list_all wf_blk ?raw"
    using wfw n(1) by (rule cut_wf)
  have tot: "?d + span (xs @ b # ys) = unat (rsize r)"
    using pool_invD(1) [OF inv] by (simp add: heap_rep_bytes)
  have objs: "blk_objs 0 ?bs' = blk_objs 0 xs @ (span xs + 56, acap ?c, oi) # blk_objs (span xs + asz b) ys"
    "blk_objs 0 ?raw = blk_objs 0 xs @ (span xs + 56, acap ?c, oi) # blk_objs (span xs + asz b) ys"
    "blk_objs 0 (xs @ b # ys) = blk_objs 0 xs @ (span xs + 56, acap b, oi) # blk_objs (span xs + asz b) ys"
    using cut_objs [OF n(2) used(3)] grownD(4) [OF g, of "span xs"] own by simp_all
  note sums = cut_sums [OF n(2) used(2)]
  have hdr: "resized_hdr R fl n b w = R\<lparr>h_free_list := fl, h_used_bytes := of_nat (used_span ?bs')\<rparr>"
  proof -
    have "used_span ?bs' + (asz w - asz ?c) = used_span (xs @ b # ys) + (asz w - asz b)"
      using sums(1,3) grownD(2,6) [OF g] used(1) by simp
    then have "(of_nat (used_span ?bs' + (asz w - asz ?c)) :: u64) = of_nat (used_span (xs @ b # ys) + (asz w - asz b))"
      by (rule arg_cong)
    then have "(of_nat (used_span ?bs') :: u64) =
        of_nat (used_span (xs @ b # ys)) + of_nat (asz w - asz b) - of_nat (asz w - asz ?c)"
      unfolding of_nat_add by (simp only: eq_diff_eq)
    then show ?thesis
      using pool_invD(3) [OF inv] by (simp only: resized_hdr_def acct_def)
  qed
  have frame: "mem s2 a = mem s a" if "200 \<le> a" "a < ?d" for a
    using only that by (auto simp: hdrs_only_def hdr_bytes_def)
  have ent: "ent_at (mem s2) (slot_pos R i) = es ! i"
  proof -
    have "ent_at (mem s2) (slot_pos R i) = ent_at (mem s) (slot_pos R i)"
      by (rule ent_at_cong, rule frame) (use sb in simp_all)
    then show ?thesis
      using dir_rep_eview [OF dr i(1)] by (simp add: eview_def)
  qed
  have off: "unat (e_off (es ! i)) = span xs + 56"
    using ob by (simp add: ent_obj_def)
  have e': "eview r s2 s3 (slot_pos R i) ((es ! i)\<lparr>e_off := of_nat (span xs + 56), e_capacity := of_nat (acap ?c)\<rparr>)"
  proof -
    have "(es ! i)\<lparr>e_off := of_nat (span xs + 56)\<rparr> = es ! i"
      using unat64_eqD [OF off] by (cases "es ! i") simp
    then show ?thesis
      using e by (simp only: ent)
  qed
  have fits: "span xs + 56 < 2 ^ 64" "acap ?c < 2 ^ 64"
  proof -
    have "(span xs + 56, acap ?c, oi) \<in> set (blk_objs 0 ?raw)"
      unfolding objs by simp
    from blk_objs_bounds(2) [OF this wfr] have "span xs + 56 + acap ?c \<le> span ?raw"
      by simp
    moreover have "span ?raw = span (xs @ b # ys)"
      using n(2) grownD(1) [OF g] by (auto simp: cut_raw_def cut_block_def)
    ultimately show "span xs + 56 < 2 ^ 64" "acap ?c < 2 ^ 64"
      using tot unat64_bound [of "rsize r"] by linarith+
  qed
  have coal: "coalesced ?bs'"
    using grownD(7) [OF g used(1) pool_invD(4) [OF inv]] used(2) by (rule cut_coalesced)
  show ?thesis
  proof (rule resize_finish [OF inv lock i hr [unfolded hdr] _ coal frame _ _ e' fits])
    show "used_count ?bs' = used_count (xs @ b # ys)"
      using sums(2) grownD(3) [OF g] used(1) by simp
    show "oi = snd (snd (ent_obj (es ! i)))"
      using ob by simp
    show "add_mset (ent_obj (es ! i)) (mset (blk_objs 0 ?bs')) =
        add_mset (span xs + 56, acap ?c, oi) (mset (blk_objs 0 (xs @ b # ys)))"
      unfolding objs ob by simp
    fix s'
    assume inv': "pool_inv r s' (R\<lparr>h_free_list := fl, h_used_bytes := of_nat (used_span ?bs')\<rparr>) ?bs'
        (es[i := resized_entry (es ! i) (span xs + 56) (acap ?c) used])"
      and s': "mutex s' = MUnlocked" "cmode s' = cmode s" and same: "\<And>a. ?d \<le> a \<Longrightarrow> mem s' a = mem s2 a"
    have d200: "200 \<le> ?d"
      using sb by simp
    note pay = hdrs_only_payload [OF only wf wfr _ _ _ _ d200]
    have "payloads_kept ?d (blk_objs 0 xs @ blk_objs (span xs + asz b) ys) s s'"
      unfolding payloads_kept_def
    proof (intro ballI allI impI)
      fix ob' a assume ob': "ob' \<in> set (blk_objs 0 xs @ blk_objs (span xs + asz b) ys)" and a: "in_payload ?d ob' a"
      have "mem s2 a = mem s a"
        by (rule pay [OF _ a _ a]) (use ob' in \<open>auto simp only: objs set_append list.set insert_iff Un_iff\<close>)
      then show "mem s' a = mem s a"
        using same [of a] a by (simp add: in_payload_def)
    qed
    moreover have "kept_contents ?d (span xs + 56) (span xs + 56) (min (acap b) (acap ?c)) s s'"
      unfolding kept_contents_def
    proof (intro allI impI)
      fix j assume j: "j < min (acap b) (acap ?c)"
      have "mem s2 (?d + (span xs + 56) + j) = mem s (?d + (span xs + 56) + j)"
        by (rule pay [of "(span xs + 56, acap b, oi)" _ "(span xs + 56, acap ?c, oi)"])
          (use j own used(3) in \<open>simp_all add: in_payload_def\<close>)
      then show "mem s' (?d + (span xs + 56) + j) = mem s (?d + (span xs + 56) + j)"
        using same by simp
    qed
    ultimately show "case (OK, s') of (rc, s') \<Rightarrow> rc = OK \<and> mutex s' = MUnlocked \<and> cmode s' = cmode s \<and>
       resized_to r s s' R es i xs b ys ?bs' (span xs + 56) (acap ?c) used"
      using inv' s' by (auto simp: resized_to_def)
  qed (use only in \<open>simp_all add: hdrs_only_def\<close>)
qed

lemma cut_raw_starts:
  "\<not> n + 64 \<le> asz b \<Longrightarrow> xs @ cut_block n b # cut_raw n b ys = xs @ b # ys"
  "\<not> n + 64 \<le> asz b \<Longrightarrow> xs @ cut_block n b # cut_rest n b ys = xs @ b # ys"
  by (simp_all add: cut_block_def cut_raw_def cut_rest_def)

lemma resize_shrink_refines:
  assumes hr: "heap_rep r s R (xs @ b # ys)" and used: "\<not> is_free b"
    and n: "56 \<le> n" "8 dvd n" "n \<le> asz b" and d: "d = h_data_offset R"
    and Q: "\<And>s' fl. heap_rep r s' (resized_hdr R fl n b b) (xs @ cut_block n b # cut_rest n b ys) \<Longrightarrow>
        hdrs_only (unat d) (set (starts 0 (xs @ b # ys)) \<union>
          set (starts 0 (xs @ cut_block n b # cut_raw n b ys))) s s' \<Longrightarrow> Q s'"
  shows "runs (resize_shrink r s (bp r d (span xs)) (of_nat n)) Q"
proof -
  obtain H where H: "hview r s s (set (starts 0 (xs @ b # ys))) H R" "span xs \<in> set (starts 0 (xs @ b # ys))"
    "blk_ok (H (span xs)) b" "unat (h_data_offset R) + span (xs @ b # ys) = unat (rsize r)"
    using hr by (rule heap_rep_block)
  have lt: "asz b < 2 ^ 64"
    using H(4) unat64_bound [of "rsize r"] by simp
  have sz: "b_total_size (H (span xs)) = of_nat (asz b)"
    using H(3) by (intro unat64_eqD) (simp add: blk_ok_def sizes_ok_def)
  have rem: "of_nat (asz b) - of_nat n = (of_nat (asz b - n) :: u64)"
    using n(3) by simp
  have bm: "BLOCK_MIN \<le> of_nat (asz b - n) \<longleftrightarrow> n + 64 \<le> asz b"
    using of_nat64_le_iff [of 64 "asz b - n"] lt n by (auto simp: layout_consts simp del: of_nat_diff)
  show ?thesis
  proof (cases "n + 64 \<le> asz b")
    case True
    have "runs (resize_cut r s (bp r d (span xs)) (of_nat n) (of_nat (asz b - n))) Q"
    proof (rule resize_cut_refines [OF hr used n(1,2) True d])
      fix s' fl
      assume v: "heap_view r s s' (set (starts 0 (xs @ cut_block n b # cut_tail n b # ys)))
        ((cut_hdr R (asz b - n))\<lparr>h_free_list := fl\<rparr>) (xs @ cut_block n b # cut_rest n b ys)"
      have hdr: "(cut_hdr R (asz b - n))\<lparr>h_free_list := fl\<rparr> = resized_hdr R fl n b b"
        using True by (simp add: cut_hdr_def resized_hdr_def cut_block_def)
      have o: "hdrs_only (unat d) (set (starts 0 (xs @ cut_block n b # cut_tail n b # ys))) s s'"
        using heap_view_only [OF v] d by simp
      show "Q s'"
      proof (rule Q [of _ fl])
        show "heap_rep r s' (resized_hdr R fl n b b) (xs @ cut_block n b # cut_rest n b ys)"
          using heap_view_rep [OF v] by (simp only: hdr)
        show "hdrs_only (unat d) (set (starts 0 (xs @ b # ys)) \<union>
            set (starts 0 (xs @ cut_block n b # cut_raw n b ys))) s s'"
          by (rule hdrs_only_trans [OF hdrs_only_refl [of _ "{}"] o]) (use True in \<open>auto simp: cut_raw_def\<close>)
      qed
    qed
    then show ?thesis
      by (simp add: resize_shrink_def hview_blk_loads [OF H(1,2) d] sz rem bm True Let_def del: of_nat_diff)
  next
    case False
    have "resized_hdr R (h_free_list R) n b b = R"
      using False by (simp add: resized_hdr_def cut_block_def)
    then have "Q s"
      using False hr by (intro Q [of s "h_free_list R"]) (simp_all add: cut_raw_starts hdrs_only_refl)
    with False show ?thesis
      by (simp add: resize_shrink_def hview_blk_loads [OF H(1,2) d] sz rem bm Let_def del: of_nat_diff)
  qed
qed

text \<open>The capacity of a block enters the slot.\<close>

lemma wp_slot_capacity:
  assumes hr: "heap_rep r s R (xs @ c # zs)" and d: "d = h_data_offset R"
    and k: "k + 96 \<le> unat d"
    and Q: "\<And>s'. eview r s s' k ((ent_at (mem s) k)\<lparr>e_capacity := of_nat (acap c)\<rparr>) \<Longrightarrow> Q (True, s')"
  shows "runs (do { cap \<leftarrow> blk_payload_cap r s (bp r d (span xs)); s \<leftarrow> set_ent_capacity r s (rp r k) cap; Some (True, s) }) Q"
proof -
  obtain H where H: "hview r s s (set (starts 0 (xs @ c # zs))) H R" "span xs \<in> set (starts 0 (xs @ c # zs))"
    "blk_ok (H (span xs)) c"
    using hr by (rule heap_rep_block)
  have cap: "b_payload_cap (H (span xs)) = of_nat (acap c)"
    using H(3) by (intro unat64_eqD) (simp add: blk_ok_def sizes_ok_def)
  have "eview r s s k (ent_at (mem s) k)"
    using hviewD(1,3) [OF H(1)] k d by (intro eview_start) simp_all
  then show ?thesis
    by (simp add: hview_blk_loads [OF H(1,2) d] cap) (rule wp_set_ent_capacity, assumption, rule Q)
qed

section \<open>After a relocation\<close>

text \<open>Behind the contents that were copied, the new payload is zero; the old header is not marked allocated.\<close>

definition moved_to ::
    "shm_region \<Rightarrow> machine \<Rightarrow> machine \<Rightarrow> region_hdr \<Rightarrow> obj_entry list \<Rightarrow> nat \<Rightarrow> ablk list \<Rightarrow> ablk \<Rightarrow> ablk list \<Rightarrow>
     nat \<Rightarrow> owner_info \<Rightarrow> ablk list \<Rightarrow> ablk \<Rightarrow> ablk list \<Rightarrow> u64 \<Rightarrow> bool" where
  "moved_to r s s' R es i xs b ys n oi us f vs used \<longleftrightarrow>
     (\<exists>xs' ys'. us @ take_block n oi f @ vs = xs' @ b # ys' \<and> span xs' = span xs \<and>
        resized_to r s s' R es i xs b ys (insert_free xs' b ys') (span us + 56) (acap (taken n oi f)) used) \<and>
     (\<forall>j. acap b \<le> j \<and> j < acap (taken n oi f) \<longrightarrow> mem s' (unat (h_data_offset R) + (span us + 56) + j) = 0) \<and>
     b_allocated (blk_at (mem s') (unat (h_data_offset R) + span xs)) = 0"

lemma moved_sums:
  assumes "us @ f # vs = xs @ b # ys" "us @ take_block n oi f @ vs = xs' @ b # ys'"
    and "is_free f" "\<not> is_free b" "n \<le> asz f"
  shows "used_span (insert_free xs' b ys') + asz b = used_span (xs @ b # ys) + taken_size n f"
    "used_count (insert_free xs' b ys') = used_count (xs @ b # ys)"
proof -
  have "used_span us + used_span vs = used_span (xs @ b # ys)" "used_count us + used_count vs = used_count (xs @ b # ys)"
    using arg_cong [OF assms(1), of used_span] arg_cong [OF assms(1), of used_count] assms(3) by simp_all
  moreover have "used_span us + taken_size n f + used_span vs = used_span (xs' @ b # ys')"
    "used_count us + 1 + used_count vs = used_count (xs' @ b # ys')"
    using arg_cong [OF assms(2), of used_span] arg_cong [OF assms(2), of used_count] assms(5)
    by (simp_all add: taken_size_used)
  ultimately show "used_span (insert_free xs' b ys') + asz b = used_span (xs @ b # ys) + taken_size n f"
    "used_count (insert_free xs' b ys') = used_count (xs @ b # ys)"
    using assms(4) by (simp_all add: insert_free_sums)
qed

text \<open>The target of a relocation lies apart from every payload the heap had before.\<close>

lemma target_apart:
  assumes wf: "list_all wf_blk (us @ take_block n oi f @ vs)" and f: "is_free f" "n \<le> asz f"
    and ob: "ob \<in> set (blk_objs 0 (us @ f # vs))" "in_payload d ob a"
  shows "\<not> (d + span us + 56 \<le> a \<and> a < d + span us + 56 + acap (taken n oi f))"
proof -
  let ?m = "\<lambda>_. 1 :: 8 word"
  have "payloads_kept d (blk_objs 0 (us @ f # vs)) (s\<lparr>mem := ?m\<rparr>)
      (s\<lparr>mem := zeroed ?m (d + span us + 56) (acap (taken n oi f))\<rparr>)" for s :: machine
    by (rule alloc_payloads(1) [OF wf f]) simp
  with ob have "zeroed ?m (d + span us + 56) (acap (taken n oi f)) a = 1"
    unfolding payloads_kept_def by (metis (no_types) machine.select_convs(1) machine.surjective machine.update_convs(1))
  then show ?thesis
    by (auto simp: zeroed_def split: if_splits)
qed

lemma moved_payloads:
  assumes f: "us @ f # vs = xs @ b # ys" "is_free f" "n \<le> asz f" and own: "aown b = Some oi"
    and L: "us @ take_block n oi f @ vs = xs' @ b # ys'" and wf: "list_all wf_blk (xs' @ b # ys')" and d: "200 \<le> d"
    and out: "\<And>a. 200 \<le> a \<Longrightarrow> a \<notin> hdr_bytes d (set (starts 0 (xs' @ b # ys'))) \<Longrightarrow>
        mem s2 a = copied (mem s) (d + span us + 56) (d + span xs + 56) (acap b) (acap (taken n oi f)) a"
  shows "payloads_kept d (blk_objs 0 xs @ blk_objs (span xs + asz b) ys) s s2"
    and "kept_contents d (span xs + 56) (span us + 56) (min (acap b) (acap (taken n oi f))) s s2"
    and "\<forall>j. acap b \<le> j \<and> j < acap (taken n oi f) \<longrightarrow> mem s2 (d + (span us + 56) + j) = 0"
proof -
  let ?ob = "(span us + 56, acap (taken n oi f), oi)"
  have objs: "blk_objs 0 (us @ take_block n oi f @ vs) = blk_objs 0 us @ ?ob # blk_objs (span us + asz f) vs"
    "blk_objs 0 (us @ f # vs) = blk_objs 0 us @ blk_objs (span us + asz f) vs"
    using f(2,3) by (simp_all add: take_block_Cons add.assoc taken_span is_free_def)
  have val: "mem s2 a = copied (mem s) (d + span us + 56) (d + span xs + 56) (acap b) (acap (taken n oi f)) a"
    if "ob \<in> set (blk_objs 0 (us @ take_block n oi f @ vs))" "in_payload d ob a" for ob a
  proof (rule out)
    show "200 \<le> a"
      using that(2) d by (simp add: in_payload_def)
    show "a \<notin> hdr_bytes d (set (starts 0 (xs' @ b # ys')))"
      by (rule payload_no_hdr [OF wf _ that(2)]) (use that(1) in \<open>simp only: L\<close>)
  qed
  have new: "mem s2 (d + (span us + 56) + j) = (if j < acap b then mem s (d + span xs + 56 + j) else 0)"
    if "j < acap (taken n oi f)" for j
  proof -
    have "?ob \<in> set (blk_objs 0 (us @ take_block n oi f @ vs))"
      unfolding objs by simp
    moreover have "in_payload d ?ob (d + (span us + 56) + j)"
      using that by (simp add: in_payload_def)
    ultimately show ?thesis
      using that by (subst val) (simp_all add: copied_def add.assoc)
  qed
  show "kept_contents d (span xs + 56) (span us + 56) (min (acap b) (acap (taken n oi f))) s s2"
    using new by (simp add: kept_contents_def add.assoc)
  show "\<forall>j. acap b \<le> j \<and> j < acap (taken n oi f) \<longrightarrow> mem s2 (d + (span us + 56) + j) = 0"
    using new by simp
  show "payloads_kept d (blk_objs 0 xs @ blk_objs (span xs + asz b) ys) s s2"
    unfolding payloads_kept_def
  proof (intro ballI allI impI)
    fix ob a assume ob: "ob \<in> set (blk_objs 0 xs @ blk_objs (span xs + asz b) ys)" and a: "in_payload d ob a"
    have old: "ob \<in> set (blk_objs 0 (us @ f # vs))"
      using ob own by (auto simp: f(1))
    then have "ob \<in> set (blk_objs 0 (us @ take_block n oi f @ vs))"
      unfolding objs by auto
    from val [OF this a] show "mem s2 a = mem s a"
      using target_apart [OF wf [folded L] f(2,3) old a] by (auto simp: copied_def)
  qed
qed

lemma moved_coalesced:
  assumes "coalesced (xs @ b # ys)" "us @ f # vs = xs @ b # ys" "us @ take_block n oi f @ vs = xs' @ b # ys'"
    and "is_free f" "\<not> is_free b"
  shows "coalesced (insert_free xs' b ys')"
proof -
  have "coalesced (us @ take_block n oi f @ vs)"
    using assms(1,4) by (intro take_block_coalesced) (simp_all only: assms(2))
  then have "coalesced (xs' @ b # ys')"
    by (simp only: assms(3))
  then have "coalesced xs'" "coalesced ys'"
    using assms(5) by (simp_all add: coalesced_Cons)
  then show ?thesis
    by (rule insert_free_coalesced)
qed

lemma move_done:
  assumes inv: "pool_inv r s R (xs @ b # ys) es" and lock: "mutex s = MLocked" and i: "i < length es" "live (es ! i)"
    and ob: "ent_obj (es ! i) = (span xs + 56, acap b, oi)" and own: "aown b = Some oi"
    and f: "us @ f # vs = xs @ b # ys" "is_free f" "n \<le> asz f" and n: "56 \<le> n"
    and L: "us @ take_block n oi f @ vs = xs' @ b # ys'" "span xs' = span xs"
    and hr: "heap_rep r s2 (moved_hdr R fl n f b) (insert_free xs' b ys')"
    and dead: "b_allocated (blk_at (mem s2) (unat (h_data_offset R) + span xs)) = 0"
    and out: "\<And>a. 200 \<le> a \<Longrightarrow> a \<notin> hdr_bytes (unat (h_data_offset R)) (set (starts 0 (xs' @ b # ys'))) \<Longrightarrow>
        mem s2 a = copied (mem s) (unat (h_data_offset R) + span us + 56) (unat (h_data_offset R) + span xs + 56)
          (acap b) (acap (taken n oi f)) a"
    and mu: "mutex s2 = mutex s" "cmode s2 = cmode s"
    and e: "eview r s2 s3 (slot_pos R i) ((ent_at (mem s2) (slot_pos R i))\<lparr>e_off := of_nat (span us + 56),
          e_capacity := of_nat (acap (taken n oi f))\<rparr>)"
  shows "runs (do {
       s \<leftarrow> set_ent_used_size r s3 (rp r (slot_pos R i)) used;
       s \<leftarrow> shm_persist r s (rp r (slot_pos R i)) SIZEOF_OBJ_ENTRY;
       let s = shm_drain s;
       s \<leftarrow> region_unlock r s;
       Some (OK, s) })
    (\<lambda>(rc, s'). rc = OK \<and> mutex s' = MUnlocked \<and> cmode s' = cmode s \<and>
       moved_to r s s' R es i xs b ys n oi us f vs used)"
proof -
  let ?bs' = "insert_free xs' b ys'" and ?d = "unat (h_data_offset R)" and ?c = "taken n oi f"
  have used: "\<not> is_free b"
    using own by (simp add: is_free_def)
  note dr = pool_invD(2) [OF inv]
  note sb = slot_bounds [OF dr i(1)]
  have wf: "list_all wf_blk (xs @ b # ys)"
    using pool_invD(1) [OF inv] by (auto simp: heap_rep_bytes heap_shape_def dest: tiles_wf)
  have wf': "list_all wf_blk (xs' @ b # ys')"
    using wf n f(3) by (auto simp: f(1) [symmetric] L(1) [symmetric] take_block_Cons taken_def taken_rest_def wf_blk_def)
  have tot: "?d + span (xs @ b # ys) = unat (rsize r)"
    using pool_invD(1) [OF inv] by (simp add: heap_rep_bytes)
  have spans: "span (xs' @ b # ys') = span (xs @ b # ys)"
    using f(3) by (simp only: f(1) [symmetric] L(1) [symmetric]) (simp add: span_take_block)
  note sums = moved_sums [OF f(1) L(1) f(2) used f(3)]
  have hdr: "moved_hdr R fl n f b = R\<lparr>h_free_list := fl, h_used_bytes := of_nat (used_span ?bs')\<rparr>"
  proof -
    have "(of_nat (used_span ?bs' + asz b) :: u64) = of_nat (used_span (xs @ b # ys) + taken_size n f)"
      using sums(1) by (rule arg_cong)
    then have "(of_nat (used_span ?bs') :: u64) = of_nat (used_span (xs @ b # ys)) + of_nat (taken_size n f) - of_nat (asz b)"
      unfolding of_nat_add by (simp only: eq_diff_eq)
    then show ?thesis
      using pool_invD(3) [OF inv] by (simp only: moved_hdr_def acct_def)
  qed
  have objs: "mset (blk_objs 0 ?bs') = add_mset (span us + 56, acap ?c, oi)
      (mset (blk_objs 0 xs) + mset (blk_objs (span xs + asz b) ys))"
    using moved_objs [OF f(1) L f(2,3) own] by (simp add: insert_free_objs)
  have frame: "mem s2 a = mem s a" if "200 \<le> a" "a < ?d" for a
    using out [of a] that by (auto simp: hdr_bytes_def copied_def)
  have ent: "ent_at (mem s2) (slot_pos R i) = es ! i"
  proof -
    have "ent_at (mem s2) (slot_pos R i) = ent_at (mem s) (slot_pos R i)"
      by (rule ent_at_cong, rule frame) (use sb in simp_all)
    then show ?thesis
      using dir_rep_eview [OF dr i(1)] by (simp add: eview_def)
  qed
  have fits: "span us + 56 < 2 ^ 64" "acap ?c < 2 ^ 64"
  proof -
    have "(span us + 56, acap ?c, oi) \<in> set (blk_objs 0 (us @ take_block n oi f @ vs))"
      by (simp add: take_block_Cons)
    from blk_objs_bounds(2) [OF this wf' [folded L(1)]] have "span us + 56 + acap ?c \<le> span (xs' @ b # ys')"
      by (simp only: L(1))
    then show "span us + 56 < 2 ^ 64" "acap ?c < 2 ^ 64"
      using tot spans unat64_bound [of "rsize r"] by linarith+
  qed
  have d200: "200 \<le> ?d"
    using sb by simp
  note pay = moved_payloads [OF f own L(1) wf' d200 out]
  show ?thesis
  proof (rule resize_finish [OF inv lock i hr [unfolded hdr] sums(2) moved_coalesced [OF pool_invD(4) [OF inv] f(1) L(1) f(2) used]
        frame mu e [unfolded ent] fits])
    show "oi = snd (snd (ent_obj (es ! i)))"
      using ob by simp
    show "add_mset (ent_obj (es ! i)) (mset (blk_objs 0 ?bs')) =
        add_mset (span us + 56, acap ?c, oi) (mset (blk_objs 0 (xs @ b # ys)))"
      unfolding objs ob using own by simp
    fix s'
    assume inv': "pool_inv r s' (R\<lparr>h_free_list := fl, h_used_bytes := of_nat (used_span ?bs')\<rparr>) ?bs'
        (es[i := resized_entry (es ! i) (span us + 56) (acap ?c) used])"
      and s': "mutex s' = MUnlocked" "cmode s' = cmode s" and same: "\<And>a. ?d \<le> a \<Longrightarrow> mem s' a = mem s2 a"
    have "b_allocated (blk_at (mem s') (?d + span xs)) = 0"
      using dead blk_at_cong [of "?d + span xs" "mem s'" "mem s2"] same by simp
    moreover have "payloads_kept ?d (blk_objs 0 xs @ blk_objs (span xs + asz b) ys) s s'"
      using pay(1) same by (auto simp: payloads_kept_def in_payload_def)
    moreover have "kept_contents ?d (span xs + 56) (span us + 56) (min (acap b) (acap ?c)) s s'"
      using pay(2) same by (simp add: kept_contents_def)
    moreover have "\<forall>j. acap b \<le> j \<and> j < acap ?c \<longrightarrow> mem s' (?d + (span us + 56) + j) = 0"
      using pay(3) same by simp
    ultimately show "case (OK, s') of (rc, s') \<Rightarrow> rc = OK \<and> mutex s' = MUnlocked \<and> cmode s' = cmode s \<and>
       moved_to r s s' R es i xs b ys n oi us f vs used"
      using inv' s' L by (auto simp: moved_to_def resized_to_def)
  qed
qed

section \<open>The contract\<close>

text \<open>
  A relocation copies the whole recorded capacity of the old block. \<open>move_safe n xs b ys\<close>: a
  resize of block \<open>b\<close> to a total size of \<open>n\<close> does not move it, or moves it to a block
  with a recorded capacity that is no smaller.
\<close>

definition move_safe :: "nat \<Rightarrow> ablk list \<Rightarrow> ablk \<Rightarrow> ablk list \<Rightarrow> bool" where
  "move_safe n xs b ys \<longleftrightarrow> n \<le> asz b \<or> growable n b ys \<or>
     (case first_fit n (xs @ b # ys) of
        None \<Rightarrow> True
      | Some (us, f, vs) \<Rightarrow> acap b \<le> acap (taken n no_owner f))"

text \<open>The block at a heap offset, with those before and behind it.\<close>

primrec split_off :: "nat \<Rightarrow> ablk list \<Rightarrow> (ablk list \<times> ablk \<times> ablk list) option" where
  "split_off h [] = None"
| "split_off h (b # bs) =
     (if h = 0 then Some ([], b, bs)
      else if h < asz b then None
      else map_option (\<lambda>(xs, c, ys). (b # xs, c, ys)) (split_off (h - asz b) bs))"

lemma split_off_span: "list_all wf_blk (xs @ b # ys) \<Longrightarrow> split_off (span xs) (xs @ b # ys) = Some (xs, b, ys)"
  by (induction xs) (auto simp: wf_blk_def)

text \<open>For a call: the condition concerns the block of the object that the caller may resize.\<close>

definition resize_safe :: "nat \<Rightarrow> ablk list \<Rightarrow> obj_entry list \<Rightarrow> u64 \<Rightarrow> u32 \<Rightarrow> u32 \<Rightarrow> bool" where
  "resize_safe n bs es obj_id user cp \<longleftrightarrow>
     (case first_slot (\<lambda>e. e_id e = obj_id \<and> e_alive e \<noteq> 0) es 0 of
        None \<Rightarrow> True
      | Some i \<Rightarrow> access_ok (e_owner (es ! i)) (e_perms (es ! i)) user cp SHM_PERM_RESIZE \<longrightarrow>
          (case split_off (unat (e_off (es ! i)) - 56) bs of
             None \<Rightarrow> True
           | Some (xs, b, ys) \<Rightarrow> move_safe n xs b ys))"

lemma resize_safe_at:
  assumes "first_slot (\<lambda>e. e_id e = obj_id \<and> e_alive e \<noteq> 0) es 0 = Some i"
    and "access_ok (e_owner (es ! i)) (e_perms (es ! i)) user cp SHM_PERM_RESIZE"
    and "list_all wf_blk (xs @ b # ys)" "unat (e_off (es ! i)) = span xs + 56"
  shows "resize_safe n (xs @ b # ys) es obj_id user cp = move_safe n xs b ys"
  using assms by (simp add: resize_safe_def split_off_span)

definition resize_done ::
    "shm_region \<Rightarrow> machine \<Rightarrow> machine \<Rightarrow> region_hdr \<Rightarrow> obj_entry list \<Rightarrow> nat \<Rightarrow> ablk list \<Rightarrow> ablk \<Rightarrow> ablk list \<Rightarrow>
     nat \<Rightarrow> owner_info \<Rightarrow> u64 \<Rightarrow> errno \<Rightarrow> bool" where
  "resize_done r s s' R es i xs b ys n oi used rc \<longleftrightarrow>
     (if n \<le> asz b
      then rc = OK \<and> resized_to r s s' R es i xs b ys (xs @ cut_block n b # cut_rest n b ys)
             (span xs + 56) (acap (cut_block n b)) used
      else if growable n b ys
      then rc = OK \<and> (let w = widen b (hd ys); zs = tl ys in
             resized_to r s s' R es i xs b ys (xs @ cut_block n w # cut_rest n w zs)
               (span xs + 56) (acap (cut_block n w)) used)
      else case first_fit n (xs @ b # ys) of
             None \<Rightarrow> rc = ENOMEM \<and> mem s' = mem s
           | Some (us, f, vs) \<Rightarrow> rc = OK \<and> moved_to r s s' R es i xs b ys n oi us f vs used)"

definition resize_post ::
    "shm_region \<Rightarrow> machine \<Rightarrow> region_hdr \<Rightarrow> ablk list \<Rightarrow> obj_entry list \<Rightarrow> u64 \<Rightarrow> u64 \<Rightarrow> u32 \<Rightarrow> u32 \<Rightarrow>
     errno \<times> machine \<Rightarrow> bool" where
  "resize_post r s R bs es obj_id new_size user cp = (\<lambda>(rc, s').
     mutex s' = MUnlocked \<and> cmode s' = cmode s \<and>
     (case first_slot (\<lambda>e. e_id e = obj_id \<and> e_alive e \<noteq> 0) es 0 of
        None \<Rightarrow> rc = ENOENT \<and> mem s' = mem s
      | Some i \<Rightarrow>
          if access_ok (e_owner (es ! i)) (e_perms (es ! i)) user cp SHM_PERM_RESIZE
          then \<exists>xs b ys oi. bs = xs @ b # ys \<and> unat (e_off (es ! i)) = span xs + 56 \<and> aown b = Some oi \<and>
                 resize_done r s s' R es i xs b ys (unat (alloc_size new_size)) oi new_size rc
          else rc = EACCES \<and> mem s' = mem s))"

lemma resize_done_moved:
  "\<not> n \<le> asz b \<Longrightarrow> \<not> growable n b ys \<Longrightarrow> first_fit n (xs @ b # ys) = Some (us, f, vs) \<Longrightarrow>
     moved_to r s s' R es i xs b ys n oi us f vs used \<Longrightarrow> resize_done r s s' R es i xs b ys n oi used OK"
  by (simp only: resize_done_def if_False option.case prod.case simp_thms)

text \<open>Only the memory of the first state matters.\<close>

lemma resize_done_locked:
  "resize_done r (s\<lparr>mutex := m\<rparr>) s' R es i xs b ys n oi used rc = resize_done r s s' R es i xs b ys n oi used rc"
proof -
  have "mem (s\<lparr>mutex := m\<rparr>) = mem s"
    by simp
  then show ?thesis
    unfolding resize_done_def moved_to_def resized_to_def payloads_kept_def kept_contents_def by (simp only:)
qed

text \<open>From the block on; the lock is held, the permission granted.\<close>

lemma resize_work:
  assumes inv: "pool_inv r s R (xs @ b # ys) es" and lock: "mutex s = MLocked" and i: "i < length es" "live (es ! i)"
    and ob: "ent_obj (es ! i) = (span xs + 56, acap b, oi)" and own: "aown b = Some oi"
    and n: "56 \<le> n" "8 dvd n" "n < 2 ^ 64" and safe: "move_safe n xs b ys"
    and d: "d = h_data_offset R"
  shows "runs (do {
       sz \<leftarrow> blk_total_size r s (bp r d (span xs));
       (done, s) \<leftarrow>
         (if of_nat n \<le> sz then do {
            s \<leftarrow> resize_shrink r s (bp r d (span xs)) (of_nat n);
            cap \<leftarrow> blk_payload_cap r s (bp r d (span xs));
            s \<leftarrow> set_ent_capacity r s (rp r (slot_pos R i)) cap;
            Some (True, s) }
          else resize_grow r s (rp r (slot_pos R i)) (bp r d (span xs)) (of_nat n));
       if \<not> done then do { s \<leftarrow> region_unlock r s; Some (ENOMEM, s) }
       else do {
         s \<leftarrow> set_ent_used_size r s (rp r (slot_pos R i)) used;
         s \<leftarrow> shm_persist r s (rp r (slot_pos R i)) SIZEOF_OBJ_ENTRY;
         let s = shm_drain s;
         s \<leftarrow> region_unlock r s;
         Some (OK, s) } })
    (\<lambda>(rc, s'). mutex s' = MUnlocked \<and> cmode s' = cmode s \<and> resize_done r s s' R es i xs b ys n oi used rc)"
proof -
  let ?h = "span xs" and ?k = "slot_pos R i" and ?D = "unat (h_data_offset R)"
  have used: "\<not> is_free b"
    using own by (simp add: is_free_def)
  note dr = pool_invD(2) [OF inv]
  note hr = pool_invD(1) [OF inv]
  note sb = slot_bounds [OF dr i(1)]
  have m: "mapped r" "200 \<le> unat (rsize r)"
    using pool_invD(6,7) [OF inv] by auto
  obtain H where H: "hview r s s (set (starts 0 (xs @ b # ys))) H R" "?h \<in> set (starts 0 (xs @ b # ys))"
    "blk_ok (H ?h) b" "?D + span (xs @ b # ys) = unat (rsize r)"
    using hr by (rule heap_rep_block)
  have sz: "blk_total_size r s (bp r d ?h) = Some (b_total_size (H ?h))" "unat (b_total_size (H ?h)) = asz b"
    using hview_blk_loads(8) [OF H(1,2) d] H(3) by (simp_all add: blk_ok_def sizes_ok_def)
  have le: "of_nat n \<le> b_total_size (H ?h) \<longleftrightarrow> n \<le> asz b"
    using n(3) sz(2) by (simp add: word_le_nat_alt unat64)
  note finish = in_place_done [OF inv lock i ob own]
  note bindI = iffD2 [OF runs_bind]
  show ?thesis
    unfolding sz(1) Option.bind_lunit le
  proof (rule bindI, cases "n \<le> asz b")
    case True
    have g: "grown b ys b ys"
      by (simp add: grown_def)
    show "runs (if n \<le> asz b then do {
            s \<leftarrow> resize_shrink r s (bp r d ?h) (of_nat n);
            cap \<leftarrow> blk_payload_cap r s (bp r d ?h);
            s \<leftarrow> set_ent_capacity r s (rp r ?k) cap;
            Some (True, s) }
          else resize_grow r s (rp r ?k) (bp r d ?h) (of_nat n)) (\<lambda>v. runs (case v of (done, s) \<Rightarrow>
            if \<not> done then do { s \<leftarrow> region_unlock r s; Some (ENOMEM, s) }
            else do {
              s \<leftarrow> set_ent_used_size r s (rp r ?k) used;
              s \<leftarrow> shm_persist r s (rp r ?k) SIZEOF_OBJ_ENTRY;
              let s = shm_drain s;
              s \<leftarrow> region_unlock r s;
              Some (OK, s) })
          (\<lambda>(rc, s'). mutex s' = MUnlocked \<and> cmode s' = cmode s \<and> resize_done r s s' R es i xs b ys n oi used rc))"
      unfolding if_P [OF True]
      apply (rule bindI, rule resize_shrink_refines [OF hr used n(1,2) True d])
      subgoal premises p for s2 fl
        apply (rule wp_slot_capacity [OF p(1)])
          apply (simp add: d resized_hdr_def)
        using sb apply (simp add: d)
        subgoal premises q for s3
          unfolding prod.case not_True_eq_False if_False
          by (rule runs_mono [OF finish [OF g n(1) True p(1) p(2) [unfolded d] q, of used]])
            (use True in \<open>simp add: resize_done_def split: prod.splits\<close>)
        done
      done
  next
    case False
    let ?T = "\<lambda>v. runs (case v of (done, s) \<Rightarrow>
            if \<not> done then do { s \<leftarrow> region_unlock r s; Some (ENOMEM, s) }
            else do {
              s \<leftarrow> set_ent_used_size r s (rp r ?k) used;
              s \<leftarrow> shm_persist r s (rp r ?k) SIZEOF_OBJ_ENTRY;
              let s = shm_drain s;
              s \<leftarrow> region_unlock r s;
              Some (OK, s) })
          (\<lambda>(rc, s'). mutex s' = MUnlocked \<and> cmode s' = cmode s \<and> resize_done r s s' R es i xs b ys n oi used rc)"
    have move: "runs (resize_move r s (rp r ?k) (bp r d ?h) (of_nat n)) ?T" if ng: "\<not> growable n b ys"
    proof (rule resize_move_refines [OF hr own n d])
      show "200 \<le> ?k" "?k + 96 \<le> unat d"
        using sb d by simp_all
      show "acap b \<le> acap (taken n oi f)" if "first_fit n (xs @ b # ys) = Some (us, f, vs)" for us f vs
      proof -
        have "acap (taken n oi f) = acap (taken n no_owner f)"
          by (simp add: taken_def)
        then show ?thesis
          using safe that ng False by (simp add: move_safe_def)
      qed
      show "?T (False, s)" if "first_fit n (xs @ b # ys) = None"
        using that ng False by (simp add: region_unlock_locked [OF m lock] resize_done_def)
    next
      fix s2 s' us f vs xs' ys' fl
      assume ff: "first_fit n (xs @ b # ys) = Some (us, f, vs)"
        and L: "us @ take_block n oi f @ vs = xs' @ b # ys'" "span xs' = span xs" "span us \<noteq> span xs"
        and p: "heap_rep r s2 (moved_hdr R fl n f b) (insert_free xs' b ys')"
          "b_allocated (blk_at (mem s2) (unat d + span xs)) = 0"
          "\<And>a. 200 \<le> a \<Longrightarrow> a \<notin> hdr_bytes (unat d) (set (starts 0 (xs' @ b # ys'))) \<Longrightarrow>
            mem s2 a = copied (mem s) (unat d + span us + 56) (unat d + span xs + 56) (acap b) (acap (taken n oi f)) a"
          "mutex s2 = mutex s" "cmode s2 = cmode s"
          "eview r s2 s' ?k ((ent_at (mem s2) ?k)\<lparr>e_off := of_nat (span us + 56), e_capacity := of_nat (acap (taken n oi f))\<rparr>)"
      have f: "us @ f # vs = xs @ b # ys" "is_free f" "n \<le> asz f"
        using first_fit_SomeD [OF ff] by simp_all
      show "?T (True, s')"
        unfolding prod.case not_True_eq_False if_False
        by (rule runs_mono [OF move_done [OF inv lock i ob own f n(1) L(1,2) p(1) p(2,3) [unfolded d] p(4,5,6), of used]])
          (auto intro: resize_done_moved [OF False ng ff])
    qed
    have "runs (resize_grow r s (rp r ?k) (bp r d ?h) (of_nat n)) ?T"
      unfolding resize_grow_def
    proof (rule bindI, rule resize_in_place_refines [OF hr used n d])
      assume "\<not> growable n b ys"
      then show "runs (case (False, s) of (grew, s) \<Rightarrow>
          if \<not> grew then resize_move r s (rp r ?k) (bp r d ?h) (of_nat n)
          else do { cap \<leftarrow> blk_payload_cap r s (bp r d ?h); s \<leftarrow> set_ent_capacity r s (rp r ?k) cap; Some (True, s) }) ?T"
        unfolding prod.case not_False_eq_True if_True by (rule move)
    next
      fix s2 fl t zs
      assume gr: "growable n b ys" and ys: "ys = t # zs"
        and p: "heap_rep r s2 (resized_hdr R fl n b (widen b t)) (xs @ cut_block n (widen b t) # cut_rest n (widen b t) zs)"
          "hdrs_only (unat d) (set (starts 0 (xs @ b # t # zs)) \<union>
            set (starts 0 (xs @ cut_block n (widen b t) # cut_raw n (widen b t) zs))) s s2"
      have wf: "list_all wf_blk (xs @ b # ys)"
        using hr by (auto simp: heap_rep_bytes heap_shape_def dest: tiles_wf)
      have g: "grown b ys (widen b t) zs" and n': "n \<le> asz (widen b t)"
        using gr ys wf by (auto simp: grown_def)
      show "runs (case (True, s2) of (grew, s) \<Rightarrow>
          if \<not> grew then resize_move r s (rp r ?k) (bp r d ?h) (of_nat n)
          else do { cap \<leftarrow> blk_payload_cap r s (bp r d ?h); s \<leftarrow> set_ent_capacity r s (rp r ?k) cap; Some (True, s) }) ?T"
        unfolding prod.case not_True_eq_False if_False
      proof (rule wp_slot_capacity [OF p(1)])
        show "d = h_data_offset (resized_hdr R fl n b (widen b t))" "?k + 96 \<le> unat d"
          using sb d by (simp_all add: resized_hdr_def)
        fix s3
        assume q: "eview r s2 s3 ?k ((ent_at (mem s2) ?k)\<lparr>e_capacity := of_nat (acap (cut_block n (widen b t)))\<rparr>)"
        show "?T (True, s3)"
          unfolding prod.case not_True_eq_False if_False
          by (rule runs_mono [OF finish [OF g n(1) n' p(1) p(2) [unfolded d, folded ys] q, of used]])
            (use False gr ys in \<open>simp add: resize_done_def Let_def split: prod.splits\<close>)
      qed
    qed
    then show "runs (if n \<le> asz b then do {
            s \<leftarrow> resize_shrink r s (bp r d ?h) (of_nat n);
            cap \<leftarrow> blk_payload_cap r s (bp r d ?h);
            s \<leftarrow> set_ent_capacity r s (rp r ?k) cap;
            Some (True, s) }
          else resize_grow r s (rp r ?k) (bp r d ?h) (of_nat n)) ?T"
      unfolding if_not_P [OF False] .
  qed
qed

theorem shm_resize_refines:
  assumes inv: "pool_inv r s R bs es" and lk: "lockable s" and nz: "obj_id \<noteq> 0" "new_size \<noteq> 0"
    and n: "56 \<le> unat (alloc_size new_size)" and safe: "resize_safe (unat (alloc_size new_size)) bs es obj_id user cp"
  shows "runs (shm_resize (Some r) s obj_id new_size user cp) (resize_post r s R bs es obj_id new_size user cp)"
proof -
  let ?s1 = "s\<lparr>mutex := MLocked\<rparr>" and ?n = "unat (alloc_size new_size)"
  have m: "mapped r" "200 \<le> unat (rsize r)"
    using pool_invD(6,7) [OF inv] by auto
  have lock: "region_lock r s = Some (OK, ?s1)"
    using m lk by (rule region_lock_lockable)
  have inv1: "pool_inv r ?s1 R bs es"
    using inv by (rule pool_inv_bytes) (simp_all add: m)
  note dr = pool_invD(2) [OF inv1]
  note slot = dir_find_by_id_eq [OF dr, of obj_id]
  have unlock: "region_unlock r ?s1 = Some (s\<lparr>mutex := MUnlocked\<rparr>)"
    using region_unlock_locked [OF m, of ?s1] by simp
  show ?thesis
  proof (cases "first_slot (\<lambda>e. e_id e = obj_id \<and> e_alive e \<noteq> 0) es 0")
    case None
    then show ?thesis
      using nz by (simp add: shm_resize_def lock slot slot_ptr_def unlock resize_post_def)
  next
    case (Some i)
    have i: "i < length es" "live (es ! i)"
      using first_slot_SomeD [OF Some] nz by (auto simp: live_def)
    have slot_i: "dir_find_by_id r ?s1 obj_id = Some (rp r (slot_pos R i))" "rp r (slot_pos R i) \<noteq> 0"
      using slot Some slot_ptr_nonzero [OF dr i(1)] by (simp_all add: slot_ptr_def)
    note chk = check_dir_access_eq [OF dr i]
    show ?thesis
    proof (cases "access_ok (e_owner (es ! i)) (e_perms (es ! i)) user cp SHM_PERM_RESIZE")
      case False
      then show ?thesis
        using nz slot_i by (simp add: shm_resize_def lock chk unlock resize_post_def Some)
    next
      case True
      obtain xs b ys where b: "bs = xs @ b # ys" "\<not> is_free b" "unat (e_off (es ! i)) = span xs + 56"
        "unat (e_capacity (es ! i)) = acap b" "ent_obj (es ! i) = (span xs + 56, acap b, the (aown b))"
        "aown b = Some (snd (snd (ent_obj (es ! i))))"
        by (rule entry_block [OF pool_invD(5) [OF inv] i])
      have off: "ent_off r ?s1 (rp r (slot_pos R i)) = Some (of_nat (span xs + 56))"
        using eview_loads(2) [OF dir_rep_eview [OF dr i(1)]] unat64_eqD [OF b(3)] by simp
      have blk: "shm_blk_of_poff r ?s1 (of_nat (span xs + 56)) = Some (bp r (h_data_offset R) (span xs))"
        using hview_ptrs(6) [OF dir_rep_hview [OF dr] refl] .
      have own: "aown b = Some (the (aown b))"
        using b(6) by simp
      have post: "resize_post r s R bs es obj_id new_size user cp v"
        if "case v of (rc, s') \<Rightarrow> mutex s' = MUnlocked \<and> cmode s' = cmode ?s1 \<and>
              resize_done r ?s1 s' R es i xs b ys ?n (the (aown b)) new_size rc" for v
        using that True b(1,3) own unfolding resize_post_def Some option.case resize_done_locked
        by (auto split: prod.splits)
      have mu: "mutex ?s1 = MLocked" by simp
      have "list_all wf_blk (xs @ b # ys)"
        using pool_invD(1) [OF inv] by (auto simp: b(1) heap_rep_bytes heap_shape_def dest: tiles_wf)
      then have mv: "move_safe ?n xs b ys"
        using safe resize_safe_at [OF Some True _ b(3)] by (simp add: b(1))
      note work = resize_work [OF inv1 [unfolded b(1)] mu i b(5) own n alloc_size_dvd unat64_bound mv refl, of new_size]
      have "(of_nat ?n :: u64) = alloc_size new_size"
        by simp
      note work' = runs_mono [OF work [unfolded this] post]
      show ?thesis
        unfolding shm_resize_def using nz slot_i True work'
        by (simp only: option.case lock chk off blk Option.bind_lunit prod.case if_False simp_thms if_True Let_def)
    qed
  qed
qed

end
