(* ===== verification/Shm_Overrun.thy ===== *)
theory Shm_Overrun
  imports Shm_Resize_Spec
begin

text \<open>
  What \<open>shm_resize\<close> does when \<open>resize_safe\<close> fails, and with it the whole outcome of the call.
  Merged free blocks keep the recorded capacity of their first part (\<open>freelist_insert\<close> updates
  \<open>total_size\<close> only), and \<open>heap_alloc_block\<close> does not refresh it when it hands out a whole block.
  A relocation into such a block copies more bytes than its recorded capacity;
  \<open>nb->payload_cap - b->payload_cap\<close> wraps, and the zero fill runs over the end of the mapping.
  So the call returns exactly when \<open>resize_safe\<close> holds.
\<close>

lemma memcpy_keeps:
  assumes "memcpy r s dst src n = Some s1" "a < region_off r dst \<or> region_off r dst + unat n \<le> a"
  shows "mem s1 a = mem s a"
  using assms by (auto simp: memcpy_def split: if_splits)

lemma wrapped_fill_faults:
  assumes m: "mapped r" and lt: "k < m" "m \<le> unat (rsize r)"
  shows "(if 0 < (of_nat k - of_nat m :: u64) then memset r s p 0 (of_nat k - of_nat m) else Some s) = None"
proof -
  have b: "unat (rsize r) < 2 ^ 63"
    using m by (auto simp: mapped_def unat_gt_0 [symmetric])
  have sz: "unat (of_nat k :: u64) = k" "unat (of_nat m :: u64) = m"
    using lt b by (simp_all add: unat64)
  have "unat (of_nat k - of_nat m :: u64) = 2 ^ 64 + k - m"
    using lt b sz by (simp add: unat_sub_if' word_le_nat_alt)
  then have big: "2 ^ 63 < unat (of_nat k - of_nat m :: u64)"
    using lt b by simp
  then have "(0 :: u64) < of_nat k - of_nat m"
    by (simp add: word_less_nat_alt)
  moreover have "memset r s p 0 (of_nat k - of_nat m) = None"
    using big b by (auto simp: memset_def in_map_def)
  ultimately show ?thesis
    by simp
qed

lemma resize_copy_overrun:
  assumes hr: "heap_rep r s R (us @ c # ws)" and L: "us @ c # ws = xs @ b # ys" and lt: "span us \<noteq> span xs"
    and cap: "acap c < acap b" and room: "asz b \<le> asz c" and d: "d = h_data_offset R"
  shows "resize_copy r s (bp r d (span xs)) (bp r d (span us)) = None"
proof -
  let ?bs = "us @ c # ws" and ?h = "span xs" and ?k = "span us"
  let ?D = "set (starts 0 ?bs)"
  obtain H where H: "hview r s s ?D H R" "heap_shape H R ?bs"
    "unat (h_data_offset R) + span ?bs = unat (rsize r)" "list_all wf_blk ?bs"
    using hr unfolding heap_rep_def by (rule heap_viewE)
  have D: "?h \<in> ?D" "?k \<in> ?D"
    by (simp add: L) simp
  have b_ok: "blk_ok (H ?h) b" and c_ok: "blk_ok (H ?k) c"
    using H(2) [unfolded L] H(2) by (simp_all add: heap_shape_def del: fseg_append)
  have caps: "b_payload_cap (H ?h) = of_nat (acap b)" "b_payload_cap (H ?k) = of_nat (acap c)"
    using b_ok c_ok by (auto simp: blk_ok_def sizes_ok_def intro: unat64_eqD)
  have wf: "wf_blk b" "wf_blk c"
    using H(4) [unfolded L] H(4) by simp_all
  have tot: "span ?bs = span xs + asz b + span ys" "span ?bs = span us + asz c + span ws"
    by (simp add: L) simp
  have fit: "unat d + ?h + 56 \<le> unat (rsize r)" "unat d + ?k + 56 \<le> unat (rsize r)" "acap b \<le> unat (rsize r)"
    using H(3) d wf tot by (auto simp: wf_blk_def)
  have m: "mapped r"
    using hviewD(1) [OF H(1)] .
  have ne: "?h + asz b \<le> ?k \<or> ?k + asz c \<le> ?h"
    using two_splits [OF L] lt by auto
  show ?thesis
  proof (cases "memcpy r s (bp r d ?k + SIZEOF_BLOCK_HDR) (bp r d ?h + SIZEOF_BLOCK_HDR) (of_nat (acap b))")
    case None
    then show ?thesis
      by (simp add: resize_copy_def hview_blk_loads [OF H(1) D(1) d] caps)
  next
    case (Some s1)
    have dst: "region_off r (bp r d ?k + SIZEOF_BLOCK_HDR) = unat d + ?k + 56"
      using fit(2) by (simp add: region_off_bp SIZEOF_BLOCK_HDR_def)
    have n: "unat (of_nat (acap b) :: u64) = acap b"
      using fit(3) unat64_bound [of "rsize r"] by (simp add: unat64)
    have ld: "blk_payload_cap r s1 (bp r d h) = blk_payload_cap r s (bp r d h)"
      if "unat d + h + 56 \<le> unat (rsize r)" "h \<le> ?k \<or> ?k + asz c \<le> h" for h
    proof -
      have off: "region_off r (bp r d h + 32) = unat d + h + 32"
        using that(1) by (simp add: region_off_bp)
      have "mem s1 a = mem s a" if "unat d + h + 32 \<le> a" "a < unat d + h + 40" for a
        using memcpy_keeps [OF Some, of a] that \<open>h \<le> ?k \<or> ?k + asz c \<le> h\<close> room wf unfolding dst n by (auto simp: wf_blk_def)
      then show ?thesis
        by (simp add: blk_payload_cap_def rd64_def off c64.get_frame [of "unat d + h + 32" "mem s1" "mem s"])
    qed
    have "?h \<le> ?k \<or> ?k + asz c \<le> ?h"
      using ne by linarith
    then show ?thesis
      using Some wrapped_fill_faults [OF m cap fit(3)] ld [OF fit(1)] ld [OF fit(2)]
      by (simp add: resize_copy_def hview_blk_loads [OF H(1) D(1) d] hview_blk_loads [OF H(1) D(2) d] caps Let_def)
  qed
qed

lemma bind_faults: "runs c (\<lambda>v. f v = None) \<Longrightarrow> Option.bind c f = None"
  by (cases c) simp_all

lemma resize_move_overrun:
  assumes hr: "heap_rep r s R (xs @ b # ys)" and own: "\<not> is_free b"
    and n: "56 \<le> n" "8 dvd n" "n < 2 ^ 64" and d: "d = h_data_offset R"
    and ff: "first_fit n (xs @ b # ys) = Some (us, f, vs)" and lt: "asz b < n"
    and cap: "acap (taken n no_owner f) < acap b"
  shows "resize_move r s slot (bp r d (span xs)) (of_nat n) = None"
  unfolding resize_move_def
proof (rule bind_faults, rule heap_alloc_block_refines [OF hr n d])
  fix s1 fl us' f' vs'
  assume ff': "first_fit n (xs @ b # ys) = Some (us', f', vs')"
    and v: "heap_view r s s1 (set (starts 0 (us' @ take_block n no_owner f' @ vs')))
          (count_alloc (R\<lparr>h_free_list := fl\<rparr>) (taken_size n f')) (us' @ take_block n no_owner f' @ vs')"
  have eq: "us' = us" "f' = f" "vs' = vs"
    using ff ff' by simp_all
  have f: "us @ f # vs = xs @ b # ys" "is_free f" "n \<le> asz f"
    using first_fit_SomeD [OF ff] by simp_all
  have wf: "list_all wf_blk (xs @ b # ys)"
    using hr by (auto simp: heap_rep_bytes heap_shape_def dest: tiles_wf)
  have pos: "0 < asz f" "0 < asz b"
    using wf wf [folded f(1)] by (auto simp: wf_blk_def)
  obtain xs1 ys1 where s1: "us @ take_block n no_owner f @ vs = xs1 @ b # ys1" "span xs1 = span xs"
    by (rule take_keeps_block [OF f(1,2) own f(3) pos])
  have hr1: "heap_rep r s1 (count_alloc (R\<lparr>h_free_list := fl\<rparr>) (taken_size n f)) (us @ taken n no_owner f # taken_rest n f @ vs)"
    using heap_view_rep [OF v [unfolded eq]] by (simp add: take_block_Cons)
  have L: "us @ taken n no_owner f # taken_rest n f @ vs = xs1 @ b # ys1"
    using s1(1) by (simp add: take_block_Cons)
  have "resize_copy r s1 (bp r d (span xs1)) (bp r d (span us)) = None"
  proof (rule resize_copy_overrun [OF hr1 L])
    have "us \<noteq> xs"
      using f(1,2) own by auto
    then show "span us \<noteq> span xs1"
      using split_at_span [of us f vs xs b ys] f(1) wf s1(2) by auto
    show "asz b \<le> asz (taken n no_owner f)"
      using lt f(3) by (simp add: taken_def)
  qed (use cap d in simp_all)
  moreover have "bp r d (span us) \<noteq> 0"
  proof -
    obtain H1 where "hview r s1 s1 (set (starts 0 (us @ taken n no_owner f # taken_rest n f @ vs))) H1
        (count_alloc (R\<lparr>h_free_list := fl\<rparr>) (taken_size n f))"
      "span us \<in> set (starts 0 (us @ taken n no_owner f # taken_rest n f @ vs))"
      by (rule heap_rep_block [OF hr1])
    then show ?thesis
      by (rule bp_nonzero) (simp add: d)
  qed
  ultimately show "(case (bp r d (span us'), s1) of (nb, s) \<Rightarrow>
      if nb = 0 then Some (False, s)
      else do { s \<leftarrow> resize_copy r s (bp r d (span xs)) nb; s \<leftarrow> heap_free_block r s (bp r d (span xs));
        off \<leftarrow> shm_poff_of_blk r s nb; s \<leftarrow> set_ent_off r s slot off; cap \<leftarrow> blk_payload_cap r s nb;
        s \<leftarrow> set_ent_capacity r s slot cap; Some (True, s) }) = None"
    by (simp add: eq s1(2))
qed (use ff in simp)

theorem shm_resize_overrun:
  assumes inv: "pool_inv r s R (xs @ b # ys) es" and lk: "lockable s" and nz: "obj_id \<noteq> 0" "new_size \<noteq> 0"
    and slot: "first_slot (\<lambda>e. e_id e = obj_id \<and> e_alive e \<noteq> 0) es 0 = Some i" "unat (e_off (es ! i)) = span xs + 56"
    and acc: "access_ok (e_owner (es ! i)) (e_perms (es ! i)) user cp SHM_PERM_RESIZE" and own: "\<not> is_free b"
    and n: "n = unat (alloc_size new_size)" "asz b < n" "\<not> growable n b ys"
    and ff: "first_fit n (xs @ b # ys) = Some (us, f, vs)"
    and cap: "acap (taken n no_owner f) < acap b"
  shows "shm_resize (Some r) s obj_id new_size user cp = None"
proof -
  let ?s1 = "s\<lparr>mutex := MLocked\<rparr>"
  note l = pool_lock [OF inv lk]
  note dr = pool_invD(2) [OF l(2)]
  note hr = pool_invD(1) [OF l(2)]
  obtain H where H: "hview r ?s1 ?s1 (set (starts 0 (xs @ b # ys))) H R" "span xs \<in> set (starts 0 (xs @ b # ys))"
    "blk_ok (H (span xs)) b" "list_all wf_blk (xs @ b # ys)"
    using hr by (rule heap_rep_block)
  have i: "i < length es" "live (es ! i)"
    using first_slot_SomeD [OF slot(1)] nz by (auto simp: live_def)
  have find: "dir_find_by_id r ?s1 obj_id = Some (rp r (slot_pos R i))" "rp r (slot_pos R i) \<noteq> 0"
    using dir_find_by_id_eq [OF dr, of obj_id] slot slot_ptr_nonzero [OF dr i(1)] by (simp_all add: slot_ptr_def)
  have off: "ent_off r ?s1 (rp r (slot_pos R i)) = Some (of_nat (span xs + 56))"
    using eview_loads(2) [OF dir_rep_eview [OF dr i(1)]] unat64_eqD [OF slot(2)] by simp
  have blk: "shm_blk_of_poff r ?s1 (of_nat (span xs + 56)) = Some (bp r (h_data_offset R) (span xs))"
    using hview_ptrs(6) [OF dir_rep_hview [OF dr] refl] .
  have sz: "blk_total_size r ?s1 (bp r (h_data_offset R) (span xs)) = Some (b_total_size (H (span xs)))"
    "unat (b_total_size (H (span xs))) = asz b"
    using hview_blk_loads(8) [OF H(1,2) refl] H(3) by (simp_all add: blk_ok_def sizes_ok_def)
  have n': "56 \<le> n" "8 dvd n" "n < 2 ^ 64" "of_nat n = alloc_size new_size"
    using n(1,2) H(4) alloc_size_dvd unat64_bound by (auto simp: wf_blk_def)
  have le: "\<not> alloc_size new_size \<le> b_total_size (H (span xs))"
    using n(1,2) sz(2) by (simp add: word_le_nat_alt)
  have place: "resize_in_place r ?s1 (bp r (h_data_offset R) (span xs)) (of_nat n) = Some (False, ?s1)"
  proof -
    have "runs (resize_in_place r ?s1 (bp r (h_data_offset R) (span xs)) (of_nat n)) (\<lambda>v. v = (False, ?s1))"
      by (rule resize_in_place_refines [OF hr own n'(1-3) refl]) (use n(3) in simp_all)
    then show ?thesis
      by (auto simp: runs_iff)
  qed
  have "resize_move r ?s1 (rp r (slot_pos R i)) (bp r (h_data_offset R) (span xs)) (of_nat n) = None"
    by (rule resize_move_overrun [OF hr own n'(1-3) refl ff n(2) cap])
  with place show ?thesis
    using nz find acc
    by (simp add: shm_resize_def l(1) check_dir_access_eq [OF dr i] off blk sz(1) le resize_grow_def n'(4) del: of_nat_add)
qed

section \<open>The outcome of the call\<close>

lemma shm_resize_unsafe:
  assumes inv: "pool_inv r s R bs es" and lk: "lockable s" and nz: "obj_id \<noteq> 0" "new_size \<noteq> 0"
    and un: "\<not> resize_safe (unat (alloc_size new_size)) bs es obj_id user cp"
  shows "shm_resize (Some r) s obj_id new_size user cp = None"
proof -
  let ?n = "unat (alloc_size new_size)"
  obtain i where slot: "first_slot (\<lambda>e. e_id e = obj_id \<and> e_alive e \<noteq> 0) es 0 = Some i"
    and acc: "access_ok (e_owner (es ! i)) (e_perms (es ! i)) user cp SHM_PERM_RESIZE"
    using un by (auto simp: resize_safe_def split: option.splits)
  have i: "i < length es" "live (es ! i)"
    using first_slot_SomeD [OF slot] nz by (auto simp: live_def)
  obtain xs b ys where b: "bs = xs @ b # ys" "\<not> is_free b" "unat (e_off (es ! i)) = span xs + 56"
    by (rule entry_block [OF pool_invD(5) [OF inv] i])
  have wf: "list_all wf_blk (xs @ b # ys)"
    using pool_invD(1) [OF inv] by (auto simp: b(1) heap_rep_bytes heap_shape_def dest: tiles_wf)
  have "\<not> move_safe ?n xs b ys"
    using un resize_safe_at [OF slot acc wf b(3)] by (simp add: b(1))
  then obtain us f vs where m: "asz b < ?n" "\<not> growable ?n b ys" "first_fit ?n (xs @ b # ys) = Some (us, f, vs)"
    "acap (taken ?n no_owner f) < acap b"
    by (auto simp: move_safe_def split: option.splits)
  show ?thesis
    by (rule shm_resize_overrun [OF inv [unfolded b(1)] lk nz slot b(3) acc b(2) refl m])
qed

text \<open>A call that returns was safe, so its effect is that of the contract.\<close>

lemma shm_resize_returned:
  assumes inv: "pool_inv r s R bs es" and lk: "lockable s" and nz: "obj_id \<noteq> 0" "new_size \<noteq> 0"
    and n: "56 \<le> unat (alloc_size new_size)" and run: "shm_resize (Some r) s obj_id new_size user cp = Some v"
  shows "resize_safe (unat (alloc_size new_size)) bs es obj_id user cp"
    and "resize_post r s R bs es obj_id new_size user cp v"
proof -
  show safe: "resize_safe (unat (alloc_size new_size)) bs es obj_id user cp"
    using shm_resize_unsafe [OF inv lk nz] run by fastforce
  show "resize_post r s R bs es obj_id new_size user cp v"
    using shm_resize_refines [OF inv lk nz n safe] run by simp
qed

theorem shm_resize_outcome:
  assumes inv: "pool_inv r s R bs es" and lk: "lockable s" and nz: "obj_id \<noteq> 0" "new_size \<noteq> 0"
    and n: "56 \<le> unat (alloc_size new_size)"
  shows "case shm_resize (Some r) s obj_id new_size user cp of
      None \<Rightarrow> \<not> resize_safe (unat (alloc_size new_size)) bs es obj_id user cp
    | Some v \<Rightarrow> resize_safe (unat (alloc_size new_size)) bs es obj_id user cp \<and>
        resize_post r s R bs es obj_id new_size user cp v"
proof (cases "shm_resize (Some r) s obj_id new_size user cp")
  case None
  then show ?thesis
    using shm_resize_refines [OF inv lk nz n, of user cp] by auto
next
  case (Some v)
  then show ?thesis
    using shm_resize_returned [OF inv lk nz n Some] by simp
qed

end
