(* ===== verification/Shm_Ns.thy ===== *)
theory Shm_Ns
  imports Shm_Prelude
begin

text \<open>
  \<open>src/src/shm_ns.c\<close>: the IPC namespace inode and the FNV-1a hash of
  \<open>/proc/self/cgroup\<close>. What the kernel answers is a parameter: \<open>stat_ino\<close> is the inode
  \<open>stat\<close> reports or \<open>None\<close> when it fails; \<open>opened\<close> says whether \<open>open\<close>
  succeeds; \<open>rd pos n\<close> is what \<open>read\<close> of at most \<open>n\<close> bytes returns at file
  position \<open>pos\<close>, \<open>None\<close> on error.

  The lemmas: the read loop ends and hashes the whole file however \<open>read\<close> splits it; the hash
  reported is never 0; one step is a bijection of the accumulator, so contents of equal length that
  differ in one byte have different hashes.
\<close>

section \<open>shm_ns_ipc_inode\<close>

definition shm_ns_ipc_inode :: "u64 option \<Rightarrow> u64" where
  "shm_ns_ipc_inode stat_ino = (case stat_ino of None \<Rightarrow> 0 | Some st_ino \<Rightarrow> st_ino)"

section \<open>shm_ns_cgroup_hash\<close>

definition FNV_OFFSET_BASIS :: u64 where "FNV_OFFSET_BASIS = 14695981039346656037"
definition FNV_PRIME :: u64 where "FNV_PRIME = 1099511628211"

definition fnv_step :: "u8 \<Rightarrow> u64 \<Rightarrow> u64" where
  "fnv_step c hash = (hash XOR ucast c) * FNV_PRIME"

text \<open>The inner loop, over the bytes of one chunk.\<close>

definition fnv_chunk :: "u8 list \<Rightarrow> u64 \<Rightarrow> u64" where
  "fnv_chunk buf hash = fold fnv_step buf hash"

type_synonym reader = "nat \<Rightarrow> nat \<Rightarrow> u8 list option"

partial_function (option) cgroup_loop :: "reader \<Rightarrow> nat \<Rightarrow> u64 \<Rightarrow> u64 option" where
  "cgroup_loop rd pos hash =
     (case rd pos 256 of
        None \<Rightarrow> Some hash
      | Some buf \<Rightarrow> if buf = [] then Some hash else cgroup_loop rd (pos + length buf) (fnv_chunk buf hash))"

definition shm_ns_cgroup_hash :: "bool \<Rightarrow> reader \<Rightarrow> u64 option" where
  "shm_ns_cgroup_hash opened rd =
     (if \<not> opened then Some 0
      else do {
        hash \<leftarrow> cgroup_loop rd 0 FNV_OFFSET_BASIS;
        Some (if hash \<noteq> 0 then hash else 1) })"

section \<open>The loop reads the whole file\<close>

text \<open>
  What \<open>read\<close> documents for a file with the contents \<open>c\<close>: between one and \<open>n\<close> of the bytes
  that are left, none only at the end.
\<close>

definition reads_file :: "reader \<Rightarrow> u8 list \<Rightarrow> bool" where
  "reads_file rd c \<longleftrightarrow>
     (\<forall>pos n. 0 < n \<longrightarrow> (\<exists>buf. rd pos n = Some buf \<and> length buf \<le> n \<and> buf = take (length buf) (drop pos c) \<and>
        (buf = [] \<longrightarrow> length c \<le> pos)))"

lemma reads_fileE:
  assumes "reads_file rd c"
  obtains "rd pos 256 = Some []" "length c \<le> pos"
  | buf where "rd pos 256 = Some buf" "buf \<noteq> []" "drop pos c = buf @ drop (pos + length buf) c" "pos < length c"
proof -
  obtain buf where b: "rd pos 256 = Some buf" "buf = take (length buf) (drop pos c)" "buf = [] \<longrightarrow> length c \<le> pos"
    using assms unfolding reads_file_def by (meson zero_less_numeral)
  show thesis
  proof (cases "buf = []")
    case True
    with b show thesis by (intro that(1)) simp_all
  next
    case False
    have "drop pos c = take (length buf) (drop pos c) @ drop (length buf) (drop pos c)"
      by (rule append_take_drop_id [symmetric])
    then have "drop pos c = buf @ drop (pos + length buf) c"
      by (simp only: b(2) [symmetric] drop_drop add.commute)
    moreover have "pos < length c"
    proof (rule ccontr)
      assume "\<not> pos < length c"
      then have "buf = []" using b(2) by simp
      with False show False by contradiction
    qed
    ultimately show thesis
      using b(1) False by (intro that(2))
  qed
qed

lemma cgroup_loop_reads:
  assumes "reads_file rd c"
  shows "cgroup_loop rd pos hash = Some (fold fnv_step (drop pos c) hash)"
proof (induction "length c - pos" arbitrary: pos hash rule: less_induct)
  case less
  show ?case
  proof (cases rule: reads_fileE [OF assms, of pos])
    case 1
    then show ?thesis
      by (subst cgroup_loop.simps) simp
  next
    case (2 buf)
    have "cgroup_loop rd (pos + length buf) (fnv_chunk buf hash) =
        Some (fold fnv_step (drop (pos + length buf) c) (fnv_chunk buf hash))"
      using 2 by (intro less) (cases buf, auto)
    then show ?thesis
      by (subst cgroup_loop.simps) (simp add: 2 fnv_chunk_def)
  qed
qed

lemma cgroup_hash_reads:
  assumes "reads_file rd c"
  shows "shm_ns_cgroup_hash True rd =
     Some (let h = fold fnv_step c FNV_OFFSET_BASIS in if h \<noteq> 0 then h else 1)"
  using cgroup_loop_reads [OF assms, of 0] by (simp add: shm_ns_cgroup_hash_def Let_def)

lemma cgroup_hash_nonzero: "shm_ns_cgroup_hash True rd = Some h \<Longrightarrow> h \<noteq> 0"
  by (auto simp: shm_ns_cgroup_hash_def split: if_splits bind_splits)

section \<open>Collisions\<close>

text \<open>The inverse of \<open>FNV_PRIME\<close> modulo \<open>2 ^ 64\<close>.\<close>

definition fnv_unstep :: "u8 \<Rightarrow> u64 \<Rightarrow> u64" where
  "fnv_unstep c hash = (hash * 14886173955864302971) XOR ucast c"

lemma fnv_unstep: "fnv_unstep c (fnv_step c h) = h"
proof -
  have "FNV_PRIME * 14886173955864302971 = 1"
    by (simp add: FNV_PRIME_def)
  then show ?thesis
    by (simp add: fnv_unstep_def fnv_step_def mult.assoc xor.assoc)
qed

lemma fnv_step_inj: "inj (fnv_step c)"
  by (rule inj_on_inverseI [where g = "fnv_unstep c"]) (rule fnv_unstep)

lemma fnv_fold_inj: "inj (fold fnv_step cs)"
proof (induction cs)
  case (Cons c cs)
  then show ?case
    using inj_compose [OF Cons fnv_step_inj [of c]] by (simp add: comp_def)
qed simp

lemma fnv_byte:
  assumes "fnv_step c h = fnv_step c' h"
  shows "c = c'"
proof -
  have "(h XOR ucast c) = h XOR ucast c'"
    using fnv_unstep [of c h] fnv_unstep [of c "h XOR ucast c XOR ucast c'"] assms
    by (metis (no_types) fnv_step_def fnv_unstep_def fnv_unstep)
  then have "(ucast c :: u64) = ucast c'"
    by (metis bit.xor_left_self)
  then have "uint (ucast c :: u64) = uint (ucast c' :: u64)"
    by simp
  then show ?thesis
    by (simp add: uint_up_ucast is_up word_uint_eq_iff)
qed

lemma fnv_one_byte:
  assumes "c \<noteq> c'"
  shows "fold fnv_step (xs @ c # ys) h \<noteq> fold fnv_step (xs @ c' # ys) h"
proof
  assume "fold fnv_step (xs @ c # ys) h = fold fnv_step (xs @ c' # ys) h"
  then have "fnv_step c (fold fnv_step xs h) = fnv_step c' (fold fnv_step xs h)"
    using injD [OF fnv_fold_inj [of ys]] by simp
  with assms show False
    using fnv_byte by blast
qed

section \<open>A reader\<close>

text \<open>What \<open>procfs\<close> does for a small file: as many bytes as are left and fit.\<close>

definition proc_reader :: "u8 list \<Rightarrow> reader" where
  "proc_reader c pos n = Some (take n (drop pos c))"

lemma proc_reader_reads: "reads_file (proc_reader c) c"
  by (auto simp: reads_file_def proc_reader_def min_def)

end
