(* ===== verification/Shm_Open.thy ===== *)
theory Shm_Open
  imports Shm_Api Shm_Ns
begin

text \<open>
  \<open>shm_region_open\<close> and \<open>shm_region_close\<close> of \<open>src/src/shm_alloc.c\<close>. What the system
  calls answer is a parameter, the record \<open>os\<close>; what the code acquires and gives back is logged
  as a list of events in program order, so that every error path can be checked for leaks. The
  machine state holds the bytes of the shared object that the descriptor names.

  The lemmas: every failing open gives back exactly what it acquired, and a close what the open
  acquired; a creating open establishes the pool invariant, an attaching one keeps it and counts the
  host; a wrong magic, version, namespace or cgroup is refused without a write.
\<close>

section \<open>Options and system calls\<close>

definition SHM_OPEN_CREATE :: u32 where "SHM_OPEN_CREATE = 0x01"
definition SHM_OPEN_ENFORCE_NS :: u32 where "SHM_OPEN_ENFORCE_NS = 0x02"
definition SHM_OPEN_ENFORCE_CGROUP :: u32 where "SHM_OPEN_ENFORCE_CGROUP = 0x04"

lemmas open_flags = SHM_OPEN_CREATE_def SHM_OPEN_ENFORCE_NS_def SHM_OPEN_ENFORCE_CGROUP_def

record shm_region_open_opts =
  op_backend :: shm_backend
  op_flags :: u32
  op_dir_capacity :: u32
  op_mode :: u32

text \<open>A failing call yields the \<open>errno\<close> it leaves behind, as \<open>Inl\<close> or \<open>Some\<close>.\<close>

record os =
  os_calloc :: bool
  os_strdup :: bool
  os_shm_open :: "cstring \<Rightarrow> bool \<Rightarrow> u32 \<Rightarrow> errno + int"
  os_open :: "cstring \<Rightarrow> errno + int"
  os_ftruncate :: "int \<Rightarrow> u64 \<Rightarrow> errno option"
  os_fstat :: "int \<Rightarrow> errno + u64"
  os_mmap :: "u64 \<Rightarrow> int \<Rightarrow> errno + u64"
  os_ns_stat :: "u64 option"
  os_cgroup_open :: bool
  os_cgroup_read :: reader

text \<open>
  What the calls document: a failure leaves an error code, a descriptor is not negative, a mapping
  is page aligned and lies below the top of the user addresses.
\<close>

definition os_ok :: "os \<Rightarrow> bool" where
  "os_ok os \<longleftrightarrow>
     (\<forall>n c m. os_shm_open os n c m \<noteq> Inl OK) \<and> (\<forall>n c m fd. os_shm_open os n c m = Inr fd \<longrightarrow> 0 \<le> fd) \<and>
     (\<forall>n. os_open os n \<noteq> Inl OK) \<and> (\<forall>n fd. os_open os n = Inr fd \<longrightarrow> 0 \<le> fd) \<and>
     (\<forall>fd n. os_ftruncate os fd n \<noteq> Some OK) \<and>
     (\<forall>fd. os_fstat os fd \<noteq> Inl OK) \<and>
     (\<forall>n fd. os_mmap os n fd \<noteq> Inl OK) \<and>
     (\<forall>n fd b. os_mmap os n fd = Inr b \<longrightarrow> b \<noteq> 0 \<and> 4096 dvd unat b \<and> unat b + unat n \<le> 2 ^ 63)"

lemma os_okD:
  assumes "os_ok os"
  shows "os_shm_open os n c m \<noteq> Inl OK" "os_shm_open os n c m = Inr fd \<Longrightarrow> 0 \<le> fd"
    "os_open os n \<noteq> Inl OK" "os_open os n = Inr fd \<Longrightarrow> 0 \<le> fd"
    "os_ftruncate os fd sz \<noteq> Some OK" "os_fstat os fd \<noteq> Inl OK" "os_mmap os sz fd \<noteq> Inl OK"
    "os_mmap os sz fd = Inr b \<Longrightarrow> b \<noteq> 0 \<and> 4096 dvd unat b \<and> unat b + unat sz \<le> 2 ^ 63"
  using assms unfolding os_ok_def by simp_all

section \<open>Resources\<close>

datatype resource = Handle | Name_copy | Descriptor int | Mapping u64 u64

datatype event = Acquire resource | Release resource | Truncate int u64 | Unlink cstring

text \<open>
  \<open>settle log held\<close>: what is still held after \<open>log\<close>; \<open>None\<close> when something is given back
  that is not held, for instance twice.
\<close>

fun settle :: "event list \<Rightarrow> resource list \<Rightarrow> resource list option" where
  "settle [] held = Some held"
| "settle (Acquire x # log) held = settle log (x # held)"
| "settle (Release x # log) held = (if x \<in> set held then settle log (remove1 x held) else None)"
| "settle (Truncate fd n # log) held = settle log held"
| "settle (Unlink name # log) held = settle log held"

lemma settle_append: "settle (xs @ ys) held = Option.bind (settle xs held) (settle ys)"
  by (induction xs held rule: settle.induct) simp_all

section \<open>The stages of an open\<close>

definition free_handle :: "event list" where
  "free_handle = [Release Name_copy, Release Handle]"

definition alloc_handle :: "os \<Rightarrow> errno option \<times> event list" where
  "alloc_handle os =
     (if \<not> os_calloc os then (Some ENOMEM, [])
      else if \<not> os_strdup os then (Some ENOMEM, [Acquire Handle, Release Handle])
      else (None, [Acquire Handle, Acquire Name_copy]))"

text \<open>The descriptor of the backing object and the size of the mapping, or the error.\<close>

definition open_posix :: "os \<Rightarrow> cstring \<Rightarrow> u64 \<Rightarrow> bool \<Rightarrow> u32 \<Rightarrow> (errno + int \<times> u64) \<times> event list" where
  "open_posix os name sz creating mode =
     (case os_shm_open os name creating mode of
        Inl err \<Rightarrow> (Inl err, free_handle)
      | Inr fd \<Rightarrow>
          let log = [Acquire (Descriptor fd)] @ (if creating \<and> 4096 \<le> sz then [Truncate fd sz] else []) in
          (case (if creating \<and> 4096 \<le> sz then os_ftruncate os fd sz else None) of
            Some err \<Rightarrow> (Inl err, log @ [Release (Descriptor fd), Unlink name] @ free_handle)
          | None \<Rightarrow>
              if \<not> creating
              then (case os_fstat os fd of
                      Inl err \<Rightarrow> (Inl err, log @ [Release (Descriptor fd)] @ free_handle)
                    | Inr st_size \<Rightarrow> (Inr (fd, st_size), log))
              else (Inr (fd, sz), log)))"

definition open_dax :: "os \<Rightarrow> cstring \<Rightarrow> u64 \<Rightarrow> (errno + int \<times> u64) \<times> event list" where
  "open_dax os name sz =
     (case os_open os name of
        Inl err \<Rightarrow> (Inl err, free_handle)
      | Inr fd \<Rightarrow>
          let sz =
            (if sz < 4096
             then (case os_fstat os fd of
                     Inl err \<Rightarrow> push_bit 20 2
                   | Inr st_size \<Rightarrow> if 0 < sint st_size then st_size else push_bit 20 2)
             else sz)
          in (Inr (fd, sz), [Acquire (Descriptor fd)]))"

definition unlink_created :: "shm_backend \<Rightarrow> bool \<Rightarrow> cstring \<Rightarrow> event list" where
  "unlink_created backend creating name =
     (if backend = SHM_BACKEND_POSIX \<and> creating then [Unlink name] else [])"

definition map_object ::
    "os \<Rightarrow> cstring \<Rightarrow> shm_backend \<Rightarrow> bool \<Rightarrow> int \<Rightarrow> u64 \<Rightarrow> (errno + u64) \<times> event list" where
  "map_object os name backend creating fd sz =
     (let undo = [Release (Descriptor fd)] @ unlink_created backend creating name @ free_handle in
      if sz < 4096 then (Inl EINVAL, undo)
      else case os_mmap os sz fd of
             Inl err \<Rightarrow> (Inl err, undo)
           | Inr base \<Rightarrow> (Inr base, [Acquire (Mapping base sz)]))"

text \<open>The checks of an attaching open; \<open>OK\<close> admits the caller.\<close>

definition admit :: "os \<Rightarrow> shm_region \<Rightarrow> machine \<Rightarrow> u32 \<Rightarrow> errno option" where
  "admit os r s flags = do {
     magic \<leftarrow> rh_magic r s;
     version \<leftarrow> rh_version r s;
     if magic \<noteq> SHM_ALLOC_MAGIC_REGION \<or> version \<noteq> SHM_ALLOC_VERSION then Some ENOENT
     else do {
       ns \<leftarrow> rh_ns_inode r s;
       let my_ns = shm_ns_ipc_inode (os_ns_stat os);
       if flags AND SHM_OPEN_ENFORCE_NS \<noteq> 0 \<and> ns \<noteq> 0 \<and> my_ns \<noteq> 0 \<and> my_ns \<noteq> ns then Some EPERM
       else do {
         cg \<leftarrow> rh_cgroup_hash r s;
         if flags AND SHM_OPEN_ENFORCE_CGROUP \<noteq> 0 \<and> cg \<noteq> 0 then do {
           my_cg \<leftarrow> shm_ns_cgroup_hash (os_cgroup_open os) (os_cgroup_read os);
           Some (if my_cg \<noteq> 0 \<and> my_cg \<noteq> cg then EPERM else OK) }
         else Some OK } } }"

definition host_attach :: "shm_region \<Rightarrow> machine \<Rightarrow> machine option" where
  "host_attach r s = do {
     (_, s) \<leftarrow> region_lock r s;
     hosts \<leftarrow> rh_host_count r s;
     s \<leftarrow> set_rh_host_count r s (hosts + 1);
     s \<leftarrow> shm_persist r s (shm_rh r + 56) 4;
     let s = shm_drain s;
     region_unlock r s }"

text \<open>What follows the \<open>mmap\<close>.\<close>

definition open_mapped ::
    "os \<Rightarrow> shm_region \<Rightarrow> machine \<Rightarrow> u32 \<Rightarrow> u32 \<Rightarrow> (errno \<times> shm_region option \<times> event list \<times> machine) option" where
  "open_mapped os r s flags dir_cap = do {
     (rc, s) \<leftarrow>
       (if rcreator r then do {
          cg \<leftarrow> shm_ns_cgroup_hash (os_cgroup_open os) (os_cgroup_read os);
          s \<leftarrow> region_init r s (rsize r) (rbackend r) dir_cap (Some (rname r)) (shm_ns_ipc_inode (os_ns_stat os)) cg;
          Some (OK, s) }
        else do { rc \<leftarrow> admit os r s flags; Some (rc, s) });
     if rc \<noteq> OK
     then Some (rc, None, [Release (Mapping (rbase r) (rsize r)), Release (Descriptor (rfd r))] @ free_handle, s)
     else do {
       s \<leftarrow> host_attach r s;
       Some (OK, Some r, [], s) } }"

section \<open>shm_region_open and shm_region_close\<close>

text \<open>\<open>has_out\<close>: the pointer that receives the handle is not null.\<close>

definition shm_region_open ::
    "os \<Rightarrow> cstring option \<Rightarrow> u64 \<Rightarrow> shm_region_open_opts option \<Rightarrow> bool \<Rightarrow> machine \<Rightarrow>
     (errno \<times> shm_region option \<times> event list \<times> machine) option" where
  "shm_region_open os name_or_path sz opts has_out s =
     (case name_or_path of
        None \<Rightarrow> Some (EINVAL, None, [], s)
      | Some name \<Rightarrow>
          if \<not> has_out then Some (EINVAL, None, [], s)
          else
            let backend = (case opts of Some p \<Rightarrow> op_backend p | None \<Rightarrow> SHM_BACKEND_POSIX);
                flags = (case opts of Some p \<Rightarrow> op_flags p | None \<Rightarrow> 0);
                dir_cap = (case opts of Some p \<Rightarrow> op_dir_capacity p | None \<Rightarrow> 0);
                mode = (case opts of Some p \<Rightarrow> op_mode p | None \<Rightarrow> 0);
                creating = (flags AND SHM_OPEN_CREATE \<noteq> 0);
                dir_cap = (if dir_cap = 0 then DIR_CAP_DEFAULT else dir_cap);
                mode = (if mode = 0 then 432 else mode);
                (failed, log) = alloc_handle os
            in case failed of
                 Some rc \<Rightarrow> Some (rc, None, log, s)
               | None \<Rightarrow>
                   let (opened, log') = (if backend = SHM_BACKEND_POSIX then open_posix os name sz creating mode
                                         else open_dax os name sz)
                   in case opened of
                        Inl err \<Rightarrow> Some (err, None, log @ log', s)
                      | Inr (fd, sz) \<Rightarrow>
                          let (placed, log'') = map_object os name backend creating fd sz
                          in case placed of
                               Inl err \<Rightarrow> Some (err, None, log @ log' @ log'', s)
                             | Inr base \<Rightarrow> do {
                                 let r = \<lparr>rname = name, rfd = fd, rbase = base, rsize = sz,
                                          rcreator = creating, rbackend = backend\<rparr>;
                                 (rc, out, log''', s) \<leftarrow> open_mapped os r s flags dir_cap;
                                 Some (rc, out, log @ log' @ log'' @ log''', s) })"

definition shm_region_close :: "shm_region option \<Rightarrow> bool \<Rightarrow> machine \<Rightarrow> (event list \<times> machine) option" where
  "shm_region_close region unlink_name s =
     (case region of
        None \<Rightarrow> Some ([], s)
      | Some r \<Rightarrow> do {
          (log, s) \<leftarrow>
            (if rbase r \<noteq> 0 then do {
               (_, s) \<leftarrow> region_lock r s;
               hosts \<leftarrow> rh_host_count r s;
               s \<leftarrow> (if 0 < hosts then do {
                       s \<leftarrow> set_rh_host_count r s (hosts - 1);
                       s \<leftarrow> shm_persist r s (shm_rh r + 56) 4;
                       Some (shm_drain s) }
                     else Some s);
               s \<leftarrow> region_unlock r s;
               Some ([Release (Mapping (rbase r) (rsize r))], s) }
             else Some ([], s));
          Some (log @ (if 0 \<le> rfd r then [Release (Descriptor (rfd r))] else []) @
            (if unlink_name \<and> rbackend r = SHM_BACKEND_POSIX then [Unlink (rname r)] else []) @
            free_handle, s) })"

section \<open>Nothing leaks\<close>

abbreviation handle_held :: "resource list" where
  "handle_held \<equiv> [Name_copy, Handle]"

definition open_held :: "shm_region \<Rightarrow> resource list" where
  "open_held r = Mapping (rbase r) (rsize r) # Descriptor (rfd r) # handle_held"

lemma settle_free_handle [simp]: "settle free_handle handle_held = Some []"
  by (simp add: free_handle_def)

lemma settle_release_handle [simp]:
  "settle (Release x # log) (x # held) = settle log held"
  by simp

lemma settle_unlink_created [simp]: "settle (unlink_created backend creating name @ log) held = settle log held"
  by (simp add: unlink_created_def)

lemma alloc_handle_log:
  "alloc_handle os = (Some e, log) \<Longrightarrow> e \<noteq> OK \<and> settle log [] = Some []"
  "alloc_handle os = (None, log) \<Longrightarrow> settle log [] = Some handle_held"
  by (auto simp: alloc_handle_def split: if_splits)

lemma open_posix_log:
  assumes ok: "os_ok os"
  shows "open_posix os name sz creating mode = (Inl e, log) \<Longrightarrow> e \<noteq> OK \<and> settle log handle_held = Some []"
    and "open_posix os name sz creating mode = (Inr (fd, sz'), log) \<Longrightarrow>
       0 \<le> fd \<and> settle log handle_held = Some (Descriptor fd # handle_held)"
  using os_okD [OF ok] by (auto simp: open_posix_def Let_def split: sum.splits if_splits option.splits)

lemma open_dax_log:
  assumes ok: "os_ok os"
  shows "open_dax os name sz = (Inl e, log) \<Longrightarrow> e \<noteq> OK \<and> settle log handle_held = Some []"
    and "open_dax os name sz = (Inr (fd, sz'), log) \<Longrightarrow>
       0 \<le> fd \<and> settle log handle_held = Some (Descriptor fd # handle_held)"
  using os_okD [OF ok] by (auto simp: open_dax_def Let_def split: sum.splits if_splits option.splits)

lemma map_object_log:
  assumes ok: "os_ok os"
  shows "map_object os name backend creating fd sz = (Inl e, log) \<Longrightarrow>
       e \<noteq> OK \<and> settle log (Descriptor fd # handle_held) = Some []"
    and "map_object os name backend creating fd sz = (Inr base, log) \<Longrightarrow>
       4096 \<le> sz \<and> base \<noteq> 0 \<and> 4096 dvd unat base \<and> unat base + unat sz \<le> 2 ^ 63 \<and>
       settle log (Descriptor fd # handle_held) = Some (Mapping base sz # Descriptor fd # handle_held)"
  using os_okD [OF ok] by (auto simp: map_object_def Let_def split: sum.splits if_splits option.splits)

lemma open_mapped_log:
  assumes "open_mapped os r s flags dir_cap = Some (rc, out, log, s')"
  shows "if rc = OK then out = Some r \<and> log = [] else out = None \<and> settle log (open_held r) = Some []"
  using assms by (auto simp: open_mapped_def open_held_def split: bind_splits if_splits prod.splits)

lemma shm_region_open_settles:
  assumes ok: "os_ok os" and res: "shm_region_open os name sz opts has_out s = Some (rc, out, log, s')"
  shows "(rc \<noteq> OK \<and> out = None \<and> settle log [] = Some []) \<or>
    (\<exists>r. rc = OK \<and> out = Some r \<and> settle log [] = Some (open_held r) \<and> mapped r \<and> 4096 \<le> rsize r \<and> 0 \<le> rfd r)"
proof (cases "name = None \<or> \<not> has_out")
  case True
  then show ?thesis
    using res by (auto simp: shm_region_open_def split: option.splits)
next
  case False
  then obtain nm where nm: "name = Some nm" "has_out" by auto
  define backend where "backend = (case opts of Some p \<Rightarrow> op_backend p | None \<Rightarrow> SHM_BACKEND_POSIX)"
  define flags where "flags = (case opts of Some p \<Rightarrow> op_flags p | None \<Rightarrow> 0)"
  define creating where "creating = (flags AND SHM_OPEN_CREATE \<noteq> 0)"
  define cap0 where "cap0 = (case opts of Some p \<Rightarrow> op_dir_capacity p | None \<Rightarrow> 0)"
  define cap where "cap = (if cap0 = 0 then DIR_CAP_DEFAULT else cap0)"
  define mode0 where "mode0 = (case opts of Some p \<Rightarrow> op_mode p | None \<Rightarrow> 0)"
  define mode where "mode = (if mode0 = 0 then 432 else mode0)"
  note defs = backend_def [symmetric] flags_def [symmetric] creating_def [symmetric] cap0_def [symmetric]
    cap_def [symmetric] mode0_def [symmetric] mode_def [symmetric]
  obtain failed log1 where h: "alloc_handle os = (failed, log1)" by fastforce
  obtain opened log2 where d: "(if backend = SHM_BACKEND_POSIX then open_posix os nm sz creating mode
      else open_dax os nm sz) = (opened, log2)" by fastforce
  note res' = res [unfolded shm_region_open_def nm option.case simp_thms if_False Let_def, unfolded defs, unfolded h d prod.case]
  show ?thesis
  proof (cases failed)
    case (Some e)
    then show ?thesis
      using res' alloc_handle_log(1) [OF h [unfolded Some]] nm(2) by auto
  next
    case None
    note h1 = alloc_handle_log(2) [OF h [unfolded None]]
    show ?thesis
    proof (cases opened)
      case (Inl e)
      have "e \<noteq> OK \<and> settle log2 handle_held = Some []"
        using d Inl open_posix_log(1) [OF ok] open_dax_log(1) [OF ok] by (auto split: if_splits)
      then show ?thesis
        using res' None Inl h1 nm(2) by (auto simp: settle_append)
    next
      case (Inr p)
      obtain fd sz' where p: "p = (fd, sz')" by (cases p)
      have d1: "0 \<le> fd \<and> settle log2 handle_held = Some (Descriptor fd # handle_held)"
        using d Inr p open_posix_log(2) [OF ok] open_dax_log(2) [OF ok] by (auto split: if_splits)
      obtain placed log3 where m: "map_object os nm backend creating fd sz' = (placed, log3)" by fastforce
      show ?thesis
      proof (cases placed)
        case (Inl e)
        then show ?thesis
          using res' None Inr p m h1 d1 map_object_log(1) [OF ok, of nm backend creating fd sz' e log3] nm(2)
          by (auto simp: settle_append)
      next
        case base: (Inr base)
        define r where "r = \<lparr>rname = nm, rfd = fd, rbase = base, rsize = sz', rcreator = creating, rbackend = backend\<rparr>"
        note m1 = map_object_log(2) [OF ok m [unfolded base]]
        obtain log4 where om: "open_mapped os r s flags cap = Some (rc, out, log4, s')" "log = log1 @ log2 @ log3 @ log4"
          using res' None Inr p m base nm(2) by (auto simp: r_def split: bind_splits)
        have "settle (log1 @ log2 @ log3) [] = Some (open_held r)"
          using h1 d1 m1 by (simp add: settle_append open_held_def r_def)
        then have "settle log [] = settle log4 (open_held r)"
          using settle_append [of "log1 @ log2 @ log3" log4 "[]"] unfolding om(2) by simp
        then show ?thesis
          using open_mapped_log [OF om(1)] m1 d1 by (auto simp: r_def mapped_def split: if_splits)
      qed
    qed
  qed
qed

lemma shm_region_close_settles:
  assumes "shm_region_close (Some r) unlink s = Some (log, s')" "mapped r" "0 \<le> rfd r"
  shows "settle log (open_held r) = Some []"
  using assms by (auto simp: shm_region_close_def open_held_def mapped_def split: bind_splits if_splits prod.splits)

section \<open>Counting the hosts\<close>

lemma acct_hosts [simp]: "acct (R\<lparr>h_host_count := v\<rparr>) bs = acct R bs"
  by (simp add: acct_def)

lemma wp_hosts:
  assumes inv: "pool_inv r s R bs es"
    and Q: "\<And>s'. pool_inv r s' (R\<lparr>h_host_count := v\<rparr>) bs es \<Longrightarrow>
        (\<And>a. 200 \<le> a \<Longrightarrow> mem s' a = mem s a) \<Longrightarrow> mutex s' = mutex s \<Longrightarrow> cmode s' = cmode s \<Longrightarrow> Q s'"
  shows "runs (set_rh_host_count r s v) (\<lambda>s. runs (shm_persist r s (shm_rh r + 56) 4) Q)"
proof -
  have m: "mapped r" "200 \<le> unat (rsize r)"
    using pool_invD(6,7) [OF inv] by auto
  obtain H where H: "hview r s s (set (starts 0 bs)) H R" "heap_shape H R bs"
    "unat (h_data_offset R) + span bs = unat (rsize r)" "list_all wf_blk bs"
    using pool_invD(1) [OF inv] unfolding heap_rep_def by (rule heap_viewE)
  have fin: "pool_inv r s' (R\<lparr>h_host_count := v\<rparr>) bs es \<and> (\<forall>a\<ge>200. mem s' a = mem s a)"
    if v: "hview r s s' (set (starts 0 bs)) H (R\<lparr>h_host_count := v\<rparr>)" and mem: "\<And>a. 200 \<le> a \<Longrightarrow> mem s' a = mem s a" for s'
  proof -
    have "heap_rep r s' (R\<lparr>h_host_count := v\<rparr>) bs"
      by (rule heap_view_rep, rule heap_viewI_exact [OF v]) (use H(2,3) in \<open>simp_all add: heap_shape_def\<close>)
    moreover have "dir_rep r s' (R\<lparr>h_host_count := v\<rparr>) es"
      by (rule dir_rep_frame [OF pool_invD(2) [OF inv]]) (use mem hviewD(6) [OF v] in simp_all)
    ultimately show ?thesis
      using inv mem by (simp add: pool_inv_def)
  qed
  have off: "region_off r (shm_rh r + 56) = 56"
    by (rule region_off_rh_field) simp
  let ?s = "s\<lparr>mem := put32 (mem s) 56 v\<rparr>"
  have set: "set_rh_host_count r s v = Some ?s"
    using m off by (simp add: set_rh_host_count_def wr32_def in_map_def)
  have "runs (set_rh_host_count r s v) (\<lambda>s'. hview r s s' (set (starts 0 bs)) H (R\<lparr>h_host_count := v\<rparr>))"
    by (rule wp_set_rh_host_count [OF H(1)])
  then have v: "hview r s ?s (set (starts 0 bs)) H (R\<lparr>h_host_count := v\<rparr>)"
    by (simp add: set)
  have i: "pool_inv r ?s (R\<lparr>h_host_count := v\<rparr>) bs es" "\<And>a. 200 \<le> a \<Longrightarrow> mem ?s a = mem s a"
    using fin [OF v] by (simp_all add: put_outside)
  show ?thesis
    unfolding set runs_Some
  proof (rule wp_persist_any [OF m(1)])
    fix s' :: machine
    assume s': "mem s' = mem ?s" "mutex s' = mutex ?s" "cmode s' = cmode ?s"
    show "Q s'"
      using pool_inv_bytes [OF i(1) s'(1) m(1) refl] i(2) s' by (intro Q) simp_all
  qed (use off m in simp)
qed

lemma hosts_unlock:
  assumes "pool_inv r s R bs es" "mutex s = MLocked"
  shows "region_unlock r (shm_drain s) = Some ((shm_drain s)\<lparr>mutex := MUnlocked\<rparr>)"
    "pool_inv r ((shm_drain s)\<lparr>mutex := MUnlocked\<rparr>) R bs es"
proof -
  have m: "mapped r" "200 \<le> unat (rsize r)"
    using pool_invD(6,7) [OF assms(1)] by auto
  show "region_unlock r (shm_drain s) = Some ((shm_drain s)\<lparr>mutex := MUnlocked\<rparr>)"
    using assms(2) by (intro region_unlock_locked m) simp
  show "pool_inv r ((shm_drain s)\<lparr>mutex := MUnlocked\<rparr>) R bs es"
    using assms(1) by (rule pool_inv_bytes) (simp_all add: m)
qed

lemma host_attach_refines:
  assumes inv: "pool_inv r s R bs es" and lk: "lockable s"
  shows "runs (host_attach r s) (\<lambda>s'. pool_inv r s' (R\<lparr>h_host_count := h_host_count R + 1\<rparr>) bs es \<and>
     mutex s' = MUnlocked \<and> cmode s' = cmode s \<and> (\<forall>a\<ge>200. mem s' a = mem s a))"
proof -
  note l = pool_lock [OF inv lk]
  note ld = dir_rep_rh(5) [OF pool_invD(2) [OF l(2)]]
  show ?thesis
    unfolding host_attach_def l(1) Option.bind_lunit prod.case ld runs_bind Let_def
    by (rule wp_hosts [OF l(2)]) (simp add: hosts_unlock)
qed

text \<open>A detaching host counts itself out; the counter does not go below 0.\<close>

definition detached :: "region_hdr \<Rightarrow> region_hdr" where
  "detached R = (if 0 < h_host_count R then R\<lparr>h_host_count := h_host_count R - 1\<rparr> else R)"

lemma shm_region_close_refines:
  assumes inv: "pool_inv r s R bs es" and lk: "lockable s"
  shows "runs (shm_region_close (Some r) unlink s) (\<lambda>(log, s'). pool_inv r s' (detached R) bs es \<and>
     mutex s' = MUnlocked \<and> cmode s' = cmode s \<and> (\<forall>a\<ge>200. mem s' a = mem s a))"
proof -
  note l = pool_lock [OF inv lk]
  note ld = dir_rep_rh(5) [OF pool_invD(2) [OF l(2)]]
  have m: "mapped r" "rbase r \<noteq> 0"
    using pool_invD(6) [OF inv] by (auto simp: mapped_def)
  show ?thesis
  proof (cases "0 < h_host_count R")
    case True
    show ?thesis
      unfolding shm_region_close_def option.case if_P [OF m(2)] l(1) Option.bind_lunit prod.case ld if_P [OF True] runs_bind
      by (rule wp_hosts [OF l(2)]) (simp add: hosts_unlock detached_def True)
  next
    case False
    have "pool_inv r (s\<lparr>mutex := MUnlocked\<rparr>) R bs es"
      using inv by (rule pool_inv_bytes) (simp_all add: m)
    then show ?thesis
      using False by (simp add: shm_region_close_def m l(1,3) ld detached_def)
  qed
qed

section \<open>Admission\<close>

text \<open>What an attaching open decides on the header \<open>R\<close>, with the fingerprints of the caller.\<close>

definition fingerprint_ok :: "bool \<Rightarrow> u64 \<Rightarrow> u64 \<Rightarrow> bool" where
  "fingerprint_ok enforced recorded mine \<longleftrightarrow> \<not> enforced \<or> recorded = 0 \<or> mine = 0 \<or> mine = recorded"

definition admission :: "u64 \<Rightarrow> u64 \<Rightarrow> region_hdr \<Rightarrow> u32 \<Rightarrow> errno" where
  "admission my_ns my_cg R flags =
     (if h_magic R \<noteq> SHM_ALLOC_MAGIC_REGION \<or> h_version R \<noteq> SHM_ALLOC_VERSION then ENOENT
      else if fingerprint_ok (flags AND SHM_OPEN_ENFORCE_NS \<noteq> 0) (h_ns_inode R) my_ns \<and>
              fingerprint_ok (flags AND SHM_OPEN_ENFORCE_CGROUP \<noteq> 0) (h_cgroup_hash R) my_cg
      then OK else EPERM)"

lemma admit_eq:
  assumes m: "mapped r" "200 \<le> unat (rsize r)"
    and cg: "shm_ns_cgroup_hash (os_cgroup_open os) (os_cgroup_read os) = Some my_cg"
  shows "admit os r s flags = Some (admission (shm_ns_ipc_inode (os_ns_stat os)) my_cg (rh_at (mem s)) flags)"
proof -
  have off: "region_off r (shm_rh r + 4) = 4" "region_off r (shm_rh r + 120) = 120" "region_off r (shm_rh r + 128) = 128"
    by (rule region_off_rh_field, simp)+
  have "rh_magic r s = Some (h_magic (rh_at (mem s)))" "rh_version r s = Some (h_version (rh_at (mem s)))"
    "rh_ns_inode r s = Some (h_ns_inode (rh_at (mem s)))" "rh_cgroup_hash r s = Some (h_cgroup_hash (rh_at (mem s)))"
    using m(2) off
    by (simp_all add: rh_magic_def rh_version_def rh_ns_inode_def rh_cgroup_hash_def rd32_def rd64_def in_map_def
        region_off_rh rh_at_def)
  then show ?thesis
    by (auto simp: admit_def admission_def fingerprint_ok_def Let_def cg)
qed

section \<open>Opening a region\<close>

definition default_opts :: shm_region_open_opts where
  "default_opts = \<lparr>op_backend = SHM_BACKEND_POSIX, op_flags = 0, op_dir_capacity = 0, op_mode = 0\<rparr>"

lemma open_default_opts: "shm_region_open os name sz None out s = shm_region_open os name sz (Some default_opts) out s"
  by (simp add: shm_region_open_def default_opts_def split: option.splits)

definition opts_creating :: "shm_region_open_opts \<Rightarrow> bool" where
  "opts_creating p \<longleftrightarrow> op_flags p AND SHM_OPEN_CREATE \<noteq> 0"

definition opts_capacity :: "shm_region_open_opts \<Rightarrow> u32" where
  "opts_capacity p = (if op_dir_capacity p = 0 then DIR_CAP_DEFAULT else op_dir_capacity p)"

definition opts_mode :: "shm_region_open_opts \<Rightarrow> u32" where
  "opts_mode p = (if op_mode p = 0 then 432 else op_mode p)"

text \<open>The calls of an open with these options succeed and yield the mapping of \<open>r\<close>.\<close>

definition grants :: "os \<Rightarrow> u64 \<Rightarrow> shm_region_open_opts \<Rightarrow> shm_region \<Rightarrow> bool" where
  "grants os asked p r \<longleftrightarrow>
     os_calloc os \<and> os_strdup os \<and> rcreator r = opts_creating p \<and> rbackend r = op_backend p \<and> 4096 \<le> rsize r \<and>
     (if op_backend p = SHM_BACKEND_POSIX
      then os_shm_open os (rname r) (opts_creating p) (opts_mode p) = Inr (rfd r) \<and>
           (if opts_creating p then rsize r = asked \<and> os_ftruncate os (rfd r) asked = None
            else os_fstat os (rfd r) = Inr (rsize r))
      else os_open os (rname r) = Inr (rfd r) \<and> rsize r = asked) \<and>
     os_mmap os (rsize r) (rfd r) = Inr (rbase r)"

lemma grants_mapped: "os_ok os \<Longrightarrow> grants os asked p r \<Longrightarrow> mapped r \<and> 4096 \<le> unat (rsize r)"
  using os_okD(8) [of os "rsize r" "rfd r" "rbase r"]
  by (auto simp: grants_def mapped_def word_le_nat_alt)

lemma open_granted:
  assumes g: "grants os asked p r"
  shows "\<exists>log. shm_region_open os (Some (rname r)) asked (Some p) True s =
     map_option (\<lambda>(rc, out, log', s). (rc, out, log @ log', s)) (open_mapped os r s (op_flags p) (opts_capacity p))"
proof -
  have h: "alloc_handle os = (None, [Acquire Handle, Acquire Name_copy])"
    using g by (simp add: grants_def alloc_handle_def)
  have nl: "\<not> rsize r < 4096"
    using g by (simp add: grants_def not_less)
  obtain log2 where d: "(if op_backend p = SHM_BACKEND_POSIX
      then open_posix os (rname r) asked (opts_creating p) (opts_mode p)
      else open_dax os (rname r) asked) = (Inr (rfd r, rsize r), log2)"
    using g nl by (auto simp: grants_def open_posix_def open_dax_def Let_def split: if_splits)
  have m: "map_object os (rname r) (op_backend p) (opts_creating p) (rfd r) (rsize r) =
      (Inr (rbase r), [Acquire (Mapping (rbase r) (rsize r))])"
    using g by (auto simp: grants_def map_object_def Let_def)
  have r: "\<lparr>rname = rname r, rfd = rfd r, rbase = rbase r, rsize = rsize r, rcreator = opts_creating p,
      rbackend = op_backend p\<rparr> = r"
    using g by (simp add: grants_def)
  show ?thesis
    unfolding shm_region_open_def option.case simp_thms if_False Let_def
      opts_creating_def [symmetric] opts_capacity_def [symmetric] opts_mode_def [symmetric] h d m r prod.case sum.case
    by (rule exI [of _ "[Acquire Handle, Acquire Name_copy] @ log2 @ [Acquire (Mapping (rbase r) (rsize r))]"])
      (cases "open_mapped os r s (op_flags p) (opts_capacity p)"; simp split: prod.split)
qed

lemma runs_open_granted:
  assumes "grants os asked p r"
    and "runs (open_mapped os r s (op_flags p) (opts_capacity p)) (\<lambda>(rc, out, _, s'). Q rc out s')"
  shows "runs (shm_region_open os (Some (rname r)) asked (Some p) True s) (\<lambda>(rc, out, _, s'). Q rc out s')"
proof -
  obtain log where "shm_region_open os (Some (rname r)) asked (Some p) True s =
     map_option (\<lambda>(rc, out, log', s). (rc, out, log @ log', s)) (open_mapped os r s (op_flags p) (opts_capacity p))"
    using open_granted [OF assms(1)] by blast
  then show ?thesis
    using assms(2) by (auto simp: runs_iff)
qed

lemma open_create_refines:
  assumes ok: "os_ok os" and g: "grants os asked p r" and c: "opts_creating p"
    and fit: "256 + 96 * unat (opts_capacity p) \<le> unat (rsize r)"
    and cg: "shm_ns_cgroup_hash (os_cgroup_open os) (os_cgroup_read os) = Some my_cg"
  shows "runs (shm_region_open os (Some (rname r)) asked (Some p) True s)
    (\<lambda>(rc, out, _, s'). rc = OK \<and> out = Some r \<and> mutex s' = MUnlocked \<and>
       pool_inv r s' ((init_rh (rsize r) (rbackend r) (opts_capacity p) 1 (shm_ns_ipc_inode (os_ns_stat os)) my_cg)
           \<lparr>h_host_count := 1\<rparr>)
         (init_blocks (unat (rsize r) - (200 + 96 * unat (opts_capacity p)))) (replicate (unat (opts_capacity p)) zero_ent))"
proof (rule runs_open_granted [OF g])
  let ?R = "init_rh (rsize r) (rbackend r) (opts_capacity p) 1 (shm_ns_ipc_inode (os_ns_stat os)) my_cg"
  have m: "mapped r" and cr: "rcreator r"
    using grants_mapped [OF ok g] g c by (auto simp: grants_def)
  have "runs (region_init r s (rsize r) (rbackend r) (opts_capacity p) (Some (rname r)) (shm_ns_ipc_inode (os_ns_stat os)) my_cg)
    (\<lambda>s'. runs (host_attach r s') (\<lambda>s''. pool_inv r s'' (?R\<lparr>h_host_count := 1\<rparr>)
       (init_blocks (unat (rsize r) - (200 + 96 * unat (opts_capacity p)))) (replicate (unat (opts_capacity p)) zero_ent) \<and>
       mutex s'' = MUnlocked))"
  proof (rule runs_mono [OF region_init_inv [OF m fit]], elim conjE)
    fix s' assume "pool_inv r s' ?R (init_blocks (unat (rsize r) - (200 + 96 * unat (opts_capacity p))))
        (replicate (unat (opts_capacity p)) zero_ent)" "mutex s' = MUnlocked"
    note h = host_attach_refines [OF this(1) iffD2 [OF lockable_def disjI1 [OF this(2)]]]
    show "runs (host_attach r s') (\<lambda>s''. pool_inv r s'' (?R\<lparr>h_host_count := 1\<rparr>)
       (init_blocks (unat (rsize r) - (200 + 96 * unat (opts_capacity p)))) (replicate (unat (opts_capacity p)) zero_ent) \<and>
       mutex s'' = MUnlocked)"
      by (rule runs_mono [OF h]) (simp add: init_rh_def)
  qed
  then show "runs (open_mapped os r s (op_flags p) (opts_capacity p)) (\<lambda>(rc, out, _, s'). rc = OK \<and> out = Some r \<and>
       mutex s' = MUnlocked \<and> pool_inv r s' (?R\<lparr>h_host_count := 1\<rparr>)
         (init_blocks (unat (rsize r) - (200 + 96 * unat (opts_capacity p)))) (replicate (unat (opts_capacity p)) zero_ent))"
    by (simp add: open_mapped_def cr cg conj_commute)
qed

text \<open>On a shared memory object of any contents, pool or not, an attach changes the host count alone.\<close>

lemma host_attach_any:
  assumes m: "mapped r" "200 \<le> unat (rsize r)" and lk: "lockable s"
  shows "runs (host_attach r s) (\<lambda>s'. mutex s' = MUnlocked \<and> cmode s' = cmode s \<and>
    mem s' = put32 (mem s) 56 (h_host_count (rh_at (mem s)) + 1))"
proof -
  let ?s1 = "s\<lparr>mutex := MLocked\<rparr>" and ?v = "h_host_count (rh_at (mem s)) + 1"
  let ?s2 = "?s1\<lparr>mem := put32 (mem s) 56 ?v\<rparr>"
  have off: "region_off r (shm_rh r + 56) = 56"
    by (rule region_off_rh_field) simp
  have in_hdr: "in_map r (shm_rh r + 56) 4"
    using m(2) by (simp add: in_map_def off)
  have lock: "region_lock r s = Some (OK, ?s1)"
    using m lk by (rule region_lock_lockable)
  have ld: "rh_host_count r ?s1 = Some (h_host_count (rh_at (mem s)))"
    using in_hdr by (simp add: rh_host_count_def rd32_def off rh_at_def)
  have set: "set_rh_host_count r ?s1 ?v = Some ?s2"
    using in_hdr by (simp add: set_rh_host_count_def wr32_def off)
  have unlock: "region_unlock r (shm_drain s') = Some ((shm_drain s')\<lparr>mutex := MUnlocked\<rparr>)" if "mutex s' = MLocked" for s'
    using that by (intro region_unlock_locked m) simp
  show ?thesis
    unfolding host_attach_def lock Option.bind_lunit prod.case ld set runs_bind Let_def
    by (rule wp_persist_any [OF m(1)]) (use m off in \<open>simp_all add: unlock\<close>)
qed

lemma open_attach_any:
  assumes ok: "os_ok os" and g: "grants os asked p r" and c: "\<not> opts_creating p"
    and cg: "shm_ns_cgroup_hash (os_cgroup_open os) (os_cgroup_read os) = Some my_cg"
    and lk: "admission (shm_ns_ipc_inode (os_ns_stat os)) my_cg (rh_at (mem s)) (op_flags p) = OK \<Longrightarrow> lockable s"
  shows "runs (shm_region_open os (Some (rname r)) asked (Some p) True s)
    (\<lambda>(rc, out, _, s'). rc = admission (shm_ns_ipc_inode (os_ns_stat os)) my_cg (rh_at (mem s)) (op_flags p) \<and>
       (if rc = OK
        then out = Some r \<and> mutex s' = MUnlocked \<and> cmode s' = cmode s \<and>
          mem s' = put32 (mem s) 56 (h_host_count (rh_at (mem s)) + 1)
        else out = None \<and> s' = s))"
proof (rule runs_open_granted [OF g])
  have m: "mapped r" "200 \<le> unat (rsize r)" and cr: "\<not> rcreator r"
    using grants_mapped [OF ok g] g c by (auto simp: grants_def)
  show "runs (open_mapped os r s (op_flags p) (opts_capacity p)) (\<lambda>(rc, out, _, s').
       rc = admission (shm_ns_ipc_inode (os_ns_stat os)) my_cg (rh_at (mem s)) (op_flags p) \<and>
       (if rc = OK
        then out = Some r \<and> mutex s' = MUnlocked \<and> cmode s' = cmode s \<and>
          mem s' = put32 (mem s) 56 (h_host_count (rh_at (mem s)) + 1)
        else out = None \<and> s' = s))"
    using host_attach_any [OF m lk]
    by (auto simp: open_mapped_def cr admit_eq [OF m cg] elim: runs_mono)
qed

text \<open>On a pool it leaves a pool.\<close>

lemma host_count_pool:
  assumes inv: "pool_inv r\<^sub>0 s R bs es" "rsize r\<^sub>0 = rsize r" and m: "mapped r" and lk: "lockable s"
    and s': "mem s' = put32 (mem s) 56 (h_host_count (rh_at (mem s)) + 1)"
  shows "pool_inv r s' (R\<lparr>h_host_count := h_host_count R + 1\<rparr>) bs es"
proof -
  have inv': "pool_inv r s R bs es"
    using inv m by (intro pool_inv_bytes [OF inv(1)]) simp_all
  have m2: "200 \<le> unat (rsize r)"
    using pool_invD(7) [OF inv'] .
  obtain s2 where s2: "pool_inv r s2 (R\<lparr>h_host_count := h_host_count R + 1\<rparr>) bs es" "mem s2 = mem s'"
    using host_attach_refines [OF inv' lk] host_attach_any [OF m m2 lk] unfolding s' by (auto simp: runs_iff)
  then show ?thesis
    using m by (intro pool_inv_bytes [OF s2(1)]) simp_all
qed

text \<open>A creating open that asks for less than a page removes the name, also when it was there before.\<close>

lemma small_create_unlinks:
  assumes "os_calloc os" "os_strdup os" "os_shm_open os nm True (opts_mode p) = Inr fd"
    and "op_backend p = SHM_BACKEND_POSIX" "opts_creating p" "asked < 4096"
  shows "\<exists>log. shm_region_open os (Some nm) asked (Some p) True s = Some (EINVAL, None, log, s) \<and>
     Unlink nm \<in> set log \<and> (\<forall>fd n. Truncate fd n \<notin> set log)"
proof -
  have "\<not> 4096 \<le> asked"
    using assms(6) by simp
  then show ?thesis
    using assms
    by (simp add: shm_region_open_def Let_def opts_creating_def opts_mode_def alloc_handle_def open_posix_def
        map_object_def unlink_created_def free_handle_def split: if_splits)
qed

end
