(* ===== verification/Shm_Cap.thy ===== *)
theory Shm_Cap
  imports Shm_Api
begin

text \<open>
  The software capabilities of \<open>src/src/shm_cap.c\<close> and \<open>src/include/shm_cap.h\<close>: packing
  and unpacking of the meta word, derivation, the dereference with its seven checks, narrowing,
  and the accessors.

  The fields of the meta word share the contract \<open>meta_field\<close>. On a region that satisfies the
  pool invariant, \<open>shm_cap_derive\<close> and \<open>shm_cap_deref\<close> are described by the block behind
  the offset.
\<close>

section \<open>The meta word\<close>

definition SHM_CAP_META_PERMS_SHIFT :: nat where "SHM_CAP_META_PERMS_SHIFT = 56"
definition SHM_CAP_META_OWNER_SHIFT :: nat where "SHM_CAP_META_OWNER_SHIFT = 48"
definition SHM_CAP_META_EPOCH_SHIFT :: nat where "SHM_CAP_META_EPOCH_SHIFT = 32"
definition SHM_CAP_META_BOUNDS_SHIFT :: nat where "SHM_CAP_META_BOUNDS_SHIFT = 0"

definition SHM_CAP_META_PERMS_MASK :: u64 where
  "SHM_CAP_META_PERMS_MASK = push_bit SHM_CAP_META_PERMS_SHIFT 0xFF"
definition SHM_CAP_META_EPOCH_MASK :: u64 where
  "SHM_CAP_META_EPOCH_MASK = push_bit SHM_CAP_META_EPOCH_SHIFT 0xFFFF"
definition SHM_CAP_META_BOUNDS_MASK :: u64 where
  "SHM_CAP_META_BOUNDS_MASK = 0xFFFFFFFF"

lemmas meta_defs =
  SHM_CAP_META_PERMS_SHIFT_def SHM_CAP_META_OWNER_SHIFT_def SHM_CAP_META_EPOCH_SHIFT_def
  SHM_CAP_META_BOUNDS_SHIFT_def SHM_CAP_META_PERMS_MASK_def SHM_CAP_META_EPOCH_MASK_def
  SHM_CAP_META_BOUNDS_MASK_def

definition cap_meta_pack :: "u8 \<Rightarrow> u8 \<Rightarrow> u16 \<Rightarrow> u32 \<Rightarrow> u64" where
  "cap_meta_pack perms owner_lo epoch bounds =
     push_bit SHM_CAP_META_PERMS_SHIFT (ucast perms)
     OR push_bit SHM_CAP_META_OWNER_SHIFT (ucast owner_lo)
     OR push_bit SHM_CAP_META_EPOCH_SHIFT (ucast epoch)
     OR push_bit SHM_CAP_META_BOUNDS_SHIFT (ucast bounds)"

definition meta_perms :: "u64 \<Rightarrow> u8" where
  "meta_perms meta = ucast (drop_bit SHM_CAP_META_PERMS_SHIFT (meta AND SHM_CAP_META_PERMS_MASK))"

definition meta_epoch :: "u64 \<Rightarrow> u16" where
  "meta_epoch meta = ucast (drop_bit SHM_CAP_META_EPOCH_SHIFT (meta AND SHM_CAP_META_EPOCH_MASK))"

definition meta_bounds :: "u64 \<Rightarrow> u32" where
  "meta_bounds meta = ucast (meta AND SHM_CAP_META_BOUNDS_MASK)"

section \<open>Capabilities\<close>

record shm_cap =
  addr :: u64
  meta :: u64

definition SHM_CAP_NULL :: shm_cap where
  "SHM_CAP_NULL = \<lparr>addr = 0, meta = 0\<rparr>"

definition shm_cap_is_null :: "shm_cap \<Rightarrow> bool" where
  "shm_cap_is_null cap \<longleftrightarrow> addr cap = 0 \<and> meta cap = 0"

definition shm_cap_derive ::
    "shm_region option \<Rightarrow> machine \<Rightarrow> u64 \<Rightarrow> u32 \<Rightarrow> u32 \<Rightarrow> u32 \<Rightarrow> shm_cap option" where
  "shm_cap_derive region s off user_id caller_perms grant_perms =
     (case region of
        None \<Rightarrow> Some SHM_CAP_NULL
      | Some r \<Rightarrow> do {
          b \<leftarrow> shm_blk_of_poff r s off;
          if b = 0 then Some SHM_CAP_NULL
          else do {
            magic \<leftarrow> blk_magic r s b;
            if magic \<noteq> SHM_ALLOC_MAGIC_BLOCK then Some SHM_CAP_NULL
            else do {
              allocated \<leftarrow> blk_allocated r s b;
              if allocated = 0 then Some SHM_CAP_NULL
              else do {
                owner \<leftarrow> blk_owner r s b;
                if caller_perms AND SHM_PERM_ADMIN = 0 \<and> user_id \<noteq> owner then Some SHM_CAP_NULL
                else do {
                  perms \<leftarrow> blk_perms r s b;
                  let available = perms AND caller_perms;
                  if grant_perms AND available \<noteq> grant_perms then Some SHM_CAP_NULL
                  else do {
                    cap \<leftarrow> blk_payload_cap r s b;
                    if 0xFFFFFFFF < cap then Some SHM_CAP_NULL
                    else do {
                      id \<leftarrow> blk_obj_id r s b;
                      Some \<lparr>addr = off,
                        meta = cap_meta_pack (ucast (grant_perms AND 0xFF)) (ucast (owner AND 0xFF))
                                 (ucast (id AND 0xFFFF)) (ucast cap)\<rparr> } } } } } } })"

definition shm_cap_deref :: "shm_region option \<Rightarrow> machine \<Rightarrow> shm_cap \<Rightarrow> u32 \<Rightarrow> u64 option" where
  "shm_cap_deref region s cap required_perms =
     (if shm_cap_is_null cap then Some 0
      else case region of
        None \<Rightarrow> Some 0
      | Some r \<Rightarrow> do {
          b \<leftarrow> shm_blk_of_poff r s (addr cap);
          if b = 0 then Some 0
          else do {
            magic \<leftarrow> blk_magic r s b;
            if magic \<noteq> SHM_ALLOC_MAGIC_BLOCK then Some 0
            else do {
              allocated \<leftarrow> blk_allocated r s b;
              if allocated = 0 then Some 0
              else do {
                id \<leftarrow> blk_obj_id r s b;
                let live_epoch = (ucast (id AND 0xFFFF) :: u16);
                if live_epoch \<noteq> meta_epoch (meta cap) then Some 0
                else do {
                  pcap \<leftarrow> blk_payload_cap r s b;
                  if (ucast pcap :: u32) \<noteq> meta_bounds (meta cap) then Some 0
                  else do {
                    let cap_perms = (ucast (meta_perms (meta cap)) :: u32);
                    if cap_perms AND required_perms \<noteq> required_perms then Some 0
                    else do {
                      perms \<leftarrow> blk_perms r s b;
                      if perms AND required_perms \<noteq> required_perms then Some 0
                      else Some (b + SIZEOF_BLOCK_HDR) } } } } } } })"

definition shm_cap_narrow :: "shm_cap \<Rightarrow> u32 \<Rightarrow> shm_cap" where
  "shm_cap_narrow cap new_perms =
     (if shm_cap_is_null cap then SHM_CAP_NULL
      else let current = (ucast (meta_perms (meta cap)) :: u32)
      in if new_perms AND current \<noteq> new_perms then SHM_CAP_NULL
      else let new_meta = (meta cap AND NOT SHM_CAP_META_PERMS_MASK)
                 OR push_bit SHM_CAP_META_PERMS_SHIFT (ucast (new_perms AND 0xFF))
      in \<lparr>addr = addr cap, meta = new_meta\<rparr>)"

definition shm_cap_is_valid :: "shm_region option \<Rightarrow> machine \<Rightarrow> shm_cap \<Rightarrow> bool option" where
  "shm_cap_is_valid region s cap =
     (if shm_cap_is_null cap then Some False
      else case region of
        None \<Rightarrow> Some False
      | Some r \<Rightarrow> do {
          b \<leftarrow> shm_blk_of_poff r s (addr cap);
          if b = 0 then Some False
          else do {
            magic \<leftarrow> blk_magic r s b;
            if magic \<noteq> SHM_ALLOC_MAGIC_BLOCK then Some False
            else do {
              allocated \<leftarrow> blk_allocated r s b;
              if allocated = 0 then Some False
              else do {
                id \<leftarrow> blk_obj_id r s b;
                if (ucast (id AND 0xFFFF) :: u16) \<noteq> meta_epoch (meta cap) then Some False
                else do {
                  pcap \<leftarrow> blk_payload_cap r s b;
                  if (ucast pcap :: u32) \<noteq> meta_bounds (meta cap) then Some False
                  else Some True } } } } })"

definition shm_cap_perms :: "shm_cap \<Rightarrow> u32" where
  "shm_cap_perms cap = ucast (meta_perms (meta cap))"

definition shm_cap_bounds :: "shm_cap \<Rightarrow> u64" where
  "shm_cap_bounds cap = ucast (meta_bounds (meta cap))"

definition shm_cap_offset :: "shm_cap \<Rightarrow> u64" where
  "shm_cap_offset cap = addr cap"

definition shm_cap_epoch :: "shm_cap \<Rightarrow> u16" where
  "shm_cap_epoch cap = meta_epoch (meta cap)"

section \<open>Fields of the meta word\<close>

text \<open>
  A field of \<open>LENGTH('f)\<close> bits at position \<open>k\<close>: bit \<open>i\<close> of the field is bit
  \<open>k + i\<close> of the word.
\<close>

locale meta_field =
  fixes k :: nat and get :: "u64 \<Rightarrow> 'f::len word"
  assumes bit_get: "bit (get m) i \<longleftrightarrow> i < LENGTH('f) \<and> bit m (k + i)"
begin

lemma get_eqI: "(\<And>i. i < LENGTH('f) \<Longrightarrow> bit m (k + i) = bit m' (k + i)) \<Longrightarrow> get m = get m'"
  by (rule bit_word_eqI) (simp add: bit_get)

lemma get_of_bits:
  assumes "\<And>i. i < LENGTH('f) \<Longrightarrow> bit m (k + i) = bit v i"
  shows "get m = v"
  by (rule bit_word_eqI) (simp add: bit_get assms)

text \<open>Writing other bit positions leaves the field alone.\<close>

lemma get_frame:
  assumes "\<And>j. bit m' j \<noteq> bit m j \<Longrightarrow> j < k \<or> k + LENGTH('f) \<le> j"
  shows "get m' = get m"
  by (rule get_eqI) (use assms in fastforce)

end

lemma meta_masks:
  "SHM_CAP_META_PERMS_MASK = push_bit 56 (mask 8)" "SHM_CAP_META_EPOCH_MASK = push_bit 32 (mask 16)"
  "SHM_CAP_META_BOUNDS_MASK = mask 32"
  by (simp_all add: meta_defs mask_eq_exp_minus_1)

interpretation perms_field: meta_field 56 meta_perms
  by unfold_locales (auto simp: meta_perms_def meta_masks SHM_CAP_META_PERMS_SHIFT_def bit_simps)

interpretation epoch_field: meta_field 32 meta_epoch
  by unfold_locales (auto simp: meta_epoch_def meta_masks SHM_CAP_META_EPOCH_SHIFT_def bit_simps)

interpretation bounds_field: meta_field 0 meta_bounds
  by unfold_locales (auto simp: meta_bounds_def meta_masks bit_simps)

lemma bit_cap_meta_pack:
  "bit (cap_meta_pack p ow e b) i \<longleftrightarrow>
     i < 64 \<and> (if i < 32 then bit b i else if i < 48 then bit e (i - 32)
               else if i < 56 then bit ow (i - 48) else bit p (i - 56))"
  by (auto simp: cap_meta_pack_def meta_defs bit_simps not_less dest: bit_imp_le_length)

lemma meta_pack_fields:
  "meta_perms (cap_meta_pack p ow e b) = p" "meta_epoch (cap_meta_pack p ow e b) = e"
  "meta_bounds (cap_meta_pack p ow e b) = b"
  by (rule perms_field.get_of_bits epoch_field.get_of_bits bounds_field.get_of_bits;
      simp add: bit_cap_meta_pack)+

lemma ucast_low [simp]:
  "(ucast (x AND 0xFF :: u32) :: u8) = ucast x" "(ucast (y AND 0xFFFF :: u64) :: u16) = ucast y"
proof -
  have e: "(0xFF :: u32) = mask 8" "(0xFFFF :: u64) = mask 16"
    by (simp_all add: mask_eq_exp_minus_1)
  show "(ucast (x AND 0xFF :: u32) :: u8) = ucast x" "(ucast (y AND 0xFFFF :: u64) :: u16) = ucast y"
    unfolding e by (rule bit_word_eqI; simp add: bit_simps)+
qed

section \<open>Narrowing\<close>

text \<open>A mask within an unpacked permission byte has no higher bits.\<close>

lemma narrow_bits:
  fixes np :: u32 and p :: u8
  assumes "np AND ucast p = np"
  shows "bit np i \<Longrightarrow> i < 8 \<and> bit p i" "(ucast (ucast np :: u8) :: u32) = np"
proof -
  have b: "bit np i \<Longrightarrow> i < 8 \<and> bit p i" for i
  proof -
    assume "bit np i"
    then have "bit (np AND ucast p) i"
      by (simp only: assms)
    then show "i < 8 \<and> bit p i"
      by (auto simp: bit_simps dest: bit_imp_le_length)
  qed
  then show "bit np i \<Longrightarrow> i < 8 \<and> bit p i" .
  show "(ucast (ucast np :: u8) :: u32) = np"
    by (rule bit_word_eqI) (auto simp: bit_simps dest: b)
qed

lemma narrowed_meta_bits:
  "bit ((m AND NOT SHM_CAP_META_PERMS_MASK) OR push_bit SHM_CAP_META_PERMS_SHIFT (ucast (np AND 0xFF :: u32))) i \<longleftrightarrow>
     (if i < 56 then bit m i else i < 64 \<and> bit np (i - 56))"
proof -
  have e: "(0xFF :: u32) = mask 8"
    by (simp add: mask_eq_exp_minus_1)
  show ?thesis
    unfolding e by (auto simp: meta_masks SHM_CAP_META_PERMS_SHIFT_def bit_simps dest: bit_imp_le_length)
qed

lemma narrow_fields:
  assumes "\<not> shm_cap_is_null cap" "np AND shm_cap_perms cap = np"
  shows "shm_cap_perms (shm_cap_narrow cap np) = np"
    and "shm_cap_offset (shm_cap_narrow cap np) = shm_cap_offset cap"
    and "shm_cap_epoch (shm_cap_narrow cap np) = shm_cap_epoch cap"
    and "shm_cap_bounds (shm_cap_narrow cap np) = shm_cap_bounds cap"
proof -
  let ?m = "(meta cap AND NOT SHM_CAP_META_PERMS_MASK) OR push_bit SHM_CAP_META_PERMS_SHIFT (ucast (np AND 0xFF))"
  have sub: "np AND ucast (meta_perms (meta cap)) = np"
    using assms(2) by (simp add: shm_cap_perms_def)
  have n: "shm_cap_narrow cap np = \<lparr>addr = addr cap, meta = ?m\<rparr>"
    using assms(1) sub by (simp only: shm_cap_narrow_def Let_def if_False not_True_eq_False simp_thms)
  have "meta_perms ?m = ucast np"
    by (rule perms_field.get_of_bits) (simp only: narrowed_meta_bits, simp add: bit_simps)
  then show "shm_cap_perms (shm_cap_narrow cap np) = np"
    using narrow_bits(2) [OF sub] by (simp only: shm_cap_perms_def n shm_cap.select_convs)
  show "shm_cap_offset (shm_cap_narrow cap np) = shm_cap_offset cap"
    by (simp only: n shm_cap_offset_def shm_cap.select_convs)
  have "meta_epoch ?m = meta_epoch (meta cap)"
    by (rule epoch_field.get_frame) (use narrowed_meta_bits in \<open>auto split: if_splits\<close>)
  then show "shm_cap_epoch (shm_cap_narrow cap np) = shm_cap_epoch cap"
    by (simp only: n shm_cap_epoch_def shm_cap.select_convs)
  have "meta_bounds ?m = meta_bounds (meta cap)"
    by (rule bounds_field.get_frame) (use narrowed_meta_bits in \<open>auto split: if_splits\<close>)
  then show "shm_cap_bounds (shm_cap_narrow cap np) = shm_cap_bounds cap"
    by (simp only: n shm_cap_bounds_def shm_cap.select_convs)
qed

lemma narrow_refused:
  "np AND shm_cap_perms cap \<noteq> np \<Longrightarrow> shm_cap_narrow cap np = SHM_CAP_NULL"
  by (simp add: shm_cap_narrow_def shm_cap_perms_def Let_def)

lemma cap_null_fields [simp]:
  "shm_cap_is_null SHM_CAP_NULL" "shm_cap_perms SHM_CAP_NULL = 0"
  by (simp_all add: shm_cap_is_null_def SHM_CAP_NULL_def shm_cap_perms_def meta_perms_def)

section \<open>Derivation and dereference on a block\<close>

definition cap_of :: "nat \<Rightarrow> nat \<Rightarrow> owner_info \<Rightarrow> u32 \<Rightarrow> shm_cap" where
  "cap_of off cap oi grant =
     \<lparr>addr = of_nat off,
      meta = cap_meta_pack (ucast grant) (ucast (o_owner oi)) (ucast (o_id oi)) (of_nat cap)\<rparr>"

definition derive_ok :: "owner_info \<Rightarrow> nat \<Rightarrow> u32 \<Rightarrow> u32 \<Rightarrow> u32 \<Rightarrow> bool" where
  "derive_ok oi cap user cp grant \<longleftrightarrow>
     (cp AND SHM_PERM_ADMIN \<noteq> 0 \<or> user = o_owner oi) \<and>
     grant AND (o_perms oi AND cp) = grant \<and> cap < 2 ^ 32"

lemma ucast_of_nat64: "(ucast (of_nat n :: u64) :: u32) = of_nat n"
proof -
  have "unat (ucast (of_nat n :: u64) :: u32) = n mod 2 ^ 64 mod 2 ^ 32"
    by (simp add: unsigned_ucast_eq take_bit_eq_mod unat_of_nat)
  also have "\<dots> = n mod 2 ^ 32" by (rule mod_mod_cancel) (simp add: le_imp_power_dvd)
  finally show ?thesis by (simp add: word_unat_eq_iff unat_of_nat)
qed

lemma shm_cap_derive_eq:
  assumes h: "heap_rep r s R (xs @ b # ys)"
  shows "shm_cap_derive (Some r) s (of_nat (span xs + 56)) user cp grant =
    Some (case aown b of
        None \<Rightarrow> SHM_CAP_NULL
      | Some oi \<Rightarrow> if derive_ok oi (acap b) user cp grant then cap_of (span xs + 56) (acap b) oi grant else SHM_CAP_NULL)"
proof -
  obtain H where H: "hview r s s (set (starts 0 (xs @ b # ys))) H R" "span xs \<in> set (starts 0 (xs @ b # ys))"
    "blk_ok (H (span xs)) b"
    using h by (rule heap_rep_block)
  have cap: "b_payload_cap (H (span xs)) = of_nat (acap b)" "acap b < 2 ^ 64"
    using H(3) unat64_bound [of "b_payload_cap (H (span xs))"]
    by (auto intro!: unat64_eqD simp: blk_ok_def sizes_ok_def)
  have big: "(0xFFFFFFFF :: u64) < of_nat (acap b) \<longleftrightarrow> \<not> acap b < 2 ^ 32"
    using of_nat64_less_iff [of "0xFFFFFFFF" "acap b"] cap(2) by auto
  note loads = hview_blk_loads [OF H(1,2) refl]
  show ?thesis
  proof (cases "aown b")
    case None
    then have "b_allocated (H (span xs)) = 0"
      using H(3) by (simp add: blk_ok_def owner_ok_simps)
    then show ?thesis
      using None H(3) loads bp_nonzero [OF H(1,2) refl]
      by (simp add: shm_cap_derive_def blk_of_poff_eq [OF h] blk_ok_def sizes_ok_def del: of_nat_add)
  next
    case (Some oi)
    then have o: "b_allocated (H (span xs)) = 1" "b_obj_id (H (span xs)) = o_id oi" "b_owner (H (span xs)) = o_owner oi"
      "b_perms (H (span xs)) = o_perms oi" "b_magic (H (span xs)) = SHM_ALLOC_MAGIC_BLOCK"
      using H(3) by (simp_all add: blk_ok_def owner_ok_simps sizes_ok_def)
    show ?thesis
      using Some loads bp_nonzero [OF H(1,2) refl] o cap(1) big
      by (simp add: shm_cap_derive_def blk_of_poff_eq [OF h] Let_def derive_ok_def cap_of_def ucast_of_nat64
          del: of_nat_add)
  qed
qed

definition deref_ok :: "owner_info \<Rightarrow> nat \<Rightarrow> shm_cap \<Rightarrow> u32 \<Rightarrow> bool" where
  "deref_ok oi pcap cap req \<longleftrightarrow>
     ucast (o_id oi) = shm_cap_epoch cap \<and> (of_nat pcap :: u32) = meta_bounds (meta cap) \<and>
     shm_cap_perms cap AND req = req \<and> o_perms oi AND req = req"

lemma shm_cap_deref_eq:
  assumes h: "heap_rep r s R (xs @ b # ys)" and a: "addr cap = of_nat (span xs + 56)" and nn: "\<not> shm_cap_is_null cap"
  shows "shm_cap_deref (Some r) s cap req =
    Some (case aown b of
        None \<Rightarrow> 0
      | Some oi \<Rightarrow> if deref_ok oi (acap b) cap req then payload_ptr r R (span xs) else 0)"
proof -
  obtain H where H: "hview r s s (set (starts 0 (xs @ b # ys))) H R" "span xs \<in> set (starts 0 (xs @ b # ys))"
    "blk_ok (H (span xs)) b"
    using h by (rule heap_rep_block)
  have cap: "b_payload_cap (H (span xs)) = of_nat (acap b)"
    using H(3) by (intro unat64_eqD) (simp add: blk_ok_def sizes_ok_def)
  note loads = hview_blk_loads [OF H(1,2) refl]
  show ?thesis
  proof (cases "aown b")
    case None
    then have "b_allocated (H (span xs)) = 0"
      using H(3) by (simp add: blk_ok_def owner_ok_simps)
    then show ?thesis
      using None H(3) loads bp_nonzero [OF H(1,2) refl] nn
      by (simp add: shm_cap_deref_def a blk_of_poff_eq [OF h] blk_ok_def sizes_ok_def del: of_nat_add)
  next
    case (Some oi)
    then have o: "b_allocated (H (span xs)) = 1" "b_obj_id (H (span xs)) = o_id oi" "b_perms (H (span xs)) = o_perms oi"
      "b_magic (H (span xs)) = SHM_ALLOC_MAGIC_BLOCK"
      using H(3) by (simp_all add: blk_ok_def owner_ok_simps sizes_ok_def)
    show ?thesis
      using Some loads bp_nonzero [OF H(1,2) refl] o cap nn
      by (simp add: shm_cap_deref_def a blk_of_poff_eq [OF h] Let_def deref_ok_def ucast_of_nat64 bp_payload
          shm_cap_epoch_def shm_cap_perms_def del: of_nat_add)
  qed
qed

lemma shm_cap_is_valid_eq:
  assumes h: "heap_rep r s R (xs @ b # ys)" and a: "addr cap = of_nat (span xs + 56)" and nn: "\<not> shm_cap_is_null cap"
  shows "shm_cap_is_valid (Some r) s cap =
    Some (case aown b of None \<Rightarrow> False | Some oi \<Rightarrow> deref_ok oi (acap b) cap 0)"
proof -
  obtain H where H: "hview r s s (set (starts 0 (xs @ b # ys))) H R" "span xs \<in> set (starts 0 (xs @ b # ys))"
    "blk_ok (H (span xs)) b"
    using h by (rule heap_rep_block)
  have cap: "b_payload_cap (H (span xs)) = of_nat (acap b)"
    using H(3) by (intro unat64_eqD) (simp add: blk_ok_def sizes_ok_def)
  show ?thesis
    using H(3) hview_blk_loads [OF H(1,2) refl] bp_nonzero [OF H(1,2) refl] nn cap
    by (simp add: shm_cap_is_valid_def a blk_of_poff_eq [OF h] deref_ok_def ucast_of_nat64 shm_cap_epoch_def
        blk_ok_def sizes_ok_def owner_ok_def del: of_nat_add split: option.splits)
qed

text \<open>A header that is not marked allocated refuses every capability, wherever it lies.\<close>

lemma deref_dead:
  assumes v: "hview r s s {} H R" and le: "unat (h_data_offset R) + h + 56 \<le> unat (rsize r)"
    and dead: "b_allocated (blk_at (mem s) (unat (h_data_offset R) + h)) = 0" and a: "addr cap = of_nat (h + 56)"
  shows "shm_cap_deref (Some r) s cap req = Some 0" "shm_cap_is_valid (Some r) s cap = Some False"
    "shm_ptr (Some r) s (of_nat (h + 56)) user cp req = Some 0"
proof -
  have "separated {h}"
    by (simp add: separated_def)
  then obtain H' where H': "hview r s s {h} H' R"
    using hview_insert [OF v _ le] by blast
  have al: "b_allocated (H' h) = 0"
    using hviewD(7) [OF H', of h] dead by simp
  note loads = hview_blk_loads [OF H' _ refl, of h, simplified]
  have p: "shm_blk_of_poff r s (of_nat (h + 56)) = Some (bp r (h_data_offset R) h)"
    using hview_ptrs(6) [OF H' refl] .
  show "shm_cap_deref (Some r) s cap req = Some 0"
    using loads al by (simp add: shm_cap_deref_def a p del: of_nat_add)
  show "shm_cap_is_valid (Some r) s cap = Some False"
    using loads al by (simp add: shm_cap_is_valid_def a p del: of_nat_add)
  show "shm_ptr (Some r) s (of_nat (h + 56)) user cp req = Some 0"
    using loads al by (simp add: shm_ptr_def p check_block_access_def del: of_nat_add)
qed

lemma cap_of_fields:
  "addr (cap_of off pcap oi grant) = of_nat off"
  "shm_cap_perms (cap_of off pcap oi grant) = ucast (ucast grant :: u8)"
  "shm_cap_epoch (cap_of off pcap oi grant) = ucast (o_id oi)"
  "meta_bounds (meta (cap_of off pcap oi grant)) = of_nat pcap"
  by (simp_all add: cap_of_def shm_cap_perms_def shm_cap_epoch_def meta_pack_fields)

end
