(* ===== verification/Shm_System.thy ===== *)
theory Shm_System
  imports Shm_Overrun Shm_Open Shm_Cap
begin

text \<open>
  Several processes on one region. Every process has its own handle, with the mapping at its own
  address; the operations that change the region run one after the other because they hold the
  mutex, so an execution is a sequence of \<open>pool_step\<close>s, each one call of some process that returns, a
  byte that a process stores into a payload through a pointer that \<open>shm_ptr\<close> gave it for writing, or
  the death of a process that holds the mutex and has not written yet. A death after the last write
  of a call and before the unlock leaves the same bytes as the call followed by such a death; deaths
  in between are the subject of \<open>Shm_Death\<close>. The history records the ids that
  \<open>shm_alloc\<close> returned and the ids that were freed.

  The lemmas: every reachable state satisfies the pool invariant and can be locked; an id is given
  out at most once; the live objects are those allocated and not freed; a freed id stays dead.
\<close>

section \<open>Stores into payloads\<close>

lemma starts_around:
  assumes "list_all wf_blk (xs @ b # ys)" "h \<in> set (starts 0 (xs @ b # ys))"
  shows "h \<le> span xs \<or> span xs + asz b \<le> h"
  using assms starts_le [of xs h 0] starts_ge [of h "span xs + asz b" ys] by auto

text \<open>The bytes that the invariant depends on: region header, directory and block headers.\<close>

definition meta_bytes :: "nat \<Rightarrow> ablk list \<Rightarrow> nat set" where
  "meta_bytes d bs = {..<d} \<union> hdr_bytes d (set (starts 0 bs))"

lemma pool_inv_meta:
  assumes inv: "pool_inv r s R bs es"
    and out: "\<And>a. a \<in> meta_bytes (unat (h_data_offset R)) bs \<Longrightarrow> mem s' a = mem s a"
  shows "pool_inv r s' R bs es"
proof -
  let ?d = "unat (h_data_offset R)"
  have h: "mapped r" "200 \<le> ?d" "rh_at (mem s) = R" "heap_shape (hdrs (mem s) ?d) R bs" "?d + span bs = unat (rsize r)"
    using pool_invD(1) [OF inv] unfolding heap_rep_bytes by simp_all
  have R: "rh_at (mem s') = R"
    unfolding h(3) [symmetric] using h(2) by (intro rh_at_cong out) (simp add: meta_bytes_def)
  have "heap_shape (hdrs (mem s') ?d) R bs = heap_shape (hdrs (mem s) ?d) R bs"
    by (rule heap_shape_cong, unfold hdrs_def, rule blk_at_cong, rule out) (auto simp: meta_bytes_def hdr_bytes_def)
  then have heap: "heap_rep r s' R bs"
    using h R unfolding heap_rep_bytes by simp
  have "dir_rep r s' R es"
    by (rule dir_rep_frame [OF pool_invD(2) [OF inv]]) (use out R in \<open>simp_all add: meta_bytes_def\<close>)
  with heap inv show ?thesis
    by (simp add: pool_inv_def)
qed

text \<open>In particular it does not depend on the bytes of any block behind its header.\<close>

lemma pool_inv_payload:
  assumes inv: "pool_inv r s R (xs @ b # ys) es" and d: "d = unat (h_data_offset R)"
    and out: "\<And>a. a < d + span xs + 56 \<or> d + span xs + asz b \<le> a \<Longrightarrow> mem s' a = mem s a"
  shows "pool_inv r s' R (xs @ b # ys) es"
proof (rule pool_inv_meta [OF inv], rule out)
  fix a assume a: "a \<in> meta_bytes (unat (h_data_offset R)) (xs @ b # ys)"
  have wf: "list_all wf_blk (xs @ b # ys)"
    using pool_invD(1) [OF inv] by (auto simp: heap_rep_bytes heap_shape_def dest: tiles_wf)
  then have "acap b + 56 \<le> asz b"
    by (simp add: wf_blk_def)
  then show "a < d + span xs + 56 \<or> d + span xs + asz b \<le> a"
    using a d starts_around [OF wf] by (force simp: meta_bytes_def hdr_bytes_def)
qed

section \<open>Histories and steps\<close>

record history =
  st :: machine
  issued :: "u64 list"
  released :: "u64 list"

text \<open>A handle whose mapping has the size of the region.\<close>

definition attached :: "u64 \<Rightarrow> shm_region \<Rightarrow> bool" where
  "attached n r \<longleftrightarrow> mapped r \<and> rsize r = n"

text \<open>
  What a step does with rights: nothing that needs any, or an action on the object with an id that needs
  a right, by a caller with a user id and claimed permissions.
\<close>

datatype act = Open_To_All | Uses u64 u32 u32 u32

text \<open>
  The steps. The side conditions: the size computation of an allocation or resize does not wrap and
  ids are left; \<open>shm_block_set_perms\<close> gets the offset of an object; a store goes through a
  pointer that \<open>shm_ptr\<close> gave for writing, to a byte below the capacity. A resize that faults is
  not a step: it does not return (\<open>shm_resize_outcome\<close> says when).
\<close>

inductive pool_act :: "u64 \<Rightarrow> act \<Rightarrow> history \<Rightarrow> history \<Rightarrow> bool" for n :: u64 where
  alloc: "attached n r \<Longrightarrow> psize \<noteq> 0 \<Longrightarrow> 56 \<le> unat (alloc_size psize) \<Longrightarrow>
     h_next_id (rh_at (mem (st h))) + 1 \<noteq> 0 \<Longrightarrow>
     shm_alloc (Some r) (st h) psize name user pm tag True True = Some (rc, out, s') \<Longrightarrow>
     pool_act n Open_To_All h
       (h\<lparr>st := s', issued := (case out of None \<Rightarrow> issued h | Some (i, off) \<Rightarrow> i # issued h)\<rparr>)"
| free: "attached n r \<Longrightarrow> shm_free (Some r) (st h) obj_id user cp = Some (rc, s') \<Longrightarrow>
     pool_act n (Uses obj_id SHM_PERM_FREE user cp) h
       (h\<lparr>st := s', released := (if rc = OK then obj_id # released h else released h)\<rparr>)"
| resize: "attached n r \<Longrightarrow> obj_id \<noteq> 0 \<Longrightarrow> new_size \<noteq> 0 \<Longrightarrow> 56 \<le> unat (alloc_size new_size) \<Longrightarrow>
     shm_resize (Some r) (st h) obj_id new_size user cp = Some (rc, s') \<Longrightarrow>
     pool_act n (Uses obj_id SHM_PERM_RESIZE user cp) h (h\<lparr>st := s'\<rparr>)"
| set_perms: "attached n r \<Longrightarrow> pool_inv r (st h) R (xs @ b # ys) es \<Longrightarrow> aown b = Some oi \<Longrightarrow>
     shm_block_set_perms (Some r) (st h) (of_nat (span xs + 56)) user cp np = Some (rc, s') \<Longrightarrow>
     pool_act n (Uses (o_id oi) SHM_PERM_WRITE user cp) h (h\<lparr>st := s'\<rparr>)"
| lookup: "attached n r \<Longrightarrow> shm_lookup (Some r) (st h) obj_id user cp True True = Some (rc, off, used, s') \<Longrightarrow>
     pool_act n Open_To_All h (h\<lparr>st := s'\<rparr>)"
| attach: "attached n r \<Longrightarrow> host_attach r (st h) = Some s' \<Longrightarrow> pool_act n Open_To_All h (h\<lparr>st := s'\<rparr>)"
| detach: "attached n r \<Longrightarrow> shm_region_close (Some r) unlink (st h) = Some (log, s') \<Longrightarrow>
     pool_act n Open_To_All h (h\<lparr>st := s'\<rparr>)"
| store: "attached n r \<Longrightarrow> pool_inv r (st h) R (xs @ b # ys) es \<Longrightarrow> aown b = Some oi \<Longrightarrow>
     shm_ptr (Some r) (st h) (of_nat (span xs + 56)) user cp SHM_PERM_WRITE = Some p \<Longrightarrow> p \<noteq> 0 \<Longrightarrow>
     k < acap b \<Longrightarrow> wr8 r (st h) (p + of_nat k) v = Some s' \<Longrightarrow>
     pool_act n (Uses (o_id oi) SHM_PERM_WRITE user cp) h (h\<lparr>st := s'\<rparr>)"
| die: "mutex (st h) = MUnlocked \<Longrightarrow> pool_act n Open_To_All h (h\<lparr>st := (st h)\<lparr>mutex := MOwnerDead\<rparr>\<rparr>)"

inductive_cases pool_actE: "pool_act n a h h'"

definition pool_step :: "u64 \<Rightarrow> history \<Rightarrow> history \<Rightarrow> bool" where
  "pool_step n h h' \<longleftrightarrow> (\<exists>a. pool_act n a h h')"

text \<open>A fresh region, before the first call.\<close>

definition fresh :: "u64 \<Rightarrow> history \<Rightarrow> bool" where
  "fresh n h \<longleftrightarrow>
     (\<exists>r s backend cap name ns cg. attached n r \<and> 256 + 96 * unat cap \<le> unat n \<and>
        region_init r s n backend cap name ns cg = Some (st h)) \<and> issued h = [] \<and> released h = []"

definition reachable :: "u64 \<Rightarrow> history \<Rightarrow> bool" where
  "reachable n h \<longleftrightarrow> (\<exists>h0. fresh n h0 \<and> (pool_step n)\<^sup>*\<^sup>* h0 h)"

section \<open>The invariant of histories\<close>

definition live_ids :: "obj_entry list \<Rightarrow> u64 list" where
  "live_ids es = map e_id (filter live es)"

definition hist_ok :: "u64 list \<Rightarrow> u64 list \<Rightarrow> region_hdr \<Rightarrow> obj_entry list \<Rightarrow> bool" where
  "hist_ok is fs R es \<longleftrightarrow>
     mset is = mset (live_ids es) + mset fs \<and> distinct is \<and> (\<forall>i\<in>set is. i < h_next_id R)"

definition hist_inv :: "u64 \<Rightarrow> history \<Rightarrow> bool" where
  "hist_inv n h \<longleftrightarrow> lockable (st h) \<and>
     (\<exists>R bs es. (\<forall>r. attached n r \<longrightarrow> pool_inv r (st h) R bs es) \<and> hist_ok (issued h) (released h) R es)"

lemma pool_inv_attached:
  assumes "pool_inv r s R bs es" "attached n r" "attached n r'" "mem s' = mem s"
  shows "pool_inv r' s' R bs es"
  using assms by (intro pool_inv_bytes [OF assms(1)]) (simp_all add: attached_def)

text \<open>The representation of a state is unique as far as header and directory go.\<close>

lemma pool_inv_unique:
  assumes "pool_inv r s R bs es" "pool_inv r' s R' bs' es'"
  shows "R' = R" "es' = es"
proof -
  show R: "R' = R"
    using pool_invD(8) [OF assms(1)] pool_invD(8) [OF assms(2)] by simp
  show "es' = es"
    using pool_invD(2) [OF assms(1)] pool_invD(2) [OF assms(2)] R by (simp add: dir_rep_def)
qed

lemma hist_invI:
  assumes "pool_inv r (st h) R bs es" "attached n r" "mutex (st h) = MUnlocked \<or> mutex (st h) = MOwnerDead"
    and "hist_ok (issued h) (released h) R es"
  shows "hist_inv n h"
proof -
  have "\<forall>r'. attached n r' \<longrightarrow> pool_inv r' (st h) R bs es"
    using pool_inv_attached [OF assms(1,2)] by simp
  then show ?thesis
    using assms(3,4) by (auto simp: hist_inv_def lockable_def)
qed

lemma hist_inv_at:
  assumes "hist_inv n h" "attached n r"
  obtains R bs es where "pool_inv r (st h) R bs es" "hist_ok (issued h) (released h) R es" "lockable (st h)"
  using assms by (auto simp: hist_inv_def)

subsection \<open>How the operations move ids\<close>

lemma live_ids_update:
  assumes "i < length es"
  shows "mset (live_ids (es[i := e])) + (if live (es ! i) then {#e_id (es ! i)#} else {#}) =
     mset (live_ids es) + (if live e then {#e_id e#} else {#})"
proof -
  have "image_mset e_id (mset (filter live (es[i := e])) + (if live (es ! i) then {#es ! i#} else {#})) =
      image_mset e_id (mset (filter live es) + (if live e then {#e#} else {#}))"
    by (simp only: live_update [OF assms])
  then show ?thesis
    by (simp add: live_ids_def split: if_splits)
qed

lemma hist_ok_same:
  assumes "hist_ok is fs R es" "mset (live_ids es') = mset (live_ids es)" "h_next_id R' = h_next_id R"
  shows "hist_ok is fs R' es'"
  using assms by (simp add: hist_ok_def)

lemma hist_ok_keep:
  assumes "hist_ok is fs R es" "i < length es" "live (es ! i)" "live e" "e_id e = e_id (es ! i)"
    "h_next_id R' = h_next_id R"
  shows "hist_ok is fs R' (es[i := e])"
  using assms live_ids_update [OF assms(2), of e] by (intro hist_ok_same [OF assms(1)]) simp_all

lemma hist_ok_alloc:
  assumes ok: "hist_ok is fs R es" and i: "i < length es" "\<not> live (es ! i)" and e: "live e" "e_id e = h_next_id R"
    and R': "h_next_id R' = h_next_id R + 1" "h_next_id R + 1 \<noteq> 0"
  shows "hist_ok (h_next_id R # is) fs R' (es[i := e])"
proof -
  have lt: "h_next_id R < h_next_id R + 1"
    using R'(2) by (simp add: word_less_nat_alt unatSuc add.commute)
  have old: "\<forall>j\<in>set is. j < h_next_id R" "distinct is" "mset is = mset (live_ids es) + mset fs"
    using ok by (simp_all add: hist_ok_def)
  have "\<forall>j\<in>set is. j < h_next_id R + 1"
    using old(1) lt by (blast intro: order_less_trans)
  moreover have "h_next_id R \<notin> set is"
    using old(1) by blast
  moreover have "mset (live_ids (es[i := e])) = add_mset (h_next_id R) (mset (live_ids es))"
    using live_ids_update [OF i(1), of e] i(2) e by simp
  ultimately show ?thesis
    using old lt R'(1) by (simp add: hist_ok_def)
qed

lemma hist_ok_free:
  assumes ok: "hist_ok is fs R es" and i: "i < length es" "live (es ! i)" and R': "h_next_id R' = h_next_id R"
  shows "hist_ok is (e_id (es ! i) # fs) R' (es[i := zero_ent])"
  using ok live_ids_update [OF i(1), of zero_ent] i(2) R' by (auto simp: hist_ok_def live_def zero_ent_def)

section \<open>Every step keeps the invariant\<close>

lemma alloc_keeps:
  assumes inv: "hist_inv n h" and a: "attached n r" and p: "psize \<noteq> 0" "56 \<le> unat (alloc_size psize)"
    and nid: "h_next_id (rh_at (mem (st h))) + 1 \<noteq> 0"
    and run: "shm_alloc (Some r) (st h) psize name user pm tag True True = Some (rc, out, s')"
  shows "hist_inv n (h\<lparr>st := s', issued := (case out of None \<Rightarrow> issued h | Some (i, off) \<Rightarrow> i # issued h)\<rparr>)"
proof -
  obtain R bs es where i: "pool_inv r (st h) R bs es" "hist_ok (issued h) (released h) R es" "lockable (st h)"
    using inv a by (rule hist_inv_at)
  have R: "h_next_id R + 1 \<noteq> 0"
    using nid pool_invD(8) [OF i(1)] by simp
  have post: "alloc_post r (st h) R bs es psize name (alloc_info R user pm tag) (rc, out, s')"
    using shm_alloc_refines [OF i(1,3) p R, of name user pm tag] run by simp
  have mu: "mutex s' = MUnlocked"
    using post by (simp add: alloc_post_def)
  have same: "hist_inv n (h\<lparr>st := s'\<rparr>)" if "mem s' = mem (st h)"
    using pool_inv_attached [OF i(1) a a that] a mu i(2) by (intro hist_invI [of r]) simp_all
  show ?thesis
  proof (cases "first_slot (\<lambda>e. \<not> live e) es 0")
    case None
    then show ?thesis
      using post same by (simp add: alloc_post_def)
  next
    case slot: (Some k)
    show ?thesis
    proof (cases "first_fit (unat (alloc_size psize)) bs")
      case None
      then show ?thesis
        using post slot same by (simp add: alloc_post_def)
    next
      case (Some f)
      obtain xs b ys where f: "f = (xs, b, ys)" by (cases f)
      let ?n = "unat (alloc_size psize)" and ?oi = "alloc_info R user pm tag"
      have out: "out = Some (h_next_id R, of_nat (span xs + 56))"
        and fin: "alloc_done r (st h) s' R es ?n psize name ?oi k xs b ys"
        using post slot Some f by (simp_all add: alloc_post_def)
      obtain fl where inv': "pool_inv r s' (alloc_hdr R fl (taken_size ?n b)) (xs @ take_block ?n ?oi b @ ys)
        (es[k := alloc_entry (o_id ?oi) (of_nat (span xs + 56)) (of_nat (acap (taken ?n ?oi b))) psize
                   (o_tag ?oi) (o_owner ?oi) (o_perms ?oi) name])"
        using fin unfolding alloc_done_def by blast
      have k: "k < length es" "\<not> live (es ! k)"
        using first_slot_SomeD [OF slot] by auto
      have "hist_ok (h_next_id R # issued h) (released h) (alloc_hdr R fl (taken_size ?n b))
        (es[k := alloc_entry (o_id ?oi) (of_nat (span xs + 56)) (of_nat (acap (taken ?n ?oi b))) psize
                   (o_tag ?oi) (o_owner ?oi) (o_perms ?oi) name])"
      proof (rule hist_ok_alloc [OF i(2) k])
        have "h_next_id R \<noteq> 0"
          using i(1) by (auto simp: pool_inv_def)
        then show "live (alloc_entry (o_id ?oi) (of_nat (span xs + 56)) (of_nat (acap (taken ?n ?oi b))) psize
                   (o_tag ?oi) (o_owner ?oi) (o_perms ?oi) name)"
          by (intro alloc_entry_live) (simp add: alloc_info_def)
      qed (use R in \<open>simp_all add: alloc_entry_def alloc_info_def alloc_hdr_def\<close>)
      then show ?thesis
        using inv' a mu out by (intro hist_invI [of r]) simp_all
    qed
  qed
qed

lemma free_keeps:
  assumes inv: "hist_inv n h" and a: "attached n r" and run: "shm_free (Some r) (st h) obj_id user cp = Some (rc, s')"
  shows "hist_inv n (h\<lparr>st := s', released := (if rc = OK then obj_id # released h else released h)\<rparr>)"
proof -
  obtain R bs es where i: "pool_inv r (st h) R bs es" "hist_ok (issued h) (released h) R es" "lockable (st h)"
    using inv a by (rule hist_inv_at)
  show ?thesis
  proof (cases "obj_id = 0")
    case True
    then have "rc = EINVAL" "s' = st h"
      using run by (auto simp: shm_free_def)
    then show ?thesis
      using inv by (simp add: hist_inv_def)
  next
    case False
    have post: "free_post r (st h) R bs es obj_id user cp (rc, s')"
      using shm_free_refines [OF i(1,3) False, of user cp] run by simp
    have mu: "mutex s' = MUnlocked"
      using post by (simp add: free_post_def)
    have same: "hist_inv n (h\<lparr>st := s'\<rparr>)" if "mem s' = mem (st h)"
      using pool_inv_attached [OF i(1) a a that] a mu i(2) by (intro hist_invI [of r]) simp_all
    show ?thesis
    proof (cases "first_slot (\<lambda>e. e_id e = obj_id \<and> e_alive e \<noteq> 0) es 0")
      case None
      then show ?thesis
        using post same by (simp add: free_post_def)
    next
      case (Some k)
      have k: "k < length es" "live (es ! k)" "e_id (es ! k) = obj_id"
        using first_slot_SomeD [OF Some] False by (auto simp: live_def)
      show ?thesis
      proof (cases "access_ok (e_owner (es ! k)) (e_perms (es ! k)) user cp SHM_PERM_FREE")
        case False
        then show ?thesis
          using post Some same by (simp add: free_post_def)
      next
        case True
        then obtain xs b ys fl where rc: "rc = OK"
          and inv': "pool_inv r s' (count_free (R\<lparr>h_free_list := fl\<rparr>) (asz b)) (insert_free xs b ys) (es[k := zero_ent])"
          using post Some unfolding free_post_def free_done_def by auto
        have "hist_ok (issued h) (e_id (es ! k) # released h) (count_free (R\<lparr>h_free_list := fl\<rparr>) (asz b)) (es[k := zero_ent])"
          by (rule hist_ok_free [OF i(2) k(1,2)]) simp
        then show ?thesis
          using inv' a mu rc k(3) by (intro hist_invI [of r]) simp_all
      qed
    qed
  qed
qed

lemma resize_keeps:
  assumes inv: "hist_inv n h" and a: "attached n r" and nz: "obj_id \<noteq> 0" "new_size \<noteq> 0"
    and sz: "56 \<le> unat (alloc_size new_size)"
    and run: "shm_resize (Some r) (st h) obj_id new_size user cp = Some (rc, s')"
  shows "hist_inv n (h\<lparr>st := s'\<rparr>)"
proof -
  obtain R bs es where pool: "pool_inv r (st h) R bs es" and ok: "hist_ok (issued h) (released h) R es"
    and lk: "lockable (st h)"
    using inv a by (rule hist_inv_at)
  have post: "resize_post r (st h) R bs es obj_id new_size user cp (rc, s')"
    using pool lk nz sz run by (rule shm_resize_returned)
  have mu: "mutex s' = MUnlocked"
    using post by (simp add: resize_post_def)
  have same: "hist_inv n (h\<lparr>st := s'\<rparr>)" if "mem s' = mem (st h)"
    using pool_inv_attached [OF pool a a that] a mu ok by (intro hist_invI [of r]) simp_all
  have moved: "hist_inv n (h\<lparr>st := s'\<rparr>)"
    if "resized_to r (st h) s' R es k xs b ys bs' off cap used" "k < length es" "live (es ! k)"
    for k xs b ys bs' off cap used
  proof -
    note to = that
    obtain fl where inv': "pool_inv r s' (R\<lparr>h_free_list := fl, h_used_bytes := of_nat (used_span bs')\<rparr>) bs'
        (es[k := resized_entry (es ! k) off cap used])"
      using to(1) by (auto simp: resized_to_def)
    have "hist_ok (issued h) (released h) (R\<lparr>h_free_list := fl, h_used_bytes := of_nat (used_span bs')\<rparr>)
        (es[k := resized_entry (es ! k) off cap used])"
      using that(3) by (intro hist_ok_keep [OF ok that(2,3)]) (simp_all add: resized_entry_def live_def)
    then show ?thesis
      using inv' a mu by (intro hist_invI [of r]) simp_all
  qed
  show ?thesis
  proof (cases "first_slot (\<lambda>e. e_id e = obj_id \<and> e_alive e \<noteq> 0) es 0")
    case None
    then show ?thesis
      using post same by (simp add: resize_post_def)
  next
    case (Some k)
    have k: "k < length es" "live (es ! k)"
      using first_slot_SomeD [OF Some] nz(1) by (auto simp: live_def)
    show ?thesis
    proof (cases "access_ok (e_owner (es ! k)) (e_perms (es ! k)) user cp SHM_PERM_RESIZE")
      case False
      then show ?thesis
        using post Some same by (simp add: resize_post_def)
    next
      case True
      then obtain xs b ys oi where "resize_done r (st h) s' R es k xs b ys (unat (alloc_size new_size)) oi new_size rc"
        using post Some unfolding resize_post_def by auto
      then show ?thesis
        using same moved [OF _ k] unfolding resize_done_def moved_to_def Let_def
        by (auto split: if_splits option.splits)
    qed
  qed
qed

lemma set_perms_keeps:
  assumes inv: "hist_inv n h" and a: "attached n r"
    and pool: "pool_inv r (st h) R (xs @ b # ys) es" and own: "aown b \<noteq> None"
    and run: "shm_block_set_perms (Some r) (st h) (of_nat (span xs + 56)) user cp np = Some (rc, s')"
  shows "hist_inv n (h\<lparr>st := s'\<rparr>)"
proof -
  obtain R1 bs1 es1 where i1: "pool_inv r (st h) R1 bs1 es1" "hist_ok (issued h) (released h) R1 es1" "lockable (st h)"
    using inv a by (rule hist_inv_at)
  then have ok: "hist_ok (issued h) (released h) R es"
    using pool_inv_unique [OF i1(1) pool] by simp
  obtain oi where oi: "aown b = Some oi"
    using own by auto
  have post: "perms_post r (st h) R es xs b ys oi user cp np (rc, s')"
    using shm_block_set_perms_refines [OF pool i1(3) oi, of user cp np] run by simp
  have mu: "mutex s' = MUnlocked"
    using post by (simp add: perms_post_def)
  show ?thesis
  proof (cases "access_ok (o_owner oi) (o_perms oi) user cp SHM_PERM_WRITE")
    case False
    then show ?thesis
      using post pool_inv_attached [OF pool a a] a mu ok by (intro hist_invI [of r _ R "xs @ b # ys" es]) (simp_all add: perms_post_def)
  next
    case True
    then obtain k where k: "k < length es" "live (es ! k)"
      and inv': "pool_inv r s' R (xs @ b\<lparr>aown := Some (oi\<lparr>o_perms := np\<rparr>)\<rparr> # ys) (es[k := (es ! k)\<lparr>e_perms := np\<rparr>])"
      using post unfolding perms_post_def by auto
    have "hist_ok (issued h) (released h) R (es[k := (es ! k)\<lparr>e_perms := np\<rparr>])"
      using k by (intro hist_ok_keep [OF ok k]) (simp_all add: live_def)
    then show ?thesis
      using inv' a mu by (intro hist_invI [of r]) simp_all
  qed
qed

lemma lookup_state:
  assumes "pool_inv r s R bs es" "lockable s" "shm_lookup (Some r) s obj_id user cp wo wu = Some (rc, off, used, s')"
  shows "s' = s \<or> s' = s\<lparr>mutex := MUnlocked\<rparr>"
proof (cases "obj_id = 0")
  case True
  then show ?thesis
    using assms(3) by (simp add: shm_lookup_def)
next
  case False
  then show ?thesis
    using assms shm_lookup_none [OF assms(1,2) False, of user cp wo wu] shm_lookup_some [OF assms(1,2) False, of _ user cp wo wu]
    by (cases "first_slot (\<lambda>e. e_id e = obj_id \<and> e_alive e \<noteq> 0) es 0") (auto split: if_splits)
qed

lemma quiet_keeps:
  assumes inv: "hist_inv n h" and mem: "mem s' = mem (st h)" and mu: "mutex s' = MUnlocked \<or> mutex s' = MOwnerDead"
  shows "hist_inv n (h\<lparr>st := s'\<rparr>)"
proof -
  from inv obtain R bs es where i: "\<forall>r. attached n r \<longrightarrow> pool_inv r (st h) R bs es" "hist_ok (issued h) (released h) R es"
    by (auto simp: hist_inv_def)
  have "\<forall>r. attached n r \<longrightarrow> pool_inv r s' R bs es"
    using i(1) pool_inv_attached [OF _ _ _ mem] by blast
  then show ?thesis
    using i(2) mu by (auto simp: hist_inv_def lockable_def)
qed

lemma hosts_keeps:
  assumes inv: "hist_inv n h" and a: "attached n r"
    and post: "\<And>R bs es. pool_inv r (st h) R bs es \<Longrightarrow> lockable (st h) \<Longrightarrow>
        mutex s' = MUnlocked \<and> (\<exists>R'. h_next_id R' = h_next_id R \<and> pool_inv r s' R' bs es)"
  shows "hist_inv n (h\<lparr>st := s'\<rparr>)"
proof -
  obtain R bs es where i: "pool_inv r (st h) R bs es" "hist_ok (issued h) (released h) R es" "lockable (st h)"
    using inv a by (rule hist_inv_at)
  from post [OF i(1,3)] obtain R' where R': "mutex s' = MUnlocked" "h_next_id R' = h_next_id R" "pool_inv r s' R' bs es"
    by blast
  have "hist_ok (issued h) (released h) R' es"
    using R'(2) by (intro hist_ok_same [OF i(2)]) simp_all
  then show ?thesis
    using R' a by (intro hist_invI [of r]) simp_all
qed

lemma store_keeps:
  assumes inv: "hist_inv n h" and a: "attached n r" and pool: "pool_inv r (st h) R (xs @ b # ys) es"
    and p: "shm_ptr (Some r) (st h) (of_nat (span xs + 56)) user cp SHM_PERM_WRITE = Some p" "p \<noteq> 0"
    and k: "k < acap b" and w: "wr8 r (st h) (p + of_nat k) v = Some s'"
  shows "hist_inv n (h\<lparr>st := s'\<rparr>)"
proof -
  obtain R1 bs1 es1 where i1: "pool_inv r (st h) R1 bs1 es1" "hist_ok (issued h) (released h) R1 es1" "lockable (st h)"
    using inv a by (rule hist_inv_at)
  then have ok: "hist_ok (issued h) (released h) R es"
    using pool_inv_unique [OF i1(1) pool] by simp
  note hr = pool_invD(1) [OF pool]
  have p': "p = payload_ptr r R (span xs)"
    using p unfolding shm_ptr_eq [OF hr] by (auto split: option.splits if_splits)
  have "region_off r (p + of_nat k) = unat (h_data_offset R) + span xs + 56 + k"
    unfolding p' using k by (intro payload_in_map(1) [OF hr, of k 1]) simp
  then have s': "s' = (st h)\<lparr>mem := (mem (st h))(unat (h_data_offset R) + span xs + 56 + k := v)\<rparr>"
    using w by (simp add: wr8_def put8_def split: if_splits)
  have wf: "acap b + 56 \<le> asz b"
    using hr by (auto simp: heap_rep_bytes heap_shape_def wf_blk_def dest: tiles_wf)
  have "pool_inv r s' R (xs @ b # ys) es"
    by (rule pool_inv_payload [OF pool refl]) (use k wf in \<open>auto simp: s'\<close>)
  then show ?thesis
    using ok a i1(3) s' by (intro hist_invI [of r]) (simp_all add: lockable_def)
qed

lemma pool_act_keeps:
  assumes "pool_act n a h h'" "hist_inv n h"
  shows "hist_inv n h'"
  using assms(1)
proof cases
  case (alloc r psize name user pm tag rc out s')
  then show ?thesis
    using alloc_keeps [OF assms(2)] by blast
next
  case (free r obj_id user cp rc s')
  then show ?thesis
    using free_keeps [OF assms(2)] by blast
next
  case (resize r obj_id new_size user cp rc s')
  then show ?thesis
    using resize_keeps [OF assms(2)] by blast
next
  case (set_perms r R xs b ys es oi user cp np rc s')
  then show ?thesis
    using set_perms_keeps [OF assms(2)] by blast
next
  case (lookup r obj_id user cp rc off used s')
  obtain R bs es where i: "pool_inv r (st h) R bs es" "lockable (st h)"
    using assms(2) lookup(3) by (rule hist_inv_at)
  have "s' = st h \<or> s' = (st h)\<lparr>mutex := MUnlocked\<rparr>"
    using lookup_state [OF i lookup(4)] .
  then show ?thesis
    unfolding lookup(2) using i(2) by (intro quiet_keeps [OF assms(2)]) (auto simp: lockable_def)
next
  case (attach r s')
  show ?thesis
    unfolding attach(2)
  proof (rule hosts_keeps [OF assms(2) attach(3)])
    fix R bs es assume "pool_inv r (st h) R bs es" "lockable (st h)"
    from host_attach_refines [OF this] attach(4)
    show "mutex s' = MUnlocked \<and> (\<exists>R'. h_next_id R' = h_next_id R \<and> pool_inv r s' R' bs es)"
      by (auto intro!: exI [of _ "R\<lparr>h_host_count := h_host_count R + 1\<rparr>"])
  qed
next
  case (detach r unlink log s')
  show ?thesis
    unfolding detach(2)
  proof (rule hosts_keeps [OF assms(2) detach(3)])
    fix R bs es assume "pool_inv r (st h) R bs es" "lockable (st h)"
    from shm_region_close_refines [OF this, of unlink] detach(4)
    show "mutex s' = MUnlocked \<and> (\<exists>R'. h_next_id R' = h_next_id R \<and> pool_inv r s' R' bs es)"
      by (auto intro!: exI [of _ "detached R"] simp: detached_def)
  qed
next
  case (store r R xs b ys es oi user cp p k v s')
  then show ?thesis
    using store_keeps [OF assms(2)] by blast
next
  case die
  then show ?thesis
    by (auto intro: quiet_keeps [OF assms(2)])
qed

lemma pool_step_keeps: "pool_step n h h' \<Longrightarrow> hist_inv n h \<Longrightarrow> hist_inv n h'"
  by (auto simp: pool_step_def intro: pool_act_keeps)

lemma fresh_inv:
  assumes "fresh n h"
  shows "hist_inv n h"
proof -
  obtain r s backend cap name ns cg where f: "attached n r" "256 + 96 * unat cap \<le> unat n"
    "region_init r s n backend cap name ns cg = Some (st h)" "issued h = []" "released h = []"
    using assms unfolding fresh_def by blast
  then have m: "mapped r" "n = rsize r"
    by (simp_all add: attached_def)
  from region_init_inv [OF m(1), of cap s backend name ns cg] f m(2)
  have i: "pool_inv r (st h) (init_rh n backend cap 1 ns cg) (init_blocks (unat n - (200 + 96 * unat cap)))
      (replicate (unat cap) zero_ent)" "mutex (st h) = MUnlocked"
    by auto
  show ?thesis
    using f i by (intro hist_invI [of r]) (auto simp: hist_ok_def live_ids_def live_def zero_ent_def)
qed

lemma reachable_inv:
  assumes "reachable n h"
  shows "hist_inv n h"
proof -
  obtain h0 where h: "fresh n h0" "(pool_step n)\<^sup>*\<^sup>* h0 h"
    using assms by (auto simp: reachable_def)
  from h(2,1) show ?thesis
    by (induction rule: rtranclp_induct) (simp_all add: fresh_inv pool_step_keeps)
qed

section \<open>What the invariant gives\<close>

lemma hist_ok_ids:
  assumes "hist_ok is fs R es"
  shows "set is = set (live_ids es) \<union> set fs" "set (live_ids es) \<inter> set fs = {}" "distinct fs"
proof -
  have m: "mset is = mset (live_ids es @ fs)" "distinct is"
    using assms by (simp_all add: hist_ok_def)
  then have "distinct (live_ids es @ fs)"
    by (metis mset_eq_imp_distinct_iff)
  then show "set (live_ids es) \<inter> set fs = {}" "distinct fs"
    by auto
  show "set is = set (live_ids es) \<union> set fs"
    using mset_eq_setD [OF m(1)] by simp
qed

lemma find_live_id:
  assumes inv: "pool_inv r s R bs es"
  shows "i \<in> set (live_ids es) \<longleftrightarrow> i \<noteq> 0 \<and> (\<exists>k. first_slot (\<lambda>e. e_id e = i \<and> e_alive e \<noteq> 0) es 0 = Some k)"
proof
  assume "i \<in> set (live_ids es)"
  then obtain e where e: "e \<in> set es" "live e" "e_id e = i"
    by (auto simp: live_ids_def)
  then have "e_id e = i \<and> e_alive e \<noteq> 0" "i \<noteq> 0"
    by (auto simp: live_def)
  then show "i \<noteq> 0 \<and> (\<exists>k. first_slot (\<lambda>e. e_id e = i \<and> e_alive e \<noteq> 0) es 0 = Some k)"
    using e(1) first_slot_NoneD [of "\<lambda>e. e_id e = i \<and> e_alive e \<noteq> 0" es]
    by (cases "first_slot (\<lambda>e. e_id e = i \<and> e_alive e \<noteq> 0) es 0") auto
next
  assume "i \<noteq> 0 \<and> (\<exists>k. first_slot (\<lambda>e. e_id e = i \<and> e_alive e \<noteq> 0) es 0 = Some k)"
  then obtain k where k: "i \<noteq> 0" "first_slot (\<lambda>e. e_id e = i \<and> e_alive e \<noteq> 0) es 0 = Some k" by blast
  from first_slot_SomeD [OF k(2)] k(1) show "i \<in> set (live_ids es)"
    by (auto simp: live_ids_def live_def)
qed

text \<open>A lookup, by id, of a caller with the admin bit: it succeeds for the live objects exactly.\<close>

lemma reachable_lookup:
  assumes h: "reachable n h" and a: "attached n r" and nz: "i \<noteq> 0" and cp: "cp AND SHM_PERM_ADMIN \<noteq> 0"
  shows "i \<in> set (issued h) \<and> i \<notin> set (released h) \<Longrightarrow>
      \<exists>off used. shm_lookup (Some r) (st h) i user cp True True = Some (OK, Some off, Some used, (st h)\<lparr>mutex := MUnlocked\<rparr>)"
    and "\<not> (i \<in> set (issued h) \<and> i \<notin> set (released h)) \<Longrightarrow>
      shm_lookup (Some r) (st h) i user cp True True = Some (ENOENT, None, None, (st h)\<lparr>mutex := MUnlocked\<rparr>)"
proof -
  obtain R bs es where i: "pool_inv r (st h) R bs es" "hist_ok (issued h) (released h) R es" "lockable (st h)"
    using reachable_inv [OF h] a by (rule hist_inv_at)
  have live: "i \<in> set (issued h) \<and> i \<notin> set (released h) \<longleftrightarrow> i \<in> set (live_ids es)"
    using hist_ok_ids [OF i(2)] by blast
  show "\<exists>off used. shm_lookup (Some r) (st h) i user cp True True = Some (OK, Some off, Some used, (st h)\<lparr>mutex := MUnlocked\<rparr>)"
    if "i \<in> set (issued h) \<and> i \<notin> set (released h)"
  proof -
    note here = that
    obtain k where "first_slot (\<lambda>e. e_id e = i \<and> e_alive e \<noteq> 0) es 0 = Some k"
      using here find_live_id [OF i(1), of i] unfolding live by blast
    from shm_lookup_some [OF i(1,3) nz this, of user cp True True] cp show ?thesis
      by (simp add: access_ok_def)
  qed
  show "shm_lookup (Some r) (st h) i user cp True True = Some (ENOENT, None, None, (st h)\<lparr>mutex := MUnlocked\<rparr>)"
    if "\<not> (i \<in> set (issued h) \<and> i \<notin> set (released h))"
  proof -
    have "first_slot (\<lambda>e. e_id e = i \<and> e_alive e \<noteq> 0) es 0 = None"
      using that find_live_id [OF i(1), of i] nz unfolding live
      by (cases "first_slot (\<lambda>e. e_id e = i \<and> e_alive e \<noteq> 0) es 0") auto
    from shm_lookup_none [OF i(1,3) nz this] show ?thesis .
  qed
qed

text \<open>Every call returns and leaves the mutex free for the next.\<close>

lemma reachable_alloc_returns:
  assumes h: "reachable n h" and a: "attached n r" and p: "psize \<noteq> 0" "56 \<le> unat (alloc_size psize)"
    and nid: "h_next_id (rh_at (mem (st h))) + 1 \<noteq> 0"
  shows "\<exists>rc out s'. shm_alloc (Some r) (st h) psize name user pm tag True True = Some (rc, out, s') \<and>
     rc \<in> {OK, ENOMEM, ENOSPC} \<and> mutex s' = MUnlocked"
proof -
  obtain R bs es where i: "pool_inv r (st h) R bs es" "hist_ok (issued h) (released h) R es" "lockable (st h)"
    using reachable_inv [OF h] a by (rule hist_inv_at)
  have R: "h_next_id R + 1 \<noteq> 0"
    using nid pool_invD(8) [OF i(1)] by simp
  show ?thesis
    using shm_alloc_refines [OF i(1,3) p R, of name user pm tag]
    by (auto simp: runs_iff alloc_post_def split: option.splits)
qed

lemma reachable_free_returns:
  assumes h: "reachable n h" and a: "attached n r"
  shows "\<exists>rc s'. shm_free (Some r) (st h) obj_id user cp = Some (rc, s') \<and> rc \<in> {OK, ENOENT, EACCES, EINVAL} \<and>
     lockable s'"
proof (cases "obj_id = 0")
  case True
  then show ?thesis
    using reachable_inv [OF h] by (simp add: shm_free_def hist_inv_def)
next
  case False
  obtain R bs es where i: "pool_inv r (st h) R bs es" "hist_ok (issued h) (released h) R es" "lockable (st h)"
    using reachable_inv [OF h] a by (rule hist_inv_at)
  show ?thesis
    using shm_free_refines [OF i(1,3) False, of user cp]
    by (auto simp: runs_iff free_post_def lockable_def split: option.splits if_splits)
qed

end
