(* ===== verification/Shm_Example.thy ===== *)
theory Shm_Example
  imports Shm_Cap
begin

text \<open>
  Two concrete states on which the properties are instantiated: a fresh region of 4096 bytes with
  a directory of two slots, as \<open>region_init\<close> leaves it, and the same region after one
  \<open>shm_alloc\<close> of 100 bytes by user 7.
\<close>

definition demo :: shm_region where
  "demo = \<lparr>rname = [47, 112], rfd = 3, rbase = 0x10000, rsize = 4096, rcreator = True,
     rbackend = SHM_BACKEND_POSIX\<rparr>"

definition blank :: machine where
  "blank = \<lparr>mem = \<lambda>_. 0, wpq = \<lambda>_. None, pmem = \<lambda>_. 0, mutex = MUnlocked, cmode = CACHE_CLWB\<rparr>"

definition demo0 :: machine where
  "demo0 = the (region_init demo blank 4096 SHM_BACKEND_POSIX 2 None 0 0)"

definition demo_R0 :: region_hdr where
  "demo_R0 = init_rh 4096 SHM_BACKEND_POSIX 2 1 0 0"

lemma demo_mapped: "mapped demo"
proof -
  have "(65536 :: nat) = 4096 * 16" by simp
  then have "(4096 :: nat) dvd 65536" by (rule dvdI)
  then show ?thesis by (simp add: mapped_def demo_def)
qed

lemma demo_sel [simp]: "rsize demo = 4096" "rbase demo = 0x10000"
  by (simp_all add: demo_def)

lemma blank_sel [simp]: "mutex blank = MUnlocked" "cmode blank = CACHE_CLWB"
  by (simp_all add: blank_def)

lemma demo0_inv:
  "pool_inv demo demo0 demo_R0 (init_blocks 3704) [zero_ent, zero_ent]"
  "mutex demo0 = MUnlocked" "cmode demo0 = CACHE_CLWB"
proof -
  have two: "replicate (unat (2 :: u32)) zero_ent = [zero_ent, zero_ent]"
  proof -
    have "unat (2 :: u32) = Suc (Suc 0)" by simp
    then show ?thesis by (simp only: replicate_Suc replicate_0)
  qed
  have "runs (region_init demo blank (rsize demo) SHM_BACKEND_POSIX 2 None 0 0)
    (\<lambda>s'. pool_inv demo s' (init_rh (rsize demo) SHM_BACKEND_POSIX 2 1 0 0)
            (init_blocks (unat (rsize demo) - (200 + 96 * unat (2 :: u32)))) (replicate (unat (2 :: u32)) zero_ent) \<and>
         mutex s' = MUnlocked \<and> cmode s' = cmode blank)"
    by (rule region_init_inv [OF demo_mapped]) simp
  then have "runs (region_init demo blank 4096 SHM_BACKEND_POSIX 2 None 0 0)
    (\<lambda>s'. pool_inv demo s' demo_R0 (init_blocks 3704) [zero_ent, zero_ent] \<and>
         mutex s' = MUnlocked \<and> cmode s' = CACHE_CLWB)"
    unfolding two by (simp add: demo_R0_def)
  then show "pool_inv demo demo0 demo_R0 (init_blocks 3704) [zero_ent, zero_ent]"
    "mutex demo0 = MUnlocked" "cmode demo0 = CACHE_CLWB"
    unfolding runs_iff demo0_def by auto
qed

lemma demo0_lockable: "lockable demo0"
  by (simp add: lockable_def demo0_inv)

section \<open>After one allocation\<close>

definition demo_info :: owner_info where
  "demo_info = \<lparr>o_tag = 1, o_owner = 7, o_perms = 15, o_id = 1\<rparr>"

definition demo_blk :: ablk where
  "demo_blk = \<lparr>asz = 160, acap = 104, aown = Some demo_info\<rparr>"

definition demo_rest :: ablk where
  "demo_rest = \<lparr>asz = 3544, acap = 3488, aown = None\<rparr>"

definition demo_ent :: obj_entry where
  "demo_ent = alloc_entry 1 56 104 100 1 7 15 (Some [104, 105])"

definition demo1 :: machine where
  "demo1 = snd (snd (the (shm_alloc (Some demo) demo0 100 (Some [104, 105]) 7 15 1 True True)))"

definition demo_R1 :: region_hdr where
  "demo_R1 = rh_at (mem demo1)"

lemma demo_alloc_size: "unat (alloc_size 100) = 160"
  by (simp add: alloc_size_def shm_align_up_def SIZEOF_BLOCK_HDR_def HEAP_ALIGN_def)

lemma demo_alloc_info: "alloc_info demo_R0 7 15 1 = demo_info"
  by (simp add: alloc_info_def demo_R0_def init_rh_def demo_info_def)

lemma demo_alloc:
  "runs (shm_alloc (Some demo) demo0 100 (Some [104, 105]) 7 15 1 True True)
     (alloc_post demo demo0 demo_R0 (init_blocks 3704) [zero_ent, zero_ent] 100 (Some [104, 105]) demo_info)"
  unfolding demo_alloc_info [symmetric]
  by (rule shm_alloc_refines [OF demo0_inv(1) demo0_lockable])
    (simp_all add: demo_alloc_size demo_R0_def init_rh_def)

lemma demo1_inv:
  "pool_inv demo demo1 demo_R1 [demo_blk, demo_rest] [demo_ent, zero_ent]"
  "mutex demo1 = MUnlocked" "h_next_id demo_R1 = 2" "h_data_offset demo_R1 = 392"
proof -
  have slot: "first_slot (\<lambda>e. \<not> live e) [zero_ent, zero_ent] 0 = Some 0"
    by (simp add: first_slot_step(1) live_def zero_ent_def)
  have fit: "first_fit 160 (init_blocks 3704) = Some ([], \<lparr>asz = 3704, acap = 3648, aown = None\<rparr>, [])"
    by (simp add: init_blocks_def)
  have *: "mutex demo1 = MUnlocked \<and> alloc_done demo demo0 demo1 demo_R0 [zero_ent, zero_ent] 160 100
      (Some [104, 105]) demo_info 0 [] \<lparr>asz = 3704, acap = 3648, aown = None\<rparr> []"
    using demo_alloc unfolding runs_iff demo1_def
    by (auto simp: alloc_post_def slot fit demo_alloc_size)
  then obtain fl where "pool_inv demo demo1 (alloc_hdr demo_R0 fl 160) [demo_blk, demo_rest] [demo_ent, zero_ent]"
    by (auto simp: alloc_done_def taken_size_def take_block_def taken_def demo_blk_def demo_rest_def
        demo_ent_def demo_info_def)
  then show "pool_inv demo demo1 demo_R1 [demo_blk, demo_rest] [demo_ent, zero_ent]"
    "h_next_id demo_R1 = 2" "h_data_offset demo_R1 = 392"
    using pool_invD(8) [of demo demo1 "alloc_hdr demo_R0 fl 160"]
    by (simp_all add: demo_R1_def) (simp_all add: demo_R0_def init_rh_def)
  show "mutex demo1 = MUnlocked"
    using * by simp
qed

lemma demo1_lockable: "lockable demo1"
  by (simp add: lockable_def demo1_inv)

lemma demo1_rep: "heap_rep demo demo1 demo_R1 ([] @ demo_blk # [demo_rest])"
  using pool_invD(1) [OF demo1_inv(1)] by simp

lemma demo_live: "live demo_ent" "\<not> live zero_ent"
  by (simp_all add: live_def demo_ent_def alloc_entry_def zero_ent_def)

end
