(* ===== verification/Shm_Scenario.thy ===== *)
theory Shm_Scenario
  imports Shm_System Shm_Example
begin

text \<open>
  Sequences of API calls on the region of \<open>Shm_Example\<close>, with the abstract heaps they lead to:
  an object allocated, freed and looked up again; an allocation that reuses a merged block with
  a stale capacity; and the sequence alloc, alloc, shrink, grow that makes \<open>shm_resize\<close> run out
  of the mapping.
\<close>

text \<open>One successful allocation, as far as the sequences need it.\<close>

lemma alloc_step:
  assumes inv: "pool_inv r s R bs es" and mu: "mutex s = MUnlocked" and p: "psize \<noteq> 0" "n = unat (alloc_size psize)" "56 \<le> n"
    and nid: "h_next_id R + 1 \<noteq> 0"
    and slot: "first_slot (\<lambda>e. \<not> live e) es 0 = Some i" and ff: "first_fit n bs = Some (xs, b, ys)"
  obtains s' R' where "shm_alloc (Some r) s psize name user pm tag True True = Some (OK, Some (h_next_id R, of_nat (span xs + 56)), s')"
    "mutex s' = MUnlocked" "h_next_id R' = h_next_id R + 1" "h_data_offset R' = h_data_offset R"
    "pool_inv r s' R' (xs @ take_block n (alloc_info R user pm tag) b @ ys)
       (es[i := alloc_entry (h_next_id R) (of_nat (span xs + 56)) (of_nat (acap (taken n (alloc_info R user pm tag) b))) psize tag user pm name])"
proof -
  have lk: "lockable s" using mu by (simp add: lockable_def)
  obtain out s' where run: "shm_alloc (Some r) s psize name user pm tag True True = Some (OK, out, s')"
    "out = Some (h_next_id R, of_nat (span xs + 56))" "mutex s' = MUnlocked"
    "alloc_done r s s' R es n psize name (alloc_info R user pm tag) i xs b ys"
    using shm_alloc_refines [OF inv lk p(1) p(3) [unfolded p(2)] nid, of name user pm tag] slot ff p(2)
    by (auto simp: runs_iff alloc_post_def)
  from run(4) obtain fl where "pool_inv r s' (alloc_hdr R fl (taken_size n b)) (xs @ take_block n (alloc_info R user pm tag) b @ ys)
       (es[i := alloc_entry (h_next_id R) (of_nat (span xs + 56)) (of_nat (acap (taken n (alloc_info R user pm tag) b))) psize tag user pm name])"
    by (auto simp: alloc_done_def alloc_info_def)
  then show thesis
    using run by (intro that [of s' "alloc_hdr R fl (taken_size n b)"]) (simp_all add: alloc_hdr_def)
qed

lemma free_step:
  assumes inv: "pool_inv r s R bs es" and mu: "mutex s = MUnlocked" and nz: "obj_id \<noteq> 0"
    and slot: "first_slot (\<lambda>e. e_id e = obj_id \<and> e_alive e \<noteq> 0) es 0 = Some i"
    and acc: "access_ok (e_owner (es ! i)) (e_perms (es ! i)) user cp SHM_PERM_FREE"
  obtains s' R' xs b ys where "shm_free (Some r) s obj_id user cp = Some (OK, s')" "mutex s' = MUnlocked"
    "h_next_id R' = h_next_id R" "h_data_offset R' = h_data_offset R"
    "bs = xs @ b # ys" "unat (e_off (es ! i)) = span xs + 56" "aown b \<noteq> None"
    "pool_inv r s' R' (insert_free xs b ys) (es[i := zero_ent])"
    "b_allocated (blk_at (mem s') (unat (h_data_offset R) + span xs)) = 0"
proof -
  have lk: "lockable s" using mu by (simp add: lockable_def)
  obtain s' xs b ys where run: "shm_free (Some r) s obj_id user cp = Some (OK, s')" "mutex s' = MUnlocked"
    "bs = xs @ b # ys" "unat (e_off (es ! i)) = span xs + 56" "aown b \<noteq> None" "free_done r s s' R es i xs b ys"
    using shm_free_refines [OF inv lk nz, of user cp] slot acc by (auto simp: runs_iff free_post_def)
  from run(6) obtain fl where "pool_inv r s' (count_free (R\<lparr>h_free_list := fl\<rparr>) (asz b)) (insert_free xs b ys) (es[i := zero_ent])"
    "b_allocated (blk_at (mem s') (unat (h_data_offset R) + span xs)) = 0"
    by (auto simp: free_done_def)
  then show thesis
    using run by (intro that [of s' "count_free (R\<lparr>h_free_list := fl\<rparr>) (asz b)" xs b ys]) simp_all
qed

section \<open>Allocate, free, look up\<close>

lemma demo_slots:
  "first_slot (\<lambda>e. \<not> live e) [zero_ent, zero_ent] 0 = Some 0"
  "first_slot (\<lambda>e. \<not> live e) [demo_ent, zero_ent] 0 = Some 1"
  "first_slot (\<lambda>e. e_id e = 1 \<and> e_alive e \<noteq> 0) [demo_ent, zero_ent] 0 = Some 0"
  by (simp_all add: first_slot_step(1) demo_live) (simp add: demo_ent_def alloc_entry_def)

definition demo2 :: machine where
  "demo2 = snd (the (shm_free (Some demo) demo1 1 7 15))"

lemma demo2:
  "shm_free (Some demo) demo1 1 7 15 = Some (OK, demo2)" "mutex demo2 = MUnlocked"
  "\<exists>R. pool_inv demo demo2 R [\<lparr>asz = 3704, acap = 104, aown = None\<rparr>] [zero_ent, zero_ent] \<and>
     h_next_id R = 2 \<and> h_data_offset R = 392"
proof -
  have acc: "access_ok (e_owner ([demo_ent, zero_ent] ! 0)) (e_perms ([demo_ent, zero_ent] ! 0)) 7 15 SHM_PERM_FREE"
    by (simp add: access_ok_def demo_ent_def alloc_entry_def perm_defs)
  have off: "unat (e_off ([demo_ent, zero_ent] ! 0)) = 56"
    by (simp add: demo_ent_def alloc_entry_def)
  show "shm_free (Some demo) demo1 1 7 15 = Some (OK, demo2)" "mutex demo2 = MUnlocked"
    "\<exists>R. pool_inv demo demo2 R [\<lparr>asz = 3704, acap = 104, aown = None\<rparr>] [zero_ent, zero_ent] \<and>
       h_next_id R = 2 \<and> h_data_offset R = 392"
  proof (atomize (full), rule free_step [OF demo1_inv(1,2) _ demo_slots(3) acc])
    fix s' R' xs b ys
    assume f: "shm_free (Some demo) demo1 1 7 15 = Some (OK, s')" "mutex s' = MUnlocked"
      "h_next_id R' = h_next_id demo_R1" "h_data_offset R' = h_data_offset demo_R1"
      "[demo_blk, demo_rest] = xs @ b # ys" "unat (e_off ([demo_ent, zero_ent] ! 0)) = span xs + 56" "aown b \<noteq> None"
      "pool_inv demo s' R' (insert_free xs b ys) ([demo_ent, zero_ent][0 := zero_ent])"
    have "xs = []" "b = demo_blk" "ys = [demo_rest]"
      using f(5-7) by (auto simp: Cons_eq_append_conv off demo_blk_def demo_rest_def)
    then have "insert_free xs b ys = [\<lparr>asz = 3704, acap = 104, aown = None\<rparr>]"
      by (simp add: insert_free_def merge_prev_def demo_blk_def demo_rest_def absorb_def is_free_def)
    then show "shm_free (Some demo) demo1 1 7 15 = Some (OK, demo2) \<and> mutex demo2 = MUnlocked \<and>
      (\<exists>R. pool_inv demo demo2 R [\<lparr>asz = 3704, acap = 104, aown = None\<rparr>] [zero_ent, zero_ent] \<and>
         h_next_id R = 2 \<and> h_data_offset R = 392)"
      using f(1-4,8) by (auto simp: demo2_def demo1_inv)
  qed simp
qed

section \<open>A history\<close>

definition hist0 :: history where "hist0 = \<lparr>st = demo0, issued = [], released = []\<rparr>"
definition hist1 :: history where "hist1 = \<lparr>st = demo1, issued = [1], released = []\<rparr>"
definition hist2 :: history where "hist2 = \<lparr>st = demo2, issued = [1], released = [1]\<rparr>"

lemma demo_attached: "attached 4096 demo"
  by (simp add: attached_def demo_mapped)

lemma hist0_fresh: "fresh 4096 hist0"
proof -
  have "\<exists>s'. region_init demo blank 4096 SHM_BACKEND_POSIX 2 None 0 0 = Some s'"
    using region_init_inv [OF demo_mapped, of 2 blank SHM_BACKEND_POSIX None 0 0] by (auto simp: runs_iff)
  then have init: "region_init demo blank 4096 SHM_BACKEND_POSIX 2 None 0 0 = Some demo0"
    by (auto simp: demo0_def)
  have room: "256 + 96 * unat (2 :: u32) \<le> unat (4096 :: u64)"
    by simp
  show ?thesis
    unfolding fresh_def hist0_def using init demo_attached room
    by (auto intro!: exI [of _ demo] exI [of _ blank] exI [of _ SHM_BACKEND_POSIX] exI [of _ "2 :: u32"])
qed

lemma demo1_alloc: "shm_alloc (Some demo) demo0 100 (Some [104, 105]) 7 15 1 True True = Some (OK, Some (1, 56), demo1)"
proof -
  have "runs (shm_alloc (Some demo) demo0 100 (Some [104, 105]) 7 15 1 True True) (\<lambda>(rc, out, _). rc = OK \<and> out = Some (1, 56))"
    using demo_alloc demo_slots(1)
    by (elim runs_mono) (auto simp: alloc_post_def demo_alloc_size init_blocks_def demo_R0_def init_rh_def)
  then show ?thesis
    by (auto simp: runs_iff demo1_def)
qed

lemma hist1_step: "pool_step 4096 hist0 hist1"
proof -
  have "h_next_id (rh_at (mem demo0)) = 1"
    using pool_invD(8) [OF demo0_inv(1)] by (simp add: demo_R0_def init_rh_def)
  then have "pool_act 4096 Open_To_All hist0 (hist0\<lparr>st := demo1, issued := (case Some (1, 56 :: u64) of None \<Rightarrow> issued hist0 | Some (i, off) \<Rightarrow> i # issued hist0)\<rparr>)"
    by (intro pool_act.alloc [OF demo_attached, of 100 hist0 "Some [104, 105]" 7 15 1 OK]) (simp_all add: hist0_def demo_alloc_size demo1_alloc)
  then show ?thesis
    by (auto simp: pool_step_def hist0_def hist1_def)
qed

lemma hist1_reachable: "reachable 4096 hist1"
  using hist0_fresh hist1_step unfolding reachable_def by blast

lemma hist2_reachable: "reachable 4096 hist2"
proof -
  have "pool_act 4096 (Uses 1 SHM_PERM_FREE 7 15) hist1 (hist1\<lparr>st := demo2, released := (if OK = OK then 1 # released hist1 else released hist1)\<rparr>)"
    by (rule pool_act.free [OF demo_attached, of _ 1 7 15]) (simp add: hist1_def demo2(1))
  then have "pool_step 4096 hist1 hist2"
    by (auto simp: pool_step_def hist1_def hist2_def)
  then show ?thesis
    using hist1_reachable unfolding reachable_def by (meson rtranclp.rtrancl_into_rtrancl)
qed

section \<open>A stale capacity\<close>

lemma demo_stale:
  "\<exists>s' R'. shm_alloc (Some demo) demo2 3600 None 7 15 1 True True = Some (OK, Some (2, 56), s') \<and>
     pool_inv demo s' R' [\<lparr>asz = 3704, acap = 104, aown = Some \<lparr>o_tag = 1, o_owner = 7, o_perms = 15, o_id = 2\<rparr>\<rparr>]
       [alloc_entry 2 56 104 3600 1 7 15 None, zero_ent]"
proof -
  obtain R where R: "pool_inv demo demo2 R [\<lparr>asz = 3704, acap = 104, aown = None\<rparr>] [zero_ent, zero_ent]"
    "h_next_id R = 2" "h_data_offset R = 392"
    using demo2(3) by blast
  have n: "3656 = unat (alloc_size 3600)"
    by (simp add: alloc_size_def shm_align_up_def layout_consts)
  have ff: "first_fit 3656 [\<lparr>asz = 3704, acap = 104, aown = None\<rparr>] = Some ([], \<lparr>asz = 3704, acap = 104, aown = None\<rparr>, [])"
    by simp
  show ?thesis
    by (rule alloc_step [OF R(1) demo2(2) _ n _ _ demo_slots(1) ff, of None 7 15 1])
      (use R(2) in \<open>auto simp: take_block_def taken_def alloc_info_def\<close>)
qed

section \<open>A relocation that overruns its target\<close>

definition run_info :: "u64 \<Rightarrow> owner_info" where
  "run_info i = \<lparr>o_tag = 1, o_owner = 7, o_perms = 15, o_id = i\<rparr>"

definition run_ent :: "u64 \<Rightarrow> u64 \<Rightarrow> u64 \<Rightarrow> u64 \<Rightarrow> obj_entry" where
  "run_ent i off cap used = alloc_entry i off cap used 1 7 15 None"

lemma run_ent_simps [simp]:
  "live (run_ent i off cap used) \<longleftrightarrow> i \<noteq> 0" "e_id (run_ent i off cap used) = i" "e_off (run_ent i off cap used) = off"
  "e_capacity (run_ent i off cap used) = cap" "e_alive (run_ent i off cap used) = 1"
  "e_owner (run_ent i off cap used) = 7" "e_perms (run_ent i off cap used) = 15"
  by (simp_all add: run_ent_def alloc_entry_def live_def)

lemma run_sizes:
  "unat (alloc_size 1000) = 1056" "unat (alloc_size 300) = 360" "unat (alloc_size 100) = 160" "unat (alloc_size 2400) = 2456"
  by (simp_all add: alloc_size_def shm_align_up_def layout_consts)

lemma run_access: "access_ok 7 15 7 15 SHM_PERM_RESIZE"
  by (simp add: access_ok_def perm_defs)

definition run_A :: ablk where "run_A = \<lparr>asz = 1056, acap = 1000, aown = Some (run_info 1)\<rparr>"
definition run_X :: ablk where "run_X = \<lparr>asz = 360, acap = 304, aown = Some (run_info 2)\<rparr>"

lemma run_allocs:
  obtains sA sB R where
    "shm_alloc (Some demo) demo0 1000 None 7 15 1 True True = Some (OK, Some (1, 56), sA)"
    "shm_alloc (Some demo) sA 300 None 7 15 1 True True = Some (OK, Some (2, 1112), sB)" "mutex sB = MUnlocked"
    "pool_inv demo sB R [run_A, run_X, \<lparr>asz = 2288, acap = 2232, aown = None\<rparr>]
       [run_ent 1 56 1000 1000, run_ent 2 1112 304 300]"
proof -
  have R0: "h_next_id demo_R0 = 1"
    by (simp add: demo_R0_def init_rh_def)
  have i: "alloc_info R 7 15 1 = run_info (h_next_id R)" for R
    by (simp add: alloc_info_def run_info_def)
  have ff: "first_fit 1056 (init_blocks 3704) = Some ([], \<lparr>asz = 3704, acap = 3648, aown = None\<rparr>, [])"
    by (simp add: init_blocks_def)
  obtain sA RA where A: "shm_alloc (Some demo) demo0 1000 None 7 15 1 True True = Some (OK, Some (1, 56), sA)"
    "mutex sA = MUnlocked" "h_next_id RA = 2"
    "pool_inv demo sA RA [run_A, \<lparr>asz = 2648, acap = 2592, aown = None\<rparr>] [run_ent 1 56 1000 1000, zero_ent]"
    by (rule alloc_step [OF demo0_inv(1,2) _ run_sizes(1) [symmetric] _ _ demo_slots(1) ff, of None 7 15 1])
      (auto simp: R0 i take_block_def taken_def run_A_def run_ent_def)
  have slot: "first_slot (\<lambda>e. \<not> live e) [run_ent 1 56 1000 1000, zero_ent] 0 = Some 1"
    by (simp add: first_slot_step(1) demo_live)
  have ff: "first_fit 360 [run_A, \<lparr>asz = 2648, acap = 2592, aown = None\<rparr>] =
      Some ([run_A], \<lparr>asz = 2648, acap = 2592, aown = None\<rparr>, [])"
    by (simp add: run_A_def is_free_def)
  show thesis
    by (rule alloc_step [OF A(4,2) _ run_sizes(2) [symmetric] _ _ slot ff, of None 7 15 1], simp, simp, simp add: A(3),
        rule that [OF A(1)])
      (auto simp: A(3) i take_block_def taken_def run_A_def run_X_def run_ent_def)
qed

lemma run_shrink:
  assumes inv: "pool_inv demo s R [run_A, run_X, \<lparr>asz = 2288, acap = 2232, aown = None\<rparr>]
       [run_ent 1 56 1000 1000, run_ent 2 1112 304 300]" and mu: "mutex s = MUnlocked"
  obtains s' R' e where "shm_resize (Some demo) s 2 100 7 15 = Some (OK, s')" "mutex s' = MUnlocked"
    "pool_inv demo s' R' [run_A, \<lparr>asz = 160, acap = 104, aown = Some (run_info 2)\<rparr>, \<lparr>asz = 2488, acap = 144, aown = None\<rparr>]
       [run_ent 1 56 1000 1000, e]"
proof -
  let ?bs = "[run_A, run_X, \<lparr>asz = 2288, acap = 2232, aown = None\<rparr>]" and ?es = "[run_ent 1 56 1000 1000, run_ent 2 1112 304 300]"
  have slot: "first_slot (\<lambda>e. e_id e = 2 \<and> e_alive e \<noteq> 0) ?es 0 = Some 1"
    by (simp add: first_slot_step(1))
  have safe: "resize_safe (unat (alloc_size 100)) ?bs ?es 2 7 15"
    by (simp add: resize_safe_def slot run_sizes move_safe_def run_A_def run_X_def)
  have lk: "lockable s"
    using mu by (simp add: lockable_def)
  obtain rc s' xs b ys oi where c: "shm_resize (Some demo) s 2 100 7 15 = Some (rc, s')" "mutex s' = MUnlocked"
    "?bs = xs @ b # ys" "span xs + 56 = 1112" "aown b = Some oi"
    "resize_done demo s s' R ?es 1 xs b ys 160 oi 100 rc"
    using shm_resize_refines [OF inv lk _ _ _ safe] slot run_access
    by (auto simp: runs_iff resize_post_def run_sizes)
  have d: "xs = [run_A]" "b = run_X" "ys = [\<lparr>asz = 2288, acap = 2232, aown = None\<rparr>]"
    using c(3-5) by (auto simp: Cons_eq_append_conv run_A_def run_X_def)
  have rc: "rc = OK" and to: "resized_to demo s s' R ?es 1 xs b ys (xs @ cut_block 160 b # cut_rest 160 b ys) (span xs + 56) (acap (cut_block 160 b)) 100"
    using c(6) d by (simp_all add: resize_done_def run_X_def)
  obtain fl where "pool_inv demo s' (R\<lparr>h_free_list := fl, h_used_bytes := of_nat (used_span (xs @ cut_block 160 b # cut_rest 160 b ys))\<rparr>)
      (xs @ cut_block 160 b # cut_rest 160 b ys) (?es[1 := resized_entry (?es ! 1) (span xs + 56) (acap (cut_block 160 b)) 100])"
    using to unfolding resized_to_def by blast
  moreover have "xs @ cut_block 160 b # cut_rest 160 b ys =
      [run_A, \<lparr>asz = 160, acap = 104, aown = Some (run_info 2)\<rparr>, \<lparr>asz = 2488, acap = 144, aown = None\<rparr>]"
    by (simp add: d cut_block_def cut_rest_def cut_tail_def run_X_def absorb_def is_free_def)
  ultimately show thesis
    using c(1,2) rc by (intro that) simp_all
qed

lemma run_overrun:
  assumes inv: "pool_inv demo s R [run_A, \<lparr>asz = 160, acap = 104, aown = Some (run_info 2)\<rparr>, \<lparr>asz = 2488, acap = 144, aown = None\<rparr>]
       [run_ent 1 56 1000 1000, e]" and mu: "mutex s = MUnlocked"
  shows "shm_resize (Some demo) s 1 2400 7 15 = None"
proof -
  have inv': "pool_inv demo s R ([] @ run_A # [\<lparr>asz = 160, acap = 104, aown = Some (run_info 2)\<rparr>, \<lparr>asz = 2488, acap = 144, aown = None\<rparr>])
       [run_ent 1 56 1000 1000, e]"
    using inv by simp
  show ?thesis
    by (rule shm_resize_overrun [OF inv', where i = 0 and n = 2456 and us = "[run_A, \<lparr>asz = 160, acap = 104, aown = Some (run_info 2)\<rparr>]"
          and f = "\<lparr>asz = 2488, acap = 144, aown = None\<rparr>" and vs = "[]"])
      (simp_all add: mu lockable_def first_slot_step(1) run_access run_sizes run_A_def is_free_def taken_def)
qed

end
