(* ===== verification/Shm_Facts.thy ===== *)
theory Shm_Facts
  imports Shm_System
begin

text \<open>
  Consequences of the pool invariant that several components share: payloads are disjoint and lie
  inside the mapping, behind the header and the directory; a region opened at another address is the
  same pool; stored names have at most 47 characters; the slot that an operation rewrote is durable
  when the operation returns.
\<close>

section \<open>Payloads\<close>

lemma blk_objs_apart:
  assumes "list_all wf_blk bs" "ob \<in> set (blk_objs h bs)" "ob' \<in> set (blk_objs h bs)" "ob \<noteq> ob'"
  shows "fst ob + fst (snd ob) + 56 \<le> fst ob' \<or> fst ob' + fst (snd ob') + 56 \<le> fst ob"
  using assms
proof (induction bs arbitrary: h)
  case (Cons b bs)
  have far: "h + asz b + 56 \<le> fst ob" if "ob \<in> set (blk_objs (h + asz b) bs)" for ob
    using blk_objs_bounds(1) [of "fst ob" "fst (snd ob)" "snd (snd ob)" "h + asz b" bs] that Cons.prems(1) by simp
  have near: "fst ob + fst (snd ob) \<le> h + asz b" if "ob \<in> set (blk_objs h [b])" for ob
    using that Cons.prems(1) by (auto simp: wf_blk_def split: option.splits)
  have split: "set (blk_objs h (b # bs)) = set (blk_objs h [b]) \<union> set (blk_objs (h + asz b) bs)"
    by (simp split: option.splits)
  have one: "ob = ob'" if "ob \<in> set (blk_objs h [b])" "ob' \<in> set (blk_objs h [b])"
    using that by (cases "aown b") auto
  show ?case
  proof (cases "ob \<in> set (blk_objs h [b])"; cases "ob' \<in> set (blk_objs h [b])")
    assume "ob \<in> set (blk_objs h [b])" "ob' \<in> set (blk_objs h [b])"
    with one Cons.prems(4) show ?thesis by blast
  next
    assume n: "ob \<in> set (blk_objs h [b])" "ob' \<notin> set (blk_objs h [b])"
    with Cons.prems(3) have "ob' \<in> set (blk_objs (h + asz b) bs)" by (simp only: split) blast
    from far [OF this] near [OF n(1)] show ?thesis by linarith
  next
    assume n: "ob \<notin> set (blk_objs h [b])" "ob' \<in> set (blk_objs h [b])"
    with Cons.prems(2) have "ob \<in> set (blk_objs (h + asz b) bs)" by (simp only: split) blast
    from far [OF this] near [OF n(2)] show ?thesis by linarith
  next
    assume n: "ob \<notin> set (blk_objs h [b])" "ob' \<notin> set (blk_objs h [b])"
    have "ob \<in> set (blk_objs (h + asz b) bs)" "ob' \<in> set (blk_objs (h + asz b) bs)"
      using n Cons.prems(2,3) by (simp_all only: split) blast+
    with Cons.prems(1,4) show ?thesis by (intro Cons.IH) simp_all
  qed
qed simp

text \<open>Objects of different slots.\<close>

lemma live_objects_apart:
  assumes inv: "pool_inv r s R bs es" and i: "i < length es" "live (es ! i)" and j: "j < length es" "live (es ! j)" and ne: "i \<noteq> j"
    and a: "in_payload (unat (h_data_offset R)) (ent_obj (es ! i)) a"
  shows "\<not> in_payload (unat (h_data_offset R)) (ent_obj (es ! j)) a"
proof -
  have d: "dir_ok (h_next_id R) es bs"
    using pool_invD(5) [OF inv] .
  have wf: "list_all wf_blk bs"
    using pool_invD(1) [OF inv] by (auto simp: heap_rep_bytes heap_shape_def dest: tiles_wf)
  have in_objs: "ent_obj (es ! k) \<in> set (blk_objs 0 bs)" if "k < length es" "live (es ! k)" for k
  proof -
    have "ent_obj (es ! k) \<in> set (dir_objs es)"
      using that by (auto simp: dir_objs_def)
    then show ?thesis
      using d by (metis dir_ok_def set_mset_mset)
  qed
  have "e_id (es ! i) \<noteq> e_id (es ! j)"
    using d i j ne distinct_filter_index [of e_id live es i j] by (auto simp: dir_ok_def)
  then have "ent_obj (es ! i) \<noteq> ent_obj (es ! j)"
    by (auto simp: ent_obj_def)
  from blk_objs_apart [OF wf in_objs [OF i] in_objs [OF j] this] a show ?thesis
    by (auto simp: in_payload_def)
qed

lemma live_object_place:
  assumes inv: "pool_inv r s R bs es" and i: "i < length es" "live (es ! i)"
    and a: "in_payload (unat (h_data_offset R)) (ent_obj (es ! i)) a"
  shows "slot_pos R (length es) \<le> a" "a < unat (rsize r)"
proof -
  obtain xs b ys where b: "bs = xs @ b # ys" "ent_obj (es ! i) = (span xs + 56, acap b, the (aown b))"
    by (rule entry_block [OF pool_invD(5) [OF inv] i])
  have wf: "list_all wf_blk bs" and tot: "unat (h_data_offset R) + span bs = unat (rsize r)"
    using pool_invD(1) [OF inv] by (auto simp: heap_rep_bytes heap_shape_def dest: tiles_wf)
  show "a < unat (rsize r)"
    using a b wf tot by (auto simp: in_payload_def wf_blk_def)
  show "slot_pos R (length es) \<le> a"
    using a pool_invD(2) [OF inv] dir_rep_length [OF pool_invD(2) [OF inv]] by (auto simp: dir_rep_def in_payload_def b(2))
qed

section \<open>Names\<close>

lemma cstr_short: "0 \<in> set cs \<Longrightarrow> length (cstr cs) < length cs"
  unfolding cstr_def by (induction cs) auto

lemma long_names:
  assumes "pool_inv r s R bs es" "47 < length nm"
  shows "first_slot (\<lambda>e. e_alive e \<noteq> 0 \<and> cstr (e_name e) = nm) es 0 = None"
proof -
  have "length (cstr (e_name e)) \<le> 47" if e: "e \<in> set es" for e
  proof -
    have "length (e_name e) = 48"
      using pool_invD(2) [OF assms(1)] e by (auto simp: dir_rep_def dir_at_def ent_at_def)
    then show ?thesis
      using cstr_short [of "e_name e"] names_terminated [OF assms(1)] e by fastforce
  qed
  then show ?thesis
    using assms(2) by (fastforce simp: first_slot_NoneD)
qed

section \<open>Durability of a rewritten slot\<close>

text \<open>
  Every operation that rewrites a directory slot ends with \<open>shm_persist\<close> of the slot,
  \<open>shm_drain\<close> and the unlock.
\<close>

lemma unlock_sel:
  "region_unlock r s = Some s' \<Longrightarrow> mem s' = mem s \<and> pmem s' = pmem s \<and> cmode s' = cmode s"
  by (auto simp: region_unlock_def pthread_mutex_unlock_def split: if_splits mutex_state.splits)

lemma persist_cmode: "mapped r \<Longrightarrow> k + n \<le> unat (rsize r) \<Longrightarrow>
    shm_persist r s (rbase r + of_nat k) (of_nat n) = Some s' \<Longrightarrow> cmode s' = cmode s"
  by (auto simp: shm_persist_eq)

lemma slot_written_back:
  assumes d: "dir_rep r s0 R es" "i < length es"
    and p: "shm_persist r s (rp r (slot_pos R i)) SIZEOF_OBJ_ENTRY = Some s1"
    and c: "cmode s1 \<noteq> CACHE_NONE" and a: "slot_pos R i \<le> a" "a < slot_pos R i + 96"
  shows "written_back s1 a"
proof -
  have m: "mapped r" "slot_pos R i + 96 \<le> unat (rsize r)"
    using d slot_bounds [OF d] by (auto simp: dir_rep_def)
  have p': "shm_persist r s (rbase r + of_nat (slot_pos R i)) (of_nat 96) = Some s1"
    using p by (simp add: rp_def SIZEOF_OBJ_ENTRY_def)
  have "cmode s = cmode s1"
    using persist_cmode [OF m p'] by simp
  then show ?thesis
    using shm_persist_written_back [OF m _ p'] c a by simp
qed

lemma drained_durable:
  assumes "written_back s1 a" "region_unlock r (shm_drain s1) = Some s2" "cmode s2 \<noteq> CACHE_NONE"
  shows "durable s2 a"
proof -
  have "durable (shm_drain s1) a"
    using assms unlock_sel [OF assms(2)] by (intro shm_drain_durable) simp_all
  then show ?thesis
    using unlock_sel [OF assms(2)] by (simp add: durable_def)
qed

lemma shm_free_slot_durable:
  assumes inv: "pool_inv r s R bs es" and lk: "lockable s" and nz: "obj_id \<noteq> 0"
    and slot: "first_slot (\<lambda>e. e_id e = obj_id \<and> e_alive e \<noteq> 0) es 0 = Some i"
    and run: "shm_free (Some r) s obj_id user cp = Some (OK, s')" and c: "cmode s' \<noteq> CACHE_NONE"
    and a: "slot_pos R i \<le> a" "a < slot_pos R i + 96"
  shows "durable s' a"
proof -
  let ?s1 = "s\<lparr>mutex := MLocked\<rparr>"
  note l = pool_lock [OF inv lk]
  note dr = pool_invD(2) [OF l(2)]
  have i: "i < length es" "live (es ! i)"
    using first_slot_SomeD [OF slot] nz by (auto simp: live_def)
  have find: "dir_find_by_id r ?s1 obj_id = Some (rp r (slot_pos R i))" "rp r (slot_pos R i) \<noteq> 0"
    using dir_find_by_id_eq [OF dr, of obj_id] slot slot_ptr_nonzero [OF dr i(1)] by (simp_all add: slot_ptr_def)
  note run' = run [unfolded shm_free_def option.case if_not_P [OF nz] l(1) Option.bind_lunit prod.case find(1) if_not_P [OF find(2)]
      check_dir_access_eq [OF dr i] Let_def]
  have acc: "access_ok (e_owner (es ! i)) (e_perms (es ! i)) user cp SHM_PERM_FREE"
    using run' by (cases "access_ok (e_owner (es ! i)) (e_perms (es ! i)) user cp SHM_PERM_FREE") (auto simp: l(3))
  obtain s3 s4 where t: "shm_persist r s3 (rp r (slot_pos R i)) SIZEOF_OBJ_ENTRY = Some s4"
    "region_unlock r (shm_drain s4) = Some s'"
    using run' acc by (auto simp: bind_eq_Some_conv)
  have "cmode s4 \<noteq> CACHE_NONE"
    using unlock_sel [OF t(2)] c by simp
  from slot_written_back [OF dr i(1) t(1) this a] t(2) c show ?thesis
    by (rule drained_durable)
qed

lemma shm_alloc_slot_durable:
  assumes inv: "pool_inv r s R bs es" and lk: "lockable s" and p: "psize \<noteq> 0"
    and slot: "first_slot (\<lambda>e. \<not> live e) es 0 = Some i"
    and run: "shm_alloc (Some r) s psize name user pm tag True True = Some (OK, out, s')" and c: "cmode s' \<noteq> CACHE_NONE"
    and a: "slot_pos R i \<le> a" "a < slot_pos R i + 96"
  shows "durable s' a"
proof -
  let ?s1 = "s\<lparr>mutex := MLocked\<rparr>"
  note l = pool_lock [OF inv lk]
  note dr = pool_invD(2) [OF l(2)]
  have m: "mapped r" "200 \<le> unat (rsize r)"
    using pool_invD(6,7) [OF inv] by auto
  have i: "i < length es"
    using first_slot_SomeD [OF slot] by simp
  have find: "dir_find_free_slot r ?s1 = Some (rp r (slot_pos R i))" "rp r (slot_pos R i) \<noteq> 0"
    using dir_find_free_slot_eq [OF dr] slot slot_ptr_nonzero [OF dr i] by (simp_all add: slot_ptr_def)
  have args: "\<not> (psize = 0 \<or> \<not> True \<or> \<not> True)"
    using p by simp
  note run' = run [unfolded shm_alloc_def option.case if_not_P [OF args] l(1) Option.bind_lunit prod.case find(1)
      if_not_P [OF find(2)] Let_def]
  obtain s3 s4 s5 where t: "shm_persist r s3 (rp r (slot_pos R i)) SIZEOF_OBJ_ENTRY = Some s4"
    "shm_persist r s4 (shm_rh r + 112) 8 = Some s5" "region_unlock r (shm_drain s5) = Some s'"
    using run' by (auto simp: bind_eq_Some_conv split: if_splits)
  have p2: "shm_persist r s4 (rbase r + of_nat 112) (of_nat 8) = Some s5" "112 + 8 \<le> unat (rsize r)"
    using t(2) m by (simp_all add: shm_rh_def)
  have c5: "cmode s5 \<noteq> CACHE_NONE"
    using unlock_sel [OF t(3)] c by simp
  have c4: "cmode s4 = cmode s5"
    using persist_cmode [OF m(1) p2(2,1)] by simp
  have "written_back s4 a"
    using slot_written_back [OF dr i t(1) _ a] c4 c5 by simp
  then have "written_back s5 a"
    using shm_persist_written_back [OF m(1) p2(2) _ p2(1)] c4 c5 by simp
  then show ?thesis
    using t(3) c by (rule drained_durable)
qed

lemma region_init_durable:
  assumes m: "mapped r" and fit: "256 + 96 * unat cap \<le> unat (rsize r)"
    and run: "region_init r s (rsize r) backend cap name ns cg = Some s'" and c: "cmode s' \<noteq> CACHE_NONE"
    and a: "a < 256 + 96 * unat cap"
  shows "durable s' a"
proof -
  let ?d = "200 + ucast cap * 96 :: u64"
  obtain s3 s4 where p: "shm_persist r s3 (rbase r) (?d + SIZEOF_BLOCK_HDR) = Some s4" "s' = shm_drain s4"
    using run unfolding region_init_def Let_def init_layout by (auto simp: bind_eq_Some_conv)
  have "unat ?d + 56 < 2 ^ 64"
    using fit unat_init_data_offset [of cap] unat64_bound [of "rsize r"] by linarith
  then have "unat (?d + SIZEOF_BLOCK_HDR) = 256 + 96 * unat cap"
    using unat64_add_numeral [of ?d "num.Bit0 (num.Bit0 (num.Bit0 (num.Bit1 (num.Bit1 num.One))))"] unat_init_data_offset [of cap]
    by (simp add: SIZEOF_BLOCK_HDR_def)
  then have sz: "?d + SIZEOF_BLOCK_HDR = of_nat (256 + 96 * unat cap)"
    by (rule unat64_eqD)
  have p': "shm_persist r s3 (rbase r + of_nat 0) (of_nat (256 + 96 * unat cap)) = Some s4"
    unfolding sz [symmetric]
    using p(1) by simp
  have k: "0 + (256 + 96 * unat cap) \<le> unat (rsize r)"
    using fit by simp
  have c4: "cmode s4 = cmode s'"
    by (simp add: p(2))
  have c3: "cmode s3 \<noteq> CACHE_NONE"
    using c unfolding c4 [symmetric] persist_cmode [OF m k p'] .
  have "0 \<le> a \<and> a < 0 + (256 + 96 * unat cap) \<or> written_back s3 a"
    using a by simp
  note wb = shm_persist_written_back [OF m k c3 p' this]
  have "cmode s4 \<noteq> CACHE_NONE"
    unfolding c4 by (rule c)
  from shm_drain_durable [OF this wb] show ?thesis
    unfolding p(2) .
qed

section \<open>The same pool at another address\<close>

lemma shm_ptr_moved:
  assumes "heap_rep r s R (xs @ b # ys)" "heap_rep r' s R (xs @ b # ys)"
    and "shm_ptr (Some r) s (of_nat (span xs + 56)) user cp req = Some p" "p \<noteq> 0"
  shows "shm_ptr (Some r') s (of_nat (span xs + 56)) user cp req = Some (rbase r' + (p - rbase r))"
proof -
  obtain oi where oi: "aown b = Some oi" "access_ok (o_owner oi) (o_perms oi) user cp req" "p = payload_ptr r R (span xs)"
    using assms(3,4) unfolding shm_ptr_eq [OF assms(1)] by (cases "aown b") (simp_all split: if_splits)
  then have "shm_ptr (Some r') s (of_nat (span xs + 56)) user cp req = Some (payload_ptr r' R (span xs))"
    unfolding shm_ptr_eq [OF assms(2)] by simp
  then show ?thesis
    using oi(3) by (simp add: payload_ptr_def rp_def)
qed

section \<open>Refused callers\<close>

text \<open>A caller that the policy refuses leaves no trace but the mutex.\<close>

lemma refused_free:
  assumes inv: "pool_inv r s R bs es" and lk: "lockable s" and nz: "obj_id \<noteq> 0"
    and slot: "first_slot (\<lambda>e. e_id e = obj_id \<and> e_alive e \<noteq> 0) es 0 = Some i"
    and no: "\<not> access_ok (e_owner (es ! i)) (e_perms (es ! i)) user cp SHM_PERM_FREE"
  shows "shm_free (Some r) s obj_id user cp = Some (EACCES, s\<lparr>mutex := MUnlocked\<rparr>)"
proof -
  note l = pool_lock [OF inv lk]
  note dr = pool_invD(2) [OF l(2)]
  have i: "i < length es" "live (es ! i)"
    using first_slot_SomeD [OF slot] nz by (auto simp: live_def)
  have find: "dir_find_by_id r (s\<lparr>mutex := MLocked\<rparr>) obj_id = Some (rp r (slot_pos R i))" "rp r (slot_pos R i) \<noteq> 0"
    using dir_find_by_id_eq [OF dr, of obj_id] slot slot_ptr_nonzero [OF dr i(1)] by (simp_all add: slot_ptr_def)
  show ?thesis
    using nz find no by (simp add: shm_free_def l(1,3) check_dir_access_eq [OF dr i])
qed

lemma refused_resize:
  assumes inv: "pool_inv r s R bs es" and lk: "lockable s" and nz: "obj_id \<noteq> 0" "new_size \<noteq> 0"
    and slot: "first_slot (\<lambda>e. e_id e = obj_id \<and> e_alive e \<noteq> 0) es 0 = Some i"
    and no: "\<not> access_ok (e_owner (es ! i)) (e_perms (es ! i)) user cp SHM_PERM_RESIZE"
  shows "shm_resize (Some r) s obj_id new_size user cp = Some (EACCES, s\<lparr>mutex := MUnlocked\<rparr>)"
proof -
  note l = pool_lock [OF inv lk]
  note dr = pool_invD(2) [OF l(2)]
  have i: "i < length es" "live (es ! i)"
    using first_slot_SomeD [OF slot] nz by (auto simp: live_def)
  have find: "dir_find_by_id r (s\<lparr>mutex := MLocked\<rparr>) obj_id = Some (rp r (slot_pos R i))" "rp r (slot_pos R i) \<noteq> 0"
    using dir_find_by_id_eq [OF dr, of obj_id] slot slot_ptr_nonzero [OF dr i(1)] by (simp_all add: slot_ptr_def)
  show ?thesis
    using nz find no by (simp add: shm_resize_def l(1,3) check_dir_access_eq [OF dr i])
qed

lemma refused_ptr:
  assumes inv: "pool_inv r s R bs es" and i: "i < length es" "live (es ! i)"
    and no: "\<not> access_ok (e_owner (es ! i)) (e_perms (es ! i)) user cp req"
  shows "shm_ptr (Some r) s (e_off (es ! i)) user cp req = Some 0"
proof -
  obtain xs b ys where b: "bs = xs @ b # ys" "unat (e_off (es ! i)) = span xs + 56"
    "aown b = Some (snd (snd (ent_obj (es ! i))))"
    by (rule entry_block [OF pool_invD(5) [OF inv] i])
  have "e_off (es ! i) = of_nat (span xs + 56)"
    using b(2) by (rule unat64_eqD)
  then show ?thesis
    using shm_ptr_eq [OF pool_invD(1) [OF inv, unfolded b(1)], of user cp req] b(3) no by (simp add: ent_obj_def)
qed

section \<open>After a release\<close>

lemma freed_unreachable:
  assumes inv: "pool_inv r s R bs es" and lk: "lockable s" and nz: "obj_id \<noteq> 0"
    and slot: "first_slot (\<lambda>e. e_id e = obj_id \<and> e_alive e \<noteq> 0) es 0 = Some i"
    and acc: "access_ok (e_owner (es ! i)) (e_perms (es ! i)) user cp SHM_PERM_FREE"
  shows "runs (shm_free (Some r) s obj_id user cp) (\<lambda>(rc, s'). rc = OK \<and>
    (\<forall>cap req. shm_cap_offset cap = e_off (es ! i) \<longrightarrow>
       shm_cap_deref (Some r) s' cap req = Some 0 \<and> shm_cap_is_valid (Some r) s' cap = Some False) \<and>
    (\<forall>u p req. shm_ptr (Some r) s' (e_off (es ! i)) u p req = Some 0))"
proof (rule runs_mono [OF shm_free_refines [OF inv lk nz, of user cp]])
  fix v assume post: "free_post r s R bs es obj_id user cp v"
  obtain rc s' where v: "v = (rc, s')" by (cases v)
  obtain xs b ys where f: "rc = OK" "bs = xs @ b # ys" "unat (e_off (es ! i)) = span xs + 56" "free_done r s s' R es i xs b ys"
    using post slot acc by (auto simp: v free_post_def)
  obtain fl where inv': "pool_inv r s' (count_free (R\<lparr>h_free_list := fl\<rparr>) (asz b)) (insert_free xs b ys) (es[i := zero_ent])"
    and dead: "b_allocated (blk_at (mem s') (unat (h_data_offset R) + span xs)) = 0"
    using f(4) by (auto simp: free_done_def)
  have off: "e_off (es ! i) = of_nat (span xs + 56)"
    using f(3) by (rule unat64_eqD)
  have "list_all wf_blk bs" "unat (h_data_offset R) + span bs = unat (rsize r)"
    using pool_invD(1) [OF inv] by (auto simp: heap_rep_bytes heap_shape_def dest: tiles_wf)
  then have le: "unat (h_data_offset R) + span xs + 56 \<le> unat (rsize r)"
    by (auto simp: f(2) wf_blk_def)
  note gone = deref_dead [OF dir_rep_hview [OF pool_invD(2) [OF inv']], of "span xs"]
  show "case v of (rc, s') \<Rightarrow> rc = OK \<and>
    (\<forall>cap req. shm_cap_offset cap = e_off (es ! i) \<longrightarrow>
       shm_cap_deref (Some r) s' cap req = Some 0 \<and> shm_cap_is_valid (Some r) s' cap = Some False) \<and>
    (\<forall>u p req. shm_ptr (Some r) s' (e_off (es ! i)) u p req = Some 0)"
    unfolding v prod.case off shm_cap_offset_def
    using f(1) le dead gone(1,2) gone(3) [of "\<lparr>addr = of_nat (span xs + 56), meta = 0\<rparr>"] by simp
qed

section \<open>Creating a region that is too small\<close>

lemma open_create_faults:
  assumes ok: "os_ok os" and g: "grants os asked p r" and c: "opts_creating p"
    and small: "unat (rsize r) < 256 + 96 * unat (opts_capacity p)"
  shows "shm_region_open os (Some (rname r)) asked (Some p) True s = None"
proof -
  have m: "mapped r" "200 \<le> unat (rsize r)" and cr: "rcreator r"
    using grants_mapped [OF ok g] g c by (auto simp: grants_def)
  have "open_mapped os r s (op_flags p) (opts_capacity p) = None"
    using region_init_fault [OF m small]
    by (cases "shm_ns_cgroup_hash (os_cgroup_open os) (os_cgroup_read os)") (simp_all add: open_mapped_def cr)
  then show ?thesis
    using open_granted [OF g, of s] by auto
qed

section \<open>Fields of a derived capability\<close>

lemma word_and_subset:
  fixes req grant perms cp :: u32
  assumes "grant AND (perms AND cp) = grant" "req AND grant = req"
  shows "perms AND req = req" "grant AND req = req"
proof -
  have g: "\<And>i. bit grant i \<Longrightarrow> bit perms i"
    using assms(1) by (metis bit_and_iff)
  have q: "\<And>i. bit req i \<Longrightarrow> bit grant i"
    using assms(2) by (metis bit_and_iff)
  show "perms AND req = req"
    by (rule bit_word_eqI) (use g q in \<open>auto simp: bit_simps\<close>)
  show "grant AND req = req"
    by (rule bit_word_eqI) (use q in \<open>auto simp: bit_simps\<close>)
qed

lemma cap_of_perms:
  assumes "grant AND 0xFF = grant"
  shows "shm_cap_perms (cap_of off pcap oi grant) = grant"
proof -
  have m: "(0xFF :: u32) = mask 8"
    by (simp add: mask_eq_exp_minus_1)
  have "bit grant i \<Longrightarrow> i < 8" for i
    using assms unfolding m by (metis bit_and_iff bit_mask_iff)
  then show ?thesis
    unfolding cap_of_fields by (intro bit_word_eqI) (auto simp: bit_simps dest: bit_imp_le_length)
qed

lemma cap_of_bounds: "pcap < 2 ^ 32 \<Longrightarrow> unat (shm_cap_bounds (cap_of off pcap oi grant)) = pcap"
  by (simp add: shm_cap_bounds_def cap_of_fields unsigned_ucast_eq unat_of_nat take_bit_nat_eq_self
      unsigned_of_nat)

lemma cap_of_nonnull:
  assumes h: "heap_rep r s R (xs @ b # ys)"
  shows "\<not> shm_cap_is_null (cap_of (span xs + 56) pcap oi grant)"
proof -
  obtain H where H: "hview r s s (set (starts 0 (xs @ b # ys))) H R" "span xs \<in> set (starts 0 (xs @ b # ys))"
    using h by (blast elim: heap_rep_block)
  have "span xs + 56 < 2 ^ 64"
    using hviewD(5) [OF H] unat64_bound [of "rsize r"] by linarith
  then have "(of_nat (span xs + 56) :: u64) \<noteq> 0"
    by (simp add: of_nat64_eq_0 del: of_nat_add)
  then show ?thesis
    by (simp add: shm_cap_is_null_def cap_of_fields)
qed

section \<open>A narrowed capability reaches no more than the original\<close>

lemma and_trans:
  fixes x y z :: u32
  shows "y AND z = z \<Longrightarrow> y AND x = y \<Longrightarrow> x AND z = z"
  by (metis and.assoc and.commute)

lemma deref_SomeD:
  assumes "shm_cap_deref region s cap req = Some p" "p \<noteq> 0"
  shows "shm_cap_perms cap AND req = req" "\<exists>r b id pcap. region = Some r \<and> shm_blk_of_poff r s (addr cap) = Some b \<and> b \<noteq> 0 \<and>
    blk_magic r s b = Some SHM_ALLOC_MAGIC_BLOCK \<and> (\<exists>al. blk_allocated r s b = Some al \<and> al \<noteq> 0) \<and>
    blk_obj_id r s b = Some id \<and> ucast (id AND 0xFFFF) = meta_epoch (meta cap) \<and>
    blk_payload_cap r s b = Some pcap \<and> ucast pcap = meta_bounds (meta cap) \<and>
    (\<exists>q. blk_perms r s b = Some q \<and> q AND req = req) \<and> p = b + SIZEOF_BLOCK_HDR"
proof -
  obtain r where r: "region = Some r"
    using assms by (cases region) (simp_all add: shm_cap_deref_def split: if_splits)
  note run = assms(1) [unfolded shm_cap_deref_def r option.case Let_def]
  obtain b where b: "shm_blk_of_poff r s (addr cap) = Some b" "b \<noteq> 0"
    using run assms(2) by (auto simp: bind_eq_Some_conv split: if_splits)
  show "shm_cap_perms cap AND req = req" "\<exists>r b id pcap. region = Some r \<and> shm_blk_of_poff r s (addr cap) = Some b \<and> b \<noteq> 0 \<and>
    blk_magic r s b = Some SHM_ALLOC_MAGIC_BLOCK \<and> (\<exists>al. blk_allocated r s b = Some al \<and> al \<noteq> 0) \<and>
    blk_obj_id r s b = Some id \<and> ucast (id AND 0xFFFF) = meta_epoch (meta cap) \<and>
    blk_payload_cap r s b = Some pcap \<and> ucast pcap = meta_bounds (meta cap) \<and>
    (\<exists>q. blk_perms r s b = Some q \<and> q AND req = req) \<and> p = b + SIZEOF_BLOCK_HDR"
    using run assms(2) unfolding r by (auto simp: bind_eq_Some_conv b shm_cap_perms_def simp del: ucast_low split: if_splits)
qed

lemma deref_perms_mono:
  assumes "shm_cap_deref region s cap' req = Some p" "p \<noteq> 0" "\<not> shm_cap_is_null cap"
    and "addr cap' = addr cap" "meta_epoch (meta cap') = meta_epoch (meta cap)"
    "meta_bounds (meta cap') = meta_bounds (meta cap)" "shm_cap_perms cap AND req = req"
  shows "shm_cap_deref region s cap req = Some p"
proof -
  obtain r b id pcap where d: "region = Some r" "shm_blk_of_poff r s (addr cap') = Some b" "b \<noteq> 0"
    "blk_magic r s b = Some SHM_ALLOC_MAGIC_BLOCK" "\<exists>al. blk_allocated r s b = Some al \<and> al \<noteq> 0"
    "blk_obj_id r s b = Some id" "ucast (id AND 0xFFFF) = meta_epoch (meta cap')"
    "blk_payload_cap r s b = Some pcap" "ucast pcap = meta_bounds (meta cap')"
    "\<exists>q. blk_perms r s b = Some q \<and> q AND req = req" "p = b + SIZEOF_BLOCK_HDR"
    using deref_SomeD [OF assms(1,2)] by blast
  show ?thesis
    using d assms(3-7) by (auto simp: shm_cap_deref_def shm_cap_perms_def Let_def)
qed

lemma ucast64_inj: "(ucast (x :: u32) :: u64) = ucast y \<Longrightarrow> x = y"
proof -
  assume e: "(ucast x :: u64) = ucast y"
  have "(ucast (ucast z :: u64) :: u32) = z" for z :: u32
    by (rule bit_word_eqI) (auto simp: bit_simps)
  then show "x = y"
    using e by metis
qed

lemma narrow_deref:
  assumes "shm_cap_deref region s (shm_cap_narrow cap np) req = Some p" "p \<noteq> 0"
  shows "shm_cap_deref region s cap req = Some p"
proof -
  have live: "\<not> shm_cap_is_null (shm_cap_narrow cap np)"
    using assms by (auto simp: shm_cap_deref_def)
  then have nn: "\<not> shm_cap_is_null cap"
    by (cases "shm_cap_is_null cap") (simp_all add: shm_cap_narrow_def)
  have sub: "np AND shm_cap_perms cap = np"
    using live narrow_refused [of np cap] by (metis cap_null_fields(1))
  note f = narrow_fields [OF nn sub]
  have "shm_cap_perms (shm_cap_narrow cap np) AND req = req"
    using assms by (rule deref_SomeD)
  then have "shm_cap_perms cap AND req = req"
    using sub and_trans unfolding f(1) by blast
  moreover have "meta_bounds (meta (shm_cap_narrow cap np)) = meta_bounds (meta cap)"
    using f(4) unfolding shm_cap_bounds_def by (rule ucast64_inj)
  ultimately show ?thesis
    using deref_perms_mono [OF assms nn] f(2,3) by (simp add: shm_cap_offset_def shm_cap_epoch_def)
qed

lemma meta_pack_exact:
  "cap_meta_pack (meta_perms m) (ucast (drop_bit 48 m)) (meta_epoch m) (meta_bounds m) = m"
  by (rule bit_word_eqI) (auto simp: bit_cap_meta_pack perms_field.bit_get epoch_field.bit_get bounds_field.bit_get bit_simps)

section \<open>Validity is a dereference without rights\<close>

lemma perms_load:
  assumes m: "mapped r" and "blk_magic r s b = Some x" "blk_payload_cap r s b = Some c"
  shows "\<exists>q. blk_perms r s b = Some q" "b + 56 \<noteq> 0"
proof -
  define k where "k = unat (b - rbase r)"
  have k: "b = rbase r + of_nat k" "k < 2 ^ 64"
    using unat64_bound [of "b - rbase r"] by (simp_all add: k_def)
  have lt: "unat (rsize r) \<le> 2 ^ 63" "unat (rbase r) + unat (rsize r) \<le> 2 ^ 63" "unat (rbase r) \<noteq> 0"
    using m by (auto simp: mapped_def unat_eq_0)
  have i: "k + 4 \<le> unat (rsize r)"
    using assms(2) k by (simp add: blk_magic_def rd32_def in_map_def region_off_base split: if_splits)
  have "k + 32 + 8 \<le> unat (rsize r)"
    using assms(3) k(1) i lt(1)
    by (simp add: blk_payload_cap_def rd64_def in_map_def region_off_base_field split: if_splits)
  then show "\<exists>q. blk_perms r s b = Some q"
    using k(1) i lt(1) by (simp add: blk_perms_def rd32_def in_map_def region_off_base_field)
  have "unat (rbase r + of_nat (k + 56)) = unat (rbase r) + (k + 56)"
    using m i by (intro mapped_unat_add) simp_all
  moreover have "b + 56 = rbase r + of_nat (k + 56)"
    by (simp add: k(1))
  ultimately have "unat (b + 56) \<noteq> 0"
    using lt(3) by (simp only: add_eq_0_iff_both_eq_0) simp
  then show "b + 56 \<noteq> 0"
    by auto
qed

lemma valid_iff_deref:
  assumes m: "mapped r"
  shows "shm_cap_is_valid (Some r) s cap = map_option (\<lambda>p. p \<noteq> 0) (shm_cap_deref (Some r) s cap 0)"
proof -
  show ?thesis
  proof (cases "\<not> shm_cap_is_null cap \<and> (\<exists>b x c. shm_blk_of_poff r s (addr cap) = Some b \<and> blk_magic r s b = Some x \<and>
      blk_payload_cap r s b = Some c)")
    case True
    then obtain b x c where l: "\<not> shm_cap_is_null cap" "shm_blk_of_poff r s (addr cap) = Some b"
      "blk_magic r s b = Some x" "blk_payload_cap r s b = Some c" by blast
    obtain q where q: "blk_perms r s b = Some q" "b + 56 \<noteq> 0"
      using perms_load [OF m l(3,4)] by blast
    show ?thesis
      by (cases "blk_allocated r s b"; cases "blk_obj_id r s b")
        (simp_all add: shm_cap_is_valid_def shm_cap_deref_def l q Let_def SIZEOF_BLOCK_HDR_def)
  next
    case False
    show ?thesis
    proof (cases "shm_cap_is_null cap")
      case nn: False
      with False have f: "\<And>b. shm_blk_of_poff r s (addr cap) = Some b \<Longrightarrow>
          blk_magic r s b = None \<or> blk_payload_cap r s b = None"
        by (metis not_None_eq)
      show ?thesis
      proof (cases "shm_blk_of_poff r s (addr cap)")
        case (Some b)
        from f [OF this] Some nn show ?thesis
          by (cases "blk_magic r s b"; cases "blk_allocated r s b"; cases "blk_obj_id r s b")
            (auto simp: shm_cap_is_valid_def shm_cap_deref_def Let_def)
      qed (simp add: shm_cap_is_valid_def shm_cap_deref_def nn)
    qed (simp add: shm_cap_is_valid_def shm_cap_deref_def)
  qed
qed

end
