(* ===== verification/Shm_Cpp.thy ===== *)
theory Shm_Cpp
  imports Shm_System
begin

text \<open>
  The C++ layer of \<open>src/include/shm_alloc.hpp\<close> and \<open>src/include/shm_cap.hpp\<close>, and the typed
  macros of \<open>shm_alloc.h\<close> and \<open>shm_cap.h\<close>. A template argument \<open>T\<close> is a record of what the
  templates ask of it. Constructors and destructors are functions of the address and the machine,
  parameters of the operations; the arguments that a constructor gets are part of the function, and
  \<open>None\<close> is one that throws. \<open>static_cast\<close> and \<open>dynamic_cast\<close> between classes are functions of
  the address.

  The lemmas: \<open>make\<close> and \<open>free\<close> on a pool, on every path, for constructors and destructors that
  stay inside their object; the casts.
\<close>

section \<open>Types and handles\<close>

record cpp_type =
  t_size :: u64
  t_tag :: "u32 option"  \<comment> \<open>a specialisation of \<open>type_tag_of\<close>\<close>
  t_trivial :: bool  \<comment> \<open>trivially destructible\<close>
  t_polymorphic :: bool

type_synonym member_fun = "u64 \<Rightarrow> machine \<Rightarrow> machine option"

definition SHM_OFF_NULL :: u64 where "SHM_OFF_NULL = - 1"

definition SHM_TYPE_TAG_OF :: "cpp_type \<Rightarrow> u32" where
  "SHM_TYPE_TAG_OF T = ucast (t_size T)"

definition type_tag_of :: "cpp_type \<Rightarrow> u32" where
  "type_tag_of T = (case t_tag T of None \<Rightarrow> ucast (t_size T) | Some tag \<Rightarrow> tag)"

record ptr =
  p_off :: u64

definition ptr_null :: ptr where "ptr_null = \<lparr>p_off = SHM_OFF_NULL\<rparr>"

definition ptr_bool :: "ptr \<Rightarrow> bool" where
  "ptr_bool p \<longleftrightarrow> p_off p \<noteq> SHM_OFF_NULL \<and> p_off p \<noteq> 0"

definition ptr_raw :: "ptr \<Rightarrow> u64" where "ptr_raw p = p_off p"

section \<open>The typed macros\<close>

definition shm_alloc_typed ::
    "shm_region option \<Rightarrow> machine \<Rightarrow> cpp_type \<Rightarrow> cstring option \<Rightarrow> u32 \<Rightarrow> u32 \<Rightarrow> bool \<Rightarrow> bool \<Rightarrow>
     (errno \<times> (u64 \<times> u64) option \<times> machine) option" where
  "shm_alloc_typed region s T name user_id perms out_id out_off =
     shm_alloc region s (t_size T) name user_id perms (SHM_TYPE_TAG_OF T) out_id out_off"

definition shm_cast :: "shm_region option \<Rightarrow> machine \<Rightarrow> u64 \<Rightarrow> u32 \<Rightarrow> u32 \<Rightarrow> u64 option" where
  "shm_cast region s off user_id caller_perms = shm_ptr region s off user_id caller_perms SHM_PERM_READ"

definition shm_cast_mut :: "shm_region option \<Rightarrow> machine \<Rightarrow> u64 \<Rightarrow> u32 \<Rightarrow> u32 \<Rightarrow> u64 option" where
  "shm_cast_mut region s off user_id caller_perms =
     shm_ptr region s off user_id caller_perms (SHM_PERM_READ OR SHM_PERM_WRITE)"

definition shm_free_id :: "shm_region option \<Rightarrow> machine \<Rightarrow> u64 \<Rightarrow> u32 \<Rightarrow> u32 \<Rightarrow> (errno \<times> machine) option" where
  "shm_free_id region s obj_id user_id caller_perms = shm_free region s obj_id user_id caller_perms"

definition shm_cap_deref_as :: "shm_region option \<Rightarrow> machine \<Rightarrow> shm_cap \<Rightarrow> u32 \<Rightarrow> u64 option" where
  "shm_cap_deref_as region s cap required_perms = shm_cap_deref region s cap required_perms"

definition shm_cap_ro :: "shm_region option \<Rightarrow> machine \<Rightarrow> shm_cap \<Rightarrow> u64 option" where
  "shm_cap_ro region s cap = shm_cap_deref region s cap SHM_PERM_READ"

definition shm_cap_rw :: "shm_region option \<Rightarrow> machine \<Rightarrow> shm_cap \<Rightarrow> u64 option" where
  "shm_cap_rw region s cap = shm_cap_deref region s cap (SHM_PERM_READ OR SHM_PERM_WRITE)"

definition shm_cap_derive_typed ::
    "shm_region option \<Rightarrow> machine \<Rightarrow> u64 \<Rightarrow> u32 \<Rightarrow> u32 \<Rightarrow> u32 \<Rightarrow> shm_cap option" where
  "shm_cap_derive_typed region s off user_id caller_perms grant_perms =
     shm_cap_derive region s off user_id caller_perms grant_perms"

section \<open>Allocation and access\<close>

definition cpp_alloc ::
    "cpp_type \<Rightarrow> shm_region option \<Rightarrow> machine \<Rightarrow> u32 \<Rightarrow> u32 \<Rightarrow> bool \<Rightarrow> cstring option \<Rightarrow> u32 \<Rightarrow>
     (errno \<times> ptr option \<times> machine) option" where
  "cpp_alloc T region s user_id perms out name tag =
     (if region = None \<or> \<not> out then Some (EINVAL, None, s)
      else do {
        (rc, res, s) \<leftarrow> shm_alloc region s (t_size T) name user_id perms tag True True;
        if rc \<noteq> OK then Some (rc, None, s)
        else Some (OK, Some \<lparr>p_off = (case res of None \<Rightarrow> SHM_OFF_NULL | Some (i, off) \<Rightarrow> off)\<rparr>, s) })"

definition cpp_get :: "shm_region option \<Rightarrow> machine \<Rightarrow> ptr \<Rightarrow> u32 \<Rightarrow> u32 \<Rightarrow> u64 option" where
  "cpp_get region s handle user_id caller_perms =
     shm_ptr region s (p_off handle) user_id caller_perms SHM_PERM_READ"

definition cpp_get_mut :: "shm_region option \<Rightarrow> machine \<Rightarrow> ptr \<Rightarrow> u32 \<Rightarrow> u32 \<Rightarrow> u64 option" where
  "cpp_get_mut region s handle user_id caller_perms =
     shm_ptr region s (p_off handle) user_id caller_perms (SHM_PERM_READ OR SHM_PERM_WRITE)"

definition cpp_cast :: "shm_region option \<Rightarrow> machine \<Rightarrow> ptr \<Rightarrow> u32 \<Rightarrow> u32 \<Rightarrow> u32 \<Rightarrow> u64 option" where
  "cpp_cast region s handle user_id caller_perms required =
     shm_ptr region s (p_off handle) user_id caller_perms required"

definition cpp_cast_dyn ::
    "cpp_type \<Rightarrow> cpp_type \<Rightarrow> (u64 \<Rightarrow> u64) \<Rightarrow> (u64 \<Rightarrow> u64) \<Rightarrow>
     shm_region option \<Rightarrow> machine \<Rightarrow> ptr \<Rightarrow> u32 \<Rightarrow> u32 \<Rightarrow> u64 option" where
  "cpp_cast_dyn To From dynamic_cast static_cast region s handle user_id caller_perms = do {
     raw \<leftarrow> shm_ptr region s (p_off handle) user_id caller_perms SHM_PERM_READ;
     if raw = 0 then Some 0
     else do {
       (_, _, _, _, tag, _) \<leftarrow> shm_block_info region s (p_off handle) False False False True False;
       let stored_tag = (case tag of None \<Rightarrow> 0 | Some t \<Rightarrow> t);
       if stored_tag \<noteq> 0 \<and> stored_tag \<noteq> type_tag_of To then Some 0
       else Some (if t_polymorphic From then dynamic_cast raw else static_cast raw) } }"

section \<open>Construction and destruction\<close>

definition cpp_construct ::
    "member_fun \<Rightarrow> shm_region option \<Rightarrow> machine \<Rightarrow> ptr \<Rightarrow> u32 \<Rightarrow> u32 \<Rightarrow> (errno \<times> machine) option" where
  "cpp_construct ctor region s handle user_id caller_perms = do {
     p \<leftarrow> cpp_get_mut region s handle user_id caller_perms;
     if p = 0 then Some (EACCES, s)
     else do { s \<leftarrow> ctor p s; Some (OK, s) } }"

definition cpp_destroy ::
    "member_fun \<Rightarrow> shm_region option \<Rightarrow> machine \<Rightarrow> ptr \<Rightarrow> u32 \<Rightarrow> u32 \<Rightarrow> (errno \<times> machine) option" where
  "cpp_destroy dtor region s handle user_id caller_perms = do {
     p \<leftarrow> cpp_get_mut region s handle user_id caller_perms;
     if p = 0 then Some (EACCES, s)
     else do { s \<leftarrow> dtor p s; Some (OK, s) } }"

definition cpp_free ::
    "cpp_type \<Rightarrow> member_fun \<Rightarrow> shm_region option \<Rightarrow> machine \<Rightarrow> ptr \<Rightarrow> u32 \<Rightarrow> u32 \<Rightarrow> (errno \<times> machine) option" where
  "cpp_free T dtor region s handle user_id caller_perms = do {
     (d, s) \<leftarrow> (if \<not> t_trivial T then cpp_destroy dtor region s handle user_id caller_perms else Some (OK, s));
     if d \<noteq> OK then Some (d, s)
     else do {
       (_, _, _, _, _, ident) \<leftarrow> shm_block_info region s (p_off handle) False False False False True;
       let obj_id = (case ident of None \<Rightarrow> 0 | Some i \<Rightarrow> i);
       if obj_id = 0 then Some (EINVAL, s)
       else shm_free region s obj_id user_id caller_perms } }"

definition cpp_make ::
    "cpp_type \<Rightarrow> member_fun \<Rightarrow> shm_region option \<Rightarrow> machine \<Rightarrow> u32 \<Rightarrow> u32 \<Rightarrow> bool \<Rightarrow> cstring option \<Rightarrow> u32 \<Rightarrow>
     (errno \<times> ptr option \<times> machine) option" where
  "cpp_make T ctor region s user_id perms out name tag = do {
     (a, handle, s) \<leftarrow> cpp_alloc T region s user_id perms out name tag;
     if a \<noteq> OK then Some (a, handle, s)
     else do {
       (rc, s) \<leftarrow> cpp_construct ctor region s (case handle of None \<Rightarrow> ptr_null | Some p \<Rightarrow> p) user_id perms;
       Some (rc, handle, s) } }"

section \<open>Lookup\<close>

definition cpp_find ::
    "shm_region option \<Rightarrow> machine \<Rightarrow> u64 \<Rightarrow> u32 \<Rightarrow> u32 \<Rightarrow> bool \<Rightarrow> (errno \<times> ptr option \<times> machine) option" where
  "cpp_find region s obj_id user_id caller_perms out =
     (if region = None \<or> \<not> out then Some (EINVAL, None, s)
      else do {
        (rc, off, _, s) \<leftarrow> shm_lookup region s obj_id user_id caller_perms True False;
        if rc \<noteq> OK then Some (rc, None, s)
        else Some (OK, Some \<lparr>p_off = (case off of None \<Rightarrow> SHM_OFF_NULL | Some f \<Rightarrow> f)\<rparr>, s) })"

definition cpp_find_by_name ::
    "shm_region option \<Rightarrow> machine \<Rightarrow> cstring option \<Rightarrow> u32 \<Rightarrow> u32 \<Rightarrow> bool \<Rightarrow> bool \<Rightarrow>
     (errno \<times> ptr option \<times> u64 option \<times> machine) option" where
  "cpp_find_by_name region s name user_id caller_perms out out_id =
     (if region = None \<or> name = None \<or> \<not> out then Some (EINVAL, None, None, s)
      else do {
        (rc, ident, off, s) \<leftarrow> shm_lookup_by_name region s name user_id caller_perms True True;
        if rc \<noteq> OK then Some (rc, None, None, s)
        else Some (OK, Some \<lparr>p_off = (case off of None \<Rightarrow> SHM_OFF_NULL | Some f \<Rightarrow> f)\<rparr>,
               if out_id then Some (case ident of None \<Rightarrow> 0 | Some i \<Rightarrow> i) else None, s) })"

section \<open>The class cap\<close>

record cpp_cap =
  cap_c :: shm_cap

definition cap_default :: cpp_cap where "cap_default = \<lparr>cap_c = SHM_CAP_NULL\<rparr>"

definition cap_raw :: "cpp_cap \<Rightarrow> shm_cap" where "cap_raw c = cap_c c"

definition cap_bool :: "cpp_cap \<Rightarrow> bool" where "cap_bool c \<longleftrightarrow> \<not> shm_cap_is_null (cap_c c)"

definition cap_valid :: "cpp_cap \<Rightarrow> shm_region option \<Rightarrow> machine \<Rightarrow> bool option" where
  "cap_valid c region s = shm_cap_is_valid region s (cap_c c)"

definition cap_get :: "cpp_cap \<Rightarrow> shm_region option \<Rightarrow> machine \<Rightarrow> u32 \<Rightarrow> u64 option" where
  "cap_get c region s req = shm_cap_deref region s (cap_c c) req"

definition cap_rw :: "cpp_cap \<Rightarrow> shm_region option \<Rightarrow> machine \<Rightarrow> u64 option" where
  "cap_rw c region s = shm_cap_deref region s (cap_c c) (SHM_PERM_READ OR SHM_PERM_WRITE)"

definition cap_deref :: "cpp_cap \<Rightarrow> shm_region option \<Rightarrow> machine \<Rightarrow> u32 \<Rightarrow> u64 option" where
  "cap_deref c region s required = shm_cap_deref region s (cap_c c) required"

definition cap_narrow :: "cpp_cap \<Rightarrow> u32 \<Rightarrow> cpp_cap" where
  "cap_narrow c new_perms = \<lparr>cap_c = shm_cap_narrow (cap_c c) new_perms\<rparr>"

definition cap_perms :: "cpp_cap \<Rightarrow> u32" where "cap_perms c = shm_cap_perms (cap_c c)"

definition cap_bounds :: "cpp_cap \<Rightarrow> u64" where "cap_bounds c = shm_cap_bounds (cap_c c)"

definition cap_offset :: "cpp_cap \<Rightarrow> u64" where "cap_offset c = shm_cap_offset (cap_c c)"

definition cap_epoch :: "cpp_cap \<Rightarrow> u16" where "cap_epoch c = shm_cap_epoch (cap_c c)"

definition cap_reinterpret_as :: "cpp_cap \<Rightarrow> cpp_cap" where "cap_reinterpret_as c = \<lparr>cap_c = cap_c c\<rparr>"

definition cap_from_ptr :: "shm_region option \<Rightarrow> machine \<Rightarrow> ptr \<Rightarrow> u32 \<Rightarrow> u32 \<Rightarrow> u32 \<Rightarrow> cpp_cap option" where
  "cap_from_ptr region s handle uid caller_perms grant_perms =
     map_option (\<lambda>c. \<lparr>cap_c = c\<rparr>) (shm_cap_derive region s (p_off handle) uid caller_perms grant_perms)"

definition cap_from_off :: "shm_region option \<Rightarrow> machine \<Rightarrow> u64 \<Rightarrow> u32 \<Rightarrow> u32 \<Rightarrow> u32 \<Rightarrow> cpp_cap option" where
  "cap_from_off region s off uid caller_perms grant_perms =
     map_option (\<lambda>c. \<lparr>cap_c = c\<rparr>) (shm_cap_derive region s off uid caller_perms grant_perms)"

definition cap_null :: cpp_cap where "cap_null = cap_default"

section \<open>Member functions that stay inside their object\<close>

definition stays_inside :: "shm_region \<Rightarrow> nat \<Rightarrow> member_fun \<Rightarrow> bool" where
  "stays_inside r n f \<longleftrightarrow>
     (\<forall>p s. in_map r p n \<longrightarrow> (\<exists>s'. f p s = Some s' \<and> mutex s' = mutex s \<and> cmode s' = cmode s \<and>
        (\<forall>a. a < region_off r p \<or> region_off r p + n \<le> a \<longrightarrow> mem s' a = mem s a)))"

text \<open>Running such a function on the payload of a block of the pool.\<close>

lemma run_inside:
  assumes inv: "pool_inv r s R (xs @ b # ys) es" and f: "stays_inside r n f" and n: "n + 56 \<le> asz b"
  obtains s' where "f (payload_ptr r R (span xs)) s = Some s'" "pool_inv r s' R (xs @ b # ys) es"
    "mutex s' = mutex s" "cmode s' = cmode s"
    "\<And>a. a < unat (h_data_offset R) + span xs + 56 \<or> unat (h_data_offset R) + span xs + asz b \<le> a \<Longrightarrow> mem s' a = mem s a"
proof -
  note hr = pool_invD(1) [OF inv]
  have off: "region_off r (payload_ptr r R (span xs)) = unat (h_data_offset R) + span xs + 56"
    using payload_in_map(1) [OF hr, of 0 0] by simp
  have "unat (h_data_offset R) + span (xs @ b # ys) = unat (rsize r)"
    using hr by (simp add: heap_rep_bytes)
  then have "in_map r (payload_ptr r R (span xs)) n"
    using n by (simp add: in_map_def off)
  then obtain s' where s': "f (payload_ptr r R (span xs)) s = Some s'" "mutex s' = mutex s" "cmode s' = cmode s"
    "\<And>a. a < unat (h_data_offset R) + span xs + 56 \<or> unat (h_data_offset R) + span xs + 56 + n \<le> a \<Longrightarrow> mem s' a = mem s a"
    using f [unfolded stays_inside_def] off by metis
  have frame: "mem s' a = mem s a"
    if "a < unat (h_data_offset R) + span xs + 56 \<or> unat (h_data_offset R) + span xs + asz b \<le> a" for a
    using that n by (intro s'(4)) linarith
  have "pool_inv r s' R (xs @ b # ys) es"
    using inv refl frame by (rule pool_inv_payload)
  with s' frame show thesis
    by (intro that)
qed

text \<open>The payloads of the other objects lie outside the block.\<close>

lemma blk_objs_outside:
  assumes "list_all wf_blk (xs @ b # ys)" "ob \<in> set (blk_objs 0 xs) \<union> set (blk_objs (span xs + asz b) ys)"
    and "in_payload d ob a"
  shows "a < d + span xs + 56 \<or> d + span xs + asz b \<le> a"
  using assms blk_objs_bounds(2) [of "fst ob" "fst (snd ob)" "snd (snd ob)" 0 xs]
    blk_objs_bounds(1) [of "fst ob" "fst (snd ob)" "snd (snd ob)" "span xs + asz b" ys]
  by (auto simp: in_payload_def)

lemma get_mut_eq:
  assumes "heap_rep r s R (xs @ b # ys)" "aown b = Some oi"
  shows "cpp_get_mut (Some r) s \<lparr>p_off = of_nat (span xs + 56)\<rparr> user cp = Some
    (if access_ok (o_owner oi) (o_perms oi) user cp (SHM_PERM_READ OR SHM_PERM_WRITE) then payload_ptr r R (span xs) else 0)"
  using shm_ptr_eq [OF assms(1)] assms(2) by (simp add: cpp_get_mut_def del: of_nat_add)

lemma payload_ptr_nonzero:
  assumes "pool_inv r s R (xs @ b # ys) es"
  shows "payload_ptr r R (span xs) \<noteq> 0"
proof -
  note hr = pool_invD(1) [OF assms]
  have m: "mapped r" and tot: "unat (h_data_offset R) + span (xs @ b # ys) = unat (rsize r)"
    and wf: "list_all wf_blk (xs @ b # ys)"
    using hr by (auto simp: heap_rep_bytes heap_shape_def dest: tiles_wf)
  have "unat (payload_ptr r R (span xs)) = unat (rbase r) + (unat (h_data_offset R) + span xs + 56)"
    unfolding payload_ptr_def rp_def using tot wf by (intro mapped_unat_add [OF m]) (auto simp: wf_blk_def)
  then show ?thesis
    using m by (auto simp: mapped_def unat_eq_0)
qed

section \<open>make\<close>

text \<open>
  What \<open>make\<close> leaves: with the rights to read and write, a constructed object; without them,
  \<open>EACCES\<close> and an object that is allocated but not constructed.
\<close>

definition make_done ::
    "shm_region \<Rightarrow> machine \<Rightarrow> region_hdr \<Rightarrow> ablk list \<Rightarrow> obj_entry list \<Rightarrow> nat \<Rightarrow> u64 \<Rightarrow> cstring option \<Rightarrow> owner_info \<Rightarrow>
     member_fun \<Rightarrow> nat \<Rightarrow> ablk list \<Rightarrow> ablk \<Rightarrow> ablk list \<Rightarrow> errno \<Rightarrow> machine \<Rightarrow> bool" where
  "make_done r s R bs es n sz name oi ctor i xs b ys rc s' \<longleftrightarrow>
     (\<exists>R'. pool_inv r s' R' (xs @ take_block n oi b @ ys)
        (es[i := alloc_entry (o_id oi) (of_nat (span xs + 56)) (of_nat (acap (taken n oi b))) sz
                   (o_tag oi) (o_owner oi) (o_perms oi) name])) \<and>
     payloads_kept (unat (h_data_offset R)) (blk_objs 0 bs) s s' \<and>
     (let zeroed = (\<lambda>t. \<forall>a. in_payload (unat (h_data_offset R)) (span xs + 56, acap (taken n oi b), oi) a \<longrightarrow> mem t a = 0) in
      if access_ok (o_owner oi) (o_perms oi) (o_owner oi) (o_perms oi) (SHM_PERM_READ OR SHM_PERM_WRITE)
      then rc = OK \<and> (\<exists>t. zeroed t \<and> ctor (payload_ptr r R (span xs)) t = Some s')
      else rc = EACCES \<and> zeroed s')"

definition make_post ::
    "shm_region \<Rightarrow> machine \<Rightarrow> region_hdr \<Rightarrow> ablk list \<Rightarrow> obj_entry list \<Rightarrow> u64 \<Rightarrow> cstring option \<Rightarrow> owner_info \<Rightarrow>
     member_fun \<Rightarrow> errno \<times> ptr option \<times> machine \<Rightarrow> bool" where
  "make_post r s R bs es sz name oi ctor = (\<lambda>(rc, handle, s').
     mutex s' = MUnlocked \<and> cmode s' = cmode s \<and>
     (case first_slot (\<lambda>e. \<not> live e) es 0 of
        None \<Rightarrow> rc = ENOSPC \<and> handle = None \<and> mem s' = mem s
      | Some i \<Rightarrow>
          (case first_fit (unat (alloc_size sz)) bs of
             None \<Rightarrow> rc = ENOMEM \<and> handle = None \<and> mem s' = mem s
           | Some (xs, b, ys) \<Rightarrow>
               handle = Some \<lparr>p_off = of_nat (span xs + 56)\<rparr> \<and>
               make_done r s R bs es (unat (alloc_size sz)) sz name oi ctor i xs b ys rc s')))"

lemma make_construct:
  assumes ad: "alloc_done r s s1 R es n sz name oi i xs b ys" and bs: "bs = xs @ b # ys" "is_free b" "n \<le> asz b"
    and ctor: "stays_inside r k ctor" and k: "k + 56 \<le> n" and mu: "mutex s1 = MUnlocked" "cmode s1 = cmode s"
    and wf: "list_all wf_blk bs"
  shows "runs (cpp_construct ctor (Some r) s1 \<lparr>p_off = of_nat (span xs + 56)\<rparr> (o_owner oi) (o_perms oi))
    (\<lambda>(rc, s'). mutex s' = MUnlocked \<and> cmode s' = cmode s \<and> make_done r s R bs es n sz name oi ctor i xs b ys rc s')"
proof -
  let ?bs = "xs @ taken n oi b # taken_rest n b @ ys"
  from ad obtain fl where inv: "pool_inv r s1 (alloc_hdr R fl (taken_size n b)) ?bs
      (es[i := alloc_entry (o_id oi) (of_nat (span xs + 56)) (of_nat (acap (taken n oi b))) sz
                 (o_tag oi) (o_owner oi) (o_perms oi) name])"
    and kept: "payloads_kept (unat (h_data_offset R)) (blk_objs 0 (xs @ b # ys)) s s1"
    and zero: "\<forall>a. in_payload (unat (h_data_offset R)) (span xs + 56, acap (taken n oi b), oi) a \<longrightarrow> mem s1 a = 0"
    by (auto simp: alloc_done_def take_block_Cons)
  let ?R = "alloc_hdr R fl (taken_size n b)"
  have p: "payload_ptr r ?R (span xs) = payload_ptr r R (span xs)"
    by (simp add: payload_ptr_def)
  have inv_s: "\<exists>R'. pool_inv r s' R' (xs @ take_block n oi b @ ys)
        (es[i := alloc_entry (o_id oi) (of_nat (span xs + 56)) (of_nat (acap (taken n oi b))) sz
                   (o_tag oi) (o_owner oi) (o_perms oi) name])"
    if "pool_inv r s' ?R ?bs (es[i := alloc_entry (o_id oi) (of_nat (span xs + 56)) (of_nat (acap (taken n oi b))) sz
                 (o_tag oi) (o_owner oi) (o_perms oi) name])" for s'
    using that by (auto simp: take_block_Cons)
  note gm = get_mut_eq [OF pool_invD(1) [OF inv] taken_sel(1)]
  show ?thesis
  proof (cases "access_ok (o_owner oi) (o_perms oi) (o_owner oi) (o_perms oi) (SHM_PERM_READ OR SHM_PERM_WRITE)")
    case False
    then show ?thesis
      using inv_s [OF inv] kept zero mu
      by (simp add: cpp_construct_def gm make_done_def bs(1) Let_def del: of_nat_add)
  next
    case True
    have sz: "k + 56 \<le> asz (taken n oi b)" "asz (taken n oi b) \<le> asz b"
      using k bs(3) by (auto simp: taken_def)
    obtain s' where s': "ctor (payload_ptr r ?R (span xs)) s1 = Some s'"
      "pool_inv r s' ?R ?bs (es[i := alloc_entry (o_id oi) (of_nat (span xs + 56)) (of_nat (acap (taken n oi b))) sz
                 (o_tag oi) (o_owner oi) (o_perms oi) name])"
      "mutex s' = mutex s1" "cmode s' = cmode s1"
      "\<And>a. a < unat (h_data_offset R) + span xs + 56 \<or> unat (h_data_offset R) + span xs + asz (taken n oi b) \<le> a \<Longrightarrow>
         mem s' a = mem s1 a"
      using run_inside [OF inv ctor sz(1)] by (metis alloc_hdr_sel(1))
    have "payloads_kept (unat (h_data_offset R)) (blk_objs 0 bs) s1 s'"
      unfolding payloads_kept_def
    proof (intro ballI allI impI)
      fix ob a assume "ob \<in> set (blk_objs 0 bs)" "in_payload (unat (h_data_offset R)) ob a"
      then have "a < unat (h_data_offset R) + span xs + 56 \<or> unat (h_data_offset R) + span xs + asz b \<le> a"
        using bs(1,2) wf by (intro blk_objs_outside [of xs b ys ob]) (auto simp: is_free_def)
      then show "mem s' a = mem s1 a"
        using sz(2) by (intro s'(5)) linarith
    qed
    with kept have "payloads_kept (unat (h_data_offset R)) (blk_objs 0 bs) s s'"
      by (simp add: payloads_kept_def bs(1))
    moreover have "payload_ptr r ?R (span xs) \<noteq> 0"
      using inv by (rule payload_ptr_nonzero)
    ultimately show ?thesis
      using inv_s [OF s'(2)] zero mu s'(1,3,4) True
      by (auto simp: cpp_construct_def gm p make_done_def Let_def simp del: of_nat_add)
  qed
qed

lemma cpp_make_refines:
  assumes inv: "pool_inv r s R bs es" and lk: "lockable s" and sz: "t_size T \<noteq> 0" "unat (t_size T) + 63 < 2 ^ 64"
    and nid: "h_next_id R + 1 \<noteq> 0" and ctor: "stays_inside r (unat (t_size T)) ctor"
  shows "runs (cpp_make T ctor (Some r) s user perms True name tag)
    (make_post r s R bs es (t_size T) name (alloc_info R user perms tag) ctor)"
proof -
  let ?n = "unat (alloc_size (t_size T))" and ?oi = "alloc_info R user perms tag"
  have n: "56 \<le> ?n" "unat (t_size T) + 56 \<le> ?n"
    using alloc_size_ge [OF sz(2,1)] by simp_all
  have wf: "list_all wf_blk bs"
    using pool_invD(1) [OF inv] by (auto simp: heap_rep_bytes heap_shape_def dest: tiles_wf)
  have o: "o_owner ?oi = user" "o_perms ?oi = perms"
    by (simp_all add: alloc_info_def)
  obtain rc res s1 where a: "shm_alloc (Some r) s (t_size T) name user perms tag True True = Some (rc, res, s1)"
    "alloc_post r s R bs es (t_size T) name ?oi (rc, res, s1)"
    using shm_alloc_refines [OF inv lk sz(1) n(1) nid, of name user perms tag] by (auto simp: runs_iff)
  show ?thesis
  proof (cases "rc = OK")
    case False
    then show ?thesis
      using a by (auto simp: cpp_make_def cpp_alloc_def make_post_def alloc_post_def split: option.splits)
  next
    case True
    then obtain i xs b ys where f: "first_slot (\<lambda>e. \<not> live e) es 0 = Some i" "first_fit ?n bs = Some (xs, b, ys)"
      "res = Some (h_next_id R, of_nat (span xs + 56))" "alloc_done r s s1 R es ?n (t_size T) name ?oi i xs b ys"
      "mutex s1 = MUnlocked" "cmode s1 = cmode s"
      using a(2) by (auto simp: alloc_post_def split: option.splits)
    have b: "bs = xs @ b # ys" "is_free b" "?n \<le> asz b"
      using first_fit_SomeD [OF f(2)] by auto
    note c = make_construct [OF f(4) b ctor n(2) f(5,6) wf, unfolded o]
    show ?thesis
      using c True a(1) f(1-3)
      by (simp add: cpp_make_def cpp_alloc_def make_post_def runs_iff del: of_nat_add) (auto simp del: of_nat_add)
  qed
qed

section \<open>free\<close>

text \<open>The id and the tag of the block behind a handle.\<close>

lemma block_info_parts:
  assumes h: "heap_rep r s R (xs @ b # ys)" and own: "aown b = Some oi"
  shows "shm_block_info (Some r) s (of_nat (span xs + 56)) False False False False True =
      Some (OK, None, None, None, None, Some (o_id oi))"
    and "shm_block_info (Some r) s (of_nat (span xs + 56)) False False False True False =
      Some (OK, None, None, None, Some (o_tag oi), None)"
proof -
  obtain H where H: "hview r s s (set (starts 0 (xs @ b # ys))) H R" "span xs \<in> set (starts 0 (xs @ b # ys))"
    "blk_ok (H (span xs)) b"
    using h by (rule heap_rep_block)
  note facts = H(3) own hview_blk_loads [OF H(1,2) refl] bp_nonzero [OF H(1,2) refl]
  show "shm_block_info (Some r) s (of_nat (span xs + 56)) False False False False True =
      Some (OK, None, None, None, None, Some (o_id oi))"
    "shm_block_info (Some r) s (of_nat (span xs + 56)) False False False True False =
      Some (OK, None, None, None, Some (o_tag oi), None)"
    using facts by (simp_all add: shm_block_info_def blk_of_poff_eq [OF h] blk_ok_def sizes_ok_def owner_ok_def opt_out_def
        del: of_nat_add)
qed

definition free_handle_post ::
    "shm_region \<Rightarrow> machine \<Rightarrow> region_hdr \<Rightarrow> obj_entry list \<Rightarrow> ablk list \<Rightarrow> ablk \<Rightarrow> ablk list \<Rightarrow> owner_info \<Rightarrow>
     cpp_type \<Rightarrow> member_fun \<Rightarrow> u32 \<Rightarrow> u32 \<Rightarrow> errno \<times> machine \<Rightarrow> bool" where
  "free_handle_post r s R es xs b ys oi T dtor user cp = (\<lambda>(rc, s').
     if \<not> t_trivial T \<and> \<not> access_ok (o_owner oi) (o_perms oi) user cp (SHM_PERM_READ OR SHM_PERM_WRITE)
     then rc = EACCES \<and> s' = s
     else \<exists>t. (if t_trivial T then t = s else dtor (payload_ptr r R (span xs)) s = Some t) \<and> mutex s' = MUnlocked \<and>
       (if access_ok (o_owner oi) (o_perms oi) user cp SHM_PERM_FREE
        then rc = OK \<and> (\<exists>R' i. i < length es \<and> e_id (es ! i) = o_id oi \<and>
               pool_inv r s' R' (insert_free xs b ys) (es[i := zero_ent])) \<and>
             payloads_kept (unat (h_data_offset R)) (blk_objs 0 xs @ blk_objs (span xs + asz b) ys) s s'
        else rc = EACCES \<and> mem s' = mem t))"

lemma cpp_free_refines:
  assumes inv: "pool_inv r s R (xs @ b # ys) es" and lk: "lockable s" and own: "aown b = Some oi"
    and dtor: "stays_inside r k dtor" and k: "k + 56 \<le> asz b"
  shows "runs (cpp_free T dtor (Some r) s \<lparr>p_off = of_nat (span xs + 56)\<rparr> user cp)
    (free_handle_post r s R es xs b ys oi T dtor user cp)"
proof -
  let ?h = "\<lparr>p_off = of_nat (span xs + 56)\<rparr>"
  have wf: "list_all wf_blk (xs @ b # ys)"
    using pool_invD(1) [OF inv] by (auto simp: heap_rep_bytes heap_shape_def dest: tiles_wf)
  note gm = get_mut_eq [OF pool_invD(1) [OF inv] own, of user cp]
  show ?thesis
  proof (cases "\<not> t_trivial T \<and> \<not> access_ok (o_owner oi) (o_perms oi) user cp (SHM_PERM_READ OR SHM_PERM_WRITE)")
    case True
    then show ?thesis
      using gm by (simp add: cpp_free_def cpp_destroy_def free_handle_post_def del: of_nat_add)
  next
    case False
    obtain t where t: "if t_trivial T then t = s else dtor (payload_ptr r R (span xs)) s = Some t"
      "pool_inv r t R (xs @ b # ys) es" "mutex t = mutex s" "cmode t = cmode s"
      "\<And>a. a < unat (h_data_offset R) + span xs + 56 \<or> unat (h_data_offset R) + span xs + asz b \<le> a \<Longrightarrow> mem t a = mem s a"
    proof (cases "t_trivial T")
      case True
      then show thesis
        using inv by (intro that [of s]) simp_all
    next
      case False
      show thesis
        using run_inside [OF inv dtor k] that False by metis
    qed
    have nz: "payload_ptr r R (span xs) \<noteq> 0"
      using inv by (rule payload_ptr_nonzero)
    obtain i where i: "i < length es" "live (es ! i)" "ent_obj (es ! i) = (span xs + 56, acap b, oi)"
      "first_slot (\<lambda>e. e_id e = o_id oi \<and> e_alive e \<noteq> 0) es 0 = Some i"
      using pool_invD(5) [OF t(2)] own by (rule object_slot)
    have e: "e_id (es ! i) = o_id oi" "e_owner (es ! i) = o_owner oi" "e_perms (es ! i) = o_perms oi" "o_id oi \<noteq> 0"
      "unat (e_off (es ! i)) = span xs + 56"
      using i(2,3) by (auto simp: ent_obj_def live_def)
    have call: "cpp_free T dtor (Some r) s ?h user cp = shm_free (Some r) t (o_id oi) user cp"
      using False t(1) gm nz block_info_parts(1) [OF pool_invD(1) [OF t(2)] own] e(4)
      by (auto simp: cpp_free_def cpp_destroy_def simp del: of_nat_add)
    have lk': "lockable t"
      using lk t(3) by (simp add: lockable_def)
    have kept: "payloads_kept (unat (h_data_offset R)) (blk_objs 0 xs @ blk_objs (span xs + asz b) ys) s t"
      unfolding payloads_kept_def
    proof (intro ballI allI impI)
      fix ob a
      assume "ob \<in> set (blk_objs 0 xs @ blk_objs (span xs + asz b) ys)" "in_payload (unat (h_data_offset R)) ob a"
      then show "mem t a = mem s a"
        by (intro t(5) blk_objs_outside [OF wf, of ob]) simp_all
    qed
    show ?thesis
      unfolding call
    proof (rule runs_mono [OF shm_free_refines [OF t(2) lk' e(4), of user cp]])
      fix v assume post: "free_post r t R (xs @ b # ys) es (o_id oi) user cp v"
      obtain rc s' where v: "v = (rc, s')" by (cases v)
      show "free_handle_post r s R es xs b ys oi T dtor user cp v"
      proof (cases "access_ok (o_owner oi) (o_perms oi) user cp SHM_PERM_FREE")
        case no: False
        then show ?thesis
          using post False t(1) i(4) e by (auto simp: v free_post_def free_handle_post_def)
      next
        case yes: True
        then obtain xs' b' ys' where f: "rc = OK" "mutex s' = MUnlocked" "xs @ b # ys = xs' @ b' # ys'"
          "span xs + 56 = span xs' + 56" "free_done r t s' R es i xs' b' ys'"
          using post i(4) e by (auto simp: v free_post_def)
        note same = split_at_span [OF f(3) wf]
        have d: "free_done r t s' R es i xs b ys"
          using f(4,5) same by simp
        then have "\<exists>R'. pool_inv r s' R' (insert_free xs b ys) (es[i := zero_ent])"
          and "payloads_kept (unat (h_data_offset R)) (blk_objs 0 xs @ blk_objs (span xs + asz b) ys) t s'"
          by (auto simp: free_done_def insert_free_objs)
        with kept have "payloads_kept (unat (h_data_offset R)) (blk_objs 0 xs @ blk_objs (span xs + asz b) ys) s s'"
          by (simp add: payloads_kept_def)
        with \<open>\<exists>R'. _\<close> show ?thesis
          using f(1,2) yes False t(1) i(1) e(1) by (auto simp: v free_handle_post_def)
      qed
    qed
  qed
qed

section \<open>The checked downcast\<close>

lemma cast_dyn_eq:
  assumes inv: "pool_inv r s R (xs @ b # ys) es" and own: "aown b = Some oi"
  shows "cpp_cast_dyn To From dyn stat (Some r) s \<lparr>p_off = of_nat (span xs + 56)\<rparr> user cp = Some
    (if \<not> access_ok (o_owner oi) (o_perms oi) user cp SHM_PERM_READ \<or> o_tag oi \<noteq> 0 \<and> o_tag oi \<noteq> type_tag_of To then 0
     else if t_polymorphic From then dyn (payload_ptr r R (span xs)) else stat (payload_ptr r R (span xs)))"
  using shm_ptr_eq [OF pool_invD(1) [OF inv], of user cp SHM_PERM_READ] own payload_ptr_nonzero [OF inv]
    block_info_parts(2) [OF pool_invD(1) [OF inv] own]
  by (simp add: cpp_cast_dyn_def del: of_nat_add)

end
