(* ===== verification/Shm_Store.thy ===== *)
theory Shm_Store
  imports Shm_Facts Shm_Cpp
begin

text \<open>
  What a user of the library sees of a pool: a map from ids to objects with offset, owner, permissions,
  tag, size, name and bytes, without blocks, slots or free list. \<open>objects\<close> reads it off the
  shared bytes. \<open>shm_alloc\<close>, \<open>shm_free\<close> and \<open>shm_resize\<close> are an insertion, a deletion and an
  update of this map. Besides the map the outcome depends on the number of directory slots and on
  whether the heap has room, a truth value that the heap's block list gives.
\<close>

section \<open>The object store\<close>

record store_obj =
  so_off :: u64
  so_owner :: u32
  so_perms :: u32
  so_tag :: u32
  so_used :: u64
  so_name :: cstring
  so_bytes :: "u8 list"

definition view_of :: "machine \<Rightarrow> nat \<Rightarrow> obj_entry \<Rightarrow> store_obj" where
  "view_of s d e =
     \<lparr>so_off = e_off e, so_owner = e_owner e, so_perms = e_perms e, so_tag = e_type_tag e, so_used = e_used_size e,
      so_name = cstr (e_name e), so_bytes = map (\<lambda>j. mem s (d + unat (e_off e) + j)) [0..<unat (e_capacity e)]\<rparr>"

definition objects :: "machine \<Rightarrow> u64 \<Rightarrow> store_obj option" where
  "objects s i =
     (let R = rh_at (mem s); es = dir_at (mem s) R in
      if i = 0 then None
      else map_option (\<lambda>k. view_of s (unat (h_data_offset R)) (es ! k))
             (first_slot (\<lambda>e. e_id e = i \<and> e_alive e \<noteq> 0) es 0))"

section \<open>Reading the store under the invariant\<close>

lemma objects_eq:
  assumes "pool_inv r s R bs es" "i \<noteq> 0"
  shows "objects s i = map_option (\<lambda>k. view_of s (unat (h_data_offset R)) (es ! k))
    (first_slot (\<lambda>e. e_id e = i \<and> e_alive e \<noteq> 0) es 0)"
  using assms(2) pool_invD(2) [OF assms(1)] by (simp add: objects_def dir_rep_def)

lemma entry_alive:
  assumes "pool_inv r s R bs es" "e \<in> set es"
  shows "live e \<longleftrightarrow> e_alive e \<noteq> 0" "live e \<Longrightarrow> e_id e \<noteq> 0"
proof -
  have "entry_ok (h_next_id R) e"
    using pool_invD(5) [OF assms(1)] assms(2) by (auto simp: dir_ok_def list_all_iff)
  then show "live e \<longleftrightarrow> e_alive e \<noteq> 0"
    by (auto simp: entry_ok_def split: if_splits)
  show "live e \<Longrightarrow> e_id e \<noteq> 0"
    by (simp add: live_def)
qed

text \<open>An id is in the store exactly when a live entry has it, and only one has.\<close>

lemma objects_live:
  assumes inv: "pool_inv r s R bs es" and k: "k < length es" "live (es ! k)"
  shows "objects s (e_id (es ! k)) = Some (view_of s (unat (h_data_offset R)) (es ! k))"
proof -
  have al: "e_alive (es ! k) \<noteq> 0" "e_id (es ! k) \<noteq> 0"
    using entry_alive [OF inv nth_mem [OF k(1)]] k(2) by auto
  then obtain j where j: "first_slot (\<lambda>e. e_id e = e_id (es ! k) \<and> e_alive e \<noteq> 0) es 0 = Some j"
    using k(1) first_slot_NoneD [of "\<lambda>e. e_id e = e_id (es ! k) \<and> e_alive e \<noteq> 0" es] nth_mem [OF k(1)]
    by (cases "first_slot (\<lambda>e. e_id e = e_id (es ! k) \<and> e_alive e \<noteq> 0) es 0") auto
  then have "j < length es" "live (es ! j)" "e_id (es ! j) = e_id (es ! k)"
    using first_slot_SomeD [OF j] entry_alive(1) [OF inv nth_mem] by auto
  moreover have "distinct (map e_id (filter live es))"
    using pool_invD(5) [OF inv] by (simp add: dir_ok_def)
  ultimately have "j = k"
    using k distinct_filter_index [of e_id live es j k] by blast
  then show ?thesis
    by (simp add: objects_eq [OF inv al(2)] j)
qed

lemma objects_none:
  assumes inv: "pool_inv r s R bs es" and no: "\<And>k. k < length es \<Longrightarrow> live (es ! k) \<Longrightarrow> e_id (es ! k) \<noteq> i"
  shows "objects s i = None"
proof (cases "i = 0")
  case True
  then show ?thesis by (simp add: objects_def Let_def)
next
  case False
  have "first_slot (\<lambda>e. e_id e = i \<and> e_alive e \<noteq> 0) es 0 = None"
    unfolding first_slot_NoneD using no entry_alive(1) [OF inv] by (metis in_set_conv_nth)
  then show ?thesis
    by (simp add: objects_eq [OF inv False])
qed

lemma objects_same:
  assumes "mem s' = mem s"
  shows "objects s' = objects s"
  by (rule ext) (simp add: objects_def view_of_def assms Let_def)

text \<open>What a change of slot \<open>k\<close> does to the store, when the payloads of the other entries are kept.\<close>

lemma objects_update:
  assumes inv: "pool_inv r s R bs es" and inv': "pool_inv r s' R' bs' (es[k := e])" and k: "k < length es"
    and d: "h_data_offset R' = h_data_offset R"
    and kept: "\<And>j a. j < length es \<Longrightarrow> j \<noteq> k \<Longrightarrow> live (es ! j) \<Longrightarrow>
        in_payload (unat (h_data_offset R)) (ent_obj (es ! j)) a \<Longrightarrow> mem s' a = mem s a"
  shows "live e \<Longrightarrow> live (es ! k) \<longrightarrow> e_id (es ! k) = e_id e \<Longrightarrow>
      objects s' = (objects s)(e_id e \<mapsto> view_of s' (unat (h_data_offset R)) e)"
    and "\<not> live e \<Longrightarrow> live (es ! k) \<Longrightarrow> objects s' = (objects s)(e_id (es ! k) := None)"
proof -
  have same: "objects s' (e_id (es ! j)) = objects s (e_id (es ! j))" if j: "j < length es" "j \<noteq> k" "live (es ! j)" for j
  proof -
    have "view_of s' (unat (h_data_offset R)) (es ! j) = view_of s (unat (h_data_offset R)) (es ! j)"
      using kept [OF j] by (auto simp: view_of_def in_payload_def ent_obj_def)
    then show ?thesis
      using objects_live [OF inv j(1,3)] objects_live [OF inv', of j] j d by simp
  qed
  have gone: "objects s i = None" if "\<And>j. j < length es \<Longrightarrow> live (es ! j) \<Longrightarrow> e_id (es ! j) \<noteq> i" for i
    using inv that by (rule objects_none)
  have gone': "objects s' i = None"
    if "\<And>j. j < length es \<Longrightarrow> j \<noteq> k \<Longrightarrow> live (es ! j) \<Longrightarrow> e_id (es ! j) \<noteq> i" "live e \<Longrightarrow> e_id e \<noteq> i" for i
    using that by (intro objects_none [OF inv']) (metis length_list_update nth_list_update_eq nth_list_update_neq)
  show "objects s' = (objects s)(e_id e \<mapsto> view_of s' (unat (h_data_offset R)) e)"
    if l: "live e" "live (es ! k) \<longrightarrow> e_id (es ! k) = e_id e"
  proof
    fix i
    show "objects s' i = ((objects s)(e_id e \<mapsto> view_of s' (unat (h_data_offset R)) e)) i"
    proof (cases "i = e_id e")
      case True
      then show ?thesis
        using objects_live [OF inv', of k] k l(1) d by simp
    next
      case False
      show ?thesis
      proof (cases "\<exists>j<length es. j \<noteq> k \<and> live (es ! j) \<and> e_id (es ! j) = i")
        case True
        then show ?thesis
          using same False by auto
      next
        case no: False
        have "objects s i = None"
          using no False l(2) by (intro gone) metis
        moreover have "objects s' i = None"
          using no False by (intro gone') auto
        ultimately show ?thesis
          using False by simp
      qed
    qed
  qed
  show "objects s' = (objects s)(e_id (es ! k) := None)" if l: "\<not> live e" "live (es ! k)"
  proof
    fix i
    have "distinct (map e_id (filter live es))"
      using pool_invD(5) [OF inv] by (simp add: dir_ok_def)
    then have only: "j = k" if "j < length es" "live (es ! j)" "e_id (es ! j) = e_id (es ! k)" for j
      using that k l(2) distinct_filter_index [of e_id live es j k] by blast
    show "objects s' i = ((objects s)(e_id (es ! k) := None)) i"
    proof (cases "\<exists>j<length es. j \<noteq> k \<and> live (es ! j) \<and> e_id (es ! j) = i")
      case True
      then show ?thesis
        using same only by auto
    next
      case no: False
      then have "objects s' i = None"
        using l(1) by (intro gone') auto
      moreover have "i \<noteq> e_id (es ! k) \<Longrightarrow> objects s i = None"
        using no by (intro gone) metis
      ultimately show ?thesis
        by simp
    qed
  qed
qed

text \<open>How many objects there are, and how many there can be.\<close>

definition slots :: "machine \<Rightarrow> nat" where
  "slots s = unat (h_dir_capacity (rh_at (mem s)))"

lemma slots_length:
  assumes "pool_inv r s R bs es"
  shows "slots s = length es"
  using pool_invD(2,8) [OF assms] by (auto simp: slots_def dir_rep_def dir_at_def)

lemma slots_same: "mem s' = mem s \<Longrightarrow> slots s' = slots s"
  by (simp add: slots_def)

lemma slots_kept:
  assumes "pool_inv r s R bs es" "pool_inv r s' R' bs' es'" "length es' = length es"
  shows "slots s' = slots s"
  using slots_length [OF assms(1)] slots_length [OF assms(2)] assms(3) by simp

lemma objects_dom:
  assumes inv: "pool_inv r s R bs es"
  shows "dom (objects s) = e_id ` {e \<in> set es. live e}"
proof (intro set_eqI iffI)
  fix i assume "i \<in> dom (objects s)"
  then show "i \<in> e_id ` {e \<in> set es. live e}"
    using objects_none [OF inv, of i] by (fastforce simp: in_set_conv_nth)
next
  fix i assume "i \<in> e_id ` {e \<in> set es. live e}"
  then show "i \<in> dom (objects s)"
    using objects_live [OF inv] by (fastforce simp: in_set_conv_nth)
qed

lemma directory_full:
  assumes inv: "pool_inv r s R bs es"
  shows "card (dom (objects s)) = slots s \<longleftrightarrow> first_slot (\<lambda>e. \<not> live e) es 0 = None"
proof -
  have "distinct (map e_id (filter live es))"
    using pool_invD(5) [OF inv] by (simp add: dir_ok_def)
  from distinct_card [OF this] have "card (dom (objects s)) = length (filter live es)"
    by (simp add: objects_dom [OF inv])
  moreover have "length (filter live es) = length es \<longleftrightarrow> (\<forall>e\<in>set es. live e)"
    using length_filter_less [of _ es live] by (metis filter_True less_irrefl)
  ultimately show ?thesis
    unfolding slots_length [OF inv] first_slot_NoneD by simp
qed

section \<open>The objects behind the entries\<close>

lemma live_in_objs:
  assumes "pool_inv r s R bs es" "k < length es" "live (es ! k)"
  shows "ent_obj (es ! k) \<in> set (blk_objs 0 bs)"
proof -
  have "ent_obj (es ! k) \<in> set (dir_objs es)"
    using assms(2,3) by (auto simp: dir_objs_def)
  then show ?thesis
    using pool_invD(5) [OF assms(1)] by (metis dir_ok_def set_mset_mset)
qed

lemma pool_wf:
  assumes "pool_inv r s R bs es"
  shows "list_all wf_blk bs" "unat (h_data_offset R) + span bs < 2 ^ 64"
  using pool_invD(1) [OF assms] unat64_bound [of "rsize r"]
  by (auto simp: heap_rep_bytes heap_shape_def dest: tiles_wf)

text \<open>The entries other than the one of block \<open>b\<close> describe the objects around \<open>b\<close>.\<close>

lemma other_objs:
  assumes inv: "pool_inv r s R (xs @ b # ys) es" and k: "k < length es" "live (es ! k)" "unat (e_off (es ! k)) = span xs + 56"
    and j: "j < length es" "j \<noteq> k" "live (es ! j)"
  shows "ent_obj (es ! j) \<in> set (blk_objs 0 xs @ blk_objs (span xs + asz b) ys)"
proof -
  obtain xs' b' ys' where b': "xs @ b # ys = xs' @ b' # ys'" "unat (e_off (es ! k)) = span xs' + 56"
    "ent_obj (es ! k) = (span xs' + 56, acap b', the (aown b'))" "\<not> is_free b'"
    by (rule entry_block [OF pool_invD(5) [OF inv] k(1,2)])
  have "span xs = span xs'"
    using b'(2) k(3) by simp
  note same = split_at_span [OF b'(1) pool_wf(1) [OF inv] this]
  have mid: "ent_obj (es ! k) = (span xs + 56, acap b, the (aown b))" "aown b \<noteq> None"
    using b'(3,4) same by (auto simp: is_free_def)
  have "e_id (es ! j) \<noteq> e_id (es ! k)"
    using pool_invD(5) [OF inv] distinct_filter_index [of e_id live es j k] j k by (auto simp: dir_ok_def)
  then have "ent_obj (es ! j) \<noteq> ent_obj (es ! k)"
    by (auto simp: ent_obj_def)
  then show ?thesis
    using live_in_objs [OF inv j(1,3)] mid by auto
qed

section \<open>The operations on the store\<close>

text \<open>
  An allocation inserts an object under an id that the store does not have. It fails exactly when
  all slots are in use or the heap has no room.
\<close>

definition store_alloc ::
    "nat \<Rightarrow> bool \<Rightarrow> (u64 \<Rightarrow> store_obj option) \<Rightarrow> u64 \<Rightarrow> cstring option \<Rightarrow> u32 \<Rightarrow> u32 \<Rightarrow> u32 \<Rightarrow> errno \<Rightarrow>
     (u64 \<times> u64) option \<Rightarrow> (u64 \<Rightarrow> store_obj option) \<Rightarrow> bool" where
  "store_alloc n room m psize name user pm tag rc out m' \<longleftrightarrow>
     (if card (dom m) = n then rc = ENOSPC \<and> out = None \<and> m' = m
      else if \<not> room then rc = ENOMEM \<and> out = None \<and> m' = m
      else rc = OK \<and> (\<exists>i off cap. out = Some (i, off) \<and> i \<noteq> 0 \<and> m i = None \<and>
        m' = m(i \<mapsto> \<lparr>so_off = off, so_owner = user, so_perms = pm, so_tag = tag, so_used = psize,
                       so_name = cstr (stored_name (case name of None \<Rightarrow> [] | Some nm \<Rightarrow> nm)), so_bytes = replicate cap 0\<rparr>)))"

text \<open>The other operations look the object up, check the rights and act.\<close>

definition store_action ::
    "(u64 \<Rightarrow> store_obj option) \<Rightarrow> u64 \<Rightarrow> u32 \<Rightarrow> u32 \<Rightarrow> u32 \<Rightarrow> errno \<Rightarrow>
     (u64 \<Rightarrow> store_obj option) \<Rightarrow> (store_obj \<Rightarrow> bool) \<Rightarrow> bool" where
  "store_action m i user cp right rc m' act \<longleftrightarrow>
     (case m i of
        None \<Rightarrow> rc = ENOENT \<and> m' = m
      | Some ob \<Rightarrow> if access_ok (so_owner ob) (so_perms ob) user cp right then act ob else rc = EACCES \<and> m' = m)"

definition store_free ::
    "(u64 \<Rightarrow> store_obj option) \<Rightarrow> u64 \<Rightarrow> u32 \<Rightarrow> u32 \<Rightarrow> errno \<Rightarrow> (u64 \<Rightarrow> store_obj option) \<Rightarrow> bool" where
  "store_free m i user cp rc m' \<longleftrightarrow>
     store_action m i user cp SHM_PERM_FREE rc m' (\<lambda>ob. rc = OK \<and> m' = m(i := None))"

definition store_resize ::
    "bool \<Rightarrow> (u64 \<Rightarrow> store_obj option) \<Rightarrow> u64 \<Rightarrow> u64 \<Rightarrow> u32 \<Rightarrow> u32 \<Rightarrow> errno \<Rightarrow> (u64 \<Rightarrow> store_obj option) \<Rightarrow> bool" where
  "store_resize room m i new_size user cp rc m' \<longleftrightarrow>
     store_action m i user cp SHM_PERM_RESIZE rc m' (\<lambda>ob.
       if room
       then rc = OK \<and> (\<exists>off bytes. m' = m(i \<mapsto> ob\<lparr>so_off := off, so_used := new_size, so_bytes := bytes\<rparr>) \<and>
         (\<forall>j<min (length (so_bytes ob)) (length bytes). bytes ! j = so_bytes ob ! j))
       else rc = ENOMEM \<and> m' = m)"

text \<open>The room that a resize of an object to a total size of \<open>n\<close> finds: its own block, with its free
  successor or without, or another one.\<close>

definition resize_room :: "nat \<Rightarrow> ablk list \<Rightarrow> obj_entry list \<Rightarrow> u64 \<Rightarrow> bool" where
  "resize_room n bs es obj_id \<longleftrightarrow>
     (case first_slot (\<lambda>e. e_id e = obj_id \<and> e_alive e \<noteq> 0) es 0 of
        None \<Rightarrow> False
      | Some i \<Rightarrow>
          (case split_off (unat (e_off (es ! i)) - 56) bs of
             None \<Rightarrow> False
           | Some (xs, b, ys) \<Rightarrow> n \<le> asz b \<or> growable n b ys \<or> first_fit n bs \<noteq> None))"

lemma alloc_on_store:
  assumes inv: "pool_inv r s R bs es" and lk: "lockable s" and p: "psize \<noteq> 0"
    and n: "56 \<le> unat (alloc_size psize)" and nid: "h_next_id R + 1 \<noteq> 0"
  shows "runs (shm_alloc (Some r) s psize name user pm tag True True)
    (\<lambda>(rc, out, s'). slots s' = slots s \<and>
       store_alloc (slots s) (first_fit (unat (alloc_size psize)) bs \<noteq> None) (objects s) psize name user pm tag rc out (objects s'))"
proof (rule runs_mono [OF shm_alloc_refines [OF inv lk p n nid, of name user pm tag]])
  fix v assume post: "alloc_post r s R bs es psize name (alloc_info R user pm tag) v"
  obtain rc out s' where v: "v = (rc, out, s')" by (cases v)
  let ?n = "unat (alloc_size psize)" and ?oi = "alloc_info R user pm tag" and ?d = "unat (h_data_offset R)"
  show "case v of (rc, out, s') \<Rightarrow> slots s' = slots s \<and>
      store_alloc (slots s) (first_fit ?n bs \<noteq> None) (objects s) psize name user pm tag rc out (objects s')"
  proof (cases "rc = OK")
    case False
    then show ?thesis
      using post objects_same [of s' s] slots_same [of s' s] directory_full [OF inv]
      by (auto simp: v alloc_post_def store_alloc_def split: option.splits)
  next
    case True
    then obtain k xs b ys where f: "first_slot (\<lambda>e. \<not> live e) es 0 = Some k" "first_fit ?n bs = Some (xs, b, ys)"
      "out = Some (h_next_id R, of_nat (span xs + 56))" "alloc_done r s s' R es ?n psize name ?oi k xs b ys"
      using post by (auto simp: v alloc_post_def split: option.splits)
    have b: "bs = xs @ b # ys" "is_free b" "?n \<le> asz b"
      using first_fit_SomeD [OF f(2)] by auto
    define e where "e = alloc_entry (h_next_id R) (of_nat (span xs + 56)) (of_nat (acap (taken ?n ?oi b))) psize tag user pm name"
    obtain fl where inv': "pool_inv r s' (alloc_hdr R fl (taken_size ?n b)) (xs @ take_block ?n ?oi b @ ys) (es[k := e])"
      and kept: "payloads_kept ?d (blk_objs 0 bs) s s'"
      and zero: "\<And>a. in_payload ?d (span xs + 56, acap (taken ?n ?oi b), ?oi) a \<Longrightarrow> mem s' a = 0"
      using f(4) unfolding alloc_done_def b(1) by (auto simp: alloc_info_def e_def)
    have k: "k < length es" "\<not> live (es ! k)"
      using first_slot_SomeD [OF f(1)] by auto
    have nz: "h_next_id R \<noteq> 0"
      using inv by (auto simp: pool_inv_def)
    have live: "live e" and id: "e_id e = h_next_id R"
      using nz by (simp_all add: e_def alloc_entry_def live_def)
    have cap: "acap (taken ?n ?oi b) + 56 \<le> asz b"
      using pool_wf(1) [OF inv] b n by (auto simp: taken_def wf_blk_def)
    have lt: "span xs + 56 + acap (taken ?n ?oi b) < 2 ^ 64"
      using pool_wf(2) [OF inv] cap b(1) by simp
    have off: "unat (e_off e) = span xs + 56" "unat (e_capacity e) = acap (taken ?n ?oi b)"
      using lt unat64 [of "span xs + 56"] unat64 [of "acap (taken ?n ?oi b)"] by (simp_all add: e_def alloc_entry_def)
    have "objects s' = (objects s)(e_id e \<mapsto> view_of s' ?d e)"
    proof (rule objects_update(1) [OF inv inv' k(1) _ _ live])
      fix j a assume j: "j < length es" "live (es ! j)" "in_payload ?d (ent_obj (es ! j)) a"
      then show "mem s' a = mem s a"
        using kept live_in_objs [OF inv j(1,2)] by (auto simp: payloads_kept_def)
    qed (use k in simp_all)
    moreover have "map (\<lambda>j. mem s' (?d + (span xs + 56) + j)) [0..<acap (taken ?n ?oi b)] = replicate (acap (taken ?n ?oi b)) 0"
      by (rule nth_equalityI) (auto intro!: zero simp: in_payload_def)
    then have "view_of s' ?d e = \<lparr>so_off = of_nat (span xs + 56), so_owner = user, so_perms = pm, so_tag = tag, so_used = psize,
        so_name = cstr (stored_name (case name of None \<Rightarrow> [] | Some nm \<Rightarrow> nm)), so_bytes = replicate (acap (taken ?n ?oi b)) 0\<rparr>"
      unfolding view_of_def off by (simp add: e_def alloc_entry_def)
    moreover have "objects s (h_next_id R) = None"
    proof (rule objects_none [OF inv])
      fix j assume "j < length es" "live (es ! j)"
      then have "e_id (es ! j) < h_next_id R"
        using pool_invD(5) [OF inv] nth_mem [of j es] by (auto simp: dir_ok_def list_all_iff entry_ok_def)
      then show "e_id (es ! j) \<noteq> h_next_id R"
        by auto
    qed
    ultimately show ?thesis
      using True f(1-3) nz id directory_full [OF inv] slots_kept [OF inv inv'] by (auto simp: v store_alloc_def)
  qed
qed

text \<open>The look-up that the other operations start with, on the directory and on the store.\<close>

lemma action_lookup:
  assumes inv: "pool_inv r s R bs es" and nz: "i \<noteq> 0"
  shows "first_slot (\<lambda>e. e_id e = i \<and> e_alive e \<noteq> 0) es 0 = None \<Longrightarrow> objects s i = None"
    and "first_slot (\<lambda>e. e_id e = i \<and> e_alive e \<noteq> 0) es 0 = Some k \<Longrightarrow>
       objects s i = Some (view_of s (unat (h_data_offset R)) (es ! k)) \<and> k < length es \<and> live (es ! k) \<and> e_id (es ! k) = i"
proof -
  show "first_slot (\<lambda>e. e_id e = i \<and> e_alive e \<noteq> 0) es 0 = None \<Longrightarrow> objects s i = None"
    by (simp add: objects_eq [OF inv nz])
  assume k: "first_slot (\<lambda>e. e_id e = i \<and> e_alive e \<noteq> 0) es 0 = Some k"
  then show "objects s i = Some (view_of s (unat (h_data_offset R)) (es ! k)) \<and> k < length es \<and> live (es ! k) \<and> e_id (es ! k) = i"
    using first_slot_SomeD [OF k] nz by (auto simp: objects_eq [OF inv nz] live_def)
qed

lemma free_on_store:
  assumes inv: "pool_inv r s R bs es" and lk: "lockable s" and nz: "obj_id \<noteq> 0"
  shows "runs (shm_free (Some r) s obj_id user cp)
    (\<lambda>(rc, s'). slots s' = slots s \<and> store_free (objects s) obj_id user cp rc (objects s'))"
proof (rule runs_mono [OF shm_free_refines [OF inv lk nz, of user cp]])
  fix v assume post: "free_post r s R bs es obj_id user cp v"
  obtain rc s' where v: "v = (rc, s')" by (cases v)
  note look = action_lookup [OF inv nz]
  show "case v of (rc, s') \<Rightarrow> slots s' = slots s \<and> store_free (objects s) obj_id user cp rc (objects s')"
  proof (cases "first_slot (\<lambda>e. e_id e = obj_id \<and> e_alive e \<noteq> 0) es 0")
    case None
    then show ?thesis
      using post look(1) objects_same [of s' s] slots_same [of s' s] by (simp add: v free_post_def store_free_def store_action_def)
  next
    case slot: (Some k)
    note k = look(2) [OF slot]
    have acc: "access_ok (so_owner (view_of s d (es ! k))) (so_perms (view_of s d (es ! k))) user cp SHM_PERM_FREE =
        access_ok (e_owner (es ! k)) (e_perms (es ! k)) user cp SHM_PERM_FREE" for d
      by (simp add: view_of_def)
    show ?thesis
    proof (cases "access_ok (e_owner (es ! k)) (e_perms (es ! k)) user cp SHM_PERM_FREE")
      case False
      then show ?thesis
        using post slot k acc objects_same [of s' s] slots_same [of s' s] by (simp add: v free_post_def store_free_def store_action_def)
    next
      case True
      then obtain xs b ys where f: "rc = OK" "bs = xs @ b # ys" "unat (e_off (es ! k)) = span xs + 56"
        "free_done r s s' R es k xs b ys"
        using post slot by (auto simp: v free_post_def)
      obtain fl where inv': "pool_inv r s' (count_free (R\<lparr>h_free_list := fl\<rparr>) (asz b)) (insert_free xs b ys) (es[k := zero_ent])"
        and kept: "payloads_kept (unat (h_data_offset R)) (blk_objs 0 (insert_free xs b ys)) s s'"
        using f(4) by (auto simp: free_done_def)
      have dead: "\<not> live zero_ent"
        by (simp add: live_def zero_ent_def)
      have "objects s' = (objects s)(e_id (es ! k) := None)"
      proof (rule objects_update(2) [OF inv inv'])
        fix j a assume j: "j < length es" "j \<noteq> k" "live (es ! j)" "in_payload (unat (h_data_offset R)) (ent_obj (es ! j)) a"
        have "ent_obj (es ! j) \<in> set (blk_objs 0 xs @ blk_objs (span xs + asz b) ys)"
          using inv k f(3) j(1-3) unfolding f(2) by (intro other_objs) auto
        then show "mem s' a = mem s a"
          using kept j(4) by (simp add: payloads_kept_def insert_free_objs)
      qed (use k dead in simp_all)
      then show ?thesis
        using True acc k f(1) slots_kept [OF inv inv'] by (simp add: v store_free_def store_action_def)
    qed
  qed
qed

lemma resized_on_store:
  assumes inv: "pool_inv r s R (xs @ b # ys) es" and k: "k < length es" "live (es ! k)" "unat (e_off (es ! k)) = span xs + 56"
    and cap: "unat (e_capacity (es ! k)) = acap b"
    and to: "resized_to r s s' R es k xs b ys bs' off cap used" and lt: "off + cap < 2 ^ 64"
  shows "slots s' = slots s \<and> (\<exists>bytes. objects s' = (objects s)(e_id (es ! k) \<mapsto>
      (view_of s (unat (h_data_offset R)) (es ! k))\<lparr>so_off := of_nat off, so_used := used, so_bytes := bytes\<rparr>) \<and>
    (\<forall>j<min (acap b) (length bytes). bytes ! j = so_bytes (view_of s (unat (h_data_offset R)) (es ! k)) ! j))"
proof -
  let ?d = "unat (h_data_offset R)" and ?e = "resized_entry (es ! k) off cap used"
  from to obtain fl where inv': "pool_inv r s' (R\<lparr>h_free_list := fl, h_used_bytes := of_nat (used_span bs')\<rparr>) bs' (es[k := ?e])"
    and kept: "payloads_kept ?d (blk_objs 0 xs @ blk_objs (span xs + asz b) ys) s s'"
    and same: "kept_contents ?d (span xs + 56) off (min (acap b) cap) s s'"
    by (auto simp: resized_to_def)
  have e: "unat (e_off ?e) = off" "unat (e_capacity ?e) = cap"
    using lt unat64 [of off] unat64 [of cap] by (simp_all add: resized_entry_def)
  let ?bytes = "map (\<lambda>j. mem s' (?d + off + j)) [0..<cap]"
  have view: "view_of s' ?d ?e = (view_of s ?d (es ! k))\<lparr>so_off := of_nat off, so_used := used, so_bytes := ?bytes\<rparr>"
    unfolding view_of_def e by (simp add: resized_entry_def)
  have l: "live ?e" "e_id ?e = e_id (es ! k)"
    using k(2) by (simp_all add: resized_entry_def live_def)
  have "objects s' = (objects s)(e_id ?e \<mapsto> view_of s' ?d ?e)"
  proof (rule objects_update(1) [OF inv inv' k(1) _ _ l(1)])
    fix j a assume j: "j < length es" "j \<noteq> k" "live (es ! j)" "in_payload ?d (ent_obj (es ! j)) a"
    have "ent_obj (es ! j) \<in> set (blk_objs 0 xs @ blk_objs (span xs + asz b) ys)"
      using inv k j(1-3) by (rule other_objs)
    then show "mem s' a = mem s a"
      using kept j(4) by (simp add: payloads_kept_def)
  qed (use l in simp_all)
  moreover have "?bytes ! j = so_bytes (view_of s ?d (es ! k)) ! j" if "j < min (acap b) cap" for j
    using that same by (simp add: view_of_def cap k(3) kept_contents_def)
  ultimately show ?thesis
    unfolding view l(2) using slots_kept [OF inv inv'] by (intro conjI exI [of _ ?bytes]) simp_all
qed

text \<open>Where a resize leaves the object, its payload ends below the size of the mapping.\<close>

lemma cut_bound:
  assumes "wf_blk b" "56 \<le> n" "n \<le> asz b"
  shows "acap (cut_block n b) + 56 \<le> asz b"
  using assms by (auto simp: cut_block_def wf_blk_def)

lemma grown_bound:
  assumes "growable n b ys" "list_all wf_blk (xs @ b # ys)" "56 \<le> n"
  shows "span xs + 56 + acap (cut_block n (widen b (hd ys))) \<le> span (xs @ b # ys)"
proof (cases ys)
  case (Cons t zs)
  then have "wf_blk b" "wf_blk t" "n \<le> asz b + asz t"
    using assms(1,2) by auto
  then have "acap (cut_block n (widen b t)) + 56 \<le> asz b + asz t"
    using cut_bound [of "widen b t" n] assms(3) by (auto simp: wf_blk_def)
  then show ?thesis
    by (simp add: Cons)
qed (use assms(1) in simp)

lemma taken_bound:
  assumes "first_fit n bs = Some (us, f, vs)" "list_all wf_blk bs" "56 \<le> n"
  shows "span us + 56 + acap (taken n oi f) \<le> span bs"
  using first_fit_SomeD [OF assms(1)] assms(2,3) by (auto simp: taken_def wf_blk_def)

lemma resize_on_store:
  assumes inv: "pool_inv r s R bs es" and lk: "lockable s" and nz: "obj_id \<noteq> 0" "new_size \<noteq> 0"
    and n: "56 \<le> unat (alloc_size new_size)" and run: "shm_resize (Some r) s obj_id new_size user cp = Some (rc, s')"
  shows "slots s' = slots s \<and>
    store_resize (resize_room (unat (alloc_size new_size)) bs es obj_id) (objects s) obj_id new_size user cp rc (objects s')"
proof -
  let ?n = "unat (alloc_size new_size)" and ?d = "unat (h_data_offset R)"
  note look = action_lookup [OF inv nz(1)]
  note defs = resize_post_def store_resize_def store_action_def
  have post: "resize_post r s R bs es obj_id new_size user cp (rc, s')"
    using inv lk nz n run by (rule shm_resize_returned)
  show ?thesis
  proof (cases "first_slot (\<lambda>e. e_id e = obj_id \<and> e_alive e \<noteq> 0) es 0")
    case None
    then show ?thesis
      using post look(1) objects_same [of s' s] slots_same [of s' s] by (simp add: defs)
  next
    case slot: (Some k)
    note k = look(2) [OF slot]
    have acc: "access_ok (so_owner (view_of s d (es ! k))) (so_perms (view_of s d (es ! k))) user cp SHM_PERM_RESIZE =
        access_ok (e_owner (es ! k)) (e_perms (es ! k)) user cp SHM_PERM_RESIZE" for d
      by (simp add: view_of_def)
    show ?thesis
    proof (cases "access_ok (e_owner (es ! k)) (e_perms (es ! k)) user cp SHM_PERM_RESIZE")
      case False
      then show ?thesis
        using post slot k acc objects_same [of s' s] slots_same [of s' s] by (simp add: defs)
    next
      case True
      obtain xs b ys oi where f: "bs = xs @ b # ys" "unat (e_off (es ! k)) = span xs + 56" "aown b = Some oi"
        "resize_done r s s' R es k xs b ys ?n oi new_size rc"
        using post slot True by (auto simp: resize_post_def)
      have wf: "list_all wf_blk (xs @ b # ys)" "wf_blk b"
        using pool_wf(1) [OF inv] f(1) by auto
      have cap: "unat (e_capacity (es ! k)) = acap b"
      proof -
        obtain xs' b' ys' where b': "bs = xs' @ b' # ys'" "unat (e_off (es ! k)) = span xs' + 56"
          "unat (e_capacity (es ! k)) = acap b'"
          by (rule entry_block [OF pool_invD(5) [OF inv], of k]) (use k in simp_all)
        then show ?thesis
          using split_at_span(2) [OF _ wf(1), of xs' b' ys'] f(1,2) by simp
      qed
      have room: "resize_room ?n bs es obj_id \<longleftrightarrow> ?n \<le> asz b \<or> growable ?n b ys \<or> first_fit ?n bs \<noteq> None"
        using split_off_span [OF wf(1)] by (simp add: resize_room_def slot f(1,2))
      have step: "slots s' = slots s \<and> store_resize True (objects s) obj_id new_size user cp OK (objects s')"
        if to: "resized_to r s s' R es k xs b ys bs' off c new_size" and le: "off + c \<le> span bs" for bs' off c
      proof -
        have "off + c < 2 ^ 64"
          using le pool_wf(2) [OF inv] by simp
        note on = resized_on_store [OF inv [unfolded f(1)] _ _ f(2) cap to this]
        have len: "length (so_bytes (view_of s ?d (es ! k))) = acap b"
          by (simp add: view_of_def cap)
        show ?thesis
          using on k acc True by (auto simp: store_resize_def store_action_def len)
      qed
      have keep: "slots s' = slots s \<and> store_resize False (objects s) obj_id new_size user cp ENOMEM (objects s')"
        if "mem s' = mem s"
        using k acc True objects_same [OF that] slots_same [OF that] by (simp add: store_resize_def store_action_def)
      note d = f(4) [unfolded resize_done_def moved_to_def Let_def]
      consider (cut) "?n \<le> asz b" | (grow) "\<not> ?n \<le> asz b" "growable ?n b ys"
        | (full) "\<not> ?n \<le> asz b" "\<not> growable ?n b ys" "first_fit ?n bs = None"
        | (move) us g vs where "\<not> ?n \<le> asz b" "\<not> growable ?n b ys" "first_fit ?n bs = Some (us, g, vs)"
        by (cases "first_fit ?n bs") (auto simp: prod_eq_iff)
      then show ?thesis
      proof cases
        case cut
        have "span xs + 56 + acap (cut_block ?n b) \<le> span bs"
          using cut_bound [OF wf(2) n cut] f(1) by simp
        then show ?thesis
          using d cut step [of _ "span xs + 56"] room by auto
      next
        case grow
        have "span xs + 56 + acap (cut_block ?n (widen b (hd ys))) \<le> span bs"
          using grown_bound [OF grow(2) wf(1) n] f(1) by simp
        then show ?thesis
          using d grow step [of _ "span xs + 56"] room by auto
      next
        case full
        then show ?thesis
          using d keep room f(1) by simp
      next
        case move
        have "span us + 56 + acap (taken ?n oi g) \<le> span bs"
          using taken_bound [OF move(3) pool_wf(1) [OF inv] n] .
        then show ?thesis
          using d move(1,2) move(3) [unfolded f(1)] step [of _ "span us + 56"] room f(1) by auto
      qed
    qed
  qed
qed

end
