(* ===== verification/Shm_Store_Run.thy ===== *)
theory Shm_Store_Run
  imports Shm_Store
begin

text \<open>
  Executions on the object store. \<open>store_step\<close> is the specification: what the calls of several
  processes may do to a map from ids to objects. Every step of an execution of the region is one
  step of it, so whatever holds of all executions of the specification holds of the region.
  The steps carry the right they use, so the simulation also says which objects a step cannot touch;
  over any number of steps of callers without rights that is isolation.
\<close>

section \<open>Look-up, permissions and stores into the bytes\<close>

text \<open>Where the directory and the payloads stay, the store stays.\<close>

lemma objects_kept:
  assumes inv: "pool_inv r s R bs es" and inv': "pool_inv r' s' R' bs' es"
    and d: "h_data_offset R' = h_data_offset R" and out: "\<And>a. 200 \<le> a \<Longrightarrow> mem s' a = mem s a"
  shows "objects s' = objects s"
proof
  fix i
  have "200 \<le> unat (h_data_offset R)"
    using pool_invD(1) [OF inv] by (simp add: heap_rep_bytes)
  then have "view_of s' (unat (h_data_offset R)) e = view_of s (unat (h_data_offset R)) e" for e
    by (simp add: view_of_def out)
  then show "objects s' i = objects s i"
    using objects_eq [OF inv, of i] objects_eq [OF inv', of i] d
    by (cases "i = 0") (simp_all add: objects_def Let_def)
qed

definition store_lookup ::
    "(u64 \<Rightarrow> store_obj option) \<Rightarrow> u64 \<Rightarrow> u32 \<Rightarrow> u32 \<Rightarrow> errno \<Rightarrow> u64 option \<Rightarrow> u64 option \<Rightarrow>
     (u64 \<Rightarrow> store_obj option) \<Rightarrow> bool" where
  "store_lookup m i user cp rc off used m' \<longleftrightarrow>
     store_action m i user cp SHM_PERM_READ rc m'
       (\<lambda>ob. rc = OK \<and> off = Some (so_off ob) \<and> used = Some (so_used ob) \<and> m' = m)"

lemma lookup_on_store:
  assumes inv: "pool_inv r s R bs es" and lk: "lockable s" and nz: "obj_id \<noteq> 0"
  shows "runs (shm_lookup (Some r) s obj_id user cp True True)
    (\<lambda>(rc, off, used, s'). store_lookup (objects s) obj_id user cp rc off used (objects s'))"
proof (cases "first_slot (\<lambda>e. e_id e = obj_id \<and> e_alive e \<noteq> 0) es 0")
  case None
  then show ?thesis
    using shm_lookup_none [OF inv lk nz None, of user cp True True] action_lookup(1) [OF inv nz None]
      objects_same [of "s\<lparr>mutex := MUnlocked\<rparr>" s]
    by (simp add: runs_iff store_lookup_def store_action_def)
next
  case (Some k)
  then show ?thesis
    using shm_lookup_some [OF inv lk nz Some, of user cp True True] action_lookup(2) [OF inv nz Some]
      objects_same [of "s\<lparr>mutex := MUnlocked\<rparr>" s]
    by (simp add: runs_iff store_lookup_def store_action_def view_of_def)
qed

text \<open>The object behind an allocated block.\<close>

lemma block_object:
  assumes inv: "pool_inv r s R (xs @ b # ys) es" and own: "aown b = Some oi"
  obtains k where "k < length es" "live (es ! k)" "e_id (es ! k) = o_id oi"
    "unat (e_off (es ! k)) = span xs + 56" "unat (e_capacity (es ! k)) = acap b"
    "e_owner (es ! k) = o_owner oi" "e_perms (es ! k) = o_perms oi"
    "objects s (o_id oi) = Some (view_of s (unat (h_data_offset R)) (es ! k))"
proof -
  obtain k where k: "k < length es" "live (es ! k)" "ent_obj (es ! k) = (span xs + 56, acap b, oi)"
    by (rule object_slot [OF pool_invD(5) [OF inv] own])
  have "oi = snd (snd (ent_obj (es ! k)))"
    using k(3) by simp
  then have o: "e_id (es ! k) = o_id oi" "e_owner (es ! k) = o_owner oi" "e_perms (es ! k) = o_perms oi"
    by (simp_all add: ent_obj_def)
  have c: "unat (e_off (es ! k)) = span xs + 56" "unat (e_capacity (es ! k)) = acap b"
    using k(3) by (simp_all add: ent_obj_def)
  show thesis
    by (rule that [OF k(1,2) o(1) c o(2,3)]) (use objects_live [OF inv k(1,2)] o(1) in simp)
qed

lemma perms_on_store:
  assumes inv: "pool_inv r s R (xs @ b # ys) es" and lk: "lockable s" and own: "aown b = Some oi"
  shows "runs (shm_block_set_perms (Some r) s (of_nat (span xs + 56)) user cp np)
    (\<lambda>(rc, s'). slots s' = slots s \<and> (\<exists>ob. objects s (o_id oi) = Some ob \<and>
       (if access_ok (so_owner ob) (so_perms ob) user cp SHM_PERM_WRITE
        then rc = OK \<and> objects s' = (objects s)(o_id oi \<mapsto> ob\<lparr>so_perms := np\<rparr>)
        else rc = EACCES \<and> objects s' = objects s)))"
proof (rule runs_mono [OF shm_block_set_perms_refines [OF inv lk own, of user cp np]])
  fix v assume post: "perms_post r s R es xs b ys oi user cp np v"
  obtain rc s' where v: "v = (rc, s')" by (cases v)
  let ?d = "unat (h_data_offset R)"
  obtain k where k: "k < length es" "live (es ! k)" "e_id (es ! k) = o_id oi"
    "e_owner (es ! k) = o_owner oi" "e_perms (es ! k) = o_perms oi" "objects s (o_id oi) = Some (view_of s ?d (es ! k))"
    by (rule block_object [OF inv own])
  have acc: "so_owner (view_of s ?d (es ! k)) = o_owner oi" "so_perms (view_of s ?d (es ! k)) = o_perms oi"
    by (simp_all add: view_of_def k)
  show "case v of (rc, s') \<Rightarrow> slots s' = slots s \<and> (\<exists>ob. objects s (o_id oi) = Some ob \<and>
       (if access_ok (so_owner ob) (so_perms ob) user cp SHM_PERM_WRITE
        then rc = OK \<and> objects s' = (objects s)(o_id oi \<mapsto> ob\<lparr>so_perms := np\<rparr>)
        else rc = EACCES \<and> objects s' = objects s))"
  proof (cases "access_ok (o_owner oi) (o_perms oi) user cp SHM_PERM_WRITE")
    case False
    then show ?thesis
      using post objects_same [of s' s] slots_same [of s' s] k(6) acc by (simp add: v perms_post_def)
  next
    case True
    then obtain i where rc: "rc = OK" and i: "i < length es" "e_id (es ! i) = o_id oi" "live (es ! i)"
      and inv': "pool_inv r s' R (xs @ b\<lparr>aown := Some (oi\<lparr>o_perms := np\<rparr>)\<rparr> # ys) (es[i := (es ! i)\<lparr>e_perms := np\<rparr>])"
      and kept: "payloads_kept ?d (blk_objs 0 (xs @ b # ys)) s s'"
      using post by (auto simp: v perms_post_def)
    have "i = k"
      using i k pool_invD(5) [OF inv] distinct_filter_index [of e_id live es i k] by (auto simp: dir_ok_def)
    note inv' = inv' [unfolded this]
    have same: "mem s' a = mem s a" if "j < length es" "live (es ! j)" "in_payload ?d (ent_obj (es ! j)) a" for j a
      using kept live_in_objs [OF inv that(1,2)] that(3) by (simp add: payloads_kept_def)
    have l: "live ((es ! k)\<lparr>e_perms := np\<rparr>)"
      using k(2) by (simp add: live_def)
    have "objects s' = (objects s)(e_id ((es ! k)\<lparr>e_perms := np\<rparr>) \<mapsto> view_of s' ?d ((es ! k)\<lparr>e_perms := np\<rparr>))"
      by (rule objects_update(1) [OF inv inv' k(1) refl _ l]) (simp_all add: same)
    moreover have "view_of s' ?d ((es ! k)\<lparr>e_perms := np\<rparr>) = (view_of s ?d (es ! k))\<lparr>so_perms := np\<rparr>"
      using same [OF k(1,2)] by (simp add: view_of_def in_payload_def ent_obj_def)
    ultimately show ?thesis
      using True rc k(3,6) acc slots_kept [OF inv inv'] by (simp add: v)
  qed
qed

text \<open>A byte stored through a pointer for writing is that byte of the object.\<close>

lemma write_on_store:
  assumes inv: "pool_inv r s R (xs @ b # ys) es"
    and p: "shm_ptr (Some r) s (of_nat (span xs + 56)) user cp SHM_PERM_WRITE = Some p" "p \<noteq> 0"
    and own: "aown b = Some oi" and k: "k < acap b" and w: "wr8 r s (p + of_nat k) v = Some s'"
  shows "slots s' = slots s \<and>
    (\<exists>ob. objects s (o_id oi) = Some ob \<and> access_ok (so_owner ob) (so_perms ob) user cp SHM_PERM_WRITE \<and>
      k < length (so_bytes ob) \<and> objects s' = (objects s)(o_id oi \<mapsto> ob\<lparr>so_bytes := (so_bytes ob)[k := v]\<rparr>))"
proof -
  note hr = pool_invD(1) [OF inv]
  let ?d = "unat (h_data_offset R)"
  have oi: "aown b = Some oi" "access_ok (o_owner oi) (o_perms oi) user cp SHM_PERM_WRITE"
    and p': "p = payload_ptr r R (span xs)"
    using p own unfolding shm_ptr_eq [OF hr] by (auto split: option.splits if_splits)
  have "region_off r (p + of_nat k) = ?d + span xs + 56 + k"
    unfolding p' using k by (intro payload_in_map(1) [OF hr, of k 1]) simp
  then have s': "s' = s\<lparr>mem := (mem s)(?d + span xs + 56 + k := v)\<rparr>"
    using w by (simp add: wr8_def put8_def split: if_splits)
  have wf: "acap b + 56 \<le> asz b"
    using pool_wf(1) [OF inv] by (simp add: wf_blk_def)
  obtain i where i: "i < length es" "live (es ! i)" "e_id (es ! i) = o_id oi" "unat (e_off (es ! i)) = span xs + 56"
    "unat (e_capacity (es ! i)) = acap b" "e_owner (es ! i) = o_owner oi" "e_perms (es ! i) = o_perms oi"
    "objects s (o_id oi) = Some (view_of s ?d (es ! i))"
    by (rule block_object [OF inv oi(1)])
  have "pool_inv r s' R (xs @ b # ys) es"
    by (rule pool_inv_payload [OF inv refl]) (use k wf in \<open>auto simp: s'\<close>)
  then have inv': "pool_inv r s' R (xs @ b # ys) (es[i := es ! i])"
    by simp
  have here: "in_payload ?d (ent_obj (es ! i)) (?d + span xs + 56 + k)"
    using i k by (simp add: in_payload_def ent_obj_def)
  have "objects s' = (objects s)(e_id (es ! i) \<mapsto> view_of s' ?d (es ! i))"
  proof (rule objects_update(1) [OF inv inv' i(1) refl _ i(2)])
    fix j a assume j: "j < length es" "j \<noteq> i" "live (es ! j)" "in_payload ?d (ent_obj (es ! j)) a"
    then have "a \<noteq> ?d + span xs + 56 + k"
      using live_objects_apart [OF inv j(1,3) i(1,2)] here by blast
    then show "mem s' a = mem s a"
      by (simp add: s')
  qed simp
  moreover have "view_of s' ?d (es ! i) = (view_of s ?d (es ! i))\<lparr>so_bytes := (so_bytes (view_of s ?d (es ! i)))[k := v]\<rparr>"
    using k by (auto simp: view_of_def i s' intro!: nth_equalityI)
  moreover have "k < length (so_bytes (view_of s ?d (es ! i)))"
    using k by (simp add: view_of_def i)
  ultimately show ?thesis
    using i oi(2) slots_kept [OF inv inv'] by (intro conjI exI [of _ "view_of s ?d (es ! i)"]) (simp_all add: view_of_def)
qed

section \<open>The specification\<close>

text \<open>The store of a region with \<open>n\<close> directory slots. Whether the heap has room is left open.\<close>

inductive store_step :: "nat \<Rightarrow> (u64 \<Rightarrow> store_obj option) \<Rightarrow> (u64 \<Rightarrow> store_obj option) \<Rightarrow> bool" for n :: nat where
  s_alloc: "store_alloc n room m psize name user pm tag rc out m' \<Longrightarrow> store_step n m m'"
| s_free: "store_free m i user cp rc m' \<Longrightarrow> store_step n m m'"
| s_resize: "store_resize room m i new_size user cp rc m' \<Longrightarrow> store_step n m m'"
| s_perms: "m i = Some ob \<Longrightarrow> access_ok (so_owner ob) (so_perms ob) user cp SHM_PERM_WRITE \<Longrightarrow>
     store_step n m (m(i \<mapsto> ob\<lparr>so_perms := np\<rparr>))"
| s_write: "m i = Some ob \<Longrightarrow> access_ok (so_owner ob) (so_perms ob) user cp SHM_PERM_WRITE \<Longrightarrow> k < length (so_bytes ob) \<Longrightarrow>
     store_step n m (m(i \<mapsto> ob\<lparr>so_bytes := (so_bytes ob)[k := v]\<rparr>))"
| s_quiet: "store_step n m m"

section \<open>Simulation\<close>

text \<open>
  What a step of the region does to the store, by the rights it uses: an object other than the one
  that the step names, or one on which its caller lacks the right, stays as it is.
\<close>

definition foreign :: "u64 \<Rightarrow> store_obj \<Rightarrow> act \<Rightarrow> bool" where
  "foreign i ob a \<longleftrightarrow>
     (case a of
        Open_To_All \<Rightarrow> True
      | Uses j right user cp \<Rightarrow> j \<noteq> i \<or> \<not> access_ok (so_owner ob) (so_perms ob) user cp right)"

definition spares :: "act \<Rightarrow> (u64 \<Rightarrow> store_obj option) \<Rightarrow> (u64 \<Rightarrow> store_obj option) \<Rightarrow> bool" where
  "spares a m m' \<longleftrightarrow> (\<forall>i ob. m i = Some ob \<and> foreign i ob a \<longrightarrow> m' i = Some ob)"

lemma spares_same [simp]: "spares a m m"
  by (simp add: spares_def)

lemma spares_action:
  assumes "store_action m i user cp right rc m' act"
    and "\<And>ob. m i = Some ob \<Longrightarrow> access_ok (so_owner ob) (so_perms ob) user cp right \<Longrightarrow> act ob \<Longrightarrow> \<forall>j. j \<noteq> i \<longrightarrow> m' j = m j"
  shows "spares (Uses i right user cp) m m'"
proof (cases "m i")
  case None
  then show ?thesis
    using assms(1) by (simp add: store_action_def)
next
  case (Some ob)
  then show ?thesis
    using assms(1) assms(2) [OF Some] unfolding store_action_def spares_def foreign_def
    by (auto split: if_splits) (metis option.inject)
qed

lemma pool_act_simulates:
  assumes step: "pool_act n a h h'" and inv: "hist_inv n h"
  shows "slots (st h') = slots (st h) \<and> store_step (slots (st h)) (objects (st h)) (objects (st h')) \<and>
    spares a (objects (st h)) (objects (st h'))"
  using step
proof cases
  case (alloc r psize name user pm tag rc out s')
  obtain R bs es where i: "pool_inv r (st h) R bs es" "lockable (st h)"
    using inv alloc(3) by (rule hist_inv_at)
  have "h_next_id R + 1 \<noteq> 0"
    using alloc(6) pool_invD(8) [OF i(1)] by simp
  from alloc_on_store [OF i alloc(4,5) this, of name user pm tag] alloc(7)
  have sl: "slots s' = slots (st h)"
    and on: "store_alloc (slots (st h)) (first_fit (unat (alloc_size psize)) bs \<noteq> None) (objects (st h)) psize name user pm tag
      rc out (objects s')"
    by auto
  have "spares a (objects (st h)) (objects s')"
    using on by (auto simp: store_alloc_def spares_def split: if_splits)
  then show ?thesis
    using sl s_alloc [OF on] by (simp add: alloc(2))
next
  case (free r obj_id user cp rc s')
  obtain R bs es where i: "pool_inv r (st h) R bs es" "lockable (st h)"
    using inv free(3) by (rule hist_inv_at)
  show ?thesis
  proof (cases "obj_id = 0")
    case True
    then show ?thesis
      using free by (auto simp: shm_free_def intro: s_quiet)
  next
    case False
    from free_on_store [OF i False, of user cp] free(4)
    have on: "slots s' = slots (st h)" "store_free (objects (st h)) obj_id user cp rc (objects s')"
      by auto
    have "spares a (objects (st h)) (objects s')"
      unfolding free(1) by (rule spares_action [OF on(2) [unfolded store_free_def]]) simp
    then show ?thesis
      using on(1) s_free [OF on(2)] by (simp add: free(2))
  qed
next
  case (resize r obj_id new_size user cp rc s')
  obtain R bs es where i: "pool_inv r (st h) R bs es" "lockable (st h)"
    using inv resize(3) by (rule hist_inv_at)
  note on = resize_on_store [OF i resize(4-7)]
  have "spares a (objects (st h)) (objects s')"
    unfolding resize(1)
    by (rule spares_action [OF on [THEN conjunct2, unfolded store_resize_def]]) (auto split: if_splits)
  then show ?thesis
    using on s_resize by (auto simp: resize(2))
next
  case (set_perms r R xs b ys es oi user cp np rc s')
  have lk: "lockable (st h)"
    using inv by (simp add: hist_inv_def)
  from perms_on_store [OF set_perms(4) lk set_perms(5), of user cp np] set_perms(6) obtain ob
    where sl: "slots s' = slots (st h)" and ob: "objects (st h) (o_id oi) = Some ob"
      and on: "if access_ok (so_owner ob) (so_perms ob) user cp SHM_PERM_WRITE
        then rc = OK \<and> objects s' = (objects (st h))(o_id oi \<mapsto> ob\<lparr>so_perms := np\<rparr>)
        else rc = EACCES \<and> objects s' = objects (st h)"
    by auto
  have "spares a (objects (st h)) (objects s')"
    using on ob by (auto simp: spares_def foreign_def set_perms(1) split: if_splits)
  then show ?thesis
    using on sl s_perms [of "objects (st h)", OF ob] by (auto simp: set_perms(2) intro: s_quiet split: if_splits)
next
  case (lookup r obj_id user cp rc off used s')
  obtain R bs es where i: "pool_inv r (st h) R bs es" "lockable (st h)"
    using inv lookup(3) by (rule hist_inv_at)
  have "mem s' = mem (st h)"
    using lookup_state [OF i lookup(4)] by auto
  then show ?thesis
    using objects_same [of s' "st h"] slots_same [of s' "st h"] by (simp add: lookup(2) s_quiet)
next
  case (attach r s')
  obtain R bs es where i: "pool_inv r (st h) R bs es" "lockable (st h)"
    using inv attach(3) by (rule hist_inv_at)
  have inv': "pool_inv r s' (R\<lparr>h_host_count := h_host_count R + 1\<rparr>) bs es" and out: "\<And>x. 200 \<le> x \<Longrightarrow> mem s' x = mem (st h) x"
    using host_attach_refines [OF i] attach(4) by auto
  have "objects s' = objects (st h)"
    by (rule objects_kept [OF i(1) inv']) (simp_all add: out)
  then show ?thesis
    using slots_kept [OF i(1) inv'] by (simp add: attach(2) s_quiet)
next
  case (detach r unlink log s')
  obtain R bs es where i: "pool_inv r (st h) R bs es" "lockable (st h)"
    using inv detach(3) by (rule hist_inv_at)
  have inv': "pool_inv r s' (detached R) bs es" and out: "\<And>x. 200 \<le> x \<Longrightarrow> mem s' x = mem (st h) x"
    using shm_region_close_refines [OF i, of unlink] detach(4) by auto
  have "objects s' = objects (st h)"
    by (rule objects_kept [OF i(1) inv']) (simp_all add: out detached_def)
  then show ?thesis
    using slots_kept [OF i(1) inv'] by (simp add: detach(2) s_quiet)
next
  case (store r R xs b ys es oi user cp p k v s')
  from write_on_store [OF store(4,6,7,5,8,9)] obtain ob where sl: "slots s' = slots (st h)"
    and ob: "objects (st h) (o_id oi) = Some ob" "access_ok (so_owner ob) (so_perms ob) user cp SHM_PERM_WRITE" "k < length (so_bytes ob)"
    and on: "objects s' = (objects (st h))(o_id oi \<mapsto> ob\<lparr>so_bytes := (so_bytes ob)[k := v]\<rparr>)"
    by blast
  have "spares a (objects (st h)) (objects s')"
    using on ob by (auto simp: spares_def foreign_def store(1))
  then show ?thesis
    using sl on s_write [of "objects (st h)", OF ob] by (simp add: store(2))
next
  case die
  then show ?thesis
    using objects_same [of "(st h)\<lparr>mutex := MOwnerDead\<rparr>" "st h"] slots_same [of "(st h)\<lparr>mutex := MOwnerDead\<rparr>" "st h"]
    by (simp add: s_quiet)
qed

text \<open>A fresh region is the empty store.\<close>

lemma fresh_objects:
  assumes "fresh n h"
  shows "objects (st h) = Map.empty"
proof
  fix i
  obtain r where a: "attached n r"
    using assms by (auto simp: fresh_def)
  obtain R bs es where p: "pool_inv r (st h) R bs es" "hist_ok (issued h) (released h) R es"
    using fresh_inv [OF assms] a by (rule hist_inv_at)
  have "issued h = []"
    using assms by (simp add: fresh_def)
  then have "live_ids es = []"
    using p(2) by (simp add: hist_ok_def)
  then have "\<not> live (es ! k)" if "k < length es" for k
    using that by (auto simp: live_ids_def filter_empty_conv)
  then show "objects (st h) i = None"
    by (intro objects_none [OF p(1)]) blast
qed

lemma reachable_store:
  assumes "reachable n h"
  shows "(store_step (slots (st h)))\<^sup>*\<^sup>* Map.empty (objects (st h))"
proof -
  obtain h0 where h: "fresh n h0" "(pool_step n)\<^sup>*\<^sup>* h0 h"
    using assms by (auto simp: reachable_def)
  from h(2) show ?thesis
  proof (induction rule: rtranclp_induct)
    case base
    then show ?case
      by (simp add: fresh_objects [OF h(1)])
  next
    case (step g h)
    have "reachable n g"
      using h(1) step(1) by (auto simp: reachable_def)
    then have "slots (st h) = slots (st g)" "store_step (slots (st g)) (objects (st g)) (objects (st h))"
      using pool_act_simulates [OF _ reachable_inv] step(2) by (auto simp: pool_step_def)
    with step(3) show ?case
      by simp
  qed
qed

section \<open>Isolation\<close>

text \<open>Any number of steps by callers without the rights.\<close>

definition foreign_run :: "u64 \<Rightarrow> u64 \<Rightarrow> store_obj \<Rightarrow> history \<Rightarrow> history \<Rightarrow> bool" where
  "foreign_run n i ob = (\<lambda>h h'. \<exists>a. foreign i ob a \<and> pool_act n a h h')\<^sup>*\<^sup>*"

lemma foreign_runs_spare:
  assumes "hist_inv n h" "objects (st h) i = Some ob" "foreign_run n i ob h h'"
  shows "hist_inv n h' \<and> objects (st h') i = Some ob"
  using assms(3) unfolding foreign_run_def
proof (induction rule: rtranclp_induct)
  case base
  then show ?case
    using assms(1,2) by simp
next
  case (step g h)
  then obtain a where a: "foreign i ob a" "pool_act n a g h"
    by blast
  have g: "hist_inv n g" "objects (st g) i = Some ob"
    using step.IH by simp_all
  have "spares a (objects (st g)) (objects (st h))"
    using pool_act_simulates [OF a(2) g(1)] by simp
  then show ?case
    using pool_act_keeps [OF a(2) g(1)] a(1) g(2) by (auto simp: spares_def)
qed

end
