(* ===== verification/Shm_Lifecycle.thy ===== *)
theory Shm_Lifecycle
  imports Shm_Scenario Shm_Store_Run
begin

text \<open>
  The properties of a region's life: what a crash finds on the medium, the object store that
  executions refine, the mutex after the death of its owner, the objects of the C++ templates, opening and closing with every error path, the fingerprints that admit a process, the
  layout that all processes agree on, the arguments that are refused, and the boundary cases in
  which the code does not do what it is meant to.
\<close>

lemma demo_modes: "cmode demo1 = CACHE_CLWB" "cmode demo2 = CACHE_CLWB"
proof -
  show d1: "cmode demo1 = CACHE_CLWB"
    using demo_alloc by (auto simp: runs_iff demo1_def alloc_post_def demo0_inv)
  show "cmode demo2 = CACHE_CLWB"
    using shm_free_refines [OF demo1_inv(1) demo1_lockable, of 1 7 15]
    by (auto simp: runs_iff demo2_def free_post_def d1)
qed

lemma demo1_header: "\<exists>fl. rh_at (mem demo1) = alloc_hdr demo_R0 fl 160"
proof -
  have "first_fit 160 (init_blocks 3704) = Some ([], \<lparr>asz = 3704, acap = 3648, aown = None\<rparr>, [])"
    by (simp add: init_blocks_def)
  then obtain fl where "pool_inv demo demo1 (alloc_hdr demo_R0 fl 160)
      (take_block 160 demo_info \<lparr>asz = 3704, acap = 3648, aown = None\<rparr>)
      [alloc_entry (o_id demo_info) 56 (of_nat (acap (taken 160 demo_info \<lparr>asz = 3704, acap = 3648, aown = None\<rparr>)))
         100 (o_tag demo_info) (o_owner demo_info) (o_perms demo_info) (Some [104, 105]), zero_ent]"
    using demo_alloc demo_slots(1) unfolding runs_iff demo1_def
    by (auto simp: alloc_post_def alloc_done_def demo_alloc_size taken_size_def)
  from pool_invD(8) [OF this] show ?thesis ..
qed

section \<open>Durability\<close>

text \<open>When \<open>shm_alloc\<close> returns success on a build with a cache mode, every byte of the directory
  slot that it filled is on the persistent medium: after a crash the object is found again. When
  \<open>shm_free\<close> returns success, every byte of the slot that it cleared is: a crash cannot bring the
  object back.\<close>

theorem directory_changes_are_durable:
  assumes "pool_inv r s R bs es" "lockable s" "slot_pos R i \<le> a" "a < slot_pos R i + 96"
    and "cmode s' \<noteq> CACHE_NONE"
    and "first_slot (\<lambda>e. \<not> live e) es 0 = Some i \<and> psize \<noteq> 0 \<and>
           shm_alloc (Some r) s psize name user pm tag True True = Some (OK, out, s') \<or>
         first_slot (\<lambda>e. e_id e = obj_id \<and> e_alive e \<noteq> 0) es 0 = Some i \<and> obj_id \<noteq> 0 \<and>
           shm_free (Some r) s obj_id user cp = Some (OK, s')"
  shows "pmem s' a = mem s' a"
  using assms(6)
proof
  assume "first_slot (\<lambda>e. \<not> live e) es 0 = Some i \<and> psize \<noteq> 0 \<and>
    shm_alloc (Some r) s psize name user pm tag True True = Some (OK, out, s')"
  then show ?thesis
    using shm_alloc_slot_durable [OF assms(1,2) _ _ _ assms(5,3,4)] unfolding durable_def by blast
next
  assume "first_slot (\<lambda>e. e_id e = obj_id \<and> e_alive e \<noteq> 0) es 0 = Some i \<and> obj_id \<noteq> 0 \<and>
    shm_free (Some r) s obj_id user cp = Some (OK, s')"
  then show ?thesis
    using shm_free_slot_durable [OF assms(1,2) _ _ _ assms(5,3,4)] unfolding durable_def by blast
qed

theorem directory_changes_are_durable_witness:
  "pmem demo1 200 = mem demo1 200 \<and> pmem demo2 (slot_pos demo_R1 0) = mem demo2 (slot_pos demo_R1 0)"
proof -
  have "slot_pos demo_R0 0 = 200"
    by (simp add: slot_pos_def demo_R0_def init_rh_def)
  then have "pmem demo1 200 = mem demo1 200"
    using directory_changes_are_durable [OF demo0_inv(1) demo0_lockable, of 0 200 demo1 100 "Some [104, 105]" 7 15 1 "Some (1, 56)"]
      demo_slots(1) demo1_alloc by (simp add: demo_modes)
  moreover have "pmem demo2 (slot_pos demo_R1 0) = mem demo2 (slot_pos demo_R1 0)"
    using directory_changes_are_durable [OF demo1_inv(1) demo1_lockable, of 0 "slot_pos demo_R1 0" demo2 _ _ 7 _ _ _ 1 15]
      demo_slots(3) demo2(1) by (simp add: demo_modes)
  ultimately show ?thesis ..
qed

section \<open>The object store\<close>

text \<open>C26. A region refines an object store, a map from ids to objects with offset, owner, permissions,
  tag, size, name and bytes. Every execution of the attached processes is an execution of the store
  with as many slots as the directory has, from the empty one. In every reachable state a successful
  allocation inserts an object with zeroed bytes under a new id, a release deletes, a look-up reads,
  and a resize that returns updates offset, size and bytes and keeps the common prefix. The store
  decides all errors but one: \<open>ENOSPC\<close> exactly when every slot is in use, \<open>ENOENT\<close> and
  \<open>EACCES\<close> by the object and its permissions. \<open>ENOMEM\<close> comes exactly when the heap's block list has no
  room. A failing call changes nothing. A resize does not return exactly when \<open>resize_safe\<close> fails:
  when the caller may resize the object and its block moves to one with a smaller recorded capacity.\<close>

theorem region_refines_object_store:
  assumes "reachable n h" "attached n r"
  shows "\<exists>R bs es. pool_inv r (st h) R bs es \<and>
    (store_step (length es))\<^sup>*\<^sup>* Map.empty (objects (st h)) \<and>
    (psize \<noteq> 0 \<and> 56 \<le> unat (alloc_size psize) \<and> h_next_id R + 1 \<noteq> 0 \<longrightarrow>
       runs (shm_alloc (Some r) (st h) psize name user pm tag True True)
         (\<lambda>(rc, out, s'). store_alloc (length es) (first_fit (unat (alloc_size psize)) bs \<noteq> None)
            (objects (st h)) psize name user pm tag rc out (objects s'))) \<and>
    (obj_id \<noteq> 0 \<longrightarrow>
       runs (shm_free (Some r) (st h) obj_id user cp)
         (\<lambda>(rc, s'). store_free (objects (st h)) obj_id user cp rc (objects s')) \<and>
       runs (shm_lookup (Some r) (st h) obj_id user cp True True)
         (\<lambda>(rc, off, used, s'). store_lookup (objects (st h)) obj_id user cp rc off used (objects s'))) \<and>
    (obj_id \<noteq> 0 \<and> new_size \<noteq> 0 \<and> 56 \<le> unat (alloc_size new_size) \<longrightarrow>
       (case shm_resize (Some r) (st h) obj_id new_size user cp of
          None \<Rightarrow> \<not> resize_safe (unat (alloc_size new_size)) bs es obj_id user cp
        | Some (rc, s') \<Rightarrow> resize_safe (unat (alloc_size new_size)) bs es obj_id user cp \<and>
            store_resize (resize_room (unat (alloc_size new_size)) bs es obj_id)
              (objects (st h)) obj_id new_size user cp rc (objects s')))"
proof -
  obtain R bs es where i: "pool_inv r (st h) R bs es" "lockable (st h)"
    using reachable_inv [OF assms(1)] assms(2) by (rule hist_inv_at)
  have resize: "case shm_resize (Some r) (st h) obj_id new_size user cp of
      None \<Rightarrow> \<not> resize_safe (unat (alloc_size new_size)) bs es obj_id user cp
    | Some (rc, s') \<Rightarrow> resize_safe (unat (alloc_size new_size)) bs es obj_id user cp \<and>
        store_resize (resize_room (unat (alloc_size new_size)) bs es obj_id)
          (objects (st h)) obj_id new_size user cp rc (objects s')"
    if "obj_id \<noteq> 0" "new_size \<noteq> 0" "56 \<le> unat (alloc_size new_size)"
    using shm_resize_outcome [OF i that, of user cp] resize_on_store [OF i that, of user cp] by (auto split: option.splits)
  note sl = slots_length [OF i(1)]
  show ?thesis
    using i(1) reachable_store [OF assms(1)] resize
      runs_mono [OF alloc_on_store [OF i, of psize name user pm tag]]
      runs_mono [OF free_on_store [OF i, of obj_id user cp]] lookup_on_store [OF i, of obj_id user cp]
    by (intro exI [of _ R] exI [of _ bs] exI [of _ es] conjI impI) (auto simp: sl)
qed

theorem region_refines_object_store_witness:
  "(store_step 2)\<^sup>*\<^sup>* Map.empty (objects demo1) \<and>
   (\<exists>rc s'. shm_free (Some demo) demo1 1 7 15 = Some (rc, s') \<and> store_free (objects demo1) 1 7 15 rc (objects s'))"
proof -
  have "st hist1 = demo1"
    by (simp add: hist1_def)
  from region_refines_object_store [OF hist1_reachable demo_attached, of 100 None 7 15 1 1 15 100, unfolded this]
  obtain R bs es where "pool_inv demo demo1 R bs es" "(store_step (length es))\<^sup>*\<^sup>* Map.empty (objects demo1)"
    "(1 :: u64) \<noteq> 0 \<longrightarrow> runs (shm_free (Some demo) demo1 1 7 15) (\<lambda>(rc, s'). store_free (objects demo1) 1 7 15 rc (objects s')) \<and>
       runs (shm_lookup (Some demo) demo1 1 7 15 True True) (\<lambda>(rc, off, used, s'). store_lookup (objects demo1) 1 7 15 rc off used (objects s'))"
    by (elim exE conjE) (rule that)
  moreover from this have "length es = 2"
    using pool_inv_unique(2) [OF demo1_inv(1), of demo R bs es] by simp
  ultimately show ?thesis
    by (auto simp: runs_iff)
qed

section \<open>Persisting a range\<close>

text \<open>C28. \<open>shm_persist\<close> on a range inside the mapping returns. It flushes each cache line that the
  range touches once, in address order, and touches the write-back state of no other byte; what
  loads see does not change.\<close>

theorem shm_persist_walks_the_range:
  assumes "mapped r" "k + n \<le> unat (rsize r)"
  shows "\<exists>s'. shm_persist r s (rbase r + of_nat k) (of_nat n) = Some s' \<and>
    s' = fold flush_at [k div 64..<(k + n + 63) div 64] s \<and> mem s' = mem s \<and>
    (\<forall>a. a div 64 < k div 64 \<or> (k + n + 63) div 64 \<le> a div 64 \<longrightarrow> pmem s' a = pmem s a \<and> wpq s' a = wpq s a)"
proof -
  have "a div 64 \<notin> set js \<Longrightarrow> pmem (flush_lines js s) a = pmem s a \<and> wpq (flush_lines js s) a = wpq s a" for a js s
    by (induction js arbitrary: s) (auto simp: flush_at_def split: cache_mode.splits)
  then show ?thesis
    using shm_persist_eq [OF assms] by simp
qed

theorem shm_persist_walks_the_range_witness:
  "shm_persist demo demo1 (rbase demo + of_nat 120) (of_nat 16) = Some (fold flush_at [1, 2] demo1)"
proof -
  have "[1..<(3 :: nat)] = [1, 2]"
    by (simp add: upt_rec)
  then show ?thesis
    using shm_persist_walks_the_range [OF demo_mapped, of 120 16 demo1] by simp
qed

section \<open>The mutex\<close>

text \<open>C29. Robustness: a free mutex, and one whose owner died, can be locked at once; the call that
  inherits it makes it consistent, so the unlock leaves it free instead of unusable. If the new
  owner dies as well the next caller gets it the same way.\<close>

theorem region_lock_recovers:
  assumes "mapped r" "200 \<le> unat (rsize r)" "mutex s = MUnlocked \<or> mutex s = MOwnerDead"
  shows "\<exists>s'. region_lock r s = Some (OK, s') \<and> mem s' = mem s \<and>
    region_unlock r s' = Some (s\<lparr>mutex := MUnlocked\<rparr>) \<and>
    (\<exists>s''. region_lock r (s'\<lparr>mutex := MOwnerDead\<rparr>) = Some (OK, s'') \<and>
       region_unlock r s'' = Some (s\<lparr>mutex := MUnlocked\<rparr>))"
proof -
  have lk: "lockable s" "lockable (s\<lparr>mutex := MOwnerDead\<rparr>)"
    using assms(3) by (simp_all add: lockable_def)
  show ?thesis
    using region_lock_lockable [OF assms(1,2) lk(1)] region_lock_lockable [OF assms(1,2) lk(2)]
      region_unlock_locked [OF assms(1,2), of "s\<lparr>mutex := MLocked\<rparr>"] by simp
qed

theorem region_lock_recovers_witness:
  "\<exists>s'. region_lock demo (demo1\<lparr>mutex := MOwnerDead\<rparr>) = Some (OK, s') \<and>
     region_unlock demo s' = Some (demo1\<lparr>mutex := MUnlocked\<rparr>)"
  using region_lock_recovers [OF demo_mapped, of "demo1\<lparr>mutex := MOwnerDead\<rparr>"] by auto

section \<open>Opening and closing\<close>

text \<open>A system on which every call succeeds, with the namespace inode 5 and a short cgroup file.\<close>

definition demo_os :: os where
  "demo_os = \<lparr>os_calloc = True, os_strdup = True, os_shm_open = \<lambda>_ _ _. Inr 3, os_open = \<lambda>_. Inr 3,
     os_ftruncate = \<lambda>_ _. None, os_fstat = \<lambda>_. Inr 4096,
     os_mmap = \<lambda>n _. if n \<le> 0x100000 then Inr 0x10000 else Inl ENOMEM,
     os_ns_stat = Some 5, os_cgroup_open = True, os_cgroup_read = proc_reader [48]\<rparr>"

definition demo_create :: "u32 \<Rightarrow> shm_region_open_opts" where
  "demo_create dir_cap =
     \<lparr>op_backend = SHM_BACKEND_POSIX, op_flags = SHM_OPEN_CREATE, op_dir_capacity = dir_cap, op_mode = 0\<rparr>"

definition demo_attach :: shm_region_open_opts where
  "demo_attach = \<lparr>op_backend = SHM_BACKEND_POSIX, op_flags = SHM_OPEN_ENFORCE_NS, op_dir_capacity = 0, op_mode = 0\<rparr>"

lemma demo_os_ok: "os_ok demo_os"
proof -
  have d: "4096 dvd unat (0x10000 :: u64)"
    using demo_mapped by (simp add: mapped_def)
  have le: "unat (0x10000 :: u64) + unat n \<le> 2 ^ 63" if "n \<le> 0x100000" for n :: u64
    using that by (simp add: word_le_nat_alt)
  show ?thesis
    using d le by (auto simp: os_ok_def demo_os_def split: if_splits)
qed

lemma demo_cgroup: "\<exists>h. shm_ns_cgroup_hash (os_cgroup_open demo_os) (os_cgroup_read demo_os) = Some h"
  using cgroup_hash_reads [OF proc_reader_reads] by (simp add: demo_os_def)

lemma demo_grants:
  "grants demo_os 4096 (demo_create cap) demo" "grants demo_os 0 demo_attach (demo\<lparr>rcreator := False\<rparr>)"
  by (simp_all add: grants_def demo_os_def demo_create_def demo_attach_def demo_def opts_creating_def open_flags)

text \<open>C30. No error path of \<open>shm_region_open\<close> leaks: when it fails it has given back the handle, the
  name, the descriptor and the mapping, each exactly once, as far as it had acquired them; when it
  succeeds it holds exactly one of each.\<close>

theorem shm_region_open_leaks_nothing:
  assumes "os_ok os" "shm_region_open os name sz opts has_out s = Some (rc, out, log, s')"
  shows "if rc = OK
    then \<exists>r. out = Some r \<and> settle log [] = Some [Mapping (rbase r) (rsize r), Descriptor (rfd r), Name_copy, Handle]
    else out = None \<and> settle log [] = Some []"
  using shm_region_open_settles [OF assms] by (auto simp: open_held_def)

theorem shm_region_open_leaks_nothing_witness:
  "\<exists>log. shm_region_open demo_os (Some [47, 112]) 100 (Some (demo_create 2)) True demo1 = Some (EINVAL, None, log, demo1) \<and>
     settle log [] = Some []"
proof -
  obtain log where l: "shm_region_open demo_os (Some [47, 112]) 100 (Some (demo_create 2)) True demo1 =
      Some (EINVAL, None, log, demo1)"
    using small_create_unlinks [of demo_os "[47, 112]" "demo_create 2" 3 100 demo1]
    by (auto simp: demo_os_def demo_create_def opts_creating_def open_flags)
  then show ?thesis
    using shm_region_open_leaks_nothing [OF demo_os_ok l] by simp
qed

text \<open>C31. \<open>shm_region_close\<close> returns, gives back what the open acquired, counts the host out without
  going below zero, and leaves the pool and every byte behind the region header as they are.\<close>

theorem shm_region_close_correct:
  assumes "pool_inv r s R bs es" "lockable s" "0 \<le> rfd r"
  shows "runs (shm_region_close (Some r) unlink s) (\<lambda>(log, s').
    settle log [Mapping (rbase r) (rsize r), Descriptor (rfd r), Name_copy, Handle] = Some [] \<and>
    pool_inv r s' (if 0 < h_host_count R then R\<lparr>h_host_count := h_host_count R - 1\<rparr> else R) bs es \<and>
    mutex s' = MUnlocked \<and> (\<forall>a\<ge>200. mem s' a = mem s a))"
proof -
  have m: "mapped r"
    using pool_invD(6) [OF assms(1)] .
  show ?thesis
    using shm_region_close_refines [OF assms(1,2), of unlink] shm_region_close_settles [OF _ m assms(3)]
    by (auto simp: runs_iff detached_def open_held_def split: if_splits)
qed

theorem shm_region_close_correct_witness:
  "runs (shm_region_close (Some demo) False demo1) (\<lambda>(log, s'). mutex s' = MUnlocked)"
proof -
  have "0 \<le> rfd demo"
    by (simp add: demo_def)
  then show ?thesis
    by (rule runs_mono [OF shm_region_close_correct [OF demo1_inv(1) demo1_lockable]]) auto
qed

text \<open>C32. A creating open whose system calls succeed, on a size with room for the directory and one
  block, returns success and leaves an empty pool that satisfies the invariant, with the options'
  directory capacity (256 when the caller gave 0), the caller's fingerprints recorded and the caller
  counted as the one attached host.\<close>

theorem creating_open_correct:
  assumes "os_ok os" "grants os asked p r" "opts_creating p" "256 + 96 * unat (opts_capacity p) \<le> unat (rsize r)"
    and "shm_ns_cgroup_hash (os_cgroup_open os) (os_cgroup_read os) = Some my_cg"
  shows "runs (shm_region_open os (Some (rname r)) asked (Some p) True s) (\<lambda>(rc, out, log, s').
    rc = OK \<and> out = Some r \<and> mutex s' = MUnlocked \<and>
    (\<exists>R. pool_inv r s' R (init_blocks (unat (rsize r) - (200 + 96 * unat (opts_capacity p))))
           (replicate (unat (opts_capacity p)) zero_ent) \<and>
         h_dir_capacity R = opts_capacity p \<and> h_host_count R = 1 \<and> h_next_id R = 1 \<and>
         h_ns_inode R = shm_ns_ipc_inode (os_ns_stat os) \<and> h_cgroup_hash R = my_cg))"
  by (rule runs_mono [OF open_create_refines [OF assms]])
    (auto simp: init_rh_def intro!: exI [of _ "(init_rh (rsize r) (rbackend r) (opts_capacity p) 1
      (shm_ns_ipc_inode (os_ns_stat os)) my_cg)\<lparr>h_host_count := 1\<rparr>"])

theorem creating_open_correct_witness:
  "\<exists>log s'. shm_region_open demo_os (Some [47, 112]) 4096 (Some (demo_create 2)) True blank = Some (OK, Some demo, log, s')"
proof -
  obtain h where h: "shm_ns_cgroup_hash (os_cgroup_open demo_os) (os_cgroup_read demo_os) = Some h"
    using demo_cgroup by blast
  have o: "opts_creating (demo_create 2)" "opts_capacity (demo_create 2) = 2" "rname demo = [47, 112]"
    by (simp_all add: demo_create_def opts_creating_def opts_capacity_def open_flags demo_def)
  show ?thesis
    using creating_open_correct [OF demo_os_ok demo_grants(1) o(1) _ h, of blank] o(2,3) by (auto simp: runs_iff)
qed

text \<open>C33. An attaching open on a shared memory object of any contents decides by the header alone:
  \<open>ENOENT\<close> for a wrong magic or version, \<open>EPERM\<close> when an enforced fingerprint was recorded, the
  caller has one and they differ, else success. A refused process leaves the state as it was. An
  admitted one is counted as a host and changes no byte but the four of that counter; when the
  object holds a pool it still does.\<close>

theorem attaching_open_correct:
  assumes "os_ok os" "grants os asked p r" "\<not> opts_creating p"
    and "shm_ns_cgroup_hash (os_cgroup_open os) (os_cgroup_read os) = Some my_cg" "ns = shm_ns_ipc_inode (os_ns_stat os)"
    and "admission ns my_cg (rh_at (mem s)) (op_flags p) = OK \<Longrightarrow> lockable s"
  shows "runs (shm_region_open os (Some (rname r)) asked (Some p) True s) (\<lambda>(rc, out, log, s').
    let R = rh_at (mem s) in
    rc = admission ns my_cg R (op_flags p) \<and>
    (if rc = OK
     then out = Some r \<and> mutex s' = MUnlocked \<and> h_host_count (rh_at (mem s')) = h_host_count R + 1 \<and>
       (\<forall>a. a < 56 \<or> 60 \<le> a \<longrightarrow> mem s' a = mem s a) \<and>
       (\<forall>r\<^sub>0 bs es. pool_inv r\<^sub>0 s R bs es \<and> rsize r\<^sub>0 = rsize r \<longrightarrow>
          pool_inv r s' (R\<lparr>h_host_count := h_host_count R + 1\<rparr>) bs es)
     else out = None \<and> s' = s))"
proof (rule runs_mono [OF open_attach_any [OF assms(1-4) assms(6) [unfolded assms(5)]]], unfold split_paired_all prod.case Let_def)
  let ?R = "rh_at (mem s)"
  fix rc out log s'
  assume st: "rc = admission (shm_ns_ipc_inode (os_ns_stat os)) my_cg ?R (op_flags p) \<and>
    (if rc = OK
     then out = Some r \<and> mutex s' = MUnlocked \<and> cmode s' = cmode s \<and> mem s' = put32 (mem s) 56 (h_host_count ?R + 1)
     else out = None \<and> s' = s)"
  have "pool_inv r s' (?R\<lparr>h_host_count := h_host_count ?R + 1\<rparr>) bs es"
    if "rc = OK" "pool_inv r\<^sub>0 s ?R bs es" "rsize r\<^sub>0 = rsize r" for r\<^sub>0 bs es
    using host_count_pool [OF that(2,3)] grants_mapped [OF assms(1,2)] st that(1) assms(5,6) by simp
  then show "rc = admission ns my_cg ?R (op_flags p) \<and>
    (if rc = OK
     then out = Some r \<and> mutex s' = MUnlocked \<and> h_host_count (rh_at (mem s')) = h_host_count ?R + 1 \<and>
       (\<forall>a. a < 56 \<or> 60 \<le> a \<longrightarrow> mem s' a = mem s a) \<and>
       (\<forall>r\<^sub>0 bs es. pool_inv r\<^sub>0 s ?R bs es \<and> rsize r\<^sub>0 = rsize r \<longrightarrow>
          pool_inv r s' (?R\<lparr>h_host_count := h_host_count ?R + 1\<rparr>) bs es)
     else out = None \<and> s' = s)"
    using st assms(5) by (auto simp: view_simps put_outside split: if_splits)
qed

theorem attaching_open_correct_witness:
  "(\<exists>log s'. shm_region_open demo_os (Some [47, 112]) 0 (Some demo_attach) True demo1 =
      Some (OK, Some (demo\<lparr>rcreator := False\<rparr>), log, s')) \<and>
   (\<exists>log. shm_region_open demo_os (Some [47, 112]) 0 (Some demo_attach) True blank = Some (ENOENT, None, log, blank))"
proof -
  obtain h where h: "shm_ns_cgroup_hash (os_cgroup_open demo_os) (os_cgroup_read demo_os) = Some h"
    using demo_cgroup by blast
  have o: "\<not> opts_creating demo_attach" "rname (demo\<lparr>rcreator := False\<rparr>) = [47, 112]"
    by (simp_all add: demo_attach_def opts_creating_def open_flags demo_def)
  obtain fl where "rh_at (mem demo1) = alloc_hdr demo_R0 fl 160"
    using demo1_header by blast
  then have R: "h_magic (rh_at (mem demo1)) = SHM_ALLOC_MAGIC_REGION" "h_version (rh_at (mem demo1)) = SHM_ALLOC_VERSION"
    "h_ns_inode (rh_at (mem demo1)) = 0"
    by (simp_all add: demo_R0_def init_rh_def alloc_hdr_def count_alloc_def)
  have "get_le k (\<lambda>_. 0) a = 0" for k a
    by (induction k arbitrary: a) simp_all
  then have B: "h_magic (rh_at (mem blank)) \<noteq> SHM_ALLOC_MAGIC_REGION"
    by (simp add: blank_def rh_at_def get32_def SHM_ALLOC_MAGIC_REGION_def)
  have f: "op_flags demo_attach AND SHM_OPEN_ENFORCE_CGROUP = 0"
    by (simp add: demo_attach_def open_flags)
  note open' = attaching_open_correct [OF demo_os_ok demo_grants(2) o(1) h refl, unfolded o(2)]
  have "admission ns g (rh_at (mem blank)) (op_flags demo_attach) = OK \<Longrightarrow> lockable blank" for ns g
    using B by (simp add: admission_def)
  then show ?thesis
    using open' [OF demo1_lockable] open' [of blank] B by (auto simp: runs_iff Let_def R f admission_def fingerprint_ok_def)
qed

text \<open>C34. The cgroup hash is a function of the file's contents: the loop ends, however \<open>read\<close> cuts the
  file into pieces, and the result, never 0, is the FNV-1a hash of all of it; contents that differ in
  one byte give different accumulators.\<close>

theorem cgroup_hash_of_contents:
  assumes "reads_file rd (xs @ c # ys)"
  shows "\<exists>h. shm_ns_cgroup_hash True rd = Some h \<and> h \<noteq> 0 \<and>
    h = (let a = fold fnv_step (xs @ c # ys) FNV_OFFSET_BASIS in if a \<noteq> 0 then a else 1) \<and>
    (\<forall>c'. c' \<noteq> c \<longrightarrow> fold fnv_step (xs @ c' # ys) FNV_OFFSET_BASIS \<noteq> fold fnv_step (xs @ c # ys) FNV_OFFSET_BASIS)"
  using cgroup_hash_reads [OF assms] fnv_one_byte by (auto simp: Let_def)

theorem cgroup_hash_of_contents_witness:
  "\<exists>h. shm_ns_cgroup_hash True (\<lambda>pos n. Some (take 1 (drop pos [48, 58]))) = Some h \<and>
     shm_ns_cgroup_hash True (proc_reader [48, 58]) = Some h"
proof -
  have "reads_file (\<lambda>pos n. Some (take 1 (drop pos [48, 58]))) ([] @ 48 # [58])"
    by (auto simp: reads_file_def min_def)
  moreover have "reads_file (proc_reader [48, 58]) ([] @ 48 # [58])"
    using proc_reader_reads by simp
  ultimately show ?thesis
    using cgroup_hash_of_contents [of _ "[]" 48 "[58]"] by metis
qed

section \<open>The shared layout\<close>

text \<open>Where the C layout rules put a member.\<close>

definition field_off :: "(string \<times> nat \<times> nat) list \<Rightarrow> string \<Rightarrow> u64" where
  "field_off ms f = of_nat (the (map_of (layout_of ms 0) f))"

lemma field_offs:
  "layout_of block_hdr_members 0 =
     [(''magic'', 0), (''type_tag'', 4), (''owner'', 8), (''perms'', 12), (''allocated'', 16), (''_pad'', 17),
      (''obj_id'', 24), (''payload_cap'', 32), (''total_size'', 40), (''next_free'', 48)]"
  "layout_of obj_entry_members 0 =
     [(''id'', 0), (''name'', 8), (''off'', 56), (''capacity'', 64), (''used_size'', 72), (''type_tag'', 80),
      (''owner'', 84), (''perms'', 88), (''alive'', 92), (''_pad'', 93)]"
  "layout_of region_hdr_members 0 =
     [(''magic'', 0), (''version'', 4), (''backend'', 8), (''dir_capacity'', 12), (''mutex'', 16), (''host_count'', 56),
      (''_pad0'', 60), (''region_size'', 64), (''dir_offset'', 72), (''data_offset'', 80), (''free_list'', 88),
      (''used_bytes'', 96), (''block_count'', 104), (''next_id'', 112), (''ns_inode'', 120), (''cgroup_hash'', 128),
      (''shm_name'', 136)]"
  by (simp_all add: block_hdr_members_def obj_entry_members_def region_hdr_members_def pad_to_def)

text \<open>The accessors of the model agree with the declarations of the structures: their sizes are 56, 200
  and 96 bytes, all multiples of the heap alignment, and every accessor reads the offset at which the
  C layout rules place that member in declaration order.\<close>

theorem shared_layout:
  "struct_size block_hdr_members = unat SIZEOF_BLOCK_HDR \<and> struct_size region_hdr_members = unat SIZEOF_REGION_HDR \<and>
   struct_size obj_entry_members = unat SIZEOF_OBJ_ENTRY \<and>
   unat HEAP_ALIGN dvd unat SIZEOF_BLOCK_HDR \<and> unat HEAP_ALIGN dvd unat SIZEOF_REGION_HDR \<and>
   unat HEAP_ALIGN dvd unat SIZEOF_OBJ_ENTRY \<and>
   (let f = field_off block_hdr_members in
      blk_magic r s p = rd32 r s (p + f ''magic'') \<and> blk_type_tag r s p = rd32 r s (p + f ''type_tag'') \<and>
      blk_owner r s p = rd32 r s (p + f ''owner'') \<and> blk_perms r s p = rd32 r s (p + f ''perms'') \<and>
      blk_allocated r s p = rd8 r s (p + f ''allocated'') \<and> blk_obj_id r s p = rd64 r s (p + f ''obj_id'') \<and>
      blk_payload_cap r s p = rd64 r s (p + f ''payload_cap'') \<and> blk_total_size r s p = rd64 r s (p + f ''total_size'') \<and>
      blk_next_free r s p = rd64 r s (p + f ''next_free'')) \<and>
   (let f = field_off obj_entry_members in
      ent_id r s p = rd64 r s (p + f ''id'') \<and> ent_name_ptr p = p + f ''name'' \<and> ent_off r s p = rd64 r s (p + f ''off'') \<and>
      ent_capacity r s p = rd64 r s (p + f ''capacity'') \<and> ent_used_size r s p = rd64 r s (p + f ''used_size'') \<and>
      ent_type_tag r s p = rd32 r s (p + f ''type_tag'') \<and> ent_owner r s p = rd32 r s (p + f ''owner'') \<and>
      ent_perms r s p = rd32 r s (p + f ''perms'') \<and> ent_alive r s p = rd8 r s (p + f ''alive'')) \<and>
   (let f = (\<lambda>m. shm_rh r + field_off region_hdr_members m) in
      rh_magic r s = rd32 r s (f ''magic'') \<and> rh_version r s = rd32 r s (f ''version'') \<and>
      rh_backend r s = rd32 r s (f ''backend'') \<and> rh_dir_capacity r s = rd32 r s (f ''dir_capacity'') \<and>
      rh_host_count r s = rd32 r s (f ''host_count'') \<and> rh_region_size r s = rd64 r s (f ''region_size'') \<and>
      rh_dir_offset r s = rd64 r s (f ''dir_offset'') \<and> rh_data_offset r s = rd64 r s (f ''data_offset'') \<and>
      rh_free_list r s = rd64 r s (f ''free_list'') \<and> rh_used_bytes r s = rd64 r s (f ''used_bytes'') \<and>
      rh_block_count r s = rd64 r s (f ''block_count'') \<and> rh_next_id r s = rd64 r s (f ''next_id'') \<and>
      rh_ns_inode r s = rd64 r s (f ''ns_inode'') \<and> rh_cgroup_hash r s = rd64 r s (f ''cgroup_hash''))"
proof -
  have sizes: "struct_size block_hdr_members = 56" "struct_size region_hdr_members = 200" "struct_size obj_entry_members = 96"
    by (simp_all add: struct_size_def block_hdr_members_def region_hdr_members_def obj_entry_members_def pad_to_def)
  show ?thesis
    by (intro conjI)
      (simp_all add: sizes layout_consts field_off_def field_offs blk_get_defs ent_get_defs rh_get_defs
        ent_name_ptr_def Let_def)
qed

section \<open>Refused arguments\<close>

text \<open>A null region or a null or zero argument is refused with \<open>EINVAL\<close>, or the null pointer or
  capability, on every memory, before the mutex is taken or a byte is read or written.\<close>

theorem null_arguments_refused:
  "shm_region_open os None sz opts out s = Some (EINVAL, None, [], s) \<and>
   shm_region_open os name sz opts False s = Some (EINVAL, None, [], s) \<and>
   shm_region_close None unlink s = Some ([], s) \<and>
   shm_alloc None s psize nm user pm tag wi wo = Some (EINVAL, None, s) \<and>
   shm_alloc region s 0 nm user pm tag wi wo = Some (EINVAL, None, s) \<and>
   shm_alloc region s psize nm user pm tag False wo = Some (EINVAL, None, s) \<and>
   shm_alloc region s psize nm user pm tag wi False = Some (EINVAL, None, s) \<and>
   shm_free None s obj_id user cp = Some (EINVAL, s) \<and> shm_free region s 0 user cp = Some (EINVAL, s) \<and>
   shm_resize None s obj_id new_size user cp = Some (EINVAL, s) \<and>
   shm_resize region s 0 new_size user cp = Some (EINVAL, s) \<and>
   shm_resize region s obj_id 0 user cp = Some (EINVAL, s) \<and>
   shm_lookup None s obj_id user cp wo wu = Some (EINVAL, None, None, s) \<and>
   shm_lookup region s 0 user cp wo wu = Some (EINVAL, None, None, s) \<and>
   shm_lookup_by_name None s nm user cp wi wo = Some (EINVAL, None, None, s) \<and>
   shm_lookup_by_name region s None user cp wi wo = Some (EINVAL, None, None, s) \<and>
   shm_dir_next None s cursor out = Some (EINVAL, cursor, None) \<and>
   shm_dir_next region s None out = Some (EINVAL, None, None) \<and>
   shm_dir_next region s cursor False = Some (EINVAL, cursor, None) \<and>
   shm_ptr None s off user cp req = Some 0 \<and>
   shm_block_info None s off b1 b2 b3 b4 b5 = Some (EINVAL, None, None, None, None, None) \<and>
   shm_block_set_perms None s off user cp np = Some (EINVAL, s) \<and>
   shm_pool_stats None s out = Some (EINVAL, None) \<and> shm_pool_stats region s False = Some (EINVAL, None) \<and>
   shm_cap_derive None s off user cp grant = Some SHM_CAP_NULL \<and>
   shm_cap_deref region s SHM_CAP_NULL req = Some 0 \<and> shm_cap_deref None s cap req = Some 0 \<and>
   shm_cap_is_valid region s SHM_CAP_NULL = Some False \<and> shm_cap_is_valid None s cap = Some False"
  by (intro conjI)
    (simp_all add: shm_region_open_def shm_region_close_def shm_alloc_def shm_free_def shm_resize_def shm_lookup_def
      shm_lookup_by_name_def shm_dir_next_def shm_ptr_def shm_block_info_def shm_block_set_perms_def
      shm_pool_stats_def shm_cap_derive_def shm_cap_deref_def shm_cap_is_valid_def split: option.splits)

section \<open>Sizes and boundary cases\<close>

text \<open>The block size is the smallest multiple of the alignment that holds header and request.\<close>

lemma block_size_is_minimal:
  assumes "unat p + 63 < 2 ^ 64"
  shows "8 dvd unat (alloc_size p) \<and> 56 + unat p \<le> unat (alloc_size p) \<and>
    (\<forall>n. 8 dvd n \<and> 56 + unat p \<le> n \<longrightarrow> unat (alloc_size p) \<le> n)"
proof -
  have e: "unat (alloc_size p) = (unat p + 63) div 8 * 8"
    using assms by (rule alloc_size_eq)
  have "unat (alloc_size p) \<le> n" if "8 dvd n" "56 + unat p \<le> n" for n
  proof -
    obtain k where k: "n = 8 * k"
      using \<open>8 dvd n\<close> ..
    have "(unat p + 63) div 8 \<le> (8 * k + 7) div 8"
      using that(2) by (intro div_le_mono) (simp add: k)
    then show ?thesis
      by (simp add: e k)
  qed
  then show ?thesis
    unfolding e by simp
qed

text \<open>C35. The size computation can wrap: a request for the largest size is served, whenever there is a slot and a free
  block, with a block of 56 bytes for the header and, after a split, no payload at all, while the
  directory records the size that was asked for.\<close>

theorem largest_request_is_served:
  assumes "pool_inv r s R bs es" "mutex s = MUnlocked" "h_next_id R + 1 \<noteq> 0"
    and "first_slot (\<lambda>e. \<not> live e) es 0 = Some i" "first_fit 56 bs = Some (xs, b, ys)" "120 \<le> asz b"
  shows "\<exists>s' R' e. shm_alloc (Some r) s (- 1) name user pm tag True True =
      Some (OK, Some (h_next_id R, of_nat (span xs + 56)), s') \<and>
    pool_inv r s' R' (xs @ [\<lparr>asz = 56, acap = 0, aown = Some (alloc_info R user pm tag)\<rparr>,
        \<lparr>asz = asz b - 56, acap = asz b - 112, aown = None\<rparr>] @ ys) (es[i := e]) \<and>
    e_capacity e = 0 \<and> e_used_size e = - 1"
proof -
  have n: "56 = unat (alloc_size (- 1))"
    by (simp add: alloc_size_def shm_align_up_def layout_consts)
  let ?e = "alloc_entry (h_next_id R) (of_nat (span xs + 56)) 0 (- 1) tag user pm name"
  obtain s' R' where "shm_alloc (Some r) s (- 1) name user pm tag True True =
      Some (OK, Some (h_next_id R, of_nat (span xs + 56)), s')"
    "pool_inv r s' R' (xs @ [\<lparr>asz = 56, acap = 0, aown = Some (alloc_info R user pm tag)\<rparr>,
        \<lparr>asz = asz b - 56, acap = asz b - 112, aown = None\<rparr>] @ ys) (es[i := ?e])"
    by (rule alloc_step [OF assms(1,2) _ n _ assms(3-5), of name user pm tag])
      (use assms(6) in \<open>auto simp: take_block_def taken_def\<close>)
  moreover have "e_capacity ?e = 0" "e_used_size ?e = - 1"
    by (simp_all add: alloc_entry_def)
  ultimately show ?thesis
    by blast
qed

theorem largest_request_is_served_witness:
  "\<exists>s'. shm_alloc (Some demo) demo0 (- 1) None 7 15 1 True True = Some (OK, Some (1, 56), s')"
proof -
  have ff: "first_fit 56 (init_blocks 3704) = Some ([], \<lparr>asz = 3704, acap = 3648, aown = None\<rparr>, [])"
    by (simp add: init_blocks_def)
  have R: "h_next_id demo_R0 = 1"
    by (simp add: demo_R0_def init_rh_def)
  then have nid: "h_next_id demo_R0 + 1 \<noteq> 0"
    by simp
  show ?thesis
    using largest_request_is_served [OF demo0_inv(1,2) nid demo_slots(1) ff, of None 7 15 1] by (auto simp: R)
qed

text \<open>C39. Four calls with ordinary arguments make \<open>shm_resize\<close> run out of the mapping: after the
  absorbed neighbour has left a stale payload capacity in a free block, a relocation into that block
  computes a negative fill length.\<close>

theorem resize_sequence_faults:
  "\<exists>s1 s2 s3. shm_alloc (Some demo) demo0 1000 None 7 15 1 True True = Some (OK, Some (1, 56), s1) \<and>
     shm_alloc (Some demo) s1 300 None 7 15 1 True True = Some (OK, Some (2, 1112), s2) \<and>
     shm_resize (Some demo) s2 2 100 7 15 = Some (OK, s3) \<and>
     shm_resize (Some demo) s3 1 2400 7 15 = None"
proof -
  obtain s1 s2 R where a: "shm_alloc (Some demo) demo0 1000 None 7 15 1 True True = Some (OK, Some (1, 56), s1)"
    "shm_alloc (Some demo) s1 300 None 7 15 1 True True = Some (OK, Some (2, 1112), s2)" "mutex s2 = MUnlocked"
    "pool_inv demo s2 R [run_A, run_X, \<lparr>asz = 2288, acap = 2232, aown = None\<rparr>]
       [run_ent 1 56 1000 1000, run_ent 2 1112 304 300]"
    by (rule run_allocs)
  obtain s3 R' e where b: "shm_resize (Some demo) s2 2 100 7 15 = Some (OK, s3)" "mutex s3 = MUnlocked"
    "pool_inv demo s3 R' [run_A, \<lparr>asz = 160, acap = 104, aown = Some (run_info 2)\<rparr>, \<lparr>asz = 2488, acap = 144, aown = None\<rparr>]
       [run_ent 1 56 1000 1000, e]"
    using a(4,3) by (rule run_shrink)
  show ?thesis
    using a(1,2) b(1) run_overrun [OF b(3,2)] by blast
qed

text \<open>C40. A creating open whose size has no room for the directory and one block does not return an
  error: it writes outside the mapping. A region of one page with the default capacity is such a
  case.\<close>

theorem small_creating_open_faults:
  assumes "os_ok os" "grants os asked p r" "opts_creating p" "unat (rsize r) < 256 + 96 * unat (opts_capacity p)"
  shows "shm_region_open os (Some (rname r)) asked (Some p) True s = None"
  by (rule open_create_faults [OF assms])

theorem small_creating_open_faults_witness:
  "shm_region_open demo_os (Some [47, 112]) 4096 (Some (demo_create 0)) True blank = None"
proof -
  have o: "opts_creating (demo_create 0)" "opts_capacity (demo_create 0) = 256" "rname demo = [47, 112]"
    by (simp_all add: demo_create_def opts_creating_def opts_capacity_def open_flags demo_def DIR_CAP_DEFAULT_def)
  show ?thesis
    using small_creating_open_faults [OF demo_os_ok demo_grants(1) o(1)] o(2,3) by simp
qed

section \<open>C++ objects\<close>

text \<open>A class of 100 bytes with a constructor and a destructor that write its first byte.\<close>

definition demo_class :: cpp_type where
  "demo_class = \<lparr>t_size = 100, t_tag = None, t_trivial = False, t_polymorphic = False\<rparr>"

definition demo_member :: "u8 \<Rightarrow> member_fun" where
  "demo_member v p s = wr8 demo s p v"

lemma demo_member_inside: "stays_inside demo 100 (demo_member v)"
  by (auto simp: stays_inside_def demo_member_def wr8_def put8_def in_map_def)

text \<open>C27. \<open>shm::make\<close> with a constructor that stays inside its object: when there is a slot and a block,
  the object is registered and, if the caller's rights allow reading and writing, constructed once, on
  zeroed memory, and no other payload changes. With lesser rights the call returns \<open>EACCES\<close> and the
  object stays allocated, unconstructed, in block and directory.\<close>

theorem make_correct:
  assumes "pool_inv r s R bs es" "lockable s" "t_size T \<noteq> 0" "unat (t_size T) + 63 < 2 ^ 64"
    and "h_next_id R + 1 \<noteq> 0" "stays_inside r (unat (t_size T)) ctor"
  shows "runs (cpp_make T ctor (Some r) s user perms True name tag) (\<lambda>(rc, handle, s'). mutex s' = MUnlocked \<and>
    (case first_slot (\<lambda>e. \<not> live e) es 0 of
       None \<Rightarrow> rc = ENOSPC \<and> handle = None \<and> mem s' = mem s
     | Some i \<Rightarrow>
         let n = unat (alloc_size (t_size T)); oi = alloc_info R user perms tag in
         (case first_fit n bs of
            None \<Rightarrow> rc = ENOMEM \<and> handle = None \<and> mem s' = mem s
          | Some (xs, b, ys) \<Rightarrow>
              handle = Some \<lparr>p_off = of_nat (span xs + 56)\<rparr> \<and>
              (\<exists>R' e. pool_inv r s' R' (xs @ take_block n oi b @ ys) (es[i := e]) \<and> live e \<and> e_id e = h_next_id R) \<and>
              payloads_kept (unat (h_data_offset R)) (blk_objs 0 bs) s s' \<and>
              (if access_ok user perms user perms (SHM_PERM_READ OR SHM_PERM_WRITE)
               then rc = OK \<and> (\<exists>t. ctor (payload_ptr r R (span xs)) t = Some s' \<and>
                 (\<forall>a. in_payload (unat (h_data_offset R)) (span xs + 56, acap (taken n oi b), oi) a \<longrightarrow> mem t a = 0))
               else rc = EACCES))))"
proof (rule runs_mono [OF cpp_make_refines [OF assms, of user perms name tag]])
  fix v assume post: "make_post r s R bs es (t_size T) name (alloc_info R user perms tag) ctor v"
  have nz: "h_next_id R \<noteq> 0"
    using assms(1) by (auto simp: pool_inv_def)
  have e: "live (alloc_entry (h_next_id R) off cap sz tag user perms name)"
    "e_id (alloc_entry (h_next_id R) off cap sz tag user perms name) = h_next_id R" for off cap sz
    using nz by (simp_all add: alloc_entry_def live_def)
  show "case v of (rc, handle, s') \<Rightarrow> mutex s' = MUnlocked \<and>
    (case first_slot (\<lambda>e. \<not> live e) es 0 of
       None \<Rightarrow> rc = ENOSPC \<and> handle = None \<and> mem s' = mem s
     | Some i \<Rightarrow>
         let n = unat (alloc_size (t_size T)); oi = alloc_info R user perms tag in
         (case first_fit n bs of
            None \<Rightarrow> rc = ENOMEM \<and> handle = None \<and> mem s' = mem s
          | Some (xs, b, ys) \<Rightarrow>
              handle = Some \<lparr>p_off = of_nat (span xs + 56)\<rparr> \<and>
              (\<exists>R' e. pool_inv r s' R' (xs @ take_block n oi b @ ys) (es[i := e]) \<and> live e \<and> e_id e = h_next_id R) \<and>
              payloads_kept (unat (h_data_offset R)) (blk_objs 0 bs) s s' \<and>
              (if access_ok user perms user perms (SHM_PERM_READ OR SHM_PERM_WRITE)
               then rc = OK \<and> (\<exists>t. ctor (payload_ptr r R (span xs)) t = Some s' \<and>
                 (\<forall>a. in_payload (unat (h_data_offset R)) (span xs + 56, acap (taken n oi b), oi) a \<longrightarrow> mem t a = 0))
               else rc = EACCES)))"
  proof (cases "\<exists>i f. first_slot (\<lambda>e. \<not> live e) es 0 = Some i \<and> first_fit (unat (alloc_size (t_size T))) bs = Some f")
    case True
    then obtain i xs b ys where f: "first_slot (\<lambda>e. \<not> live e) es 0 = Some i"
      "first_fit (unat (alloc_size (t_size T))) bs = Some (xs, b, ys)"
      by (metis prod_cases3)
    obtain rc handle s' where v: "v = (rc, handle, s')" by (cases v)
    have o: "o_id (alloc_info R user perms tag) = h_next_id R" "o_owner (alloc_info R user perms tag) = user"
      "o_perms (alloc_info R user perms tag) = perms" "o_tag (alloc_info R user perms tag) = tag"
      by (simp_all add: alloc_info_def)
    note d = post [unfolded make_post_def make_done_def v prod.case f option.case Let_def o]
    show ?thesis
      unfolding v prod.case f option.case Let_def using d e by (simp only: split: if_splits) blast+
  next
    case False
    then show ?thesis
      using post by (auto simp: make_post_def Let_def split: option.splits)
  qed
qed

theorem make_correct_witness:
  "(\<exists>s'. cpp_make demo_class (demo_member 1) (Some demo) demo0 7 15 True None 100 = Some (OK, Some \<lparr>p_off = 56\<rparr>, s')) \<and>
   (\<exists>s' R' bs' e. cpp_make demo_class (demo_member 1) (Some demo) demo0 7 SHM_PERM_READ True None 100 =
      Some (EACCES, Some \<lparr>p_off = 56\<rparr>, s') \<and> pool_inv demo s' R' bs' [e, zero_ent] \<and> live e)"
proof -
  have R: "h_next_id demo_R0 + 1 \<noteq> 0"
    by (simp add: demo_R0_def init_rh_def)
  have c: "stays_inside demo (unat (t_size demo_class)) (demo_member 1)" "t_size demo_class \<noteq> 0"
    "unat (t_size demo_class) + 63 < 2 ^ 64" "unat (alloc_size (t_size demo_class)) = 160"
    using demo_member_inside [of 1] demo_alloc_size by (simp_all add: demo_class_def)
  have ff: "first_fit 160 (init_blocks 3704) = Some ([], \<lparr>asz = 3704, acap = 3648, aown = None\<rparr>, [])"
    by (simp add: init_blocks_def)
  note m = make_correct [OF demo0_inv(1) demo0_lockable c(2,3) R c(1), where name = None and tag = 100, unfolded c(4)]
  show ?thesis
    using m [of 7 15] m [of 7 SHM_PERM_READ] demo_slots(1) ff
    by (auto simp: runs_iff Let_def access_ok_def perm_defs)
qed

text \<open>C37. \<open>shm::free\<close> on the handle of an object, with a destructor that stays inside it: a caller
  without the right to read and write cannot free an object of a class with a destructor; otherwise the
  destructor runs once, and then exactly this object is released, if the caller may free it. If not,
  the call returns \<open>EACCES\<close> after the destructor has run. No other payload changes.\<close>

theorem free_handle_correct:
  assumes "pool_inv r s R (xs @ b # ys) es" "lockable s" "aown b = Some oi"
    and "stays_inside r k dtor" "k + 56 \<le> asz b"
  shows "runs (cpp_free T dtor (Some r) s \<lparr>p_off = of_nat (span xs + 56)\<rparr> user cp) (\<lambda>(rc, s').
    if \<not> t_trivial T \<and> \<not> access_ok (o_owner oi) (o_perms oi) user cp (SHM_PERM_READ OR SHM_PERM_WRITE)
    then rc = EACCES \<and> s' = s
    else \<exists>t. (if t_trivial T then t = s else dtor (payload_ptr r R (span xs)) s = Some t) \<and> mutex s' = MUnlocked \<and>
      (if access_ok (o_owner oi) (o_perms oi) user cp SHM_PERM_FREE
       then rc = OK \<and> (\<exists>R' i. i < length es \<and> e_id (es ! i) = o_id oi \<and>
              pool_inv r s' R' (insert_free xs b ys) (es[i := zero_ent])) \<and>
            payloads_kept (unat (h_data_offset R)) (blk_objs 0 xs @ blk_objs (span xs + asz b) ys) s s'
       else rc = EACCES \<and> mem s' = mem t))"
  using cpp_free_refines [OF assms] unfolding free_handle_post_def .

theorem free_handle_correct_witness:
  "(\<exists>s'. cpp_free demo_class (demo_member 2) (Some demo) demo1 \<lparr>p_off = 56\<rparr> 7 15 = Some (OK, s')) \<and>
   (\<exists>s' t. cpp_free demo_class (demo_member 2) (Some demo) demo1 \<lparr>p_off = 56\<rparr> 7 3 = Some (EACCES, s') \<and>
      demo_member 2 (payload_ptr demo demo_R1 0) demo1 = Some t \<and> mem s' = mem t)"
proof -
  have inv: "pool_inv demo demo1 demo_R1 ([] @ demo_blk # [demo_rest]) [demo_ent, zero_ent]"
    using demo1_inv(1) by simp
  have own: "aown demo_blk = Some demo_info" and k: "100 + 56 \<le> asz demo_blk"
    by (simp_all add: demo_blk_def)
  note f = free_handle_correct [OF inv demo1_lockable own demo_member_inside [of 2] k, of demo_class 7]
  show ?thesis
    using f [of 15] f [of 3] by (auto simp: runs_iff access_ok_def demo_info_def perm_defs demo_class_def)
qed

end
