(* ===== verification/Shm_Track.thy ===== *)
theory Shm_Track
  imports Shm_Directory
begin

text \<open>
  Which bytes of the region are on their way to the persistent medium. \<open>tracked r d X F s0 s\<close>: every
  byte outside \<open>X\<close> is written back with its current value, and the medium has changed since \<open>s0\<close>
  in the cache lines \<open>F\<close> only. A store into \<open>X\<close> keeps this, a \<open>shm_persist\<close> of a range in
  \<open>F\<close> takes the lines of the range out of \<open>X\<close>. The rules are of partial correctness (\<open>ends\<close>):
  that the calls return is known from the refinement lemmas, and the values that are stored do not matter.
\<close>

section \<open>Partial correctness\<close>

definition ends :: "'a option \<Rightarrow> ('a \<Rightarrow> bool) \<Rightarrow> bool" where
  "ends c Q \<longleftrightarrow> (\<forall>v. c = Some v \<longrightarrow> Q v)"

named_theorems track_rules \<open>partial-correctness rules for the primitive operations\<close>

lemma ends_Some [simp]: "ends (Some v) Q = Q v"
  by (simp add: ends_def)

lemma ends_None [simp]: "ends None Q"
  by (simp add: ends_def)

lemma ends_bind: "ends (Option.bind c f) Q = ends c (\<lambda>v. ends (f v) Q)"
  by (cases c) simp_all

lemma ends_seq: "ends c P \<Longrightarrow> (\<And>v. P v \<Longrightarrow> ends (f v) Q) \<Longrightarrow> ends (Option.bind c f) Q"
  by (cases c) simp_all

text \<open>The result of a load does not matter.\<close>

lemma ends_load: "(\<And>v. ends (f v) Q) \<Longrightarrow> ends (Option.bind c f) Q"
  by (cases c) simp_all

lemma ends_if: "(b \<Longrightarrow> ends c Q) \<Longrightarrow> (\<not> b \<Longrightarrow> ends c' Q) \<Longrightarrow> ends (if b then c else c') Q"
  by simp

lemma ends_mono: "ends c P \<Longrightarrow> (\<And>v. P v \<Longrightarrow> Q v) \<Longrightarrow> ends c Q"
  by (cases c) simp_all

text \<open>Together with termination it is total correctness.\<close>

lemma ends_runs: "runs c P \<Longrightarrow> ends c Q \<Longrightarrow> runs c (\<lambda>v. P v \<and> Q v)"
  by (cases c) simp_all

lemma endsD: "ends c Q \<Longrightarrow> c = Some v \<Longrightarrow> Q v"
  by (simp add: ends_def)

section \<open>Tracked states\<close>

definition tracked :: "shm_region \<Rightarrow> u64 \<Rightarrow> nat set \<Rightarrow> nat set \<Rightarrow> machine \<Rightarrow> machine \<Rightarrow> bool" where
  "tracked r d X F s0 s \<longleftrightarrow>
     mapped r \<and> 200 \<le> unat (rsize r) \<and> 200 \<le> unat d \<and> get64 (mem s) 80 = d \<and> cmode s \<noteq> CACHE_NONE \<and>
     (\<forall>a. a \<notin> X \<longrightarrow> written_back s a) \<and>
     (\<forall>a. a div 64 \<notin> F \<longrightarrow> pmem s a = pmem s0 a \<and> wpq s a = wpq s0 a)"

text \<open>The structures whose bytes are among the bytes that may be stored to.\<close>

definition owns_blk :: "shm_region \<Rightarrow> u64 \<Rightarrow> nat set \<Rightarrow> nat \<Rightarrow> bool" where
  "owns_blk r d X h \<longleftrightarrow> unat d + h + 56 \<le> unat (rsize r) \<and> (\<forall>a. unat d + h \<le> a \<and> a < unat d + h + 56 \<longrightarrow> a \<in> X)"

definition owns_slot :: "shm_region \<Rightarrow> nat set \<Rightarrow> nat \<Rightarrow> bool" where
  "owns_slot r X k \<longleftrightarrow> 200 \<le> k \<and> k + 96 \<le> unat (rsize r) \<and> (\<forall>a. k \<le> a \<and> a < k + 96 \<longrightarrow> a \<in> X)"

text \<open>The bytes and the indices of the cache lines that a flush of \<open>[k, k + n)\<close> writes back.\<close>

definition line_bytes :: "nat \<Rightarrow> nat \<Rightarrow> nat set" where
  "line_bytes k n = {a. k div 64 \<le> a div 64 \<and> a div 64 < (k + n + 63) div 64}"

definition lines :: "nat \<Rightarrow> nat \<Rightarrow> nat set" where
  "lines k n = {k div 64..<(k + n + 63) div 64}"

lemma line_bytes_range: "k \<le> a \<Longrightarrow> a < k + n \<Longrightarrow> a \<in> line_bytes k n"
  by (auto simp: line_bytes_def div_le_mono)

lemma tracked_mono: "tracked r d X F s0 s \<Longrightarrow> X \<subseteq> Y \<Longrightarrow> tracked r d Y F s0 s"
  by (auto simp: tracked_def)

lemma owns_mono:
  "owns_blk r d X h \<Longrightarrow> X \<subseteq> Y \<Longrightarrow> owns_blk r d Y h" "owns_slot r X k \<Longrightarrow> X \<subseteq> Y \<Longrightarrow> owns_slot r Y k"
  by (auto simp: owns_blk_def owns_slot_def)

section \<open>Stores\<close>

lemma tracked_store:
  assumes t: "tracked r d X F s0 s" and out: "\<And>a. a \<notin> X \<or> 80 \<le> a \<and> a < 88 \<Longrightarrow> m a = mem s a"
  shows "tracked r d X F s0 (s\<lparr>mem := m\<rparr>)"
proof -
  have "get64 m 80 = get64 (mem s) 80"
    by (rule c64.get_cong) (simp add: out)
  moreover have "written_back (s\<lparr>mem := m\<rparr>) a = written_back s a" if "a \<notin> X" for a
    using out [of a] that by (cases "wpq s a") (simp_all add: written_back_def)
  ultimately show ?thesis
    using t by (simp add: tracked_def)
qed

lemma tracked_cell:
  assumes t: "tracked r d X F s0 s"
    and c: "\<And>a. region_off r p \<le> a \<Longrightarrow> a < region_off r p + n \<Longrightarrow> a \<in> X \<and> (a < 80 \<or> 88 \<le> a)"
  shows "n = 1 \<Longrightarrow> ends (wr8 r s p x) (tracked r d X F s0)"
    and "n = 4 \<Longrightarrow> ends (wr32 r s p y) (tracked r d X F s0)"
    and "n = 8 \<Longrightarrow> ends (wr64 r s p z) (tracked r d X F s0)"
proof -
  have out: "a < region_off r p \<or> region_off r p + n \<le> a" if "a \<notin> X \<or> 80 \<le> a \<and> a < 88" for a
    using c [of a] that by linarith
  show "ends (wr8 r s p x) (tracked r d X F s0)" if "n = 1"
    unfolding ends_def wr_simps by (intro allI impI, elim conjE, simp only:)
      (intro tracked_store [OF t] c8.put_outside, use out that in blast)
  show "ends (wr32 r s p y) (tracked r d X F s0)" if "n = 4"
    unfolding ends_def wr_simps by (intro allI impI, elim conjE, simp only:)
      (intro tracked_store [OF t] c32.put_outside, use out that in blast)
  show "ends (wr64 r s p z) (tracked r d X F s0)" if "n = 8"
    unfolding ends_def wr_simps by (intro allI impI, elim conjE, simp only:)
      (intro tracked_store [OF t] c64.put_outside, use out that in blast)
qed

lemma owns_blk_cell:
  assumes "tracked r d X F s0 s" "owns_blk r d X h" "numeral k + n \<le> (56 :: nat)"
  shows "region_off r (bp r d h + numeral k) \<le> a \<Longrightarrow> a < region_off r (bp r d h + numeral k) + n \<Longrightarrow> a \<in> X \<and> (a < 80 \<or> 88 \<le> a)"
proof -
  have "numeral k \<le> (56 :: nat)"
    using assms(3) by linarith
  with assms show "region_off r (bp r d h + numeral k) \<le> a \<Longrightarrow> a < region_off r (bp r d h + numeral k) + n \<Longrightarrow> a \<in> X \<and> (a < 80 \<or> 88 \<le> a)"
    by (simp only: region_off_bp owns_blk_def tracked_def) fastforce
qed

lemma owns_blk_start:
  assumes "tracked r d X F s0 s" "owns_blk r d X h"
  shows "region_off r (bp r d h) \<le> a \<Longrightarrow> a < region_off r (bp r d h) + 4 \<Longrightarrow> a \<in> X \<and> (a < 80 \<or> 88 \<le> a)"
  using assms by (simp add: region_off_bp owns_blk_def tracked_def)

lemma track_set_blk [track_rules]:
  assumes t: "tracked r d X F s0 s" and o: "owns_blk r d X h"
  shows "ends (set_blk_magic r s (bp r d h) v) (tracked r d X F s0)"
    and "ends (set_blk_type_tag r s (bp r d h) v) (tracked r d X F s0)"
    and "ends (set_blk_owner r s (bp r d h) v) (tracked r d X F s0)"
    and "ends (set_blk_perms r s (bp r d h) v) (tracked r d X F s0)"
    and "ends (set_blk_allocated r s (bp r d h) c) (tracked r d X F s0)"
    and "ends (set_blk_obj_id r s (bp r d h) w) (tracked r d X F s0)"
    and "ends (set_blk_payload_cap r s (bp r d h) w) (tracked r d X F s0)"
    and "ends (set_blk_total_size r s (bp r d h) w) (tracked r d X F s0)"
    and "ends (set_blk_next_free r s (bp r d h) w) (tracked r d X F s0)"
proof -
  note cell = owns_blk_cell [OF t o]
  show "ends (set_blk_magic r s (bp r d h) v) (tracked r d X F s0)"
    unfolding blk_set_defs by (rule tracked_cell(2) [OF t owns_blk_start [OF t o] refl])
  show "ends (set_blk_type_tag r s (bp r d h) v) (tracked r d X F s0)"
    "ends (set_blk_owner r s (bp r d h) v) (tracked r d X F s0)"
    "ends (set_blk_perms r s (bp r d h) v) (tracked r d X F s0)"
    unfolding blk_set_defs by (rule tracked_cell(2) [OF t cell [where n = 4] refl], simp_all)+
  show "ends (set_blk_allocated r s (bp r d h) c) (tracked r d X F s0)"
    unfolding blk_set_defs by (rule tracked_cell(1) [OF t cell [where n = 1] refl]) simp_all
  show "ends (set_blk_obj_id r s (bp r d h) w) (tracked r d X F s0)"
    "ends (set_blk_payload_cap r s (bp r d h) w) (tracked r d X F s0)"
    "ends (set_blk_total_size r s (bp r d h) w) (tracked r d X F s0)"
    "ends (set_blk_next_free r s (bp r d h) w) (tracked r d X F s0)"
    unfolding blk_set_defs by (rule tracked_cell(3) [OF t cell [where n = 8] refl], simp_all)+
qed

text \<open>The counters and the list head of the region header, each a cell of 8 bytes.\<close>

lemma rh_cell:
  assumes "tracked r d X F s0 s" "numeral k + 8 \<le> (200 :: nat)" "88 \<le> (numeral k :: nat)" "\<And>a. numeral k \<le> a \<Longrightarrow> a < numeral k + 8 \<Longrightarrow> a \<in> X"
  shows "region_off r (shm_rh r + numeral k) \<le> a \<Longrightarrow> a < region_off r (shm_rh r + numeral k) + 8 \<Longrightarrow> a \<in> X \<and> (a < 80 \<or> 88 \<le> a)"
proof -
  have "(200 :: nat) < 2 ^ 64"
    by simp
  then have "(0 :: nat) + numeral k < 2 ^ 64"
    using assms(2) by linarith
  from region_off_base_field [OF this, of r]
  have "region_off r (shm_rh r + numeral k) = numeral k"
    by (simp add: shm_rh_def)
  then show "region_off r (shm_rh r + numeral k) \<le> a \<Longrightarrow> a < region_off r (shm_rh r + numeral k) + 8 \<Longrightarrow> a \<in> X \<and> (a < 80 \<or> 88 \<le> a)"
    using assms(3) assms(4) [of a] by (metis order.trans)
qed

lemma track_set_rh [track_rules]:
  assumes t: "tracked r d X F s0 s"
  shows "{88..<96} \<subseteq> X \<Longrightarrow> ends (set_rh_free_list r s v) (tracked r d X F s0)"
    and "{96..<104} \<subseteq> X \<Longrightarrow> ends (set_rh_used_bytes r s v) (tracked r d X F s0)"
    and "{104..<112} \<subseteq> X \<Longrightarrow> ends (set_rh_block_count r s v) (tracked r d X F s0)"
    and "{112..<120} \<subseteq> X \<Longrightarrow> ends (set_rh_next_id r s v) (tracked r d X F s0)"
proof -
  show "{88..<96} \<subseteq> X \<Longrightarrow> ends (set_rh_free_list r s v) (tracked r d X F s0)"
    unfolding set_rh_free_list_def by (rule tracked_cell(3) [OF t rh_cell [OF t] refl]) auto
  show "{96..<104} \<subseteq> X \<Longrightarrow> ends (set_rh_used_bytes r s v) (tracked r d X F s0)"
    unfolding set_rh_used_bytes_def by (rule tracked_cell(3) [OF t rh_cell [OF t] refl]) auto
  show "{104..<112} \<subseteq> X \<Longrightarrow> ends (set_rh_block_count r s v) (tracked r d X F s0)"
    unfolding set_rh_block_count_def by (rule tracked_cell(3) [OF t rh_cell [OF t] refl]) auto
  show "{112..<120} \<subseteq> X \<Longrightarrow> ends (set_rh_next_id r s v) (tracked r d X F s0)"
    unfolding set_rh_next_id_def by (rule tracked_cell(3) [OF t rh_cell [OF t] refl]) auto
qed

lemma slot_cell:
  assumes "owns_slot r X k" "j + n \<le> 96"
  shows "region_off r (rp r k + of_nat j) \<le> a \<Longrightarrow> a < region_off r (rp r k + of_nat j) + n \<Longrightarrow> a \<in> X \<and> (a < 80 \<or> 88 \<le> a)"
proof -
  have "k + j < 2 ^ 64"
    using assms unat64_bound [of "rsize r"] by (auto simp: owns_slot_def)
  then have "region_off r (rp r k + of_nat j) = k + j"
    using region_off_base [of "k + j" r] by (simp add: rp_def add.assoc)
  then show "region_off r (rp r k + of_nat j) \<le> a \<Longrightarrow> a < region_off r (rp r k + of_nat j) + n \<Longrightarrow> a \<in> X \<and> (a < 80 \<or> 88 \<le> a)"
    using assms by (auto simp: owns_slot_def)
qed

lemma track_set_ent [track_rules]:
  assumes t: "tracked r d X F s0 s" and o: "owns_slot r X k"
  shows "ends (set_ent_id r s (rp r k) w) (tracked r d X F s0)"
    and "ends (set_ent_off r s (rp r k) w) (tracked r d X F s0)"
    and "ends (set_ent_capacity r s (rp r k) w) (tracked r d X F s0)"
    and "ends (set_ent_used_size r s (rp r k) w) (tracked r d X F s0)"
    and "ends (set_ent_type_tag r s (rp r k) v) (tracked r d X F s0)"
    and "ends (set_ent_owner r s (rp r k) v) (tracked r d X F s0)"
    and "ends (set_ent_perms r s (rp r k) v) (tracked r d X F s0)"
    and "ends (set_ent_alive r s (rp r k) c) (tracked r d X F s0)"
proof -
  have w: "ends (wr64 r s (rp r k + of_nat j) w) (tracked r d X F s0)" if "j + 8 \<le> 96" for j w
    by (rule tracked_cell(3) [OF t slot_cell [OF o that] refl])
  have v: "ends (wr32 r s (rp r k + of_nat j) v) (tracked r d X F s0)" if "j + 4 \<le> 96" for j v
    by (rule tracked_cell(2) [OF t slot_cell [OF o that] refl])
  have c: "ends (wr8 r s (rp r k + of_nat j) c) (tracked r d X F s0)" if "j + 1 \<le> 96" for j c
    by (rule tracked_cell(1) [OF t slot_cell [OF o that] refl])
  show "ends (set_ent_id r s (rp r k) w) (tracked r d X F s0)"
    "ends (set_ent_off r s (rp r k) w) (tracked r d X F s0)"
    "ends (set_ent_capacity r s (rp r k) w) (tracked r d X F s0)"
    "ends (set_ent_used_size r s (rp r k) w) (tracked r d X F s0)"
    using w [of 0 w] w [of 56 w] w [of 64 w] w [of 72 w]
    by (simp_all add: set_ent_id_def set_ent_off_def set_ent_capacity_def set_ent_used_size_def)
  show "ends (set_ent_type_tag r s (rp r k) v) (tracked r d X F s0)"
    "ends (set_ent_owner r s (rp r k) v) (tracked r d X F s0)"
    "ends (set_ent_perms r s (rp r k) v) (tracked r d X F s0)"
    "ends (set_ent_alive r s (rp r k) c) (tracked r d X F s0)"
    using v [of 80 v] v [of 84 v] v [of 88 v] c [of 92 c]
    by (simp_all add: set_ent_type_tag_def set_ent_owner_def set_ent_perms_def set_ent_alive_def)
qed

section \<open>Block stores of the C library\<close>

lemma track_memset:
  assumes t: "tracked r d X F s0 s"
    and c: "\<And>a. region_off r p \<le> a \<Longrightarrow> a < region_off r p + unat n \<Longrightarrow> a \<in> X \<and> (a < 80 \<or> 88 \<le> a)"
  shows "ends (memset r s p v n) (tracked r d X F s0)"
proof -
  have "tracked r d X F s0 (s\<lparr>mem := (\<lambda>a. if region_off r p \<le> a \<and> a < region_off r p + unat n then v else mem s a)\<rparr>)"
    by (rule tracked_store [OF t]) (use c in \<open>force\<close>)
  then show ?thesis
    using t by (simp add: memset_def)
qed

lemma track_memset_slot [track_rules]:
  assumes "tracked r d X F s0 s" "owns_slot r X k"
  shows "ends (memset r s (rp r k) v SIZEOF_OBJ_ENTRY) (tracked r d X F s0)"
  using slot_cell [OF assms(2), of 0 96] by (intro track_memset [OF assms(1)]) (simp_all add: SIZEOF_OBJ_ENTRY_def)

lemma track_wr_bytes:
  assumes "tracked r d X F s0 s" "owns_slot r X k" "j + length cs \<le> 96"
  shows "ends (wr_bytes r s (rp r k + of_nat j) cs) (tracked r d X F s0)"
  using assms(1,3)
proof (induction cs arbitrary: s j)
  case (Cons c cs)
  have "ends (wr8 r s (rp r k + of_nat j) c) (tracked r d X F s0)"
    by (rule tracked_cell(1) [OF Cons.prems(1) slot_cell [OF assms(2), where n = 1] refl]) (use Cons.prems(2) in simp_all)
  moreover have "ends (wr_bytes r s' (rp r k + of_nat j + 1) cs) (tracked r d X F s0)" if "tracked r d X F s0 s'" for s'
    using Cons.IH [OF that, of "Suc j"] Cons.prems(2) by (simp add: ac_simps)
  ultimately show ?case
    by (auto intro: ends_seq)
qed simp

lemma track_strncpy [track_rules]:
  assumes "tracked r d X F s0 s" "owns_slot r X k"
  shows "ends (strncpy r s (ent_name_ptr (rp r k)) nm (DIR_NAME_MAX - 1)) (tracked r d X F s0)"
  using track_wr_bytes [OF assms, of 8 "take (DIR_NAME_MAX - 1) (nm @ replicate (DIR_NAME_MAX - 1) 0)"]
  by (simp add: strncpy_def ent_name_ptr_def DIR_NAME_MAX_def)

section \<open>Flushes\<close>

lemma flush_lines_still:
  "a div 64 \<notin> set js \<Longrightarrow> pmem (flush_lines js s) a = pmem s a \<and> wpq (flush_lines js s) a = wpq s a"
  by (induction js arbitrary: s) (auto simp: flush_at_def split: cache_mode.splits)

lemma track_persist:
  assumes t: "tracked r d X F s0 s" and le: "k + n \<le> unat (rsize r)" and F: "lines k n \<subseteq> F"
  shows "ends (shm_persist r s (rbase r + of_nat k) (of_nat n)) (tracked r d (X - line_bytes k n) F s0)"
proof -
  let ?js = "[k div 64..<(k + n + 63) div 64]"
  have "written_back (flush_lines ?js s) a" if "a \<notin> X - line_bytes k n" for a
    using that t by (intro flush_lines_written_back) (auto simp: tracked_def line_bytes_def)
  moreover have "pmem (flush_lines ?js s) a = pmem s0 a \<and> wpq (flush_lines ?js s) a = wpq s0 a" if "a div 64 \<notin> F" for a
  proof -
    have "a div 64 \<notin> set ?js"
      using that F unfolding lines_def by auto
    then show ?thesis
      using flush_lines_still [of a ?js s] that t by (simp add: tracked_def)
  qed
  ultimately have "tracked r d (X - line_bytes k n) F s0 (flush_lines ?js s)"
    using t by (simp add: tracked_def)
  then show ?thesis
    using t le by (simp add: shm_persist_eq tracked_def)
qed

text \<open>A flush keeps \<open>tracked\<close> with any smaller set that still has the bytes outside its lines.\<close>

lemma track_persist_blk:
  assumes "tracked r d X F s0 s" "unat d + h + 56 \<le> unat (rsize r)" "lines (unat d + h) 56 \<subseteq> F" "X - line_bytes (unat d + h) 56 \<subseteq> Y"
  shows "ends (shm_persist r s (bp r d h) SIZEOF_BLOCK_HDR) (tracked r d Y F s0)"
proof -
  have "bp r d h = rbase r + of_nat (unat d + h)" "SIZEOF_BLOCK_HDR = of_nat 56"
    by (simp_all add: bp_def SIZEOF_BLOCK_HDR_def add.assoc)
  then show ?thesis
    using track_persist [OF assms(1-3)] tracked_mono [OF _ assms(4)] by (auto elim: ends_mono)
qed

lemma track_persist_slot:
  assumes "tracked r d X F s0 s" "k + 96 \<le> unat (rsize r)" "lines k 96 \<subseteq> F" "X - line_bytes k 96 \<subseteq> Y"
  shows "ends (shm_persist r s (rp r k) SIZEOF_OBJ_ENTRY) (tracked r d Y F s0)"
proof -
  have "SIZEOF_OBJ_ENTRY = of_nat 96"
    by (simp add: SIZEOF_OBJ_ENTRY_def)
  then show ?thesis
    using track_persist [OF assms(1-3)] tracked_mono [OF _ assms(4)] unfolding rp_def by (auto elim: ends_mono)
qed

text \<open>The part of the region header with the counters is one cache line.\<close>

lemma track_persist_rh:
  assumes "tracked r d X F s0 s" "64 \<le> (numeral k :: nat)" "numeral k + numeral n \<le> (128 :: nat)" "1 \<in> F" "X - {64..<128} \<subseteq> Y"
  shows "ends (shm_persist r s (shm_rh r + numeral k) (numeral n)) (tracked r d Y F s0)"
proof -
  have pos: "1 \<le> (numeral n :: nat)"
    by simp
  have s: "(numeral k :: nat) div 64 = 1"
  proof (rule div_nat_eqI)
    show "64 * 1 \<le> (numeral k :: nat)" using assms(2) by linarith
    have "(numeral k :: nat) < 128" using assms(3) pos by linarith
    then show "numeral k < 64 * Suc 1" by simp
  qed
  have e: "(numeral k + numeral n + 63 :: nat) div 64 = 2"
  proof (rule div_nat_eqI)
    show "64 * 2 \<le> (numeral k + numeral n + 63 :: nat)" using assms(2) pos by linarith
    have "(numeral k + numeral n + 63 :: nat) < 192" using assms(3) by linarith
    then show "numeral k + numeral n + 63 < 64 * Suc 2" by simp
  qed
  have l: "lines (numeral k) (numeral n) = {1}"
    unfolding lines_def s e by auto
  have b: "line_bytes (numeral k) (numeral n) = {64..<128}"
    unfolding line_bytes_def s e by auto
  have "(numeral k :: nat) + numeral n \<le> unat (rsize r)"
    using assms(1,3) unfolding tracked_def by linarith
  from track_persist [OF assms(1) this] show ?thesis
    using tracked_mono [OF _ assms(5)] assms(4) by (auto simp: l b shm_rh_def elim: ends_mono)
qed

lemma tracked_drain:
  assumes "tracked r d X F s0 s" "a \<notin> X"
  shows "durable (shm_drain s) a"
  using assms by (intro shm_drain_durable) (simp_all add: tracked_def)

lemma tracked_drain_still:
  assumes "tracked r d X F s0 s" "a div 64 \<notin> F" "wpq s0 a = None"
  shows "pmem (shm_drain s) a = pmem s0 a"
  using assms by (auto simp: tracked_def shm_drain_def split: cache_mode.splits)

lemma tracked_start:
  assumes "mapped r" "200 \<le> unat (rsize r)" "200 \<le> unat (h_data_offset R)" "rh_at (mem s) = R" "cmode s \<noteq> CACHE_NONE"
    and "\<And>a. a \<notin> X \<Longrightarrow> written_back s a"
  shows "tracked r (h_data_offset R) X F s s"
  using assms by (auto simp: tracked_def rh_at_sel)

lemma tracked_mutex: "tracked r d X F s0 (s\<lparr>mutex := m\<rparr>) = tracked r d X F s0 s"
proof -
  have "written_back (s\<lparr>mutex := m\<rparr>) a = written_back s a" for a
    by (cases "wpq s a") (simp_all add: written_back_def)
  then show ?thesis
    by (simp add: tracked_def)
qed

text \<open>Pointers from links: the data offset is not stored to.\<close>

lemma tracked_heap_base:
  assumes "tracked r d X F s0 s"
  shows "shm_heap_base r s = Some (rbase r + d)"
proof -
  have "region_off r (shm_rh r + 80) = 80"
    using region_off_base_field [of 0 "num.Bit0 (num.Bit0 (num.Bit0 (num.Bit0 (num.Bit1 (num.Bit0 num.One)))))" r]
    by (simp add: shm_rh_def)
  then show ?thesis
    using assms by (simp add: shm_heap_base_def rh_data_offset_def rd64_def in_map_def tracked_def)
qed

lemma tracked_ptrs:
  assumes "tracked r d X F s0 s"
  shows "shm_hoff_of_blk r s (bp r d h) = Some (of_nat h)"
    and "h + 56 < 2 ^ 64 \<Longrightarrow> shm_blk_of_link r s (link_to h) = Some (bp r d h)"
    and "shm_blk_at_hoff r s (of_nat h) = Some (bp r d h)"
    and "shm_poff_of_blk r s (bp r d h) = Some (of_nat (h + 56))"
proof -
  note hb = tracked_heap_base [OF assms]
  show "shm_hoff_of_blk r s (bp r d h) = Some (of_nat h)" "shm_blk_at_hoff r s (of_nat h) = Some (bp r d h)"
    by (simp_all add: shm_hoff_of_blk_def shm_blk_at_hoff_def hb bp_def)
  show "shm_poff_of_blk r s (bp r d h) = Some (of_nat (h + 56))"
    by (simp add: shm_poff_of_blk_def shm_hoff_of_blk_def hb bp_def SIZEOF_BLOCK_HDR_def add.commute)
  assume h: "h + 56 < 2 ^ 64"
  have "link_to h \<noteq> 0"
    using h of_nat64_eq_0 [of "h + 1"] by (simp add: link_to_def)
  moreover have "shm_link_dec (link_to h) = of_nat h"
    by (simp add: shm_link_dec_def link_to_def)
  ultimately show "shm_blk_of_link r s (link_to h) = Some (bp r d h)"
    by (simp add: shm_blk_of_link_def shm_blk_at_hoff_def hb bp_def)
qed

end
