(* ===== verification/Shm_Death.thy ===== *)
theory Shm_Death
  imports Shm_Facts
begin

text \<open>
  Deaths in the middle of an update. \<open>region_lock\<close> marks the mutex of a dead owner consistent and goes
  on; nothing repairs the region. Two points at which a process can die are modelled: in
  \<open>shm_alloc\<close> after the heap has given the block and before the directory knows it, and in
  \<open>shm_free\<close> after the heap has taken the block back and before its slot is cleared. In the first
  case a block is lost. In the second the object can be freed again; the second release makes the
  free list circular, and the next allocation that finds no block before the circle walks forever
  with the mutex held.
\<close>

section \<open>The calls up to the death\<close>

definition shm_alloc_dies :: "shm_region \<Rightarrow> machine \<Rightarrow> u64 \<Rightarrow> machine option" where
  "shm_alloc_dies r s payload_size = do {
     let need_total = alloc_size payload_size;
     (_, s) \<leftarrow> region_lock r s;
     slot \<leftarrow> dir_find_free_slot r s;
     if slot = 0 then region_unlock r s
     else do {
       (b, s) \<leftarrow> heap_alloc_block r s need_total;
       if b = 0 then region_unlock r s
       else Some (s\<lparr>mutex := MOwnerDead\<rparr>) } }"

definition shm_free_dies :: "shm_region \<Rightarrow> machine \<Rightarrow> u64 \<Rightarrow> u32 \<Rightarrow> u32 \<Rightarrow> machine option" where
  "shm_free_dies r s obj_id user_id caller_perms = do {
     (_, s) \<leftarrow> region_lock r s;
     slot \<leftarrow> dir_find_by_id r s obj_id;
     if slot = 0 then region_unlock r s
     else do {
       acc \<leftarrow> check_dir_access r s slot user_id caller_perms SHM_PERM_FREE;
       if acc \<noteq> OK then region_unlock r s
       else do {
         off \<leftarrow> ent_off r s slot;
         b \<leftarrow> shm_blk_of_poff r s off;
         s \<leftarrow> heap_free_block r s b;
         Some (s\<lparr>mutex := MOwnerDead\<rparr>) } } }"

section \<open>A circular free list\<close>

lemma heap_alloc_loop_seg:
  assumes v: "hview r s0 s D H R" "set hs \<subseteq> D" and small: "\<forall>x\<in>set hs. b_total_size (H x) < need"
    and ch: "fseg H l hs l'"
  shows "heap_alloc_loop r s need prev l = heap_alloc_loop r s need (last_link prev hs) l'"
  using v(2) small ch
proof (induction hs arbitrary: prev l)
  case (Cons h hs)
  then have h: "h \<in> D" "\<not> need \<le> b_total_size (H h)" and l: "l = link_to h"
    by auto
  have "heap_alloc_loop r s need l (b_next_free (H h)) = heap_alloc_loop r s need (last_link l hs) l'"
    using Cons.prems by (intro Cons.IH) auto
  then show ?case
    using h link_to_nonzero [OF hview_bound [OF v(1) h(1)]]
    by (subst heap_alloc_loop.simps)
       (simp add: l hview_link [OF v(1) h(1) refl] hview_blk_loads [OF v(1) h(1) refl])
qed simp

text \<open>A block that is too small and links to itself: the walk does not end.\<close>

lemma heap_alloc_loop_stuck:
  assumes v: "hview r s0 s D H R" "h \<in> D" and small: "b_total_size (H h) < need" and self: "b_next_free (H h) = link_to h"
  shows "heap_alloc_loop r s need prev (link_to h) = None"
proof (rule ccontr)
  assume "heap_alloc_loop r s need prev (link_to h) \<noteq> None"
  then obtain y where y: "heap_alloc_loop r s need prev (link_to h) = Some y"
    by blast
  have "r' = r \<and> s' = s \<and> n' = need \<and> c' = link_to h \<longrightarrow> False" if "heap_alloc_loop r' s' n' p' c' = Some y'" for r' s' n' p' c' y'
    using that
  proof (induction rule: heap_alloc_loop.raw_induct [rotated, consumes 1, case_names step])
    case (step loop r' s' n' p' c' y')
    show ?case
    proof
      assume e: "r' = r \<and> s' = s \<and> n' = need \<and> c' = link_to h"
      then have eqs: "r' = r" "s' = s" "n' = need" "c' = link_to h" by simp_all
      have big: "\<not> need \<le> b_total_size (H h)"
        using small by simp
      have "loop r s need (link_to h) (link_to h) = Some y'"
        using step(2) big link_to_nonzero [OF hview_bound [OF v]]
        by (simp add: eqs hview_link [OF v refl] hview_blk_loads [OF v refl] self)
      from step(1) [OF this] show False
        by simp
    qed
  qed
  with y show False
    by blast
qed

text \<open>The free blocks \<open>hs\<close> in order, then \<open>h\<close>, which links to itself.\<close>

definition circular :: "shm_region \<Rightarrow> machine \<Rightarrow> machine \<Rightarrow> region_hdr \<Rightarrow> nat list \<Rightarrow> nat \<Rightarrow> u64 \<Rightarrow> bool" where
  "circular r s0 s R hs h m \<longleftrightarrow>
     (\<exists>D H. hview r s0 s D H R \<and> set (hs @ [h]) \<subseteq> D \<and> fseg H (h_free_list R) hs (link_to h) \<and>
        b_next_free (H h) = link_to h \<and> (\<forall>x\<in>set (hs @ [h]). b_total_size (H x) < m))"

lemma circular_hangs:
  assumes "circular r s0 s R hs h m" "m \<le> need"
  shows "heap_alloc_block r s need = None"
proof -
  obtain D H where v: "hview r s0 s D H R" "set (hs @ [h]) \<subseteq> D" "fseg H (h_free_list R) hs (link_to h)"
    "b_next_free (H h) = link_to h" "\<forall>x\<in>set (hs @ [h]). b_total_size (H x) < m"
    using assms(1) unfolding circular_def by blast
  have small: "\<forall>x\<in>set (hs @ [h]). b_total_size (H x) < need"
    using v(5) assms(2) by (blast intro: order_less_le_trans)
  have "rh_free_list r s = Some (h_free_list R)"
    using hview_rh_loads [OF v(1)] by simp
  moreover have "heap_alloc_loop r s need 0 (h_free_list R) = heap_alloc_loop r s need (last_link 0 hs) (link_to h)"
    using v small by (intro heap_alloc_loop_seg [OF v(1)]) auto
  moreover have "\<dots> = None"
    using v small by (intro heap_alloc_loop_stuck [OF v(1)]) auto
  ultimately show ?thesis
    by (simp add: heap_alloc_block_def)
qed

section \<open>Releasing a block that is free already\<close>

text \<open>The walk of \<open>freelist_insert\<close> passes the block itself, so the splice links it behind itself.\<close>

definition relinked :: "nat \<Rightarrow> block_hdr \<Rightarrow> block_hdr" where
  "relinked h x = x\<lparr>b_allocated := 0, b_obj_id := 0, b_owner := 0, b_perms := 0, b_type_tag := 0,
     b_next_free := link_to h\<rparr>"

lemma wp_insert_again:
  assumes v: "hview r s0 s D H R" "set (starts 0 (xs @ m # zs)) \<subseteq> D" and d: "d = h_data_offset R" and h: "h = span xs"
    and sh: "heap_shape H R (xs @ m # zs)" and fr: "is_free m" and co: "coalesced (xs @ m # zs)"
    and sz: "unat (h_data_offset R) + span (xs @ m # zs) = unat (rsize r)"
    and Q: "\<And>s'. hview r s0 s' D (H(h := relinked h (H h))) R \<Longrightarrow> Q s'"
  shows "runs (freelist_insert r s (bp r d h)) Q"
proof -
  let ?hs1 = "frees 0 xs @ [h]" and ?hs2 = "frees (h + asz m) zs"
  let ?H1 = "H(h := (H h)\<lparr>b_allocated := 0, b_obj_id := 0, b_owner := 0, b_perms := 0, b_type_tag := 0\<rparr>)"
  have t: "tiles H 0 (xs @ m # zs)" and ch: "fseg H (h_free_list R) (?hs1 @ ?hs2) 0"
    using sh fr h by (auto simp: heap_shape_def)
  have wf: "list_all wf_blk (xs @ m # zs)"
    using t by (rule tiles_wf)
  then have m: "56 \<le> asz m"
    by (simp add: wf_blk_def)
  have lt: "h + asz m < 2 ^ 64"
    using sz h unat64_bound [of "rsize r"] by simp
  have hD: "h \<in> D" and hs: "set (?hs1 @ ?hs2) \<subseteq> D"
    using v(2) h frees_starts [of 0 xs] frees_starts [of "h + asz m" zs] by auto
  have lo: "\<forall>x\<in>set ?hs1. x \<le> h" and hi: "\<forall>x\<in>set ?hs2. h < x"
    using frees_le [of xs _ 0] frees_ge [of _ "h + asz m" zs] wf m h by fastforce+
  have ch1: "fseg ?H1 (h_free_list R) (?hs1 @ ?hs2) 0"
    by (subst fseg_cong [where H' = H]) (use ch in auto)
  have tsz: "b_total_size (H h) = of_nat (asz m)"
    using tiles_size(2) [OF t] h by simp
  have H2: "spliced_H ?H1 ?hs1 h ?hs2 = H(h := relinked h (H h))" and R2: "spliced_R R ?hs1 h = R"
    by (simp_all add: spliced_H_def spliced_R_def relinked_def Let_def)
  have gap: "(of_nat h :: u64) + of_nat (asz m) \<noteq> of_nat x" if x: "x \<in> set ?hs2" for x
  proof -
    obtain hc hs where c: "?hs2 = hc # hs"
      using x by (cases ?hs2) auto
    have "zs \<noteq> []" "\<not> is_free (hd zs)"
      using c co fr by (cases zs; simp add: coalesced_Cons)+
    then have "h + asz m \<notin> set ?hs2"
      using frees_ge [of "h + asz m" "h + asz m + asz (hd zs)" "tl zs"] wf by (cases zs) (auto simp: wf_blk_def)
    then have "x \<noteq> h + asz m"
      using x by blast
    moreover have "x + 56 < 2 ^ 64"
      using hview_bound [OF v(1)] hs x by auto
    ultimately show ?thesis
      using lt of_nat64_eq_iff [of "h + asz m" x] by simp
  qed
  have tail: "runs (coalesce_next r s2 (bp r d h) (of_nat h) (first_link ?hs2))
      (\<lambda>s. runs (coalesce_prev r s (bp r d h) (of_nat h) (link_to h)) Q)"
    if v2: "hview r s0 s2 D (H(h := relinked h (H h))) R" for s2
  proof -
    note simps = hview_ptrs [OF v2 d] hview_link [OF v2 hD d] hview_blk_loads [OF v2 hD d]
      link_to_nonzero [OF hview_bound [OF v2 hD]]
    have s: "b_total_size (relinked h (H h)) = of_nat (asz m)"
      by (simp add: relinked_def tsz)
    have "coalesce_next r s2 (bp r d h) (of_nat h) (first_link ?hs2) = Some s2"
    proof (cases ?hs2)
      case Nil
      then show ?thesis
        by (simp add: coalesce_next_def)
    next
      case (Cons hc hs')
      then have hc: "hc \<in> D" "hc \<in> set ?hs2"
        using hs by auto
      show ?thesis
        unfolding Cons first_link_simps coalesce_next_def
        using gap [OF hc(2)] hview_link [OF v2 hc(1) d] by (simp add: simps s)
    qed
    moreover have "(of_nat h :: u64) + of_nat (asz m) \<noteq> of_nat h"
      using lt m of_nat64_eq_iff [of "h + asz m" h] by simp
    then have "runs (coalesce_prev r s2 (bp r d h) (of_nat h) (link_to h)) Q"
      using wp_persist_two [OF v2 hD hD d Q] by (simp add: coalesce_prev_def simps s)
    ultimately show ?thesis
      by simp
  qed
  have h64: "h + 56 < 2 ^ 64"
    using hview_bound [OF v(1) hD] .
  show ?thesis
    unfolding freelist_insert_def
    apply (simp add: hview_ptrs [OF v(1) d])
    apply (rule wp_freelist_clear [OF v(1) hD d])
    subgoal premises v1 for s1
    proof -
      have "freelist_pos r s1 (of_nat h) 0 (h_free_list R) = Some (link_to h, first_link ?hs2)"
        using freelist_pos_walk [OF v1 hs h64 lo hi ch1, of 0] by simp
      moreover have "runs (freelist_splice r s1 (bp r d h) (of_nat h) (last_link 0 ?hs1) (first_link ?hs2))
          (\<lambda>s. runs (coalesce_next r s (bp r d h) (of_nat h) (first_link ?hs2))
            (\<lambda>s. runs (coalesce_prev r s (bp r d h) (of_nat h) (link_to h)) Q))"
      proof (rule wp_freelist_splice [OF v1 hD d])
        show "set ?hs1 \<subseteq> D" using hs by simp
        fix s2 assume "hview r s0 s2 D (spliced_H ?H1 ?hs1 h ?hs2) (spliced_R R ?hs1 h)"
        then show "runs (coalesce_next r s2 (bp r d h) (of_nat h) (first_link ?hs2))
            (\<lambda>s. runs (coalesce_prev r s (bp r d h) (of_nat h) (link_to h)) Q)"
          unfolding H2 R2 by (rule tail)
      qed
      ultimately show ?thesis
        by (simp add: hview_rh_loads [OF v1])
    qed
    done
qed

lemma wp_free_again:
  assumes hr: "heap_rep r s R (xs @ m # zs)" and fr: "is_free m" and co: "coalesced (xs @ m # zs)"
    and n: "n < 2 ^ 64" "\<forall>c\<in>set (xs @ [m]). is_free c \<longrightarrow> asz c < n"
    and Q: "\<And>s'. circular r s s' (count_free R (asz m)) (frees 0 xs) (span xs) (of_nat n) \<Longrightarrow> Q s'"
  shows "runs (heap_free_block r s (bp r (h_data_offset R) (span xs))) Q"
proof -
  let ?D = "set (starts 0 (xs @ m # zs))" and ?h = "span xs" and ?R = "count_free R (asz m)"
  obtain H where H: "hview r s s ?D H R" "heap_shape H R (xs @ m # zs)"
    "unat (h_data_offset R) + span (xs @ m # zs) = unat (rsize r)" "list_all wf_blk (xs @ m # zs)"
    using hr unfolding heap_rep_def by (rule heap_viewE)
  have hD: "?h \<in> ?D" by simp
  have t: "tiles H 0 (xs @ m # zs)" and ch: "fseg H (h_free_list R) (frees 0 xs) (link_to ?h)"
    using H(2) fr by (auto simp: heap_shape_def)
  have tsz: "b_total_size (H ?h) = of_nat (asz m)"
    using t by (rule tiles_size)
  have small: "\<forall>x\<in>set (frees 0 xs @ [?h]). b_total_size (H x) < of_nat n"
    using small_frees [of H "xs @ [m]" zs n] t n fr by simp
  have out: "?h \<notin> set (frees 0 xs)"
    using frees_le [of xs ?h 0] H(4) by auto
  have sh: "heap_shape H ?R (xs @ m # zs)"
    using H(2) by (simp add: heap_shape_def)
  have circ: "circular r s s' ?R (frees 0 xs) ?h (of_nat n)"
    if v: "hview r s s' ?D (H(?h := relinked ?h (H ?h))) ?R" for s'
    unfolding circular_def
  proof (intro exI conjI)
    show "set (frees 0 xs @ [?h]) \<subseteq> ?D"
      using frees_starts [of 0 xs] by auto
    show "fseg (H(?h := relinked ?h (H ?h))) (h_free_list ?R) (frees 0 xs) (link_to ?h)"
      using ch out by simp
    show "\<forall>x\<in>set (frees 0 xs @ [?h]). b_total_size ((H(?h := relinked ?h (H ?h))) x) < of_nat n"
      using small by (auto simp: relinked_def)
  qed (use v in \<open>simp_all add: relinked_def\<close>)
  have ins: "runs (freelist_insert r s2 (bp r (h_data_offset R) ?h)) Q" if v2: "hview r s s2 ?D H ?R" for s2
    by (rule wp_insert_again [OF v2 subset_refl _ refl sh fr co]) (use H(3) circ Q in \<open>auto\<close>)
  show ?thesis
    unfolding heap_free_block_def
    apply (simp add: hview_rh_loads [OF H(1)] hview_blk_loads [OF H(1) hD refl] tsz)
    apply (rule wp_set_rh_used_bytes [OF H(1)])
    subgoal premises p for s1
      apply (simp add: hview_rh_loads [OF p])
      apply (rule wp_set_rh_block_count [OF p])
      apply (rule ins)
      apply (simp add: count_free_def)
      done
    done
qed

lemma circular_slot:
  assumes "circular r s0 s1 R hs h m" "eview r s1 s k e" "200 \<le> k" "k + 96 \<le> unat (h_data_offset R)"
  shows "circular r s s R hs h m"
  using assms(1) eview_hview [OF _ assms(2-4)] unfolding circular_def by blast

lemma circular_mem:
  assumes "circular r s0 s R hs h m" "mem s' = mem s"
  shows "circular r s' s' R hs h m"
proof -
  have "hview r s' s' D H R" if "hview r s0 s D H R" for D H
    using that assms(2) by (simp add: hview_def)
  then show ?thesis
    using assms(1) unfolding circular_def by blast
qed

lemma circular_dir:
  assumes "circular r s0 s R' hs h m" "dir_rep r s0 R es" and R': "h_dir_offset R' = h_dir_offset R"
    "h_dir_capacity R' = h_dir_capacity R" "h_data_offset R' = h_data_offset R"
  shows "dir_rep r s R' es"
proof -
  obtain D H where v: "hview r s0 s D H R'"
    using assms(1) unfolding circular_def by blast
  show ?thesis
  proof (rule dir_rep_frame [OF assms(2) _ hviewD(6) [OF v] R'])
    fix a assume "200 \<le> a" "a < unat (h_data_offset R)"
    then show "mem s a = mem s0 a"
      using R' by (intro hviewD(8) [OF v]) (auto simp: hdr_bytes_def)
  qed
qed

section \<open>A death in \<open>shm_free\<close>\<close>

text \<open>What the dead process leaves: the block is back in the heap, its entry is still alive.\<close>

lemma shm_free_dies_leaves:
  assumes inv: "pool_inv r s R (xs @ b # ys) es" and lk: "lockable s" and own: "aown b = Some oi"
    and acc: "access_ok (o_owner oi) (o_perms oi) user cp SHM_PERM_FREE"
  shows "runs (shm_free_dies r s (o_id oi) user cp) (\<lambda>t. mutex t = MOwnerDead \<and>
    (\<exists>fl. heap_rep r t (count_free (R\<lparr>h_free_list := fl\<rparr>) (asz b)) (insert_free xs b ys) \<and>
          dir_rep r t (count_free (R\<lparr>h_free_list := fl\<rparr>) (asz b)) es))"
proof -
  let ?s1 = "s\<lparr>mutex := MLocked\<rparr>"
  note l = pool_lock [OF inv lk]
  note dr = pool_invD(2) [OF l(2)]
  obtain i where i: "i < length es" "live (es ! i)" "ent_obj (es ! i) = (span xs + 56, acap b, oi)"
    "first_slot (\<lambda>e. e_id e = o_id oi \<and> e_alive e \<noteq> 0) es 0 = Some i"
    by (rule object_slot [OF pool_invD(5) [OF inv] own])
  have "oi = snd (snd (ent_obj (es ! i)))" and o: "unat (e_off (es ! i)) = span xs + 56"
    using i(3) by (simp_all add: ent_obj_def)
  then have a: "access_ok (e_owner (es ! i)) (e_perms (es ! i)) user cp SHM_PERM_FREE"
    using acc by (simp add: ent_obj_def)
  have slot: "dir_find_by_id r ?s1 (o_id oi) = Some (rp r (slot_pos R i))" "rp r (slot_pos R i) \<noteq> 0"
    using dir_find_by_id_eq [OF dr, of "o_id oi"] i(4) slot_ptr_nonzero [OF dr i(1)] by (simp_all add: slot_ptr_def)
  have off: "ent_off r ?s1 (rp r (slot_pos R i)) = Some (of_nat (span xs + 56))"
    using eview_loads(2) [OF dir_rep_eview [OF dr i(1)]] unat64_eqD [OF o] by simp
  have blk: "shm_blk_of_poff r ?s1 (of_nat (span xs + 56)) = Some (bp r (h_data_offset R) (span xs))"
    using hview_ptrs(6) [OF dir_rep_hview [OF dr] refl] .
  have used: "\<not> is_free b"
    using own by (simp add: is_free_def)
  show ?thesis
    unfolding shm_free_dies_def
    apply (simp add: l(1) slot check_dir_access_eq [OF dr i(1,2)] a off blk del: of_nat_add)
    apply (rule heap_free_block_refines [OF pool_invD(1) [OF l(2)] used refl])
    subgoal premises q for s2 fl
    proof -
      let ?R = "count_free (R\<lparr>h_free_list := fl\<rparr>) (asz b)" and ?t = "s2\<lparr>mutex := MOwnerDead\<rparr>"
      obtain H where H: "hview r ?s1 s2 (set (starts 0 (xs @ b # ys))) H ?R"
        using q by (rule heap_viewE)
      have "heap_rep r s2 ?R (insert_free xs b ys)"
        using q by (rule heap_view_rep)
      then have "heap_rep r ?t ?R (insert_free xs b ys)"
        by (simp add: heap_rep_bytes)
      moreover have "dir_rep r ?t ?R es"
      proof (rule dir_rep_frame [OF dr])
        show "mem ?t a = mem ?s1 a" if "200 \<le> a" "a < unat (h_data_offset R)" for a
          using hviewD(8) [OF H, of a] that by (simp add: hdr_bytes_def)
        show "rh_at (mem ?t) = ?R"
          using hviewD(6) [OF H] by simp
      qed simp_all
      ultimately show ?thesis
        by (intro conjI exI [of _ fl]) simp_all
    qed
    done
qed

text \<open>The counters of what is left fit no pool with this directory.\<close>

lemma count_mismatch:
  assumes "pool_inv r s R bs es" "dir_rep r t R' es" "h_block_count R' \<noteq> h_block_count R"
  shows "\<not> region_inv r t"
proof
  assume "region_inv r t"
  then obtain R2 bs2 es2 where p: "pool_inv r t R2 bs2 es2"
    by (auto simp: region_inv_def)
  have R2: "R2 = R'"
    using pool_invD(8) [OF p] assms(2) by (simp add: dir_rep_def)
  then have "es2 = es"
    using pool_invD(2) [OF p] assms(2) by (simp add: dir_rep_def)
  then have "used_count bs2 = used_count bs"
    using live_count [OF pool_invD(5) [OF p]] live_count [OF pool_invD(5) [OF assms(1)]] by simp
  then show False
    using pool_invD(3) [OF p] pool_invD(3) [OF assms(1)] R2 assms(3) by (simp add: acct_def)
qed

text \<open>The release by the next process, on what the dead one left.\<close>

lemma shm_free_again:
  assumes hr: "heap_rep r t R (xs @ m # zs)" and dr: "dir_rep r t R es" and fr: "is_free m" and co: "coalesced (xs @ m # zs)"
    and lk: "lockable t" and nz: "obj_id \<noteq> 0"
    and i: "first_slot (\<lambda>e. e_id e = obj_id \<and> e_alive e \<noteq> 0) es 0 = Some i" "unat (e_off (es ! i)) = span xs + 56"
    and acc: "access_ok (e_owner (es ! i)) (e_perms (es ! i)) user cp SHM_PERM_FREE"
    and n: "n < 2 ^ 64" "\<forall>c\<in>set (xs @ [m]). is_free c \<longrightarrow> asz c < n"
  shows "runs (shm_free (Some r) t obj_id user cp) (\<lambda>(rc, u). rc = OK \<and> mutex u = MUnlocked \<and>
    dir_rep r u (count_free R (asz m)) (es[i := zero_ent]) \<and>
    circular r u u (count_free R (asz m)) (frees 0 xs) (span xs) (of_nat n))"
proof -
  let ?t1 = "t\<lparr>mutex := MLocked\<rparr>" and ?R = "count_free R (asz m)" and ?k = "slot_pos R i"
  have mp: "mapped r" "200 \<le> unat (rsize r)"
    using hr by (auto simp: heap_rep_bytes)
  have lock: "region_lock r t = Some (OK, ?t1)"
    using mp lk by (rule region_lock_lockable)
  have hr1: "heap_rep r ?t1 R (xs @ m # zs)"
    using hr by (simp add: heap_rep_bytes)
  have dr1: "dir_rep r ?t1 R es"
    using dr by (simp add: dir_rep_def)
  have li: "i < length es" "live (es ! i)"
    using first_slot_SomeD [OF i(1)] nz by (auto simp: live_def)
  have slot: "dir_find_by_id r ?t1 obj_id = Some (rp r ?k)" "rp r ?k \<noteq> 0"
    using dir_find_by_id_eq [OF dr1, of obj_id] i(1) slot_ptr_nonzero [OF dr1 li(1)] by (simp_all add: slot_ptr_def)
  have off: "ent_off r ?t1 (rp r ?k) = Some (of_nat (span xs + 56))"
    using eview_loads(2) [OF dir_rep_eview [OF dr1 li(1)]] unat64_eqD [OF i(2)] by simp
  have blk: "shm_blk_of_poff r ?t1 (of_nat (span xs + 56)) = Some (bp r (h_data_offset R) (span xs))"
    using hview_ptrs(6) [OF dir_rep_hview [OF dr1] refl] .
  note sb = slot_bounds [OF dr1 li(1)]
  show ?thesis
    unfolding shm_free_def
    using nz
    apply (simp add: lock slot check_dir_access_eq [OF dr1 li] acc off blk del: of_nat_add)
    apply (rule wp_free_again [OF hr1 fr co n])
    subgoal premises q for s2
    proof -
      obtain D H where v: "hview r ?t1 s2 D H ?R"
        using q(2) unfolding circular_def by blast
      have dr2: "dir_rep r s2 ?R es"
        by (rule circular_dir [OF q(2) dr1]) simp_all
      have e2: "eview r s2 s2 ?k (ent_at (mem s2) ?k)"
        using mp sb hviewD(3) [OF v] by (intro eview_start) simp_all
      show ?thesis
        apply (rule wp_memset_slot [OF e2])
        apply (rule wp_persist_slot, assumption)
        subgoal premises p for s3 s4
        proof -
          have e: "eview r s2 (shm_drain s4) ?k zero_ent"
            by (rule eview_mem_cong [OF p(2)]) simp_all
          have mu: "mutex (shm_drain s4) = MLocked"
            using e v by (simp add: eview_def hview_def)
          have "circular r (shm_drain s4) (shm_drain s4) ?R (frees 0 xs) (span xs) (of_nat n)"
            using sb by (intro circular_slot [OF q(2) e]) simp_all
          then have c: "circular r (shm_drain s4\<lparr>mutex := MUnlocked\<rparr>) (shm_drain s4\<lparr>mutex := MUnlocked\<rparr>) ?R (frees 0 xs) (span xs) (of_nat n)"
            by (rule circular_mem) simp
          have "dir_rep r (shm_drain s4) ?R (es[i := zero_ent])"
            by (rule dir_at_update [OF dr2 li(1)]) (use e in \<open>simp_all add: slot_pos_def\<close>)
          then have "dir_rep r (shm_drain s4\<lparr>mutex := MUnlocked\<rparr>) ?R (es[i := zero_ent])"
            by (simp add: dir_rep_def)
          then show ?thesis
            using c by (simp add: Let_def region_unlock_locked [OF mp mu])
        qed
        done
    qed
    done
qed

text \<open>An allocation on a circular list that finds no block before the circle.\<close>

lemma shm_alloc_hangs:
  assumes c: "circular r u u R hs h n" "n \<le> alloc_size psize" and dr: "dir_rep r u R es" and i: "i < length es" "\<not> live (es ! i)"
    and lk: "lockable u" and p: "psize \<noteq> 0"
  shows "shm_alloc (Some r) u psize name user pm tag True True = None"
proof -
  let ?u1 = "u\<lparr>mutex := MLocked\<rparr>"
  have mp: "mapped r" "200 \<le> unat (rsize r)"
    using dr by (auto simp: dir_rep_def slot_pos_def)
  have lock: "region_lock r u = Some (OK, ?u1)"
    using mp lk by (rule region_lock_lockable)
  have dr1: "dir_rep r ?u1 R es"
    using dr by (simp add: dir_rep_def)
  obtain j where j: "first_slot (\<lambda>e. \<not> live e) es 0 = Some j"
    using i first_slot_NoneD [of "\<lambda>e. \<not> live e" es] nth_mem [OF i(1)]
    by (cases "first_slot (\<lambda>e. \<not> live e) es 0") auto
  then have jl: "j < length es"
    using first_slot_SomeD [OF j] by simp
  have slot: "dir_find_free_slot r ?u1 = Some (rp r (slot_pos R j))" "rp r (slot_pos R j) \<noteq> 0"
    using dir_find_free_slot_eq [OF dr1] j slot_ptr_nonzero [OF dr1 jl] by (simp_all add: slot_ptr_def)
  have "circular r ?u1 ?u1 R hs h n"
    using c(1) by (rule circular_mem) simp
  then have "heap_alloc_block r ?u1 (alloc_size psize) = None"
    using c(2) by (rule circular_hangs)
  then show ?thesis
    using p by (simp add: shm_alloc_def lock slot Let_def)
qed

lemma interrupted_free:
  assumes inv: "pool_inv r s R (xs @ b # ys) es" and lk: "lockable s" and own: "aown b = Some oi"
    and acc: "access_ok (o_owner oi) (o_perms oi) user cp SHM_PERM_FREE"
    and prev: "xs = [] \<or> \<not> is_free (last xs)" and p: "psize \<noteq> 0"
    and full: "\<forall>c\<in>set (insert_free xs b ys). is_free c \<longrightarrow> asz c < unat (alloc_size psize)"
  shows "runs (shm_free_dies r s (o_id oi) user cp) (\<lambda>t. lockable t \<and> \<not> region_inv r t \<and>
    runs (shm_free (Some r) t (o_id oi) user cp) (\<lambda>(rc, u). rc = OK \<and> mutex u = MUnlocked \<and>
      shm_alloc (Some r) u psize name user' pm tag True True = None))"
proof (rule runs_mono [OF shm_free_dies_leaves [OF inv lk own acc]])
  fix t assume "mutex t = MOwnerDead \<and>
    (\<exists>fl. heap_rep r t (count_free (R\<lparr>h_free_list := fl\<rparr>) (asz b)) (insert_free xs b ys) \<and>
          dir_rep r t (count_free (R\<lparr>h_free_list := fl\<rparr>) (asz b)) es)"
  then obtain fl where mu: "mutex t = MOwnerDead"
    and hr: "heap_rep r t (count_free (R\<lparr>h_free_list := fl\<rparr>) (asz b)) (insert_free xs b ys)"
    and dr: "dir_rep r t (count_free (R\<lparr>h_free_list := fl\<rparr>) (asz b)) es"
    by blast
  let ?R = "count_free (R\<lparr>h_free_list := fl\<rparr>) (asz b)" and ?n = "unat (alloc_size psize)"
  obtain m zs where m: "merge_next (b\<lparr>aown := None\<rparr>) ys = m # zs" "is_free m"
    using merge_next_props(1,2) [of "b\<lparr>aown := None\<rparr>" ys] by (cases "merge_next (b\<lparr>aown := None\<rparr>) ys") auto
  have ins: "insert_free xs b ys = xs @ m # zs"
    using prev m by (auto simp: insert_free_def merge_prev_def)
  have co: "coalesced (xs @ m # zs)"
    using insert_free_coalesced [of xs ys b] pool_invD(4) [OF inv] own unfolding ins
    by (simp add: coalesced_Cons is_free_def)
  obtain i where i: "i < length es" "live (es ! i)" "ent_obj (es ! i) = (span xs + 56, acap b, oi)"
    "first_slot (\<lambda>e. e_id e = o_id oi \<and> e_alive e \<noteq> 0) es 0 = Some i"
    by (rule object_slot [OF pool_invD(5) [OF inv] own])
  have "oi = snd (snd (ent_obj (es ! i)))" and e: "unat (e_off (es ! i)) = span xs + 56"
    using i(3) by (simp_all add: ent_obj_def)
  then have a: "access_ok (e_owner (es ! i)) (e_perms (es ! i)) user cp SHM_PERM_FREE" and nz: "o_id oi \<noteq> 0"
    using acc i(2) by (simp_all add: ent_obj_def live_def)
  have lt: "lockable t"
    using mu by (simp add: lockable_def)
  have small: "\<forall>c\<in>set (xs @ [m]). is_free c \<longrightarrow> asz c < ?n"
    using full by (simp add: ins)
  have "runs (shm_free (Some r) t (o_id oi) user cp) (\<lambda>(rc, u). rc = OK \<and> mutex u = MUnlocked \<and>
      shm_alloc (Some r) u psize name user' pm tag True True = None)"
  proof (rule runs_mono [OF shm_free_again [OF hr [unfolded ins] dr m(2) co lt nz i(4) e a unat64_bound small]])
    fix v assume v: "case v of (rc, u) \<Rightarrow> rc = OK \<and> mutex u = MUnlocked \<and>
      dir_rep r u (count_free ?R (asz m)) (es[i := zero_ent]) \<and>
      circular r u u (count_free ?R (asz m)) (frees 0 xs) (span xs) (of_nat ?n)"
    obtain rc u where u: "v = (rc, u)" by (cases v)
    have "shm_alloc (Some r) u psize name user' pm tag True True = None"
    proof (rule shm_alloc_hangs [where i = i])
      show "circular r u u (count_free ?R (asz m)) (frees 0 xs) (span xs) (alloc_size psize)"
        "dir_rep r u (count_free ?R (asz m)) (es[i := zero_ent])" "lockable u"
        using v by (simp_all add: u lockable_def)
      show "\<not> live (es[i := zero_ent] ! i)"
        using i(1) by (simp add: live_def zero_ent_def)
    qed (use i(1) p in simp_all)
    with v show "case v of (rc, u) \<Rightarrow> rc = OK \<and> mutex u = MUnlocked \<and>
        shm_alloc (Some r) u psize name user' pm tag True True = None"
      by (simp add: u)
  qed
  moreover have "\<not> region_inv r t"
    using inv dr by (rule count_mismatch) (simp add: count_free_def)
  ultimately show "lockable t \<and> \<not> region_inv r t \<and>
    runs (shm_free (Some r) t (o_id oi) user cp) (\<lambda>(rc, u). rc = OK \<and> mutex u = MUnlocked \<and>
      shm_alloc (Some r) u psize name user' pm tag True True = None)"
    using lt by blast
qed

section \<open>A death in \<open>shm_alloc\<close>\<close>

text \<open>One block more is taken from the heap, without an object; the directory is as before.\<close>

lemma shm_alloc_dies_leaves:
  assumes inv: "pool_inv r s R bs es" and lk: "lockable s" and n: "56 \<le> unat (alloc_size psize)"
    and slot: "first_slot (\<lambda>e. \<not> live e) es 0 = Some i" and ff: "first_fit (unat (alloc_size psize)) bs = Some (xs, b, ys)"
  shows "runs (shm_alloc_dies r s psize) (\<lambda>t. lockable t \<and> \<not> region_inv r t \<and>
    (\<exists>fl. let R' = count_alloc (R\<lparr>h_free_list := fl\<rparr>) (taken_size (unat (alloc_size psize)) b) in
       heap_rep r t R' (xs @ take_block (unat (alloc_size psize)) no_owner b @ ys) \<and> dir_rep r t R' es))"
proof -
  let ?s1 = "s\<lparr>mutex := MLocked\<rparr>" and ?n = "unat (alloc_size psize)"
  let ?bs = "xs @ take_block ?n no_owner b @ ys"
  note l = pool_lock [OF inv lk]
  note dr = pool_invD(2) [OF l(2)]
  have i: "i < length es"
    using first_slot_SomeD [OF slot] by simp
  have free: "dir_find_free_slot r ?s1 = Some (rp r (slot_pos R i))" "rp r (slot_pos R i) \<noteq> 0"
    using dir_find_free_slot_eq [OF dr] slot slot_ptr_nonzero [OF dr i] by (simp_all add: slot_ptr_def)
  have sz: "alloc_size psize = of_nat ?n" by simp
  show ?thesis
    unfolding shm_alloc_dies_def
    apply (simp add: l(1) free Let_def)
    apply (subst sz)
    apply (rule heap_alloc_block_refines [OF pool_invD(1) [OF l(2)] n alloc_size_dvd unat64_bound refl])
    subgoal by (simp add: ff)
    subgoal premises q for s2 fl xs' b' ys'
    proof -
      let ?R = "count_alloc (R\<lparr>h_free_list := fl\<rparr>) (taken_size ?n b)" and ?t = "s2\<lparr>mutex := MOwnerDead\<rparr>"
      have eq: "xs' = xs" "b' = b" "ys' = ys"
        using q(1) ff by simp_all
      note hv = q(2) [unfolded eq]
      obtain H where H: "hview r ?s1 s2 (set (starts 0 ?bs)) H ?R"
        using hv by (rule heap_viewE)
      have nz: "bp r (h_data_offset R) (span xs) \<noteq> 0"
        by (rule bp_nonzero [OF H]) (simp_all add: take_block_Cons)
      have hr: "heap_rep r ?t ?R ?bs"
        using heap_view_rep [OF hv] by (simp add: heap_rep_bytes)
      have dt: "dir_rep r ?t ?R es"
      proof (rule dir_rep_frame [OF dr])
        show "mem ?t a = mem ?s1 a" if "200 \<le> a" "a < unat (h_data_offset R)" for a
          using hviewD(8) [OF H, of a] that by (simp add: hdr_bytes_def)
        show "rh_at (mem ?t) = ?R"
          using hviewD(6) [OF H] by simp
      qed (simp_all add: count_alloc_def)
      have "\<not> region_inv r ?t"
        using inv dt by (rule count_mismatch) (simp add: count_alloc_def)
      then show ?thesis
        using hr dt nz eq by (auto simp: lockable_def Let_def)
    qed
    done
qed

end
