(* ===== verification/Shm_Durable.thy ===== *)
theory Shm_Durable
  imports Shm_Track Shm_Death
begin

text \<open>
  What of a change is on the persistent medium when the call returns. The operations of the heap and
  of the directory are walked once more, this time for the bytes that they store to and the lines
  that they flush: \<open>shm_alloc\<close> leaves at most one link of the free list behind, \<open>shm_free\<close> at
  most the two counters, \<open>shm_block_set_perms\<close> nothing.
\<close>

lemma ends_True [simp]: "ends c (\<lambda>v. True)"
  by (simp add: ends_def)

section \<open>Bytes of the structures\<close>

definition hdr_range :: "u64 \<Rightarrow> nat \<Rightarrow> nat set" where
  "hdr_range d h = {unat d + h..<unat d + h + 56}"

definition link_cell :: "u64 \<Rightarrow> nat \<Rightarrow> nat set" where
  "link_cell d h = {unat d + h + 48..<unat d + h + 56}"

lemma hdr_line_bytes: "hdr_range d h \<subseteq> line_bytes (unat d + h) 56"
  by (auto simp: hdr_range_def intro: line_bytes_range)

lemma owns_hdr: "unat d + h + 56 \<le> unat (rsize r) \<Longrightarrow> hdr_range d h \<subseteq> X \<Longrightarrow> owns_blk r d X h"
  by (auto simp: owns_blk_def hdr_range_def)

lemma payload_offset: "bp r d h + SIZEOF_BLOCK_HDR = rbase r + of_nat (unat d + h + 56)"
  by (simp add: bp_def SIZEOF_BLOCK_HDR_def add.assoc add.commute)

text \<open>A step whose effect on the structures is known as well.\<close>

lemma ends_step:
  "runs c P \<Longrightarrow> ends c T \<Longrightarrow> (\<And>v. P v \<Longrightarrow> T v \<Longrightarrow> ends (f v) Q) \<Longrightarrow> ends (Option.bind c f) Q"
  by (cases c) simp_all

text \<open>A store to the link of a block, when only that may be stored to.\<close>

lemma track_set_link:
  assumes "tracked r d X F s0 s" "unat d + h + 56 \<le> unat (rsize r)" "link_cell d h \<subseteq> X"
  shows "ends (set_blk_next_free r s (bp r d h) w) (tracked r d X F s0)"
proof -
  have off: "region_off r (bp r d h + 48) = unat d + h + 48"
    using assms(2) by (simp add: region_off_bp)
  show ?thesis
    unfolding set_blk_next_free_def
    by (rule tracked_cell(3) [OF assms(1), where n = 8]) (use assms in \<open>auto simp: off link_cell_def tracked_def\<close>)
qed

section \<open>The heap\<close>

text \<open>The link that leads to a block: the list head, or that of the free block before it.\<close>

definition pred_link :: "u64 \<Rightarrow> nat list \<Rightarrow> nat set" where
  "pred_link d hs = (if hs = [] then {} else link_cell d (last hs))"

lemma track_heap_split:
  assumes t: "tracked r d X F s0 s" and o: "owns_blk r d X h" "owns_blk r d X (h + n)"
    and F: "lines (unat d + (h + n)) 56 \<subseteq> F" and Y: "X - line_bytes (unat d + (h + n)) 56 \<subseteq> Y"
  shows "ends (heap_split r s (bp r d h) (of_nat n) rem) (tracked r d Y F s0)"
  unfolding heap_split_def Let_def bp_add
  apply (insert t)
  apply (rule ends_seq, rule track_rules, assumption, rule o)+
  apply (rule ends_load)
  apply (rule ends_seq, rule track_rules, assumption, rule o)+
  apply (rule track_persist_blk [OF _ _ F Y], assumption)
  apply (use o in \<open>simp add: owns_blk_def\<close>)
  done

lemma track_heap_relink:
  assumes t: "tracked r d X F s0 s" and le: "\<forall>h\<in>set hs. unat d + h + 56 \<le> unat (rsize r)"
    and X: "if hs = [] then {88..<96} \<subseteq> X else pred_link d hs \<subseteq> X"
  shows "ends (heap_relink r s (last_link 0 hs) lnk) (tracked r d X F s0)"
proof (cases "hs = []")
  case True
  then show ?thesis
    using X track_set_rh(1) [OF t] by (simp add: heap_relink_def)
next
  case False
  then have p: "unat d + last hs + 56 \<le> unat (rsize r)" "link_cell d (last hs) \<subseteq> X"
    using le X by (simp_all add: pred_link_def)
  then have b: "last hs + 56 < 2 ^ 64"
    using unat64_bound [of "rsize r"] by linarith
  show ?thesis
    using False track_set_link [OF t p] tracked_ptrs(2) [OF t b] link_to_nonzero [OF b]
    by (simp add: heap_relink_def last_link_def)
qed

lemma track_heap_mark:
  assumes t: "tracked r d X F s0 s" and o: "owns_blk r d X h" and c: "{88..<112} \<subseteq> X"
    and F: "lines (unat d + h) 56 \<subseteq> F" "1 \<in> F" and Y: "X - line_bytes (unat d + h) 56 - {64..<128} \<subseteq> Y"
  shows "ends (heap_mark r s (bp r d h)) (tracked r d Y F s0)"
  unfolding heap_mark_def
  apply (insert t)
  apply (rule ends_seq, rule track_rules, assumption, rule o)+
  apply (rule ends_load, rule ends_load)
  apply (rule ends_seq, rule track_rules, assumption, use c in force)
  apply (rule ends_load)
  apply (rule ends_seq, rule track_rules, assumption, use c in force)
  apply (rule ends_seq, rule track_persist_blk [OF _ _ F(1) subset_refl], assumption, use o in \<open>simp add: owns_blk_def\<close>)
  apply simp
  apply (rule track_persist_rh, assumption, simp, simp, rule F(2))
  apply (rule Y)
  done

lemma track_heap_take:
  assumes t: "tracked r d Y F s0 s" and h: "unat d + h + 56 \<le> unat (rsize r)"
    and hs: "\<forall>x\<in>set hs. unat d + x + 56 \<le> unat (rsize r)"
    and nb: "\<And>sz. blk_total_size r s (bp r d h) = Some sz \<Longrightarrow> BLOCK_MIN \<le> sz - of_nat n \<Longrightarrow> unat d + (h + n) + 56 \<le> unat (rsize r)"
    and F: "lines (unat d + h) 56 \<subseteq> F" "lines (unat d + (h + n)) 56 \<subseteq> F" "1 \<in> F"
    and W: "\<And>sz. blk_total_size r s (bp r d h) = Some sz \<Longrightarrow>
      (if BLOCK_MIN \<le> sz - of_nat n then Y - hdr_range d (h + n) else Y) \<subseteq> W"
  shows "ends (heap_take r s (bp r d h) (of_nat n) (last_link 0 hs)) (tracked r d (W \<union> pred_link d hs) F s0)"
proof -
  let ?X = "W \<union> hdr_range d h \<union> {88..<112} \<union> pred_link d hs"
  have mark: "ends (heap_mark r s' (bp r d h)) (tracked r d (W \<union> pred_link d hs) F s0)" if "tracked r d ?X F s0 s'" for s'
    by (rule track_heap_mark [OF that _ _ F(1,3)]) (use h hdr_line_bytes [of d h] in \<open>auto intro!: owns_hdr\<close>)
  have relink: "ends (heap_relink r s' (last_link 0 hs) lnk) (tracked r d ?X F s0)" if "tracked r d ?X F s0 s'" for s' lnk
    by (rule track_heap_relink [OF that hs]) auto
  show ?thesis
  proof (cases "blk_total_size r s (bp r d h)")
    case None
    then show ?thesis
      by (simp add: heap_take_def)
  next
    case (Some sz)
    show ?thesis
    proof (cases "BLOCK_MIN \<le> sz - of_nat n")
      case True
      let ?Z = "?X \<union> Y \<union> hdr_range d (h + n)"
      have W': "Y - hdr_range d (h + n) \<subseteq> W"
        using W [OF Some] True by simp
      have nb': "unat d + (h + n) + 56 \<le> unat (rsize r)"
        using nb [OF Some True] .
      have "ends (heap_split r s (bp r d h) (of_nat n) (sz - of_nat n)) (tracked r d ?X F s0)"
        by (rule track_heap_split [OF tracked_mono [OF t] _ _ F(2), of ?Z])
          (use h nb' W' hdr_line_bytes [of d "h + n"] in \<open>auto intro!: owns_hdr\<close>)
      then show ?thesis
        unfolding heap_take_def Some Option.bind_lunit Let_def if_P [OF True] ends_bind
        by (rule ends_mono) (auto simp: ends_def dest: endsD [OF relink] endsD [OF mark])
    next
      case False
      have "tracked r d ?X F s0 s"
        by (rule tracked_mono [OF t]) (use W [OF Some] False in auto)
      then show ?thesis
        unfolding heap_take_def Some Option.bind_lunit Let_def if_not_P [OF False] ends_bind
        by (auto simp: ends_def dest: endsD [OF relink] endsD [OF mark])
    qed
  qed
qed

text \<open>A release flushes lines of the heap; that of the list head only when the block comes first.\<close>

lemma heap_lines: "tracked r d X F s0 s \<Longrightarrow> {3..} \<subseteq> F \<Longrightarrow> lines (unat d + h) n \<subseteq> F"
  by (force simp: tracked_def lines_def)

lemma track_freelist_clear:
  assumes t: "tracked r d X F s0 s" and o: "owns_blk r d X h"
  shows "ends (freelist_clear r s (bp r d h)) (tracked r d X F s0)"
  unfolding freelist_clear_def
  apply (insert t)
  apply (rule ends_seq, rule track_rules, assumption, rule o)+
  apply (rule track_rules, assumption, rule o)
  done

lemma track_merge_blocks:
  assumes t: "tracked r d X F s0 s" and p: "owns_blk r d X hp" and q: "unat d + hq + 56 \<le> unat (rsize r)"
    and F: "{3..} \<subseteq> F"
  shows "ends (merge_blocks r s (bp r d hp) (bp r d hq)) (tracked r d (X - hdr_range d hq) F s0)"
proof -
  let ?X = "X \<union> hdr_range d hq"
  have t': "tracked r d ?X F s0 s" and p': "owns_blk r d ?X hp" and q': "owns_blk r d ?X hq"
    using tracked_mono [OF t] owns_mono(1) [OF p] owns_hdr [OF q] by auto
  show ?thesis
    unfolding merge_blocks_def
    apply (insert t')
    apply (rule ends_load, rule ends_load)
    apply (rule ends_seq, rule track_rules, assumption, rule p')
    apply (rule ends_load)
    apply (rule ends_seq, rule track_rules, assumption, rule p')
    apply (rule ends_seq, rule track_rules, assumption, rule q')
    apply (rule track_persist_blk [OF _ q heap_lines [OF t F]], assumption)
    using hdr_line_bytes [of d hq] apply auto
    done
qed

lemma track_freelist_splice:
  assumes t: "tracked r d X F s0 s" and b: "owns_blk r d X hb"
    and hs: "\<forall>h\<in>set hs1. unat d + h + 56 \<le> unat (rsize r)"
    and X: "if hs1 = [] then {88..<96} \<subseteq> X else pred_link d hs1 \<subseteq> X"
  shows "ends (freelist_splice r s (bp r d hb) (of_nat hb) (last_link 0 hs1) l) (tracked r d X F s0)"
  unfolding freelist_splice_def heap_relink_def [symmetric]
proof (rule ends_seq)
  show "ends (set_blk_next_free r s (bp r d hb) l) (tracked r d X F s0)"
    by (rule track_set_blk(9) [OF t b])
qed (rule track_heap_relink [OF _ hs X])

lemma track_coalesce_next:
  assumes t: "tracked r d X F s0 s" and b: "owns_blk r d X hb"
    and hs: "\<forall>h\<in>set hs2. unat d + h + 56 \<le> unat (rsize r)" and F: "{3..} \<subseteq> F"
  shows "ends (coalesce_next r s (bp r d hb) (of_nat hb) (first_link hs2)) (tracked r d X F s0)"
proof (cases hs2)
  case Nil
  then show ?thesis
    using t by (simp add: coalesce_next_def)
next
  case (Cons hc cs)
  then have c: "unat d + hc + 56 \<le> unat (rsize r)" "hc + 56 < 2 ^ 64"
    using hs unat64_bound [of "rsize r"] by auto
  have "ends (merge_blocks r s (bp r d hb) (bp r d hc)) (tracked r d X F s0)"
    using track_merge_blocks [OF t b c(1) F] by (rule ends_mono) (auto elim: tracked_mono)
  then show ?thesis
    using t link_to_nonzero [OF c(2)]
    by (auto simp: coalesce_next_def Cons tracked_ptrs(2) [OF t c(2)] intro!: ends_load)
qed

lemma track_coalesce_prev:
  assumes t: "tracked r d (Y \<union> hdr_range d hb \<union> (if hs1 = [] then {88..<96} else pred_link d hs1)) F s0 s"
    and b: "unat d + hb + 56 \<le> unat (rsize r)" and hs: "\<forall>h\<in>set hs1. unat d + h + 56 \<le> unat (rsize r)"
    and F: "{3..} \<subseteq> F" "hs1 = [] \<Longrightarrow> 1 \<in> F"
  shows "ends (coalesce_prev r s (bp r d hb) (of_nat hb) (last_link 0 hs1))
    (tracked r d (if hs1 = [] then Y - {64..<128} else Y) F s0)"
proof (cases "hs1 = []")
  case True
  have t1: "tracked r d (Y \<union> hdr_range d hb \<union> {88..<96}) F s0 s"
    using t True by simp
  have "ends (shm_persist r s (shm_rh r + 88) 8) (tracked r d ((Y - {64..<128}) \<union> hdr_range d hb) F s0)"
    by (rule track_persist_rh [OF t1]) (use F(2) [OF True] in auto)
  moreover have "ends (shm_persist r s' (bp r d hb) SIZEOF_BLOCK_HDR) (tracked r d (Y - {64..<128}) F s0)"
    if "tracked r d ((Y - {64..<128}) \<union> hdr_range d hb) F s0 s'" for s'
    using hdr_line_bytes [of d hb] by (intro track_persist_blk [OF that b heap_lines [OF t F(1)]]) auto
  ultimately show ?thesis
    using True by (auto simp: coalesce_prev_def intro: ends_seq)
next
  case False
  let ?p = "last hs1"
  have p: "unat d + ?p + 56 \<le> unat (rsize r)" "?p + 56 < 2 ^ 64"
    using hs False unat64_bound [of "rsize r"] last_in_set [OF False] by fastforce+
  have lc: "link_cell d ?p \<subseteq> hdr_range d ?p"
    by (auto simp: link_cell_def hdr_range_def)
  have t1: "tracked r d (Y \<union> hdr_range d hb \<union> hdr_range d ?p) F s0 s"
    using t lc False by (elim tracked_mono) (auto simp: pred_link_def)
  have both: "ends (shm_persist r s' (bp r d ?p) SIZEOF_BLOCK_HDR) (tracked r d (Y \<union> hdr_range d hb) F s0)"
    if "tracked r d (Y \<union> hdr_range d hb \<union> hdr_range d ?p) F s0 s'" for s'
    using hdr_line_bytes [of d ?p] by (intro track_persist_blk [OF that p(1) heap_lines [OF t F(1)]]) auto
  have own: "ends (shm_persist r s' (bp r d hb) SIZEOF_BLOCK_HDR) (tracked r d Y F s0)"
    if "tracked r d (Y \<union> hdr_range d hb) F s0 s'" for s'
    using hdr_line_bytes [of d hb] by (intro track_persist_blk [OF that b heap_lines [OF t F(1)]]) auto
  have "ends (merge_blocks r s (bp r d ?p) (bp r d hb)) (tracked r d (Y \<union> hdr_range d ?p) F s0)"
    by (rule ends_mono [OF track_merge_blocks [OF t1 _ b F(1)]]) (use p in \<open>auto intro!: owns_hdr elim!: tracked_mono\<close>)
  then have "ends (merge_blocks r s (bp r d ?p) (bp r d hb)) (\<lambda>s. ends (shm_persist r s (bp r d ?p) SIZEOF_BLOCK_HDR) (tracked r d Y F s0))"
    by (rule ends_mono) (rule track_persist_blk [OF _ p(1) heap_lines [OF t F(1)]], use hdr_line_bytes [of d ?p] in auto)
  moreover have "ends (shm_persist r s (bp r d ?p) SIZEOF_BLOCK_HDR)
      (\<lambda>s. ends (shm_persist r s (bp r d hb) SIZEOF_BLOCK_HDR) (tracked r d Y F s0))"
    using both [OF t1] by (rule ends_mono) (rule own)
  moreover have "last_link 0 hs1 = link_to ?p"
    using False by (simp add: last_link_def)
  ultimately show ?thesis
    using False link_to_nonzero [OF p(2)]
    by (auto simp: coalesce_prev_def tracked_ptrs(2) [OF t p(2)] ends_bind intro!: ends_load)
qed

lemma track_freelist_insert:
  assumes v: "hview r sv s D H R" and d: "d = h_data_offset R" and hb: "hb \<in> D" and hs: "set (hs1 @ hs2) \<subseteq> D"
    and lo: "\<forall>h\<in>set hs1. h \<le> hb" and hi: "\<forall>h\<in>set hs2. hb < h" and ch: "fseg H (h_free_list R) (hs1 @ hs2) 0"
    and t: "tracked r d (Y \<union> hdr_range d hb \<union> pred_link d hs1) F s0 s" and F: "{3..} \<subseteq> F" "hs1 = [] \<Longrightarrow> 1 \<in> F"
  shows "ends (freelist_insert r s (bp r d hb)) (tracked r d (if hs1 = [] then Y - {64..<128} else Y) F s0)"
proof -
  let ?X = "Y \<union> hdr_range d hb \<union> pred_link d hs1" and ?Z = "Y \<union> hdr_range d hb \<union> (if hs1 = [] then {88..<96} else pred_link d hs1)"
  have le: "unat d + h + 56 \<le> unat (rsize r)" if "h \<in> D" for h
    using hviewD(5) [OF v that] d by simp
  have bs: "unat d + hb + 56 \<le> unat (rsize r)" "\<forall>h\<in>set hs1. unat d + h + 56 \<le> unat (rsize r)"
    "\<forall>h\<in>set hs2. unat d + h + 56 \<le> unat (rsize r)"
    using le hb hs by auto
  have oX: "owns_blk r d ?X hb" and oZ: "owns_blk r d ?Z hb"
    using bs(1) by (auto intro!: owns_hdr)
  have tail: "ends (coalesce_next r s' (bp r d hb) (of_nat hb) (first_link hs2))
      (\<lambda>s. ends (coalesce_prev r s (bp r d hb) (of_nat hb) (last_link 0 hs1))
        (tracked r d (if hs1 = [] then Y - {64..<128} else Y) F s0))" if "tracked r d ?Z F s0 s'" for s'
    using track_coalesce_next [OF that oZ bs(3) F(1)] by (rule ends_mono) (rule track_coalesce_prev [OF _ bs(1,2) F])
  show ?thesis
    unfolding freelist_insert_def tracked_ptrs(1) [OF t] Option.bind_lunit
  proof (rule ends_step)
    show "ends (freelist_clear r s (bp r d hb)) (tracked r d ?X F s0)"
      using t oX by (rule track_freelist_clear)
    show "runs (freelist_clear r s (bp r d hb)) (\<lambda>s'. hview r sv s' D (H(hb := (H hb)\<lparr>b_allocated := 0, b_obj_id := 0,
        b_owner := 0, b_perms := 0, b_type_tag := 0\<rparr>)) R)"
      by (rule wp_freelist_clear [OF v hb d])
    fix s1 assume v1: "hview r sv s1 D (H(hb := (H hb)\<lparr>b_allocated := 0, b_obj_id := 0, b_owner := 0, b_perms := 0,
        b_type_tag := 0\<rparr>)) R" and t1: "tracked r d ?X F s0 s1"
    have ch1: "fseg (H(hb := (H hb)\<lparr>b_allocated := 0, b_obj_id := 0, b_owner := 0, b_perms := 0, b_type_tag := 0\<rparr>))
        (h_free_list R) (hs1 @ hs2) 0"
      by (subst fseg_cong [where H' = H]) (use ch in auto)
    have pos: "freelist_pos r s1 (of_nat hb) 0 (h_free_list R) = Some (last_link 0 hs1, first_link hs2)"
      by (rule freelist_pos_walk [OF v1 hs hview_bound [OF v hb] lo hi ch1])
    have tZ: "tracked r d ?Z F s0 s1"
      by (rule tracked_mono [OF t1]) (auto simp: pred_link_def)
    have "ends (freelist_splice r s1 (bp r d hb) (of_nat hb) (last_link 0 hs1) (first_link hs2)) (tracked r d ?Z F s0)"
      by (rule track_freelist_splice [OF tZ oZ bs(2)]) auto
    then show "ends (do { fl \<leftarrow> rh_free_list r s1;
        (prev_lnk, cur_lnk) \<leftarrow> freelist_pos r s1 (of_nat hb) 0 fl;
        s \<leftarrow> freelist_splice r s1 (bp r d hb) (of_nat hb) prev_lnk cur_lnk;
        s \<leftarrow> coalesce_next r s (bp r d hb) (of_nat hb) cur_lnk;
        coalesce_prev r s (bp r d hb) (of_nat hb) prev_lnk })
      (tracked r d (if hs1 = [] then Y - {64..<128} else Y) F s0)"
      unfolding hview_rh_loads(9) [OF v1] Option.bind_lunit pos prod.case
      by (rule ends_seq) (use tail in \<open>simp add: ends_bind\<close>)
  qed
qed

end
