(* ===== verification/Shm_Settled.thy ===== *)
theory Shm_Settled
  imports Shm_Durable
begin

text \<open>
  What of a call is on the persistent medium when it returns. \<open>settled Y s\<close>: outside \<open>Y\<close> the
  medium holds what loads see and nothing is on its way. \<open>shm_alloc\<close> leaves at most the link that leads
  to the block it took, \<open>shm_free\<close> at most the two counters, \<open>shm_block_set_perms\<close> nothing, and a
  failing call changes neither memory nor medium.
\<close>

section \<open>Settled states\<close>

definition settled :: "nat set \<Rightarrow> machine \<Rightarrow> bool" where
  "settled Y s \<longleftrightarrow> (\<forall>a. a \<notin> Y \<longrightarrow> durable s a \<and> wpq s a = None)"

lemma settled_mono: "settled X s \<Longrightarrow> X \<subseteq> Y \<Longrightarrow> settled Y s"
  by (auto simp: settled_def)

lemma settled_mutex [simp]: "settled Y (s\<lparr>mutex := m\<rparr>) = settled Y s"
  by (simp add: settled_def durable_def)

lemma settled_start:
  assumes "pool_inv r s R bs es" "cmode s \<noteq> CACHE_NONE" "settled Y s"
  shows "tracked r (h_data_offset R) Y F s s"
proof (rule tracked_start)
  show "200 \<le> unat (h_data_offset R)"
    using pool_invD(2) [OF assms(1)] by (auto simp: dir_rep_def slot_pos_def)
  show "written_back s a" if "a \<notin> Y" for a
    using assms(3) that by (simp add: settled_def written_back_def durable_def)
qed (use pool_invD(6-8) [OF assms(1)] assms(2) in simp_all)

lemma tracked_settled: "tracked r d Y F s0 s \<Longrightarrow> settled Y (shm_drain s)"
  using tracked_drain [of r d Y F s0 s] by (auto simp: settled_def shm_drain_def tracked_def split: cache_mode.splits)

section \<open>The heap operations on a pool\<close>

text \<open>The header of the remainder, when the block is split.\<close>

definition rest_hdr :: "u64 \<Rightarrow> nat \<Rightarrow> ablk list \<Rightarrow> ablk \<Rightarrow> nat set" where
  "rest_hdr d n xs b = (if n + 64 \<le> asz b then hdr_range d (span xs + n) else {})"

lemma track_heap_alloc:
  assumes hv: "heap_rep r s R bs" and n: "n < 2 ^ 64" and d: "d = h_data_offset R" and t: "tracked r d Y F s0 s"
    and ff: "first_fit n bs = Some (xs, b, ys)"
    and F: "lines (unat d + span xs) 56 \<subseteq> F" "lines (unat d + (span xs + n)) 56 \<subseteq> F" "1 \<in> F"
  shows "ends (heap_alloc_block r s (of_nat n))
    (\<lambda>(p, s'). p = bp r d (span xs) \<and> tracked r d ((Y - rest_hdr d n xs b) \<union> pred_link d (frees 0 xs)) F s0 s')"
proof -
  have bs: "bs = xs @ b # ys" "is_free b" "n \<le> asz b"
    using first_fit_SomeD [OF ff] by auto
  obtain H where H: "hview r s s (set (starts 0 bs)) H R" "heap_shape H R bs" "unat (h_data_offset R) + span bs = unat (rsize r)"
    using hv unfolding heap_rep_def by (rule heap_viewE)
  have le: "unat d + x + 56 \<le> unat (rsize r)" if "x \<in> set (starts 0 bs)" for x
    using hviewD(5) [OF H(1) that] d by simp
  have h: "span xs \<in> set (starts 0 bs)"
    by (simp add: bs)
  have "blk_total_size r s (bp r d (span xs)) = Some (of_nat (asz b))"
    using hview_blk_loads [OF H(1) h d] tiles_size [of H xs b ys] H(2) by (simp add: heap_shape_def bs)
  moreover have "unat d + span bs < 2 ^ 64"
    using H(3) unat64_bound [of "rsize r"] d by simp
  then have "asz b < 2 ^ 64"
    by (simp add: bs)
  then have "BLOCK_MIN \<le> of_nat (asz b) - of_nat n \<longleftrightarrow> n + 64 \<le> asz b"
    using of_nat64_le_iff [of 64 "asz b - n"] bs(3) by (auto simp: layout_consts)
  ultimately have "ends (heap_take r s (bp r d (span xs)) (of_nat n) (last_link 0 (frees 0 xs)))
      (tracked r d ((Y - rest_hdr d n xs b) \<union> pred_link d (frees 0 xs)) F s0)"
    using H(3) d frees_starts [of 0 xs] le
    by (intro track_heap_take [OF t le [OF h] _ _ F]) (auto simp: bs rest_hdr_def)
  then show ?thesis
    unfolding heap_alloc_block_eq(2) [OF hv n d ff] by (rule ends_seq) simp
qed

lemma track_heap_free:
  assumes hv: "heap_rep r s R (xs @ b # ys)" and used: "\<not> is_free b" and d: "d = h_data_offset R"
    and t: "tracked r d Y F s0 s" and F: "{3..} \<subseteq> F" "frees 0 xs = [] \<Longrightarrow> 1 \<in> F"
  shows "ends (heap_free_block r s (bp r d (span xs)))
    (tracked r d (if frees 0 xs = [] then Y - {64..<128} else Y \<union> {96..<112}) F s0)"
proof -
  let ?D = "set (starts 0 (xs @ b # ys))" and ?h = "span xs" and ?Y = "Y \<union> {96..<112}"
  obtain H where H: "hview r s s ?D H R" "heap_shape H R (xs @ b # ys)"
    using hv unfolding heap_rep_def by (rule heap_viewE)
  have wf: "list_all wf_blk (xs @ b # ys)"
    using H(2) by (auto simp: heap_shape_def dest: tiles_wf)
  have ch: "fseg H (h_free_list R) (frees 0 xs @ frees (?h + asz b) ys) 0"
    using H(2) used by (auto simp: heap_shape_def)
  have hD: "?h \<in> ?D" by simp
  have ins: "ends (freelist_insert r s' (bp r d ?h)) (tracked r d (if frees 0 xs = [] then Y - {64..<128} else ?Y) F s0)"
    if v: "hview r s s' ?D H R'" and R': "h_data_offset R' = h_data_offset R" "h_free_list R' = h_free_list R"
      and t': "tracked r d ?Y F s0 s'" for s' R'
  proof (rule ends_mono [OF track_freelist_insert [OF v _ hD _ _ _ _ _ F]])
    show "set (frees 0 xs @ frees (?h + asz b) ys) \<subseteq> ?D"
      using frees_starts [of 0 xs] frees_starts [of "?h + asz b" ys] by auto
    show "\<forall>h\<in>set (frees 0 xs). h \<le> ?h"
      using frees_starts [of 0 xs] starts_le [of xs _ 0] wf by fastforce
    show "\<forall>h\<in>set (frees (?h + asz b) ys). ?h < h"
      using frees_starts [of "?h + asz b" ys] starts_ge [of _ "?h + asz b" ys] wf by (fastforce simp: wf_blk_def)
    show "tracked r d (?Y \<union> hdr_range d ?h \<union> pred_link d (frees 0 xs)) F s0 s'"
      by (rule tracked_mono [OF t']) auto
  qed (use R' d ch in \<open>auto elim!: tracked_mono\<close>)
  have v1: "runs (set_rh_used_bytes r s x) (\<lambda>s'. hview r s s' ?D H (R\<lparr>h_used_bytes := x\<rparr>))" for x
    by (rule wp_set_rh_used_bytes [OF H(1)])
  have t1: "ends (set_rh_used_bytes r s x) (tracked r d ?Y F s0)" for x
    by (rule track_set_rh(2) [OF tracked_mono [OF t]]) auto
  show ?thesis
    unfolding heap_free_block_def
    apply (intro ends_load [where c = "rh_used_bytes r s"] ends_load [where c = "blk_total_size r s (bp r d ?h)"])
    apply (rule ends_step [OF v1 t1])
    apply (rule ends_load)
    subgoal premises p for x y s1 c
      apply (rule ends_step [OF wp_set_rh_block_count [OF p(1)] track_set_rh(3) [OF p(2)]])
        apply assumption
       apply force
      by (rule ins, assumption) simp_all
    done
qed

section \<open>The stages of an allocation\<close>

definition pay_range :: "u64 \<Rightarrow> nat \<Rightarrow> nat \<Rightarrow> nat set" where
  "pay_range d h c = {unat d + h + 56..<unat d + h + 56 + c}"

lemma track_alloc_init_block:
  assumes v: "hview r sv s D H R" and hD: "h \<in> D" and d: "d = h_data_offset R"
    and c: "unat (b_payload_cap (H h)) = c" and fits: "unat d + h + 56 + c \<le> unat (rsize r)"
    and out: "\<And>a. unat d + h + 56 \<le> a \<Longrightarrow> a < unat d + h + 56 + c \<Longrightarrow> a \<notin> hdr_bytes (unat d) D"
    and t: "tracked r d Y F s0 s" and F: "lines (unat d + h) 56 \<subseteq> F" "lines (unat d + h + 56) c \<subseteq> F"
  shows "ends (alloc_init_block r s (bp r d h) nid user pm tag) (tracked r d (Y - pay_range d h c) F s0)"
proof -
  let ?Z = "Y - pay_range d h c" and ?X = "Y \<union> hdr_range d h \<union> pay_range d h c"
  have le: "unat d + h + 56 \<le> unat (rsize r)"
    using fits by simp
  have o: "owns_blk r d ?X h"
    by (rule owns_hdr [OF le]) auto
  have t': "tracked r d ?X F s0 s"
    by (rule tracked_mono [OF t]) auto
  have cap: "b_payload_cap (H h) = of_nat c"
    using c by (rule unat64_eqD)
  have uc: "unat (of_nat c :: u64) = c"
    using c cap by simp
  have off: "region_off r (bp r d h + SIZEOF_BLOCK_HDR) = unat d + h + 56"
    using t le by (simp add: region_off_bp SIZEOF_BLOCK_HDR_def tracked_def)
  have zero: "ends (memset r s' (bp r d h + SIZEOF_BLOCK_HDR) 0 (of_nat c)) (tracked r d ?X F s0)"
    if "tracked r d ?X F s0 s'" for s'
    by (rule track_memset [OF that]) (use t in \<open>simp add: off uc pay_range_def tracked_def\<close>)
  have flush: "ends (shm_persist r s' (bp r d h + SIZEOF_BLOCK_HDR) (of_nat c)) (tracked r d (?Z \<union> hdr_range d h) F s0)"
    if "tracked r d ?X F s0 s'" for s'
    unfolding payload_offset using track_persist [OF that fits F(2)]
    by (rule ends_mono) (auto elim!: tracked_mono simp: pay_range_def intro: line_bytes_range)
  have hdr: "ends (shm_persist r s' (bp r d h) SIZEOF_BLOCK_HDR) (tracked r d ?Z F s0)"
    if "tracked r d (?Z \<union> hdr_range d h) F s0 s'" for s'
    by (rule track_persist_blk [OF that le F(1)]) (use hdr_line_bytes [of d h] in auto)
  have view: "runs (set_blk_type_tag r s' (bp r d h) x) (\<lambda>s'. hview r sv s' D (G(h := (G h)\<lparr>b_type_tag := x\<rparr>)) R)"
    "runs (set_blk_owner r s' (bp r d h) x) (\<lambda>s'. hview r sv s' D (G(h := (G h)\<lparr>b_owner := x\<rparr>)) R)"
    "runs (set_blk_perms r s' (bp r d h) x) (\<lambda>s'. hview r sv s' D (G(h := (G h)\<lparr>b_perms := x\<rparr>)) R)"
    "runs (set_blk_obj_id r s' (bp r d h) w) (\<lambda>s'. hview r sv s' D (G(h := (G h)\<lparr>b_obj_id := w\<rparr>)) R)"
    if "hview r sv s' D G R" for s' G x w
    by (rule wp_set_blk_type_tag wp_set_blk_owner wp_set_blk_perms wp_set_blk_obj_id, rule that, rule hD, rule d, assumption)+
  show ?thesis
    unfolding alloc_init_block_def
    apply (insert v t')
    apply (rule ends_step [OF view(1) track_set_blk(2) [OF _ o]], assumption+)
    apply (rule ends_step [OF view(2) track_set_blk(3) [OF _ o]], assumption+)
    apply (rule ends_step [OF view(3) track_set_blk(4) [OF _ o]], assumption+)
    apply (rule ends_step [OF view(4) track_set_blk(6) [OF _ o]], assumption+)
    subgoal premises p for s1 s2 s3 s4
      apply (simp add: hview_blk_loads(7) [OF p(9) hD d] cap)
      apply (rule ends_step [OF wp_memset_payload [OF p(9) hD d fits out] zero [OF p(10)]], assumption+)
      subgoal premises q for s5
        apply (simp add: hview_blk_loads(7) [OF q(1) hD d] cap)
        apply (rule ends_seq [OF flush [OF q(2)]])
        apply (rule hdr, assumption)
        done
      done
    done
qed

lemma track_alloc_fill_slot:
  assumes t: "tracked r d X F s0 s" and o: "owns_slot r X k"
  shows "ends (alloc_fill_slot r s (rp r k) b nid psize name user pm tag) (tracked r d X F s0)"
proof -
  have nm: "ends (case name of None \<Rightarrow> Some s'
      | Some nm \<Rightarrow> if nm \<noteq> [] then strncpy r s' (ent_name_ptr (rp r k)) nm (DIR_NAME_MAX - 1) else Some s') (tracked r d X F s0)"
    if "tracked r d X F s0 s'" for s'
    using that track_strncpy [OF that o] by (auto split: option.splits)
  show ?thesis
    unfolding alloc_fill_slot_def
    apply (insert t)
    apply (rule ends_seq, rule track_memset_slot, assumption, rule o)
    apply (rule ends_seq, rule track_set_ent(1), assumption, rule o)
    apply (rule ends_load)
    apply (rule ends_seq, rule track_set_ent(2), assumption, rule o)
    apply (rule ends_load)
    apply (rule ends_seq, rule track_set_ent, assumption, rule o)+
    apply (rule nm, assumption)
    done
qed

text \<open>The payload of a block that was just carved.\<close>

lemma carved_payload:
  assumes hv: "heap_view r s s2 (set (starts 0 (xs @ take_block n no_owner b @ ys))) R (xs @ take_block n no_owner b @ ys)"
  obtains H where "hview r s s2 (set (starts 0 (xs @ take_block n no_owner b @ ys))) H R"
    "span xs \<in> set (starts 0 (xs @ take_block n no_owner b @ ys))"
    "unat (b_payload_cap (H (span xs))) = acap (taken n no_owner b)"
    "unat (h_data_offset R) + span xs + 56 + acap (taken n no_owner b) \<le> unat (rsize r)"
    "pay_range (h_data_offset R) (span xs) (acap (taken n no_owner b)) \<inter>
       hdr_bytes (unat (h_data_offset R)) (set (starts 0 (xs @ take_block n no_owner b @ ys))) = {}"
proof -
  let ?bs = "xs @ take_block n no_owner b @ ys"
  from hv obtain H where H: "hview r s s2 (set (starts 0 ?bs)) H R" "heap_shape H R ?bs"
    "unat (h_data_offset R) + span ?bs = unat (rsize r)" "list_all wf_blk ?bs"
    by (rule heap_viewE)
  have ob: "(span xs + 56, acap (taken n no_owner b), no_owner) \<in> set (blk_objs 0 ?bs)"
    by (simp add: take_block_Cons)
  show thesis
  proof (rule that [OF H(1)])
    show "unat (b_payload_cap (H (span xs))) = acap (taken n no_owner b)"
      using H(2) by (simp add: heap_shape_def take_block_Cons blk_ok_def sizes_ok_def taken_def)
    show "unat (h_data_offset R) + span xs + 56 + acap (taken n no_owner b) \<le> unat (rsize r)"
      using blk_objs_bounds(2) [OF ob H(4)] H(3) by simp
    show "pay_range (h_data_offset R) (span xs) (acap (taken n no_owner b)) \<inter> hdr_bytes (unat (h_data_offset R)) (set (starts 0 ?bs)) = {}"
      using payload_no_hdr [OF H(4) ob, of "unat (h_data_offset R)"] by (auto simp: in_payload_def pay_range_def)
  qed (simp add: take_block_Cons)
qed

text \<open>The cache lines that an allocation flushes.\<close>

definition alloc_lines :: "u64 \<Rightarrow> nat \<Rightarrow> nat \<Rightarrow> ablk list \<Rightarrow> ablk \<Rightarrow> nat set" where
  "alloc_lines d k n xs b = {1} \<union> lines k 96 \<union> lines (unat d + span xs) 56 \<union> lines (unat d + (span xs + n)) 56 \<union>
     lines (unat d + span xs + 56) (acap (taken n no_owner b))"

lemma tracked_unlock:
  assumes "tracked r d Y F s0 s" "region_unlock r (shm_drain s) = Some s'"
  shows "settled Y s' \<and> (\<forall>a. a div 64 \<notin> F \<longrightarrow> wpq s0 a = None \<longrightarrow> pmem s' a = pmem s0 a)"
proof -
  have s': "s' = pthread_mutex_unlock (shm_drain s)"
    using assms(2) by (auto simp: region_unlock_def split: if_splits)
  have eq: "mem s' = mem (shm_drain s)" "pmem s' = pmem (shm_drain s)" "wpq s' = wpq (shm_drain s)"
    by (simp_all add: s' pthread_mutex_unlock_def split: mutex_state.splits)
  show ?thesis
    using tracked_settled [OF assms(1)] tracked_drain_still [OF assms(1)] by (simp add: settled_def durable_def eq)
qed

lemma track_alloc_tail:
  assumes hv: "heap_view r s s2 (set (starts 0 (xs @ take_block n no_owner b @ ys))) R (xs @ take_block n no_owner b @ ys)"
    and d: "d = h_data_offset R" and t: "tracked r d Y F s0 s2" and k: "200 \<le> k" "k + 96 \<le> unat (rsize r)"
    and F: "alloc_lines d k n xs b \<subseteq> F"
  shows "ends (do {
       new_id \<leftarrow> rh_next_id r s2;
       s \<leftarrow> set_rh_next_id r s2 (new_id + 1);
       s \<leftarrow> alloc_init_block r s (bp r d (span xs)) new_id user pm tag;
       s \<leftarrow> alloc_fill_slot r s (rp r k) (bp r d (span xs)) new_id psize name user pm tag;
       s \<leftarrow> shm_persist r s (rp r k) SIZEOF_OBJ_ENTRY;
       s \<leftarrow> shm_persist r s (shm_rh r + 112) 8;
       let s = shm_drain s;
       off \<leftarrow> ent_off r s (rp r k);
       s \<leftarrow> region_unlock r s;
       Some (OK, Some (new_id, off), s) })
    (\<lambda>(rc, out, s'). settled (Y - pay_range d (span xs) (acap (taken n no_owner b))) s' \<and>
       (\<forall>a. a div 64 \<notin> F \<longrightarrow> wpq s0 a = None \<longrightarrow> pmem s' a = pmem s0 a))"
proof -
  let ?c = "acap (taken n no_owner b)" and ?h = "span xs"
  let ?Z = "Y - pay_range d ?h ?c" and ?N = "{112..<120} :: nat set" and ?K = "{k..<k + 96}"
  obtain H where H: "hview r s s2 (set (starts 0 (xs @ take_block n no_owner b @ ys))) H R"
    and hD: "?h \<in> set (starts 0 (xs @ take_block n no_owner b @ ys))" and c: "unat (b_payload_cap (H ?h)) = ?c"
    and fits: "unat (h_data_offset R) + ?h + 56 + ?c \<le> unat (rsize r)"
    and out: "pay_range (h_data_offset R) ?h ?c \<inter>
       hdr_bytes (unat (h_data_offset R)) (set (starts 0 (xs @ take_block n no_owner b @ ys))) = {}"
    by (rule carved_payload [OF hv])
  have Fs: "1 \<in> F" "lines k 96 \<subseteq> F" "lines (unat d + ?h) 56 \<subseteq> F" "lines (unat d + ?h + 56) ?c \<subseteq> F"
    using F by (auto simp: alloc_lines_def)
  have o: "owns_slot r (?Z \<union> ?N \<union> ?K) k"
    using k by (simp add: owns_slot_def)
  have id: "runs (set_rh_next_id r s2 (x + 1)) (\<lambda>s'. hview r s s' (set (starts 0 (xs @ take_block n no_owner b @ ys))) H
      (R\<lparr>h_next_id := x + 1\<rparr>))" for x
    by (rule wp_set_rh_next_id [OF H])
  have id': "ends (set_rh_next_id r s2 (x + 1)) (tracked r d (Y \<union> ?N) F s0)" for x
    by (rule track_set_rh(4) [OF tracked_mono [OF t]]) auto
  have init: "ends (alloc_init_block r s' (bp r d ?h) x user pm tag) (tracked r d (?Z \<union> ?N \<union> ?K) F s0)"
    if v: "hview r s s' (set (starts 0 (xs @ take_block n no_owner b @ ys))) H (R\<lparr>h_next_id := x + 1\<rparr>)"
      and t': "tracked r d (Y \<union> ?N) F s0 s'" for s' x
    by (rule ends_mono [OF track_alloc_init_block [OF v hD _ c _ _ t' Fs(3,4)]])
      (use d fits out in \<open>auto simp: pay_range_def elim!: tracked_mono\<close>)
  have slot: "ends (shm_persist r s' (rp r k) SIZEOF_OBJ_ENTRY) (tracked r d (?Z \<union> ?N) F s0)"
    if "tracked r d (?Z \<union> ?N \<union> ?K) F s0 s'" for s'
    by (rule track_persist_slot [OF that k(2) Fs(2)]) (auto intro: line_bytes_range)
  have rh: "ends (shm_persist r s' (shm_rh r + 112) 8) (tracked r d ?Z F s0)" if "tracked r d (?Z \<union> ?N) F s0 s'" for s'
    by (rule track_persist_rh [OF that _ _ Fs(1)]) auto
  show ?thesis
    apply (rule ends_load)
    apply (rule ends_step [OF id id'])
    apply (rule ends_seq [OF init], assumption, assumption)
    apply (rule ends_seq [OF track_alloc_fill_slot [OF _ o]], assumption)
    apply (rule ends_seq [OF slot], assumption)
    apply (rule ends_seq [OF rh], assumption)
    apply (unfold Let_def, rule ends_load)
    apply (auto simp: ends_def bind_eq_Some_conv dest: tracked_unlock)
    done
qed

section \<open>The calls\<close>

lemma settled_locked:
  assumes "pool_inv r s R bs es" "lockable s" "cmode s \<noteq> CACHE_NONE" "settled Y s"
  shows "tracked r (h_data_offset R) Y F (s\<lparr>mutex := MLocked\<rparr>) (s\<lparr>mutex := MLocked\<rparr>)"
  by (rule settled_start [OF pool_lock(2) [OF assms(1,2)]]) (use assms in simp_all)

text \<open>What an allocation leaves: the link that leads to the block, if that is in another block.\<close>

definition alloc_rest :: "u64 \<Rightarrow> nat set \<Rightarrow> nat \<Rightarrow> ablk list \<Rightarrow> ablk \<Rightarrow> nat set" where
  "alloc_rest d Y n xs b =
     (Y - rest_hdr d n xs b - pay_range d (span xs) (acap (taken n no_owner b))) \<union> pred_link d (frees 0 xs)"

lemma shm_alloc_settles:
  assumes inv: "pool_inv r s R bs es" and lk: "lockable s" and c: "cmode s \<noteq> CACHE_NONE" and st: "settled Y s"
    and p: "psize \<noteq> 0" and n: "56 \<le> unat (alloc_size psize)"
    and slot: "first_slot (\<lambda>e. \<not> live e) es 0 = Some i" and ff: "first_fit (unat (alloc_size psize)) bs = Some (xs, b, ys)"
    and F: "F = alloc_lines (h_data_offset R) (slot_pos R i) (unat (alloc_size psize)) xs b"
  shows "ends (shm_alloc (Some r) s psize name user pm tag True True) (\<lambda>(rc, out, s').
     settled (alloc_rest (h_data_offset R) Y (unat (alloc_size psize)) xs b) s' \<and>
     (\<forall>a. a div 64 \<notin> F \<longrightarrow> wpq s a = None \<longrightarrow> pmem s' a = pmem s a))"
proof -
  let ?s1 = "s\<lparr>mutex := MLocked\<rparr>" and ?n = "unat (alloc_size psize)" and ?d = "h_data_offset R"
  let ?Y = "(Y - rest_hdr ?d ?n xs b) \<union> pred_link ?d (frees 0 xs)" and ?k = "slot_pos R i"
  note l = pool_lock [OF inv lk]
  note dr = pool_invD(2) [OF l(2)] and hr = pool_invD(1) [OF l(2)]
  have i: "i < length es"
    using first_slot_SomeD [OF slot] by simp
  note sb = slot_bounds [OF dr i]
  have find: "dir_find_free_slot r ?s1 = Some (rp r ?k)" "rp r ?k \<noteq> 0"
    using dir_find_free_slot_eq [OF dr] slot slot_ptr_nonzero [OF dr i] by (simp_all add: slot_ptr_def)
  have args: "\<not> (psize = 0 \<or> \<not> True \<or> \<not> True)"
    using p by simp
  let ?P = "\<lambda>(q, s2). \<exists>fl. q = bp r ?d (span xs) \<and>
     heap_view r ?s1 s2 (set (starts 0 (xs @ take_block ?n no_owner b @ ys)))
       (count_alloc (R\<lparr>h_free_list := fl\<rparr>) (taken_size ?n b)) (xs @ take_block ?n no_owner b @ ys)"
  have heap: "runs (heap_alloc_block r ?s1 (alloc_size psize)) ?P"
    using heap_alloc_block_refines [OF hr n alloc_size_dvd unat64_bound refl, of ?P] ff by auto
  have track: "ends (heap_alloc_block r ?s1 (alloc_size psize)) (\<lambda>(q, s2). q = bp r ?d (span xs) \<and> tracked r ?d ?Y F ?s1 s2)"
  proof -
    have "lines (unat ?d + span xs) 56 \<subseteq> F" "lines (unat ?d + (span xs + ?n)) 56 \<subseteq> F" "1 \<in> F"
      by (auto simp: F alloc_lines_def)
    from track_heap_alloc [OF hr unat64_bound refl settled_locked [OF inv lk c st] ff this] show ?thesis
      by simp
  qed
  show ?thesis
    unfolding shm_alloc_def option.case if_not_P [OF args] l(1) Option.bind_lunit prod.case find(1)
      if_not_P [OF find(2)] Let_def
  proof (rule ends_step [OF heap track])
    fix v assume P: "?P v" and T: "case v of (q, s2) \<Rightarrow> q = bp r ?d (span xs) \<and> tracked r ?d ?Y F ?s1 s2"
    obtain s2 fl where v: "v = (bp r ?d (span xs), s2)"
      and hv: "heap_view r ?s1 s2 (set (starts 0 (xs @ take_block ?n no_owner b @ ys)))
       (count_alloc (R\<lparr>h_free_list := fl\<rparr>) (taken_size ?n b)) (xs @ take_block ?n no_owner b @ ys)"
      using P by auto
    have t: "tracked r ?d ?Y F ?s1 s2"
      using T v by simp
    obtain H where H: "hview r ?s1 s2 (set (starts 0 (xs @ take_block ?n no_owner b @ ys))) H
        (count_alloc (R\<lparr>h_free_list := fl\<rparr>) (taken_size ?n b))"
      using hv by (rule heap_viewE)
    have nz: "bp r ?d (span xs) \<noteq> 0"
      by (rule bp_nonzero [OF H]) (simp_all add: take_block_Cons)
    have k: "?k + 96 \<le> unat (rsize r)"
      using sb(2) dr by (simp add: dir_rep_def)
    show "ends (case v of (b, s) \<Rightarrow>
        if b = 0 then Option.bind (region_unlock r s) (\<lambda>s. Some (ENOMEM, None, s))
        else do {
          new_id \<leftarrow> rh_next_id r s;
          s \<leftarrow> set_rh_next_id r s (new_id + 1);
          s \<leftarrow> alloc_init_block r s b new_id user pm tag;
          s \<leftarrow> alloc_fill_slot r s (rp r ?k) b new_id psize name user pm tag;
          s \<leftarrow> shm_persist r s (rp r ?k) SIZEOF_OBJ_ENTRY;
          s \<leftarrow> shm_persist r s (shm_rh r + 112) 8;
          off \<leftarrow> ent_off r (shm_drain s) (rp r ?k);
          s \<leftarrow> region_unlock r (shm_drain s);
          Some (OK, Some (new_id, off), s) })
      (\<lambda>(rc, out, s'). settled (alloc_rest ?d Y ?n xs b) s' \<and> (\<forall>a. a div 64 \<notin> F \<longrightarrow> wpq s a = None \<longrightarrow> pmem s' a = pmem s a))"
      unfolding v prod.case if_not_P [OF nz]
      by (rule ends_mono [OF track_alloc_tail [OF hv _ t sb(1) k, unfolded Let_def]])
        (auto simp: F alloc_rest_def elim!: settled_mono)
  qed
qed

lemma shm_alloc_fails:
  assumes inv: "pool_inv r s R bs es" and lk: "lockable s"
    and p: "psize \<noteq> 0" and none: "first_slot (\<lambda>e. \<not> live e) es 0 = None \<or> first_fit (unat (alloc_size psize)) bs = None"
  shows "shm_alloc (Some r) s psize name user pm tag True True =
    Some (if first_slot (\<lambda>e. \<not> live e) es 0 = None then ENOSPC else ENOMEM, None, s\<lparr>mutex := MUnlocked\<rparr>)"
proof -
  note l = pool_lock [OF inv lk]
  note dr = pool_invD(2) [OF l(2)] and hr = pool_invD(1) [OF l(2)]
  note slot = dir_find_free_slot_eq [OF dr]
  show ?thesis
  proof (cases "first_slot (\<lambda>e. \<not> live e) es 0")
    case None
    then show ?thesis
      using p by (simp add: shm_alloc_def l slot slot_ptr_def)
  next
    case (Some i)
    then have "rp r (slot_pos R i) \<noteq> 0"
      using first_slot_SomeD [OF Some] slot_ptr_nonzero [OF dr] by simp
    then show ?thesis
      using p Some none heap_alloc_block_eq(1) [OF hr unat64_bound refl]
      by (simp add: shm_alloc_def l slot slot_ptr_def Let_def)
  qed
qed

text \<open>What a release leaves: the two counters, unless the block comes first in the free list.\<close>

definition free_rest :: "nat set \<Rightarrow> ablk list \<Rightarrow> nat set" where
  "free_rest Y xs = (if frees 0 xs = [] then Y - {64..<128} else Y \<union> {96..<112})"

lemma slot_lines: "200 \<le> k \<Longrightarrow> {3..} \<subseteq> F \<Longrightarrow> lines k 96 \<subseteq> F"
  by (force simp: lines_def)

lemma shm_free_settles:
  assumes inv: "pool_inv r s R bs es" and lk: "lockable s" and c: "cmode s \<noteq> CACHE_NONE" and st: "settled Y s"
    and nz: "obj_id \<noteq> 0" and slot: "first_slot (\<lambda>e. e_id e = obj_id \<and> e_alive e \<noteq> 0) es 0 = Some i"
    and acc: "access_ok (e_owner (es ! i)) (e_perms (es ! i)) user cp SHM_PERM_FREE"
    and bs: "bs = xs @ b # ys" "\<not> is_free b" "unat (e_off (es ! i)) = span xs + 56"
  shows "ends (shm_free (Some r) s obj_id user cp) (\<lambda>(rc, s'). settled (free_rest Y xs) s' \<and>
     (frees 0 xs \<noteq> [] \<longrightarrow> (\<forall>a. a div 64 = 1 \<longrightarrow> wpq s a = None \<longrightarrow> pmem s' a = pmem s a)))"
proof -
  let ?s1 = "s\<lparr>mutex := MLocked\<rparr>" and ?k = "slot_pos R i" and ?d = "h_data_offset R"
  let ?F = "{3..} \<union> (if frees 0 xs = [] then {1} else {})" and ?Z = "free_rest Y xs"
  note l = pool_lock [OF inv lk]
  note dr = pool_invD(2) [OF l(2)] and hr = pool_invD(1) [OF l(2)]
  have i: "i < length es" "live (es ! i)"
    using first_slot_SomeD [OF slot] nz by (auto simp: live_def)
  note sb = slot_bounds [OF dr i(1)]
  have find: "dir_find_by_id r ?s1 obj_id = Some (rp r ?k)" "rp r ?k \<noteq> 0"
    using dir_find_by_id_eq [OF dr, of obj_id] slot slot_ptr_nonzero [OF dr i(1)] by (simp_all add: slot_ptr_def)
  have off: "ent_off r ?s1 (rp r ?k) = Some (of_nat (span xs + 56))"
    using eview_loads(2) [OF dir_rep_eview [OF dr i(1)]] unat64_eqD [OF bs(3)] by simp
  have blk: "shm_blk_of_poff r ?s1 (of_nat (span xs + 56)) = Some (bp r ?d (span xs))"
    using hview_ptrs(6) [OF dir_rep_hview [OF dr] refl] .
  have k: "?k + 96 \<le> unat (rsize r)"
    using sb(2) dr by (simp add: dir_rep_def)
  have heap: "ends (heap_free_block r ?s1 (bp r ?d (span xs))) (tracked r ?d ?Z ?F ?s1)"
    unfolding free_rest_def
    by (rule track_heap_free [OF hr [unfolded bs(1)] bs(2) refl settled_locked [OF inv lk c st]]) auto
  have wipe: "ends (memset r s' (rp r ?k) 0 SIZEOF_OBJ_ENTRY) (tracked r ?d (?Z \<union> {?k..<?k + 96}) ?F ?s1)"
    if "tracked r ?d ?Z ?F ?s1 s'" for s'
    by (rule track_memset_slot [OF tracked_mono [OF that]]) (use sb(1) k in \<open>auto simp: owns_slot_def\<close>)
  have flush: "ends (shm_persist r s' (rp r ?k) SIZEOF_OBJ_ENTRY) (tracked r ?d ?Z ?F ?s1)"
    if "tracked r ?d (?Z \<union> {?k..<?k + 96}) ?F ?s1 s'" for s'
    by (rule track_persist_slot [OF that k slot_lines [OF sb(1)]]) (auto intro: line_bytes_range)
  show ?thesis
    unfolding shm_free_def option.case if_not_P [OF nz] l(1) Option.bind_lunit prod.case find(1) if_not_P [OF find(2)]
      check_dir_access_eq [OF dr i] if_P [OF acc] off blk Let_def
    apply simp
    apply (rule ends_seq [OF heap])
    apply (rule ends_seq [OF wipe], assumption)
    apply (rule ends_seq [OF flush], assumption)
    apply (auto simp: ends_def bind_eq_Some_conv dest!: tracked_unlock)
    done
qed

lemma shm_free_fails:
  assumes inv: "pool_inv r s R bs es" and lk: "lockable s" and nz: "obj_id \<noteq> 0"
    and none: "first_slot (\<lambda>e. e_id e = obj_id \<and> e_alive e \<noteq> 0) es 0 = None \<or>
      (\<exists>i. first_slot (\<lambda>e. e_id e = obj_id \<and> e_alive e \<noteq> 0) es 0 = Some i \<and>
         \<not> access_ok (e_owner (es ! i)) (e_perms (es ! i)) user cp SHM_PERM_FREE)"
  shows "\<exists>rc. rc \<noteq> OK \<and> shm_free (Some r) s obj_id user cp = Some (rc, s\<lparr>mutex := MUnlocked\<rparr>)"
proof -
  note l = pool_lock [OF inv lk]
  note dr = pool_invD(2) [OF l(2)]
  note slot = dir_find_by_id_eq [OF dr, of obj_id]
  show ?thesis
  proof (cases "first_slot (\<lambda>e. e_id e = obj_id \<and> e_alive e \<noteq> 0) es 0")
    case None
    then show ?thesis
      using nz by (simp add: shm_free_def l slot slot_ptr_def)
  next
    case (Some i)
    have i: "i < length es" "live (es ! i)"
      using first_slot_SomeD [OF Some] nz by (auto simp: live_def)
    then show ?thesis
      using nz Some none slot_ptr_nonzero [OF dr i(1)] check_dir_access_eq [OF dr i, of user cp SHM_PERM_FREE]
      by (simp add: shm_free_def l slot slot_ptr_def)
  qed
qed

text \<open>A change of permissions leaves nothing.\<close>

lemma shm_block_set_perms_settles:
  assumes inv: "pool_inv r s R (xs @ b # ys) es" and lk: "lockable s" and c: "cmode s \<noteq> CACHE_NONE" and st: "settled Y s"
    and own: "aown b = Some oi"
  shows "ends (shm_block_set_perms (Some r) s (of_nat (span xs + 56)) user cp np) (\<lambda>(rc, s'). settled Y s')"
proof -
  let ?s1 = "s\<lparr>mutex := MLocked\<rparr>" and ?bs = "xs @ b # ys" and ?h = "span xs" and ?d = "h_data_offset R"
  note l = pool_lock [OF inv lk]
  note dr = pool_invD(2) [OF l(2)]
  note hr = pool_invD(1) [OF l(2)]
  note blk = blk_of_poff_eq [OF hr, of ?h]
  have chk: "check_block_access r ?s1 (bp r ?d ?h) user cp SHM_PERM_WRITE =
      Some (if access_ok (o_owner oi) (o_perms oi) user cp SHM_PERM_WRITE then OK else EACCES)"
    using block_target_eq [OF hr refl] own by (intro blk_check.check_live) simp
  have c1: "cmode ?s1 \<noteq> CACHE_NONE"
    using c by simp
  have t0: "tracked r ?d Y UNIV ?s1 ?s1"
    by (rule settled_locked [OF inv lk c st])
  obtain H where H: "hview r ?s1 ?s1 (set (starts 0 ?bs)) H R" "?h \<in> set (starts 0 ?bs)"
    using hr by (rule heap_rep_block)
  have le: "unat ?d + ?h + 56 \<le> unat (rsize r)"
    using hviewD(5) [OF H] by simp
  have set: "runs (set_blk_perms r ?s1 (bp r ?d ?h) np) (\<lambda>s'. hview r ?s1 s' (set (starts 0 ?bs)) (H(?h := (H ?h)\<lparr>b_perms := np\<rparr>)) R)"
    by (rule wp_set_blk_perms [OF H refl])
  have set': "ends (set_blk_perms r ?s1 (bp r ?d ?h) np) (tracked r ?d (Y \<union> hdr_range ?d ?h) UNIV ?s1)"
    by (rule track_set_blk(4) [OF tracked_mono [OF t0] owns_hdr [OF le]]) auto
  have flush: "runs (shm_persist r s' (bp r ?d ?h) SIZEOF_BLOCK_HDR) (\<lambda>s'. hview r ?s1 s' (set (starts 0 ?bs)) G R)"
    if "hview r ?s1 s' (set (starts 0 ?bs)) G R" for s' G
    by (rule wp_persist_blk [OF that H(2) refl])
  have flush': "ends (shm_persist r s' (bp r ?d ?h) SIZEOF_BLOCK_HDR) (tracked r ?d Y UNIV ?s1)"
    if "tracked r ?d (Y \<union> hdr_range ?d ?h) UNIV ?s1 s'" for s'
    by (rule track_persist_blk [OF that le]) (use hdr_line_bytes [of ?d ?h] in auto)
  have find: "dir_find_by_id r s' x = Some 0 \<or> (\<exists>i < length es. dir_find_by_id r s' x = Some (rp r (slot_pos R i)))"
    if "hview r ?s1 s' (set (starts 0 ?bs)) G R" for s' G x
  proof -
    have "dir_rep r s' R es"
      by (rule dir_rep_frame [OF dr]) (use hviewD(6,8) [OF that] in \<open>auto simp: hdr_bytes_def\<close>)
    from dir_find_by_id_eq [OF this, of x] show ?thesis
      by (auto simp: slot_ptr_def split: option.splits dest: first_slot_SomeD)
  qed
  have slot: "ends (Option.bind (set_ent_perms r s' (rp r (slot_pos R i)) np) (\<lambda>s. shm_persist r s (rp r (slot_pos R i)) SIZEOF_OBJ_ENTRY))
      (tracked r ?d Y UNIV ?s1)" if t: "tracked r ?d Y UNIV ?s1 s'" and i: "i < length es" for s' i
  proof (rule ends_seq)
    let ?k = "slot_pos R i"
    have k: "200 \<le> ?k" "?k + 96 \<le> unat (rsize r)"
      using slot_bounds [OF dr i] dr by (simp_all add: dir_rep_def)
    show "ends (set_ent_perms r s' (rp r ?k) np) (tracked r ?d (Y \<union> {?k..<?k + 96}) UNIV ?s1)"
      by (rule track_set_ent(7) [OF tracked_mono [OF t]]) (use k in \<open>auto simp: owns_slot_def\<close>)
    show "ends (shm_persist r s (rp r ?k) SIZEOF_OBJ_ENTRY) (tracked r ?d Y UNIV ?s1)"
      if "tracked r ?d (Y \<union> {?k..<?k + 96}) UNIV ?s1 s" for s
      by (rule track_persist_slot [OF that k(2)]) (auto intro: line_bytes_range)
  qed
  have finish: "ends (Option.bind (if q \<noteq> 0 then Option.bind (set_ent_perms r s' q np) (\<lambda>s. shm_persist r s q SIZEOF_OBJ_ENTRY) else Some s')
      (\<lambda>s. Option.bind (region_unlock r (shm_drain s)) (\<lambda>s. Some (OK, s)))) (\<lambda>(rc, s'). settled Y s')"
    if "tracked r ?d Y UNIV ?s1 s'" "q = 0 \<or> (\<exists>i < length es. q = rp r (slot_pos R i))" for s' q
    apply (rule ends_seq [where P = "tracked r ?d Y UNIV ?s1"])
    subgoal using that slot by auto
    by (auto simp: ends_def bind_eq_Some_conv dest: tracked_unlock)
  show ?thesis
  proof (cases "access_ok (o_owner oi) (o_perms oi) user cp SHM_PERM_WRITE")
    case False
    then show ?thesis
      using st by (simp add: shm_block_set_perms_def l(1,3) blk chk del: of_nat_add)
  next
    case True
    then show ?thesis
      apply (simp add: shm_block_set_perms_def l(1,3) blk chk Let_def del: of_nat_add)
      apply (rule ends_step [OF set set'])
      apply (rule ends_step [OF flush flush'], assumption, assumption)
      apply (rule ends_load)
      subgoal premises p for s2 s3 x
      proof -
        obtain q where q: "dir_find_by_id r s3 x = Some q" "q = 0 \<or> (\<exists>i < length es. q = rp r (slot_pos R i))"
          using find [of s3 _ x] p(4) by auto
        show ?thesis
          unfolding q(1) Option.bind_lunit by (rule finish [OF p(5) q(2)])
      qed
      done
  qed
qed

end
