(* ===== verification/Shm_Crash.thy ===== *)
theory Shm_Crash
  imports Shm_Settled
begin

text \<open>
  Power failures after a call. \<open>crash\<close> forgets what the caches hold. A pool whose structures are on
  the medium survives it; every call keeps that, apart from the link before an allocated block and the
  counters of a release. With the link lost the free list leads to a live object and the next
  allocation takes it again.
\<close>

section \<open>The medium after a failure\<close>

text \<open>Loads see the medium again. The mutex, kept apart from the bytes, is as the last call left it.\<close>

definition crash :: "machine \<Rightarrow> machine" where
  "crash s = s\<lparr>mem := pmem s, wpq := (\<lambda>_. None)\<rparr>"

lemma crash_sel [simp]: "mem (crash s) = pmem s" "mutex (crash s) = mutex s" "cmode (crash s) = cmode s"
  by (simp_all add: crash_def)

lemma crash_settled: "settled Y s \<Longrightarrow> a \<notin> Y \<Longrightarrow> mem (crash s) a = mem s a"
  by (simp add: settled_def durable_def)

text \<open>Every byte of the structures is on the medium, except perhaps those of \<open>Y\<close>.\<close>

definition on_medium :: "nat set \<Rightarrow> region_hdr \<Rightarrow> ablk list \<Rightarrow> machine \<Rightarrow> bool" where
  "on_medium Y R bs s \<longleftrightarrow> settled (- meta_bytes (unat (h_data_offset R)) bs \<union> Y) s"

lemma crash_pool:
  assumes "pool_inv r s R bs es" "on_medium {} R bs s"
  shows "pool_inv r (crash s) R bs es"
  using assms crash_settled [of _ s] by (intro pool_inv_meta [OF assms(1)]) (auto simp: on_medium_def)

section \<open>The structures after a call\<close>

lemma meta_of_hdrs: "set (starts 0 bs') \<subseteq> set (starts 0 bs) \<Longrightarrow> meta_bytes d bs' \<subseteq> meta_bytes d bs"
  by (auto simp: meta_bytes_def hdr_bytes_def)

lemma take_meta:
  assumes "n \<le> asz b"
  shows "meta_bytes (unat d) (xs @ take_block n i b @ ys) \<subseteq> meta_bytes (unat d) (xs @ b # ys) \<union> rest_hdr d n xs b"
proof -
  have "set (starts 0 (xs @ take_block n i b @ ys)) =
      set (starts 0 (xs @ b # ys)) \<union> (if n + 64 \<le> asz b then {span xs + n} else {})"
    using assms by (auto simp: take_block_def)
  then show ?thesis
    by (auto simp: meta_bytes_def hdr_bytes_def rest_hdr_def hdr_range_def split: if_splits)
qed

lemma alloc_rest_meta:
  assumes "n \<le> asz b"
  shows "alloc_rest d (- meta_bytes (unat d) (xs @ b # ys)) n xs b
    \<subseteq> - meta_bytes (unat d) (xs @ take_block n i b @ ys) \<union> pred_link d (frees 0 xs)"
  using take_meta [OF assms, of d xs i ys] by (auto simp: alloc_rest_def)

lemma merge_next_starts: "set (starts h (merge_next b ys)) \<subseteq> set (starts h (b # ys))"
  by (cases ys) (auto simp: absorb_def add.assoc)

lemma insert_free_starts: "set (starts 0 (insert_free xs b ys)) \<subseteq> set (starts 0 (xs @ b # ys))"
proof -
  obtain z zs where z: "merge_next (b\<lparr>aown := None\<rparr>) ys = z # zs"
    using merge_next_props(1) [of "b\<lparr>aown := None\<rparr>" ys]
    by (cases "merge_next (b\<lparr>aown := None\<rparr>) ys") (auto simp: is_free_def)
  have sub: "set (starts h (z # zs)) \<subseteq> set (starts h (b # ys))" for h
    using merge_next_starts [of h "b\<lparr>aown := None\<rparr>" ys] by (simp add: z)
  show ?thesis
  proof (cases "xs \<noteq> [] \<and> is_free (last xs)")
    case True
    then obtain us p where xs: "xs = us @ [p]"
      by (cases xs rule: rev_cases) auto
    show ?thesis
      using True sub [of "span us + asz p"] by (auto simp: insert_free_def z merge_prev_def xs absorb_def add.assoc)
  next
    case False
    then have "insert_free xs b ys = xs @ z # zs"
      by (auto simp: insert_free_def z merge_prev_def)
    then show ?thesis
      using sub [of "span xs"] by auto
  qed
qed

text \<open>A free block lies before the block of an entry exactly when the free list does not start behind it.\<close>

lemma free_before:
  assumes "list_all wf_blk (xs @ b # ys)" "\<not> is_free b" "off = span xs + 56"
  shows "(\<exists>h\<in>set (frees 0 (xs @ b # ys)). h + 56 < off) \<longleftrightarrow> frees 0 xs \<noteq> []"
proof -
  have "h < span xs" if "h \<in> set (frees 0 xs)" for h
    using frees_le [of xs h 0] that assms(1) by simp
  moreover have "\<not> h < span xs" if "h \<in> set (frees (span xs + asz b) ys)" for h
    using frees_ge [OF that] by simp
  ultimately show ?thesis
    using assms(2,3) by (cases "frees 0 xs") auto
qed

lemma alloc_on_medium:
  assumes inv: "pool_inv r s R bs es" and lk: "lockable s" and c: "cmode s \<noteq> CACHE_NONE" and st: "on_medium {} R bs s"
    and p: "psize \<noteq> 0" and n: "56 \<le> unat (alloc_size psize)" and nid: "h_next_id R + 1 \<noteq> 0"
    and slot: "first_slot (\<lambda>e. \<not> live e) es 0 = Some i" and ff: "first_fit (unat (alloc_size psize)) bs = Some (xs, b, ys)"
  shows "runs (shm_alloc (Some r) s psize name user pm tag True True) (\<lambda>(rc, out, s').
    rc = OK \<and> out = Some (h_next_id R, of_nat (span xs + 56)) \<and>
    (\<exists>fl es'. pool_inv r s' (alloc_hdr R fl (taken_size (unat (alloc_size psize)) b))
         (xs @ take_block (unat (alloc_size psize)) (alloc_info R user pm tag) b @ ys) es' \<and>
       on_medium (pred_link (h_data_offset R) (frees 0 xs)) (alloc_hdr R fl (taken_size (unat (alloc_size psize)) b))
         (xs @ take_block (unat (alloc_size psize)) (alloc_info R user pm tag) b @ ys) s') \<and>
    (\<forall>a. a div 64 \<notin> alloc_lines (h_data_offset R) (slot_pos R i) (unat (alloc_size psize)) xs b \<longrightarrow> wpq s a = None \<longrightarrow>
       pmem s' a = pmem s a))"
proof -
  let ?n = "unat (alloc_size psize)" and ?oi = "alloc_info R user pm tag" and ?d = "h_data_offset R"
  have bs: "bs = xs @ b # ys" "?n \<le> asz b"
    using first_fit_SomeD [OF ff] by auto
  have st': "settled (- meta_bytes (unat ?d) bs) s"
    using st by (simp add: on_medium_def)
  note ends = shm_alloc_settles [OF inv lk c st' p n slot ff refl, of name user pm tag]
  show ?thesis
  proof (rule runs_mono [OF ends_runs [OF shm_alloc_refines [OF inv lk p n nid] ends]], clarify)
    fix rc out s'
    assume post: "alloc_post r s R bs es psize name ?oi (rc, out, s')"
      and set: "settled (alloc_rest ?d (- meta_bytes (unat ?d) bs) ?n xs b) s'"
      and still: "\<forall>a. a div 64 \<notin> alloc_lines ?d (slot_pos R i) ?n xs b \<longrightarrow> wpq s a = None \<longrightarrow> pmem s' a = pmem s a"
    obtain fl where rc: "rc = OK" "out = Some (h_next_id R, of_nat (span xs + 56))"
      and inv': "pool_inv r s' (alloc_hdr R fl (taken_size ?n b)) (xs @ take_block ?n ?oi b @ ys)
      (es[i := alloc_entry (o_id ?oi) (of_nat (span xs + 56)) (of_nat (acap (taken ?n ?oi b))) psize
         (o_tag ?oi) (o_owner ?oi) (o_perms ?oi) name])"
      using post by (auto simp: alloc_post_def slot ff alloc_done_def)
    have "on_medium (pred_link ?d (frees 0 xs)) (alloc_hdr R fl (taken_size ?n b)) (xs @ take_block ?n ?oi b @ ys) s'"
      unfolding on_medium_def using settled_mono [OF set [unfolded bs(1)] alloc_rest_meta [OF bs(2)]] by simp
    with rc inv' still show "rc = OK \<and> out = Some (h_next_id R, of_nat (span xs + 56)) \<and>
      (\<exists>fl es'. pool_inv r s' (alloc_hdr R fl (taken_size ?n b)) (xs @ take_block ?n ?oi b @ ys) es' \<and>
         on_medium (pred_link ?d (frees 0 xs)) (alloc_hdr R fl (taken_size ?n b)) (xs @ take_block ?n ?oi b @ ys) s') \<and>
      (\<forall>a. a div 64 \<notin> alloc_lines ?d (slot_pos R i) ?n xs b \<longrightarrow> wpq s a = None \<longrightarrow> pmem s' a = pmem s a)"
      by blast
  qed
qed

lemma counters_still:
  assumes "settled X s" "X \<inter> {64..<128} = {}" "\<forall>a. a div 64 = 1 \<longrightarrow> wpq s a = None \<longrightarrow> pmem s' a = pmem s a"
  shows "h_used_bytes (rh_at (pmem s')) = h_used_bytes (rh_at (mem s))"
    and "h_block_count (rh_at (pmem s')) = h_block_count (rh_at (mem s))"
proof -
  have eq: "pmem s' a = mem s a" if "64 \<le> a" "a < 128" for a
  proof -
    have "a div 64 = 1"
      using that by (intro div_nat_eqI) simp_all
    moreover have "a \<notin> X"
      using assms(2) that by auto
    ultimately show ?thesis
      using assms(1,3) by (simp add: settled_def durable_def)
  qed
  show "h_used_bytes (rh_at (pmem s')) = h_used_bytes (rh_at (mem s))"
    unfolding rh_at_sel by (rule c64.get_cong) (simp add: eq)
  show "h_block_count (rh_at (pmem s')) = h_block_count (rh_at (mem s))"
    unfolding rh_at_sel by (rule c64.get_cong) (simp add: eq)
qed

lemma free_on_medium:
  assumes inv: "pool_inv r s R bs es" and lk: "lockable s" and c: "cmode s \<noteq> CACHE_NONE" and st: "on_medium {} R bs s"
    and nz: "obj_id \<noteq> 0" and slot: "first_slot (\<lambda>e. e_id e = obj_id \<and> e_alive e \<noteq> 0) es 0 = Some i"
    and acc: "access_ok (e_owner (es ! i)) (e_perms (es ! i)) user cp SHM_PERM_FREE"
  shows "runs (shm_free (Some r) s obj_id user cp) (\<lambda>(rc, s'). rc = OK \<and>
    (\<exists>R' bs' es'. pool_inv r s' R' bs' es' \<and>
       (if \<exists>h\<in>set (frees 0 bs). h + 56 < unat (e_off (es ! i))
        then on_medium {96..<112} R' bs' s' \<and> h_used_bytes (rh_at (pmem s')) = h_used_bytes R \<and>
          h_block_count (rh_at (pmem s')) = h_block_count R
        else on_medium {} R' bs' s')))"
proof -
  have i: "i < length es" "live (es ! i)"
    using first_slot_SomeD [OF slot] nz by (auto simp: live_def)
  let ?d = "h_data_offset R"
  obtain xs b ys where b: "bs = xs @ b # ys" "\<not> is_free b" "unat (e_off (es ! i)) = span xs + 56"
    by (rule entry_block [OF pool_invD(5) [OF inv] i])
  have wf: "list_all wf_blk (xs @ b # ys)"
    using pool_invD(1) [OF inv] by (auto simp: b heap_rep_bytes heap_shape_def dest: tiles_wf)
  have d200: "200 \<le> unat ?d"
    using pool_invD(1) [OF inv] by (simp add: heap_rep_bytes)
  let ?X = "- meta_bytes (unat ?d) bs"
  have st': "settled ?X s" and low: "?X \<inter> {64..<128} = {}"
    using st d200 by (auto simp: on_medium_def meta_bytes_def)
  note before = free_before [OF wf b(2,3)]
  show ?thesis
  proof (rule runs_mono [OF ends_runs [OF shm_free_refines [OF inv lk nz, of user cp]
        shm_free_settles [OF inv lk c st' nz slot acc b]]], clarify)
    fix rc s'
    assume post: "free_post r s R bs es obj_id user cp (rc, s')" and set: "settled (free_rest ?X xs) s'"
      and still: "frees 0 xs \<noteq> [] \<longrightarrow> (\<forall>a. a div 64 = 1 \<longrightarrow> wpq s a = None \<longrightarrow> pmem s' a = pmem s a)"
    obtain us c vs where rc: "rc = OK" and u: "bs = us @ c # vs" "unat (e_off (es ! i)) = span us + 56"
      and fd: "free_done r s s' R es i us c vs"
      using post slot acc by (auto simp: free_post_def)
    have "xs @ b # ys = us @ c # vs" "span xs = span us"
      using u b(1,3) by simp_all
    from split_at_span [OF this(1) wf this(2)] obtain fl where inv': "pool_inv r s' (count_free (R\<lparr>h_free_list := fl\<rparr>) (asz b)) (insert_free xs b ys) (es[i := zero_ent])"
      using fd by (auto simp: free_done_def)
    have meta: "meta_bytes (unat ?d) (insert_free xs b ys) \<subseteq> meta_bytes (unat ?d) bs"
      unfolding b(1) by (rule meta_of_hdrs) (rule insert_free_starts)
    have "on_medium (if frees 0 xs = [] then {} else {96..<112}) (count_free (R\<lparr>h_free_list := fl\<rparr>) (asz b)) (insert_free xs b ys) s'"
      unfolding on_medium_def by (rule settled_mono [OF set]) (use meta in \<open>auto simp: free_rest_def\<close>)
    moreover have "h_used_bytes (rh_at (pmem s')) = h_used_bytes R \<and> h_block_count (rh_at (pmem s')) = h_block_count R"
      if "frees 0 xs \<noteq> []"
      using counters_still [OF st' low, of s'] still that pool_invD(8) [OF inv] by simp
    ultimately show "rc = OK \<and> (\<exists>R' bs' es'. pool_inv r s' R' bs' es' \<and>
       (if \<exists>h\<in>set (frees 0 bs). h + 56 < unat (e_off (es ! i))
        then on_medium {96..<112} R' bs' s' \<and> h_used_bytes (rh_at (pmem s')) = h_used_bytes R \<and>
          h_block_count (rh_at (pmem s')) = h_block_count R
        else on_medium {} R' bs' s'))"
      using rc inv' before unfolding b(1) by (cases "frees 0 xs = []") (simp only: if_True if_False simp_thms, blast)+
  qed
qed

lemma perms_on_medium:
  assumes inv: "pool_inv r s R bs es" and lk: "lockable s" and c: "cmode s \<noteq> CACHE_NONE" and st: "on_medium {} R bs s"
    and ob: "(off, cap, oi) \<in> set (blk_objs 0 bs)"
  shows "runs (shm_block_set_perms (Some r) s (of_nat off) user cp np) (\<lambda>(rc, s').
    \<exists>bs' es'. pool_inv r s' R bs' es' \<and> on_medium {} R bs' s')"
proof -
  from ob obtain xs b ys where bs: "bs = xs @ b # ys" "aown b = Some oi" "off = 0 + span xs + 56"
    by (rule blk_objs_split)
  have off: "off = span xs + 56"
    using bs(3) by simp
  let ?bs' = "xs @ b\<lparr>aown := Some (oi\<lparr>o_perms := np\<rparr>)\<rparr> # ys"
  have st': "settled (- meta_bytes (unat (h_data_offset R)) bs) s"
    using st by (simp add: on_medium_def)
  have hdrs: "meta_bytes d ?bs' = meta_bytes d bs" for d
    by (simp add: meta_bytes_def bs(1))
  show ?thesis
    unfolding off
  proof (rule runs_mono [OF ends_runs [OF shm_block_set_perms_refines [OF inv [unfolded bs(1)] lk bs(2), of user cp np]
        shm_block_set_perms_settles [OF inv [unfolded bs(1)] lk c st' bs(2), of user cp np]]], clarify)
    fix rc s'
    assume post: "perms_post r s R es xs b ys oi user cp np (rc, s')" and set: "settled (- meta_bytes (unat (h_data_offset R)) bs) s'"
    show "\<exists>bs' es'. pool_inv r s' R bs' es' \<and> on_medium {} R bs' s'"
    proof (cases "access_ok (o_owner oi) (o_perms oi) user cp SHM_PERM_WRITE")
      case True
      then obtain es' where "pool_inv r s' R ?bs' es'"
        using post by (auto simp: perms_post_def)
      then show ?thesis
        using set hdrs by (auto simp: on_medium_def)
    next
      case False
      then have "mem s' = mem s"
        using post by (simp add: perms_post_def)
      then have "pool_inv r s' R bs es"
        using pool_inv_bytes [OF inv, of s' r] pool_invD(6) [OF inv] by simp
      then show ?thesis
        using set by (auto simp: on_medium_def)
    qed
  qed
qed

lemma unlocked_on_medium:
  assumes "pool_inv r s R bs es" "on_medium Y R bs s"
  shows "pool_inv r (s\<lparr>mutex := m\<rparr>) R bs es" "on_medium Y R bs (s\<lparr>mutex := m\<rparr>)"
  using assms pool_inv_bytes [OF assms(1), of "s\<lparr>mutex := m\<rparr>" r] pool_invD(6) [OF assms(1)]
  by (simp_all add: on_medium_def)

text \<open>A fresh region is on the medium.\<close>

lemma drain_wpq: "cmode s \<noteq> CACHE_NONE \<Longrightarrow> wpq (shm_drain s) = (\<lambda>_. None)"
  by (cases "cmode s") (simp_all add: shm_drain_def)

lemma region_init_on_medium:
  assumes m: "mapped r" and fit: "256 + 96 * unat cap \<le> unat (rsize r)" and c: "cmode s \<noteq> CACHE_NONE"
  shows "runs (region_init r s (rsize r) backend cap name ns cg) (\<lambda>s'. \<exists>R bs es. pool_inv r s' R bs es \<and> on_medium {} R bs s')"
proof -
  let ?d = "200 + 96 * unat cap"
  note init = region_init_inv [OF m fit, of s backend name ns cg]
  have wpq: "wpq s' = (\<lambda>_. None)" if "region_init r s (rsize r) backend cap name ns cg = Some s'" "cmode s' \<noteq> CACHE_NONE" for s'
  proof -
    have "\<exists>s1. s' = shm_drain s1"
      using that(1) unfolding region_init_def Let_def init_layout by (auto simp: bind_eq_Some_conv)
    then show ?thesis
      using that(2) drain_wpq by auto
  qed
  show ?thesis
    using init unfolding runs_iff
  proof (elim exE conjE)
    fix s' assume run: "region_init r s (rsize r) backend cap name ns cg = Some s'"
      and inv: "pool_inv r s' (init_rh (rsize r) backend cap 1 ns cg) (init_blocks (unat (rsize r) - ?d)) (replicate (unat cap) zero_ent)"
      and cm: "cmode s' = cmode s"
    have off: "unat (h_data_offset (init_rh (rsize r) backend cap 1 ns cg)) = ?d"
      using unat_init_data_offset [of cap] by (simp add: init_rh_def)
    have "a < 256 + 96 * unat cap" if "a \<in> meta_bytes ?d (init_blocks (unat (rsize r) - ?d))" for a
      using that by (auto simp: meta_bytes_def hdr_bytes_def init_blocks_def)
    then have "on_medium {} (init_rh (rsize r) backend cap 1 ns cg) (init_blocks (unat (rsize r) - ?d)) s'"
      using region_init_durable [OF m fit run] wpq [OF run] c cm
      by (simp add: on_medium_def settled_def off)
    with run inv show "\<exists>v. region_init r s (rsize r) backend cap name ns cg = Some v \<and>
        (\<exists>R bs es. pool_inv r v R bs es \<and> on_medium {} R bs v)"
      by blast
  qed
qed

section \<open>Settled pools\<close>

definition settled_pool :: "nat set \<Rightarrow> shm_region \<Rightarrow> machine \<Rightarrow> region_hdr \<Rightarrow> ablk list \<Rightarrow> obj_entry list \<Rightarrow> bool" where
  "settled_pool Y r s R bs es \<longleftrightarrow> pool_inv r s R bs es \<and> lockable s \<and> cmode s \<noteq> CACHE_NONE \<and> on_medium Y R bs s"

text \<open>The link that an allocation leaves, and the releases that leave the counters.\<close>

definition alloc_link :: "region_hdr \<Rightarrow> ablk list \<Rightarrow> u64 \<Rightarrow> nat set" where
  "alloc_link R bs psize =
     (case first_fit (unat (alloc_size psize)) bs of
        None \<Rightarrow> {}
      | Some (xs, b, ys) \<Rightarrow> pred_link (h_data_offset R) (frees 0 xs))"

definition frees_before :: "ablk list \<Rightarrow> obj_entry list \<Rightarrow> u64 \<Rightarrow> bool" where
  "frees_before bs es obj_id \<longleftrightarrow>
     (\<exists>e\<in>set es. live e \<and> e_id e = obj_id \<and> (\<exists>h\<in>set (frees 0 bs). h + 56 < unat (e_off e)))"

lemma settled_pool_crash:
  assumes "settled_pool {} r s R bs es"
  shows "settled_pool {} r (crash s) R bs es"
proof -
  have "settled X (crash s)" for X
    by (simp add: settled_def durable_def crash_def)
  then show ?thesis
    using assms crash_pool [of r s R bs es] by (simp add: settled_pool_def lockable_def on_medium_def)
qed

lemma settled_pool_unlocked:
  "settled_pool Y r s R bs es \<Longrightarrow> settled_pool Y r (s\<lparr>mutex := MUnlocked\<rparr>) R bs es"
  using unlocked_on_medium [of r s R bs es Y MUnlocked] by (simp add: settled_pool_def lockable_def)

lemma alloc_settled_pool:
  assumes st: "settled_pool {} r s R bs es" and p: "psize \<noteq> 0" and n: "56 \<le> unat (alloc_size psize)"
    and nid: "h_next_id R + 1 \<noteq> 0"
  shows "runs (shm_alloc (Some r) s psize name user pm tag True True) (\<lambda>(rc, out, s').
    \<exists>R' bs' es'. settled_pool (if rc = OK then alloc_link R bs psize else {}) r s' R' bs' es')"
proof -
  have a: "pool_inv r s R bs es" "lockable s" "cmode s \<noteq> CACHE_NONE" "on_medium {} R bs s"
    using st by (simp_all add: settled_pool_def)
  show ?thesis
  proof (cases "first_slot (\<lambda>e. \<not> live e) es 0 = None \<or> first_fit (unat (alloc_size psize)) bs = None")
    case True
    then show ?thesis
      using shm_alloc_fails [OF a(1,2) p True] settled_pool_unlocked [OF st] by auto
  next
    case False
    then obtain i xs b ys where i: "first_slot (\<lambda>e. \<not> live e) es 0 = Some i"
      and ff: "first_fit (unat (alloc_size psize)) bs = Some (xs, b, ys)"
      by auto
    obtain out s' R' bs' es' where run: "shm_alloc (Some r) s psize name user pm tag True True = Some (OK, out, s')"
      and c: "mutex s' = MUnlocked" "cmode s' = cmode s"
      and st': "pool_inv r s' R' bs' es'" "on_medium (pred_link (h_data_offset R) (frees 0 xs)) R' bs' s'"
      using shm_alloc_refines [OF a(1,2) p n nid, of name user pm tag] alloc_on_medium [OF a p n nid i ff, of name user pm tag]
      by (auto simp: runs_iff alloc_post_def)
    have "settled_pool (alloc_link R bs psize) r s' R' bs' es'"
      using c st' a(3) by (simp add: settled_pool_def lockable_def alloc_link_def ff)
    then show ?thesis
      using run by auto
  qed
qed

lemma free_settled_pool:
  assumes st: "settled_pool {} r s R bs es" and nz: "obj_id \<noteq> 0"
  shows "runs (shm_free (Some r) s obj_id user cp) (\<lambda>(rc, s'). \<exists>R' bs' es'.
    settled_pool (if rc = OK \<and> frees_before bs es obj_id then {96..<112} else {}) r s' R' bs' es' \<and>
    (rc = OK \<and> frees_before bs es obj_id \<longrightarrow>
       h_used_bytes (rh_at (mem (crash s'))) = h_used_bytes R \<and> h_block_count (rh_at (mem (crash s'))) = h_block_count R))"
proof -
  have a: "pool_inv r s R bs es" "lockable s" "cmode s \<noteq> CACHE_NONE" "on_medium {} R bs s"
    using st by (simp_all add: settled_pool_def)
  show ?thesis
  proof (cases "\<exists>i. first_slot (\<lambda>e. e_id e = obj_id \<and> e_alive e \<noteq> 0) es 0 = Some i \<and>
      access_ok (e_owner (es ! i)) (e_perms (es ! i)) user cp SHM_PERM_FREE")
    case False
    then obtain rc where "rc \<noteq> OK" "shm_free (Some r) s obj_id user cp = Some (rc, s\<lparr>mutex := MUnlocked\<rparr>)"
      using shm_free_fails [OF a(1,2) nz, of user cp] by (cases "first_slot (\<lambda>e. e_id e = obj_id \<and> e_alive e \<noteq> 0) es 0") auto
    then show ?thesis
      using settled_pool_unlocked [OF st] by auto
  next
    case True
    then obtain i where i: "first_slot (\<lambda>e. e_id e = obj_id \<and> e_alive e \<noteq> 0) es 0 = Some i"
      and acc: "access_ok (e_owner (es ! i)) (e_perms (es ! i)) user cp SHM_PERM_FREE"
      by auto
    have e: "i < length es" "live (es ! i)" "e_id (es ! i) = obj_id"
      using first_slot_SomeD [OF i] nz by (auto simp: live_def)
    have "distinct (map e_id (filter live es))"
      using pool_invD(5) [OF a(1)] by (simp add: dir_ok_def)
    then have "inj_on e_id {e \<in> set es. live e}"
      by (simp add: distinct_map)
    then have "e' = es ! i" if "e' \<in> set es" "live e'" "e_id e' = obj_id" for e'
      using that e by (auto dest: inj_onD)
    then have fb: "frees_before bs es obj_id \<longleftrightarrow> (\<exists>h\<in>set (frees 0 bs). h + 56 < unat (e_off (es ! i)))"
      using e unfolding frees_before_def by (metis nth_mem)
    obtain s' R' bs' es' where run: "shm_free (Some r) s obj_id user cp = Some (OK, s')"
      and c: "mutex s' = MUnlocked" "cmode s' = cmode s" and st': "pool_inv r s' R' bs' es'"
      "if \<exists>h\<in>set (frees 0 bs). h + 56 < unat (e_off (es ! i))
        then on_medium {96..<112} R' bs' s' \<and> h_used_bytes (rh_at (pmem s')) = h_used_bytes R \<and>
          h_block_count (rh_at (pmem s')) = h_block_count R
        else on_medium {} R' bs' s'"
      using shm_free_refines [OF a(1,2) nz, of user cp] free_on_medium [OF a nz i acc]
      unfolding runs_iff by (auto simp only: free_post_def prod.case option.inject prod.inject)
    have "settled_pool (if frees_before bs es obj_id then {96..<112} else {}) r s' R' bs' es'"
      using c st' a(3) by (auto simp: settled_pool_def lockable_def fb)
    then show ?thesis
      using run st'(2) by (auto simp: fb split: if_splits)
  qed
qed

lemma perms_settled_pool:
  assumes st: "settled_pool {} r s R bs es" and ob: "(off, cap, oi) \<in> set (blk_objs 0 bs)"
  shows "runs (shm_block_set_perms (Some r) s (of_nat off) user cp np) (\<lambda>(rc, s').
    \<exists>bs' es'. settled_pool {} r s' R bs' es')"
proof -
  have a: "pool_inv r s R bs es" "lockable s" "cmode s \<noteq> CACHE_NONE" "on_medium {} R bs s"
    using st by (simp_all add: settled_pool_def)
  from ob obtain xs b ys where bs: "bs = xs @ b # ys" "aown b = Some oi" "off = 0 + span xs + 56"
    by (rule blk_objs_split)
  obtain rc s' bs' es' where run: "shm_block_set_perms (Some r) s (of_nat off) user cp np = Some (rc, s')"
    and c: "mutex s' = MUnlocked" "cmode s' = cmode s" and st': "pool_inv r s' R bs' es'" "on_medium {} R bs' s'"
    using shm_block_set_perms_refines [OF a(1) [unfolded bs(1)] a(2) bs(2), of user cp np] perms_on_medium [OF a ob, of user cp np]
    by (auto simp: runs_iff perms_post_def bs(3) simp del: of_nat_add)
  have "settled_pool {} r s' R bs' es'"
    using c st' a(3) by (simp add: settled_pool_def lockable_def)
  then show ?thesis
    using run by auto
qed

end
