(* ===== verification/Shm_Lost_Link.thy ===== *)
theory Shm_Lost_Link
  imports Shm_Crash
begin

text \<open>
  The links that are not flushed. When a free block lies before the one that is taken, its link is
  rewritten but not persisted. If no flush of the call covers it by chance, a power failure brings the
  old link back. After an allocation the free list then leads to the block of a live object, and the next
  allocation of the size takes that block; after growth in place it leads into the object that grew.
\<close>

section \<open>Following the old link\<close>

lemma fseg_prefix:
  assumes "fseg H l hs m" "fseg H l hs' 0" "\<forall>h\<in>set hs \<union> set hs'. h + 56 < 2 ^ 64"
  obtains rest where "hs' = hs @ rest" "fseg H m rest 0"
proof -
  have "\<exists>rest. hs' = hs @ rest \<and> fseg H m rest 0"
    using assms
  proof (induction hs arbitrary: l hs')
    case (Cons h hs)
    then have "l \<noteq> 0"
      using link_to_nonzero [of h] by simp
    then obtain h' hs'' where hs': "hs' = h' # hs''"
      using Cons.prems(2) by (cases hs') auto
    have "h' = h"
      using Cons.prems link_to_inj [of h h'] by (simp add: hs')
    then show ?case
      using Cons.prems Cons.IH [of "b_next_free (H h)" hs''] by (auto simp: hs')
  qed auto
  with that show thesis by blast
qed

lemma fseg_snoc: "fseg H l (us @ [p]) m \<longleftrightarrow> fseg H l us (link_to p) \<and> b_next_free (H p) = m"
  by auto

lemma taken_free_block:
  assumes hv: "heap_rep r s R bs" and ch: "fseg (hdrs (mem s) (unat (h_data_offset R))) (h_free_list R) hs (link_to h)"
    and bound: "\<forall>x\<in>set hs \<union> {h}. x + 56 < 2 ^ 64"
  shows "b_allocated (hdrs (mem s) (unat (h_data_offset R)) h) = 0"
proof -
  let ?H = "hdrs (mem s) (unat (h_data_offset R))"
  have sh: "tiles ?H 0 bs" "fseg ?H (h_free_list R) (frees 0 bs) 0" and tot: "unat (h_data_offset R) + span bs = unat (rsize r)"
    using hv by (simp_all add: heap_rep_bytes heap_shape_def)
  have wf: "list_all wf_blk bs"
    using sh(1) by (rule tiles_wf)
  have le: "x + 56 < 2 ^ 64" if "x \<in> set (frees 0 bs)" for x
  proof -
    have "200 \<le> unat (h_data_offset R)"
      using hv by (simp add: heap_rep_bytes)
    then show ?thesis
      using frees_le [OF wf that] tot unat64_bound [of "rsize r"] by linarith
  qed
  obtain rest where rest: "frees 0 bs = hs @ rest" "fseg ?H (link_to h) rest 0"
    by (rule fseg_prefix [OF ch sh(2)]) (use le bound in auto)
  obtain x xs where x: "rest = x # xs"
    using rest(2) link_to_nonzero [of h] bound by (cases rest) auto
  have "h \<in> set (frees 0 bs)"
    using rest link_to_inj [of h x] bound le [of x] by (simp add: x)
  then obtain us b ys where "bs = us @ b # ys" "h = span us" "is_free b"
    using frees_split [of h 0 bs] by auto
  then show ?thesis
    using sh(1) by (simp add: blk_ok_def owner_ok_def is_free_def split: option.splits)
qed

text \<open>A block of just the size is taken without a split.\<close>

lemma heap_take_exact:
  assumes v: "hview r s0 s D H R" and h: "h \<in> D" and hs: "set hs \<subseteq> D" and d: "d = h_data_offset R"
    and sz: "\<not> BLOCK_MIN \<le> b_total_size (H h) - need"
  shows "runs (heap_take r s (bp r d h) need (last_link 0 hs)) (\<lambda>_. True)"
proof -
  have mark: "runs (heap_mark r s' (bp r d h)) (\<lambda>_. True)" if v': "hview r s0 s' D H' R'" and d': "d = h_data_offset R'" for s' H' R'
    by (rule wp_heap_mark [OF v' h d' unat64_eqD [OF refl]]) simp
  show ?thesis
    unfolding heap_take_def runs_bind Let_def
    apply (simp add: hview_blk_loads [OF v h d] sz)
    apply (rule wp_heap_relink [OF v hs d])
    apply (rule mark, assumption)
    using d by (simp add: relinked_R_def)
qed

section \<open>The image after the failure\<close>

lemma crash_headers:
  assumes inv: "pool_inv r s R bs es" and d: "d = h_data_offset R" and med: "on_medium (link_cell d p) R bs s"
    and p: "p \<in> set (starts 0 bs)" and old: "get64 (pmem s) (unat d + p + 48) = l"
  shows "rh_at (pmem s) = R"
    and "x \<in> set (starts 0 bs) \<Longrightarrow> hdrs (pmem s) (unat d) x =
      (if x = p then (hdrs (mem s) (unat d) x)\<lparr>b_next_free := l\<rparr> else hdrs (mem s) (unat d) x)"
proof -
  have h: "200 \<le> unat d" "rh_at (mem s) = R" "tiles (hdrs (mem s) (unat d)) 0 bs"
    using pool_invD(1) [OF inv] by (simp_all add: heap_rep_bytes heap_shape_def d)
  have eq: "pmem s a = mem s a" if "a \<in> meta_bytes (unat d) bs" "a \<notin> link_cell d p" for a
    using med that by (auto simp: on_medium_def settled_def durable_def d)
  show "rh_at (pmem s) = R"
    unfolding h(2) [symmetric]
    by (rule rh_at_cong, rule eq) (use h(1) in \<open>auto simp: meta_bytes_def link_cell_def\<close>)
  have byte: "pmem s a = mem s a"
    if "x \<in> set (starts 0 bs)" "unat d + x \<le> a" "a < unat d + x + 56" "x \<noteq> p \<or> a < unat d + x + 48" for x a
  proof (rule eq)
    show "a \<in> meta_bytes (unat d) bs"
      using that by (auto simp: meta_bytes_def hdr_bytes_def)
    have "separated (set (starts 0 bs))"
      using tiles_wf [OF h(3)] by (rule starts_separated)
    then have "x \<noteq> p \<Longrightarrow> x + 56 \<le> p \<or> p + 56 \<le> x"
      using that(1) p by (auto simp: separated_def)
    then show "a \<notin> link_cell d p"
      using that(2-4) by (auto simp: link_cell_def)
  qed
  show "hdrs (pmem s) (unat d) x =
      (if x = p then (hdrs (mem s) (unat d) x)\<lparr>b_next_free := l\<rparr> else hdrs (mem s) (unat d) x)"
    if x: "x \<in> set (starts 0 bs)"
  proof (cases "x = p")
    case False
    then show ?thesis
      unfolding hdrs_def using byte [OF x] by (auto intro!: blk_at_cong)
  next
    case True
    have "get8 (pmem s) (unat d + x + 16) = get8 (mem s) (unat d + x + 16)"
      by (rule c8.get_cong) (simp add: byte [OF x])
    moreover have "get32 (pmem s) k = get32 (mem s) k" if "unat d + x \<le> k" "k + 4 \<le> unat d + x + 48" for k
      by (rule c32.get_cong) (use that byte [OF x] in simp)
    moreover have "get64 (pmem s) k = get64 (mem s) k" if "unat d + x \<le> k" "k + 8 \<le> unat d + x + 48" for k
      by (rule c64.get_cong) (use that byte [OF x] in simp)
    ultimately show ?thesis
      using True old by (simp add: hdrs_def blk_at_def)
  qed
qed

text \<open>The blocks \<open>xs\<close> are as before, the link of the last free one among them is the old one.\<close>

lemma crash_chain:
  assumes ch: "fseg (hdrs (mem s) (unat d)) (h_free_list R) (frees 0 xs @ h # hs2) 0" and ne: "frees 0 xs \<noteq> []"
    and inv': "pool_inv r s' R' (xs @ bs2) es'" and d: "d = h_data_offset R'"
    and med: "on_medium (pred_link d (frees 0 xs)) R' (xs @ bs2) s'"
    and old: "\<forall>a\<in>pred_link d (frees 0 xs). pmem s' a = mem s a"
  shows "rh_at (pmem s') = R'"
    and "x \<in> set (starts 0 (xs @ bs2)) \<Longrightarrow> hdrs (pmem s') (unat d) x =
      (if x = last (frees 0 xs) then (hdrs (mem s') (unat d) x)\<lparr>b_next_free := link_to h\<rparr> else hdrs (mem s') (unat d) x)"
    and "fseg (hdrs (pmem s') (unat d)) (h_free_list R') (frees 0 xs) (link_to h)"
proof -
  let ?hs = "frees 0 xs" and ?D = "set (starts 0 (xs @ bs2))"
  let ?H = "hdrs (mem s) (unat d)" and ?H' = "hdrs (mem s') (unat d)" and ?C = "hdrs (pmem s') (unat d)"
  obtain us p where hs: "?hs = us @ [p]"
    using ne by (cases ?hs rule: rev_cases) auto
  have sub: "set ?hs \<subseteq> ?D"
    using frees_starts [of 0 xs] by auto
  then have p: "p \<in> ?D"
    by (simp add: hs)
  have sh': "tiles ?H' 0 (xs @ bs2)" "fseg ?H' (h_free_list R') (frees 0 (xs @ bs2)) 0"
    using pool_invD(1) [OF inv'] by (simp_all add: heap_rep_bytes heap_shape_def d)
  have link: "pred_link d ?hs = link_cell d p"
    by (simp add: pred_link_def hs)
  have "get64 (pmem s') (unat d + p + 48) = get64 (mem s) (unat d + p + 48)"
    by (rule c64.get_cong) (simp add: old link link_cell_def)
  also have "\<dots> = b_next_free (?H p)"
    by (simp add: hdrs_def blk_at_sel)
  also have "\<dots> = link_to h"
    using ch by (auto simp: hs)
  finally have last: "get64 (pmem s') (unat d + p + 48) = link_to h" .
  note crashed = crash_headers [OF inv' d med [unfolded link] p last]
  show "rh_at (pmem s') = R'"
    by (rule crashed(1))
  have C: "?C x = (if x = p then (?H' x)\<lparr>b_next_free := link_to h\<rparr> else ?H' x)" if "x \<in> ?D" for x
    using crashed(2) [OF that] .
  then show "x \<in> ?D \<Longrightarrow> ?C x = (if x = last ?hs then (?H' x)\<lparr>b_next_free := link_to h\<rparr> else ?H' x)"
    by (simp add: hs)
  have np: "p \<notin> set us"
    using frees_distinct [of xs 0] tiles_wf [OF sh'(1)] by (simp add: hs)
  have fl: "fseg ?H' (h_free_list R') us (link_to p)"
    using sh'(2) by (auto simp: hs)
  have "fseg ?C (h_free_list R') us (link_to p)"
    by (subst fseg_cong [where H' = ?H']) (use fl C sub np hs in auto)
  then show "fseg ?C (h_free_list R') ?hs (link_to h)"
    using C [OF p] by (simp add: hs)
qed

lemma lost_link:
  assumes inv: "pool_inv r s R bs es" and bs: "bs = xs @ b # ys" "is_free b" "n \<le> asz b" "n < 2 ^ 64"
    and small: "\<forall>c\<in>set xs. is_free c \<longrightarrow> asz c < n" and ne: "frees 0 xs \<noteq> []"
    and inv': "pool_inv r s' R' (xs @ take_block n oi b @ ys) es'" and d: "h_data_offset R' = h_data_offset R"
    and med: "on_medium (pred_link (h_data_offset R) (frees 0 xs)) R' (xs @ take_block n oi b @ ys) s'"
    and old: "\<And>a. a \<in> pred_link (h_data_offset R) (frees 0 xs) \<Longrightarrow> pmem s' a = mem s a"
  shows "\<not> region_inv r (crash s')"
    and "runs (heap_alloc_block r (crash s') (of_nat n)) (\<lambda>(p, s''). p = bp r (h_data_offset R) (span xs))"
proof -
  let ?d = "unat (h_data_offset R)" and ?bs' = "xs @ take_block n oi b @ ys" and ?hs = "frees 0 xs" and ?h = "span xs"
  let ?H = "hdrs (mem s) ?d" and ?H' = "hdrs (mem s') ?d" and ?C = "hdrs (pmem s') ?d" and ?D = "set (starts 0 ?bs')"
  have hD: "?h \<in> ?D"
    by (simp add: take_block_Cons)
  have sh: "fseg ?H (h_free_list R) (?hs @ ?h # frees (?h + asz b) ys) 0"
    using pool_invD(1) [OF inv] bs by (simp add: heap_rep_bytes heap_shape_def)
  have sh': "tiles ?H' 0 ?bs'" "?d + span ?bs' = unat (rsize r)" "200 \<le> ?d"
    using pool_invD(1) [OF inv'] by (simp_all add: heap_rep_bytes heap_shape_def d)
  have wf: "list_all wf_blk ?bs'"
    using sh'(1) by (rule tiles_wf)
  have le: "?d + x + 56 \<le> unat (rsize r)" "x + 56 < 2 ^ 64" if "x \<in> ?D" for x
    using starts_le [OF wf that] sh'(2,3) unat64_bound [of "rsize r"] by linarith+
  have sub: "set ?hs \<subseteq> ?D"
    using frees_starts [of 0 xs] by auto
  have "\<forall>a\<in>pred_link (h_data_offset R) (frees 0 xs). pmem s' a = mem s a"
    using old by blast
  note crashed = crash_chain [OF sh ne inv' d [symmetric] med this]
  note C = crashed(2) and ch = crashed(3)
  have ts0: "asz (taken n oi b) = taken_size n b"
    by (simp add: taken_def taken_size_def)
  have al: "b_allocated (?C ?h) = 1" "b_total_size (?C ?h) = of_nat (taken_size n b)"
    using C [OF hD] sh'(1) tiles_size(2) [of ?H' xs "taken n oi b" "taken_rest n b @ ys"]
    by (auto simp: take_block_Cons blk_ok_def owner_ok_def ts0)
  show "\<not> region_inv r (crash s')"
  proof
    assume "region_inv r (crash s')"
    then obtain R2 bs2 es2 where "pool_inv r (crash s') R2 bs2 es2"
      by (auto simp: region_inv_def)
    then have "heap_rep r (crash s') R2 bs2" "R2 = R'"
      using pool_invD(1,8) [of r "crash s'" R2 bs2 es2] crashed(1) by auto
    from taken_free_block [OF this(1), of ?hs ?h] this(2) show False
      using ch al(1) le(2) sub hD by (auto simp: d)
  qed
  have v: "hview r (crash s') (crash s') ?D ?C R'"
    using pool_invD(6) [OF inv'] sh'(2,3) le(1) starts_separated [OF wf, of 0] crashed(1)
    by (auto simp: hview_def hdrs_def d)
  have small': "\<forall>x\<in>set ?hs. b_total_size (?C x) < of_nat n"
    using small_frees [OF sh'(1) bs(4) small] by (auto simp: C [OF subsetD [OF sub]])
  have ts: "\<not> of_nat (taken_size n b) < (of_nat n :: u64)" "\<not> BLOCK_MIN \<le> of_nat (taken_size n b) - (of_nat n :: u64)"
  proof -
    have t: "n \<le> taken_size n b" "taken_size n b - n < 64"
      using bs(3) by (auto simp: taken_size_def)
    have "taken_size n b \<le> span ?bs'"
      by (simp add: take_block_Cons ts0)
    then have lt: "taken_size n b < 2 ^ 64"
      using sh'(2) unat64_bound [of "rsize r"] by linarith
    show "\<not> of_nat (taken_size n b) < (of_nat n :: u64)"
      using of_nat64_less_iff [OF lt bs(4)] t(1) by simp
    have "of_nat (taken_size n b) - of_nat n = (of_nat (taken_size n b - n) :: u64)"
      using t(1) by simp
    then show "\<not> BLOCK_MIN \<le> of_nat (taken_size n b) - (of_nat n :: u64)"
      using of_nat64_le_iff [of 64 "taken_size n b - n"] t(2) by (simp add: layout_consts del: of_nat_diff)
  qed
  have "heap_alloc_block r (crash s') (of_nat n) = heap_alloc_loop r (crash s') (of_nat n) (last_link 0 ?hs) (link_to ?h)"
    using heap_alloc_loop_seg [OF v sub small' ch, of 0] hview_rh_loads(9) [OF v] by (simp add: heap_alloc_block_def)
  also have "\<dots> = Option.bind (heap_take r (crash s') (bp r (h_data_offset R) ?h) (of_nat n) (last_link 0 ?hs))
      (\<lambda>s. Some (bp r (h_data_offset R) ?h, s))"
    using link_to_nonzero [OF le(2) [OF hD]] ts(1)
    by (subst heap_alloc_loop.simps) (simp add: hview_link [OF v hD d [symmetric]] hview_blk_loads [OF v hD d [symmetric]] al(2) not_less)
  finally show "runs (heap_alloc_block r (crash s') (of_nat n)) (\<lambda>(p, s''). p = bp r (h_data_offset R) ?h)"
    using runs_mono [OF heap_take_exact [OF v hD sub d [symmetric], of "of_nat n"]] ts(2) al(2) by simp
qed

section \<open>The link to an absorbed block\<close>

lemma tiles_unique: "tiles H h bs \<Longrightarrow> tiles H h bs' \<Longrightarrow> span bs = span bs' \<Longrightarrow> bs = bs'"
proof (induction bs arbitrary: h bs')
  case Nil
  then show ?case
    by (cases bs') (auto simp: wf_blk_def)
next
  case (Cons b bs)
  then obtain b' bs'' where bs': "bs' = b' # bs''"
    by (cases bs') (auto simp: wf_blk_def)
  have ok: "blk_ok (H h) b" "blk_ok (H h) b'"
    using Cons.prems by (simp_all add: bs')
  then have "asz b = asz b'" "acap b = acap b'"
    by (auto simp: blk_ok_def sizes_ok_def)
  moreover have "aown b = aown b'"
    using ok by (auto simp: blk_ok_def owner_ok_def split: option.splits)
  ultimately have "b = b'"
    by simp
  then show ?case
    using Cons.prems Cons.IH [of "h + asz b'" bs''] by (simp add: bs')
qed

text \<open>The pool of a state is unique.\<close>

lemma pool_inv_determined:
  assumes "pool_inv r s R bs es" "pool_inv r s R' bs' es'"
  shows "R = R'" "bs = bs'" "es = es'"
proof -
  show R: "R = R'"
    using pool_invD(8) [OF assms(1)] pool_invD(8) [OF assms(2)] by simp
  show "es = es'"
    using pool_invD(2) [OF assms(1)] pool_invD(2) [OF assms(2)] by (simp add: dir_rep_def R)
  show "bs = bs'"
    using pool_invD(1) [OF assms(1)] pool_invD(1) [OF assms(2)]
    by (intro tiles_unique [of "hdrs (mem s) (unat (h_data_offset R))" 0]) (auto simp: heap_rep_bytes heap_shape_def R)
qed

text \<open>
  Growth in place takes a free block off the list; with the old link the list leads into the middle of
  the object that absorbed it, where no block starts.
\<close>

lemma absorbed_link:
  assumes inv: "pool_inv r s R (xs @ b # t # ys) es" and b: "\<not> is_free b" "is_free t" and ne: "frees 0 xs \<noteq> []"
    and inv': "pool_inv r s' R' (xs @ widen b t # ys) es'" and d: "h_data_offset R' = h_data_offset R"
    and med: "on_medium (pred_link (h_data_offset R) (frees 0 xs)) R' (xs @ widen b t # ys) s'"
    and old: "\<And>a. a \<in> pred_link (h_data_offset R) (frees 0 xs) \<Longrightarrow> pmem s' a = mem s a"
  shows "\<not> region_inv r (crash s')"
proof
  let ?d = "unat (h_data_offset R)" and ?w = "widen b t" and ?nt = "span xs + asz b"
  let ?bs' = "xs @ ?w # ys"
  let ?H' = "hdrs (mem s') ?d" and ?C = "hdrs (pmem s') ?d"
  have sh: "fseg (hdrs (mem s) ?d) (h_free_list R) (frees 0 xs @ ?nt # frees (?nt + asz t) ys) 0"
    using pool_invD(1) [OF inv] b by (simp add: heap_rep_bytes heap_shape_def)
  have wf0: "wf_blk t"
    using pool_invD(1) [OF inv] by (simp add: heap_rep_bytes heap_shape_def)
  have sh': "tiles ?H' 0 ?bs'" "?d + span ?bs' = unat (rsize r)" "200 \<le> ?d"
    using pool_invD(1) [OF inv'] by (simp_all add: heap_rep_bytes heap_shape_def d)
  have wf: "list_all wf_blk ?bs'"
    using sh'(1) by (rule tiles_wf)
  have le: "x + 56 < 2 ^ 64" if "x \<in> set (starts 0 ?bs') \<union> {?nt}" for x
    using starts_le [OF wf, of x 0] that sh'(2,3) unat64_bound [of "rsize r"] wf0 by (auto simp: wf_blk_def)
  have "\<forall>a\<in>pred_link (h_data_offset R) (frees 0 xs). pmem s' a = mem s a"
    using old by blast
  note crashed = crash_chain [OF sh ne inv' d [symmetric] med this]
  assume "region_inv r (crash s')"
  then obtain R2 bs2 es2 where "pool_inv r (crash s') R2 bs2 es2"
    by (auto simp: region_inv_def)
  then have "R2 = R'" "heap_rep r (crash s') R2 bs2"
    using pool_invD(1,8) [of r "crash s'" R2 bs2 es2] crashed(1) by auto
  then have two: "tiles ?C 0 bs2" "fseg ?C (h_free_list R') (frees 0 bs2) 0" "?d + span bs2 = unat (rsize r)"
    by (simp_all add: heap_rep_bytes heap_shape_def d)
  have "blk_ok (?C x) = blk_ok (?H' x)" if "x \<in> set (starts 0 ?bs')" for x
    using crashed(2) [OF that] by (simp add: fun_eq_iff)
  then have "tiles ?C 0 ?bs'"
    using tiles_cong [of 0 ?bs' ?C ?H'] sh'(1) by simp
  then have "bs2 = ?bs'"
    using two(3) sh'(2) by (intro tiles_unique [OF two(1)]) simp_all
  then have all: "fseg ?C (h_free_list R') (frees 0 xs @ frees (?nt + asz t) ys) 0"
    using two(2) b by (simp add: add.assoc)
  have bound: "x + 56 < 2 ^ 64" if "x \<in> set (frees 0 xs) \<union> set (frees 0 xs @ frees (?nt + asz t) ys)" for x
    using that frees_starts [of 0 xs] frees_starts [of "?nt + asz t" ys] by (intro le) (auto simp: add.assoc)
  obtain rest where rest: "frees 0 xs @ frees (?nt + asz t) ys = frees 0 xs @ rest" "fseg ?C (link_to ?nt) rest 0"
    by (rule fseg_prefix [OF crashed(3) all]) (use bound in blast)+
  then obtain x where x: "x \<in> set (frees (?nt + asz t) ys)" "link_to x = link_to ?nt"
    using link_to_nonzero [OF le, of ?nt] by (cases rest) auto
  have "x = ?nt"
    using link_to_inj [OF bound [of x] le [of ?nt]] x by simp
  then show False
    using frees_ge [OF x(1)] wf0 by (simp add: wf_blk_def)
qed

text \<open>The chain itself: from the head through the free blocks before the object to the absorbed header.
  The directory is on the medium, so the entry of the object says that the header lies in its payload.\<close>

lemma absorbed_chain:
  assumes inv: "pool_inv r s R (xs @ b # t # ys) es" and b: "\<not> is_free b" "is_free t" and ne: "frees 0 xs \<noteq> []"
    and inv': "pool_inv r s' R' (xs @ widen b t # ys) es'" and d: "h_data_offset R' = h_data_offset R"
    and med: "on_medium (pred_link (h_data_offset R) (frees 0 xs)) R' (xs @ widen b t # ys) s'"
    and old: "\<And>a. a \<in> pred_link (h_data_offset R) (frees 0 xs) \<Longrightarrow> pmem s' a = mem s a"
  shows "rh_at (pmem s') = R'"
    and "fseg (hdrs (pmem s') (unat (h_data_offset R'))) (h_free_list R') (frees 0 xs) (link_to (span xs + asz b))"
    and "i < length es' \<Longrightarrow> ent_at (pmem s') (slot_pos R' i) = es' ! i"
proof -
  have sh: "fseg (hdrs (mem s) (unat (h_data_offset R))) (h_free_list R)
      (frees 0 xs @ (span xs + asz b) # frees (span xs + asz b + asz t) ys) 0"
    using pool_invD(1) [OF inv] b by (simp add: heap_rep_bytes heap_shape_def)
  have "\<forall>a\<in>pred_link (h_data_offset R) (frees 0 xs). pmem s' a = mem s a"
    using old by blast
  note crashed = crash_chain [OF sh ne inv' d [symmetric] med this]
  show "rh_at (pmem s') = R'"
    by (rule crashed(1))
  show "fseg (hdrs (pmem s') (unat (h_data_offset R'))) (h_free_list R') (frees 0 xs) (link_to (span xs + asz b))"
    using crashed(3) d by simp
  assume i: "i < length es'"
  note dr = pool_invD(2) [OF inv']
  have "pmem s' a = mem s' a" if "a < unat (h_data_offset R')" for a
    using med that d by (auto simp: on_medium_def settled_def durable_def meta_bytes_def pred_link_def link_cell_def split: if_splits)
  then have "ent_at (pmem s') (slot_pos R' i) = ent_at (mem s') (slot_pos R' i)"
    using slot_bounds [OF dr i] by (intro ent_at_cong) simp
  then show "ent_at (pmem s') (slot_pos R' i) = es' ! i"
    using dir_rep_eview [OF dr i] by (simp add: eview_def)
qed

end
