(* ===== verification/Shm_Resize_Track.thy ===== *)
theory Shm_Resize_Track
  imports Shm_Crash
begin

text \<open>
  What \<open>shm_resize\<close> leaves off the persistent medium. The stages of the call are walked for the
  bytes that they store to and the lines that they flush. A cut leaves \<open>used_bytes\<close> unless the tail
  comes first in the free list; the absorption of a whole successor leaves the link that led to it;
  a relocation leaves what its allocation and its release leave.
\<close>

section \<open>Cutting a block\<close>

lemma track_resize_tail:
  assumes t: "tracked r d X F s0 s" and o: "owns_blk r d X h"
  shows "ends (resize_tail r s (bp r d h) rem) (tracked r d X F s0)"
  unfolding resize_tail_def
  apply (insert t)
  apply (rule ends_seq, rule track_rules, assumption, rule o)+
  apply (rule track_rules, assumption, rule o)
  done

lemma track_resize_cut:
  assumes hr: "heap_rep r s R (xs @ b # ys)" and used: "\<not> is_free b"
    and n: "56 \<le> n" "8 dvd n" "n + 64 \<le> asz b" and d: "d = h_data_offset R"
    and t: "tracked r d (Y \<union> hdr_range d (span xs) \<union> hdr_range d (span xs + n) \<union> pred_link d (frees 0 xs)) F s0 s"
    and F: "{3..} \<subseteq> F" "frees 0 xs = [] \<Longrightarrow> 1 \<in> F"
  shows "ends (resize_cut r s (bp r d (span xs)) (of_nat n) (of_nat (asz b - n)))
    (tracked r d (if frees 0 xs = [] then Y - {64..<128} else Y \<union> {96..<104}) F s0)"
proof -
  let ?h = "span xs" and ?hs1 = "frees 0 xs" and ?hs2 = "frees (span xs + asz b) ys"
  let ?bs' = "xs @ cut_block n b # cut_tail n b # ys" and ?U = "Y \<union> {96..<104}"
  let ?D = "set (starts 0 ?bs')"
  let ?X = "?U \<union> hdr_range d ?h \<union> hdr_range d (?h + n) \<union> pred_link d ?hs1"
  have wf: "list_all wf_blk (xs @ b # ys)"
    using hr by (auto simp: heap_rep_bytes heap_shape_def dest: tiles_wf)
  have wf': "list_all wf_blk ?bs'"
    using wf n by (auto simp: wf_blk_def cut_block_def cut_tail_def)
  have sz: "asz (cut_block n b) = n"
    using n by (simp add: cut_block_def)
  obtain H where H: "hview r s s ?D H R" "heap_shape H R (xs @ b # ys)"
    by (rule heap_rep_extend [OF hr wf']) (use n in \<open>auto simp: sz\<close>)
  have hD: "?h \<in> ?D" "?h + n \<in> ?D"
    by (simp_all add: sz)
  have le: "unat d + ?h + 56 \<le> unat (rsize r)" "unat d + (?h + n) + 56 \<le> unat (rsize r)"
    using hviewD(5) [OF H(1) hD(1)] hviewD(5) [OF H(1) hD(2)] d by simp_all
  have o: "owns_blk r d ?X ?h" "owns_blk r d ?X (?h + n)"
    using le by (auto intro!: owns_hdr)
  have out: "?h \<notin> set (?hs1 @ ?hs2)" "?h + n \<notin> set (?hs1 @ ?hs2)"
    using frees_starts [of 0 xs] frees_starts [of "?h + asz b" ys] starts_le [of xs _ 0] starts_ge [of _ "?h + asz b" ys] wf n(3)
    by (fastforce simp: wf_blk_def)+
  have ch: "fseg G (h_free_list R) (?hs1 @ ?hs2) 0" if G: "\<And>x. x \<noteq> ?h \<Longrightarrow> x \<noteq> ?h + n \<Longrightarrow> G x = H x" for G
  proof (subst fseg_cong [where H' = H])
    show "b_next_free (G x) = b_next_free (H x)" if "x \<in> set (?hs1 @ ?hs2)" for x
      using that out G by metis
    show "fseg H (h_free_list R) (?hs1 @ ?hs2) 0"
      using H(2) used by (simp add: heap_shape_def)
  qed
  have ins: "ends (freelist_insert r s' (bp r d (?h + n))) (tracked r d (if ?hs1 = [] then Y - {64..<128} else ?U) F s0)"
    if v: "hview r s s' ?D G R'" and G: "\<And>x. x \<noteq> ?h \<Longrightarrow> x \<noteq> ?h + n \<Longrightarrow> G x = H x"
      and R': "h_data_offset R' = h_data_offset R" "h_free_list R' = h_free_list R"
      and t': "tracked r d (?U \<union> hdr_range d (?h + n) \<union> pred_link d ?hs1) F s0 s'" for s' R' G
  proof (rule ends_mono [OF track_freelist_insert [OF v _ hD(2) _ _ _ _ t' F]])
    show "set (?hs1 @ ?hs2) \<subseteq> ?D"
      using frees_starts [of 0 xs] frees_starts [of "?h + asz b" ys] n by (auto simp: sz)
    show "\<forall>h\<in>set ?hs1. h \<le> ?h + n"
      using frees_starts [of 0 xs] starts_le [of xs _ 0] wf by fastforce
    show "\<forall>h\<in>set ?hs2. ?h + n < h"
      using frees_starts [of "?h + asz b" ys] starts_ge [of _ "?h + asz b" ys] wf n(3) by fastforce
  qed (use R' d ch [OF G] in \<open>auto elim!: tracked_mono\<close>)
  have t0: "tracked r d ?X F s0 s"
    by (rule tracked_mono [OF t]) auto
  have view: "runs (set_rh_used_bytes r s' x) (\<lambda>s'. hview r s s' ?D G (Q\<lparr>h_used_bytes := x\<rparr>))"
    "h_data_offset Q = d \<Longrightarrow> runs (set_blk_total_size r s' (bp r d ?h) y) (\<lambda>s'. hview r s s' ?D (G(?h := (G ?h)\<lparr>b_total_size := y\<rparr>)) Q)"
    "h_data_offset Q = d \<Longrightarrow> runs (set_blk_payload_cap r s' (bp r d ?h) z) (\<lambda>s'. hview r s s' ?D (G(?h := (G ?h)\<lparr>b_payload_cap := z\<rparr>)) Q)"
    "h_data_offset Q = d \<Longrightarrow> runs (shm_persist r s' (bp r d ?h) SIZEOF_BLOCK_HDR) (\<lambda>s'. hview r s s' ?D G Q)"
    if "hview r s s' ?D G Q" for s' G Q x y z
    by (rule wp_set_rh_used_bytes wp_set_blk_total_size wp_set_blk_payload_cap wp_persist_blk, rule that,
        (rule hD(1), erule sym)?, assumption)+
  have tail: "runs (resize_tail r s (bp r d (?h + n)) (of_nat (asz b - n))) (\<lambda>s'. hview r s s' ?D (H(?h + n := tail_hdr (asz b - n))) R)"
    by (rule wp_resize_tail [OF H(1) hD(2) d])
  have flush: "ends (shm_persist r s' (bp r d ?h) SIZEOF_BLOCK_HDR) (tracked r d (?U \<union> hdr_range d (?h + n) \<union> pred_link d ?hs1) F s0)"
    if "tracked r d ?X F s0 s'" for s'
    by (rule track_persist_blk [OF that le(1) heap_lines [OF that F(1)]]) (use hdr_line_bytes [of d ?h] in auto)
  show ?thesis
    unfolding resize_cut_def Let_def bp_add
    apply (rule ends_step [OF tail track_resize_tail [OF t0 o(2)]])
    apply (rule ends_load)
    apply (rule ends_step [OF view(1) track_set_rh(2)], assumption, assumption, force)
    apply (rule ends_step [OF view(2) track_set_blk(8) [OF _ o(1)]], assumption, simp add: d, assumption)
    apply (rule ends_step [OF view(3) track_set_blk(7) [OF _ o(1)]], assumption, simp add: d, assumption)
    apply (rule ends_step [OF view(4) flush], assumption, simp add: d, assumption)
    subgoal premises p for s1 x s2 s3 s4 s5
      by (rule ins [OF p(9) _ _ _ p(10)]) simp_all
    done
qed

text \<open>What a cut leaves: \<open>used_bytes\<close>, when a free block lies before the tail.\<close>

definition cut_lag :: "nat \<Rightarrow> ablk list \<Rightarrow> ablk \<Rightarrow> nat set" where
  "cut_lag n xs b = (if n + 64 \<le> asz b \<and> frees 0 xs \<noteq> [] then {96..<104} else {})"

lemma track_resize_shrink:
  assumes hr: "heap_rep r s R (xs @ b # ys)" and used: "\<not> is_free b"
    and n: "56 \<le> n" "8 dvd n" "n \<le> asz b" and d: "d = h_data_offset R" and t: "tracked r d Y F s0 s"
    and F: "{3..} \<subseteq> F" "frees 0 xs = [] \<Longrightarrow> 1 \<in> F"
  shows "ends (resize_shrink r s (bp r d (span xs)) (of_nat n)) (tracked r d ((Y - rest_hdr d n xs b) \<union> cut_lag n xs b) F s0)"
proof -
  obtain H where H: "hview r s s (set (starts 0 (xs @ b # ys))) H R" "span xs \<in> set (starts 0 (xs @ b # ys))"
    "blk_ok (H (span xs)) b" "unat (h_data_offset R) + span (xs @ b # ys) = unat (rsize r)"
    using hr by (rule heap_rep_block)
  have sz: "b_total_size (H (span xs)) = of_nat (asz b)" and lt: "asz b < 2 ^ 64"
    using H(3,4) unat64_bound [of "rsize r"] by (auto simp: blk_ok_def sizes_ok_def intro: unat64_eqD)
  have bm: "BLOCK_MIN \<le> of_nat (asz b) - of_nat n \<longleftrightarrow> n + 64 \<le> asz b"
    using of_nat64_le_iff [of 64 "asz b - n"] lt n by (auto simp: layout_consts)
  show ?thesis
  proof (cases "n + 64 \<le> asz b")
    case True
    have "ends (resize_cut r s (bp r d (span xs)) (of_nat n) (of_nat (asz b - n)))
        (tracked r d ((Y - rest_hdr d n xs b) \<union> cut_lag n xs b) F s0)"
      by (rule ends_mono [OF track_resize_cut [OF hr used n(1,2) True d _ F, where Y = "Y - rest_hdr d n xs b"]])
        (use t True in \<open>auto simp: cut_lag_def rest_hdr_def elim!: tracked_mono\<close>)
    then show ?thesis
      using True n(3) by (simp add: resize_shrink_def hview_blk_loads [OF H(1,2) d] sz bm Let_def)
  next
    case False
    then show ?thesis
      using t by (simp add: resize_shrink_def hview_blk_loads [OF H(1,2) d] sz bm Let_def rest_hdr_def cut_lag_def)
  qed
qed

section \<open>Growing in place\<close>

lemma track_freelist_remove:
  assumes v: "hview r sv s D H R" and D: "set (starts 0 (xs @ t # ys)) \<subseteq> D"
    and sh: "heap_shape H R (xs @ t # ys)" and fr: "is_free t" and d: "d = h_data_offset R"
    and t: "tracked r d X F s0 s" and X: "if frees 0 xs = [] then {88..<96} \<subseteq> X else pred_link d (frees 0 xs) \<subseteq> X"
    and o: "owns_blk r d X (span xs)"
  shows "ends (freelist_remove r s (bp r d (span xs))) (tracked r d X F s0)"
proof -
  let ?hs1 = "frees 0 xs" and ?hs2 = "frees (span xs + asz t) ys"
  have eq: "frees 0 (xs @ t # ys) = ?hs1 @ span xs # ?hs2"
    using fr by simp
  have "distinct (frees 0 (xs @ t # ys))"
    using sh by (intro frees_distinct) (auto simp: heap_shape_def dest: tiles_wf)
  then have dist: "distinct (?hs1 @ span xs # ?hs2)"
    by (simp only: eq)
  have sub: "set (?hs1 @ span xs # ?hs2) \<subseteq> D"
    using D frees_starts [of 0 "xs @ t # ys"] unfolding eq by blast
  have ch: "fseg H (h_free_list R) (?hs1 @ span xs # ?hs2) 0"
    using sh by (simp only: heap_shape_def eq)
  have le: "\<forall>h\<in>set ?hs1. unat d + h + 56 \<le> unat (rsize r)"
    using sub hviewD(5) [OF v] d by auto
  show ?thesis
    unfolding freelist_remove_def heap_relink_def [symmetric] Let_def hview_ptrs(4) [OF v d] Option.bind_lunit
      hview_rh_loads(9) [OF v] link_enc_of_nat freelist_find_walk [OF v sub dist ch] prod.case
    apply simp
    apply (rule ends_load)
    apply (rule ends_seq [OF track_heap_relink [OF t le X]])
    apply (rule track_set_blk(9) [OF _ o], assumption)
    done
qed

text \<open>What an absorption leaves: the link that led to the successor, unless a tail is cut off again.\<close>

definition absorb_lag :: "u64 \<Rightarrow> nat \<Rightarrow> ablk list \<Rightarrow> ablk \<Rightarrow> nat set" where
  "absorb_lag d n xs w = (if n + 64 \<le> asz w then {} else pred_link d (frees 0 xs))"

lemma track_resize_absorb:
  assumes hr: "heap_rep r s R (xs @ b # t # ys)" and used: "\<not> is_free b" and fr: "is_free t"
    and n: "56 \<le> n" "8 dvd n" "n \<le> asz b + asz t" and d: "d = h_data_offset R"
    and tr: "tracked r d Y F s0 s" and F: "1 \<in> F" "lines (unat d + span xs) 56 \<subseteq> F" "lines (unat d + (span xs + asz b)) 56 \<subseteq> F"
      "n + 64 \<le> asz b + asz t \<Longrightarrow> {3..} \<subseteq> F"
  shows "ends (resize_absorb r s (bp r d (span xs)) (bp r d (span xs + asz b)) (of_nat (asz b + asz t)) (of_nat n))
    (tracked r d ((Y - rest_hdr d n xs (widen b t)) \<union> absorb_lag d n xs (widen b t)) F s0)"
proof -
  let ?h = "span xs" and ?nt = "span xs + asz b" and ?w = "widen b t" and ?sz = "asz b + asz t"
  let ?D = "set (starts 0 (xs @ b # t # ys))" and ?L = "pred_link d (frees 0 xs)"
  let ?Z = "Y \<union> {88..<104} \<union> hdr_range d ?h \<union> ?L"
  let ?X = "?Z \<union> hdr_range d ?nt"
  let ?E = "(Y - rest_hdr d n xs ?w) \<union> absorb_lag d n xs ?w"
  obtain H where H: "hview r s s ?D H R" "heap_shape H R (xs @ b # t # ys)"
    "unat (h_data_offset R) + span (xs @ b # t # ys) = unat (rsize r)" "list_all wf_blk (xs @ b # t # ys)"
    using hr unfolding heap_rep_def by (rule heap_viewE)
  have lt: "?sz < 2 ^ 64"
    using H(3) unat64_bound [of "rsize r"] by simp
  have hD: "?h \<in> ?D" "?nt \<in> ?D"
    by simp_all
  have le: "unat d + ?h + 56 \<le> unat (rsize r)" "unat d + ?nt + 56 \<le> unat (rsize r)"
    using hviewD(5) [OF H(1) hD(1)] hviewD(5) [OF H(1) hD(2)] d by simp_all
  have o: "owns_blk r d ?X ?h" "owns_blk r d ?X ?nt"
    using le by (auto intro!: owns_hdr)
  have ne: "?nt \<noteq> ?h"
    using H(4) by (simp add: wf_blk_def)
  have nsz: "b_total_size (H ?nt) = of_nat (asz t)"
    using tiles_size(2) [of H "xs @ [b]" t ys] H(2) by (simp add: heap_shape_def)
  have bm: "BLOCK_MIN \<le> of_nat ?sz - of_nat n \<longleftrightarrow> n + 64 \<le> ?sz"
    using of_nat64_le_iff [of 64 "?sz - n"] lt n by (auto simp: layout_consts simp del: of_nat_add)
  have rem: "of_nat ?sz - of_nat n = (of_nat (?sz - n) :: u64)"
    using n(3) by simp
  have fin: "ends (shm_persist r s' (shm_rh r + 96) 8) (tracked r d ?E F s0)"
    if "tracked r d (?E \<union> {88..<104}) F s0 s'" for s'
    by (rule track_persist_rh [OF that _ _ F(1)]) auto
  have rest: "ends (Option.bind (if BLOCK_MIN \<le> of_nat ?sz - of_nat n
        then resize_cut r s1 (bp r d ?h) (of_nat n) (of_nat ?sz - of_nat n)
        else shm_persist r s1 (bp r d ?h) SIZEOF_BLOCK_HDR) (\<lambda>s. shm_persist r s (shm_rh r + 96) 8)) (tracked r d ?E F s0)"
    if hr1: "heap_rep r s1 R1 (xs @ ?w # ys)" "d = h_data_offset R1" and t1: "tracked r d ?Z F s0 s1" for s1 R1
  proof (rule ends_seq [OF _ fin], cases "n + 64 \<le> ?sz")
    case True
    have "ends (resize_cut r s1 (bp r d ?h) (of_nat n) (of_nat (asz ?w - n))) (tracked r d (?E \<union> {88..<104}) F s0)"
      by (rule ends_mono [OF track_resize_cut [OF hr1(1) _ n(1,2) _ hr1(2) _ F(4) [OF True], where Y = "(Y - rest_hdr d n xs ?w) \<union> {88..<104}"]])
        (use t1 True used F in \<open>auto simp: rest_hdr_def elim!: tracked_mono split: if_splits\<close>)
    then show "ends (if BLOCK_MIN \<le> of_nat ?sz - of_nat n
        then resize_cut r s1 (bp r d ?h) (of_nat n) (of_nat ?sz - of_nat n)
        else shm_persist r s1 (bp r d ?h) SIZEOF_BLOCK_HDR) (tracked r d (?E \<union> {88..<104}) F s0)"
      using True bm rem by (simp del: of_nat_diff of_nat_add)
  next
    case False
    have "ends (shm_persist r s1 (bp r d ?h) SIZEOF_BLOCK_HDR) (tracked r d (?E \<union> {88..<104}) F s0)"
      by (rule track_persist_blk [OF t1 le(1) F(2)])
        (use False hdr_line_bytes [of d ?h] in \<open>auto simp: rest_hdr_def absorb_lag_def\<close>)
    then show "ends (if BLOCK_MIN \<le> of_nat ?sz - of_nat n
        then resize_cut r s1 (bp r d ?h) (of_nat n) (of_nat ?sz - of_nat n)
        else shm_persist r s1 (bp r d ?h) SIZEOF_BLOCK_HDR) (tracked r d (?E \<union> {88..<104}) F s0)"
      using False bm by (simp del: of_nat_diff of_nat_add)
  qed
  have remove: "runs (freelist_remove r s (bp r d ?nt)) (\<lambda>s'. \<exists>H' fl. hview r s s' ?D H' (R\<lparr>h_free_list := fl\<rparr>) \<and>
      (\<forall>x. \<exists>nf. H' x = (H x)\<lparr>b_next_free := nf\<rparr>) \<and> fseg H' fl (frees 0 (xs @ [b]) @ frees (?nt + asz t) ys) 0)"
  proof (rule freelist_remove_refines [OF H(1), of "xs @ [b]" t ys])
    fix s' H' fl
    assume "hview r s s' ?D H' (R\<lparr>h_free_list := fl\<rparr>)" "\<forall>x. \<exists>nf. H' x = (H x)\<lparr>b_next_free := nf\<rparr>"
      "fseg H' fl (frees 0 (xs @ [b]) @ frees (?nt + asz t) ys) 0"
    then show "\<exists>H' fl. hview r s s' ?D H' (R\<lparr>h_free_list := fl\<rparr>) \<and> (\<forall>x. \<exists>nf. H' x = (H x)\<lparr>b_next_free := nf\<rparr>) \<and>
      fseg H' fl (frees 0 (xs @ [b]) @ frees (?nt + asz t) ys) 0"
      by blast
  qed (use H(2) fr d in simp_all)
  have remove': "ends (freelist_remove r s (bp r d ?nt)) (tracked r d ?X F s0)"
  proof -
    have e: "span (xs @ [b]) = ?nt" "frees 0 (xs @ [b]) = frees 0 xs"
      using used by simp_all
    have t0: "tracked r d ?X F s0 s"
      by (rule tracked_mono [OF tr]) auto
    show ?thesis
      by (rule track_freelist_remove [OF H(1), of "xs @ [b]" t ys, unfolded e, OF _ _ fr d t0 _ o(2)]) (use H(2) in auto)
  qed
  have view: "runs (set_rh_used_bytes r s' x) (\<lambda>s'. hview r s s' ?D G (Q\<lparr>h_used_bytes := x\<rparr>))"
    "h_data_offset Q = d \<Longrightarrow> runs (set_blk_total_size r s' (bp r d ?h) y) (\<lambda>s'. hview r s s' ?D (G(?h := (G ?h)\<lparr>b_total_size := y\<rparr>)) Q)"
    "h_data_offset Q = d \<Longrightarrow> runs (set_blk_payload_cap r s' (bp r d ?h) z) (\<lambda>s'. hview r s s' ?D (G(?h := (G ?h)\<lparr>b_payload_cap := z\<rparr>)) Q)"
    if "hview r s s' ?D G Q" for s' G Q x y z
    by (rule wp_set_rh_used_bytes wp_set_blk_total_size wp_set_blk_payload_cap, rule that, (rule hD(1), erule sym)?, assumption)+
  have clear: "runs (set_blk_magic r s' (bp r d ?nt) m) (\<lambda>s'. hview r s s' ?D (G(?nt := (G ?nt)\<lparr>b_magic := m\<rparr>)) Q)"
    "runs (shm_persist r s' (bp r d ?nt) SIZEOF_BLOCK_HDR) (\<lambda>s'. hview r s s' ?D G Q)"
    if "hview r s s' ?D G Q" "h_data_offset Q = d" for s' G Q m
    by (rule wp_set_blk_magic wp_persist_blk, rule that, rule hD(2), rule that(2) [symmetric], assumption)+
  have flush: "ends (shm_persist r s' (bp r d ?nt) SIZEOF_BLOCK_HDR) (tracked r d ?Z F s0)" if "tracked r d ?X F s0 s'" for s'
    by (rule track_persist_blk [OF that le(2) F(3)]) (use hdr_line_bytes [of d ?nt] in auto)
  show ?thesis
    unfolding resize_absorb_def Let_def
  proof (rule ends_step [OF remove remove'], elim exE conjE)
    fix s1 H' fl
    assume v1: "hview r s s1 ?D H' (R\<lparr>h_free_list := fl\<rparr>)" and nf: "\<forall>x. \<exists>nf. H' x = (H x)\<lparr>b_next_free := nf\<rparr>"
      and ch: "fseg H' fl (frees 0 (xs @ [b]) @ frees (?nt + asz t) ys) 0" and t1: "tracked r d ?X F s0 s1"
    have "b_total_size (H' ?nt) = of_nat (asz t)"
      using nf nsz by (metis block_hdr.select_convs(8) block_hdr.surjective block_hdr.update_convs(9))
    show "ends (do { used \<leftarrow> rh_used_bytes r s1;
        nsz \<leftarrow> blk_total_size r s1 (bp r d ?nt);
        s \<leftarrow> set_rh_used_bytes r s1 (used + nsz);
        s \<leftarrow> set_blk_total_size r s (bp r d ?h) (of_nat ?sz);
        s \<leftarrow> set_blk_payload_cap r s (bp r d ?h) (of_nat ?sz - SIZEOF_BLOCK_HDR);
        s \<leftarrow> set_blk_magic r s (bp r d ?nt) 0;
        s \<leftarrow> shm_persist r s (bp r d ?nt) SIZEOF_BLOCK_HDR;
        s \<leftarrow> (if BLOCK_MIN \<le> of_nat ?sz - of_nat n then resize_cut r s (bp r d ?h) (of_nat n) (of_nat ?sz - of_nat n)
             else shm_persist r s (bp r d ?h) SIZEOF_BLOCK_HDR);
        shm_persist r s (shm_rh r + 96) 8 }) (tracked r d ?E F s0)"
      apply (rule ends_load, rule ends_load)
      apply (rule ends_step [OF view(1) [OF v1] track_set_rh(2) [OF t1]], force)
      apply (rule ends_step [OF view(2) track_set_blk(8) [OF _ o(1)]], assumption, simp add: d, assumption)
      apply (rule ends_step [OF view(3) track_set_blk(7) [OF _ o(1)]], assumption, simp add: d, assumption)
      apply (rule ends_step [OF clear(1) track_set_blk(1) [OF _ o(2)]], assumption, simp add: d, assumption)
      apply (rule ends_step [OF clear(2) flush], assumption, simp add: d, assumption)
      subgoal premises p for x y s2 s3 s4 s5 s6
        apply (rule rest [OF heap_view_rep [OF absorbed_view [OF H(2,3) used fr nf ch]] _ p(10)])
         apply (use p(9) ne in \<open>simp add: SIZEOF_BLOCK_HDR_def del: of_nat_add\<close>)
        apply (simp add: d)
        done
      done
  qed
qed

section \<open>Relocation\<close>

lemma track_memcpy:
  assumes t: "tracked r d X F s0 s"
    and c: "\<And>a. region_off r p \<le> a \<Longrightarrow> a < region_off r p + unat n \<Longrightarrow> a \<in> X \<and> (a < 80 \<or> 88 \<le> a)"
  shows "ends (memcpy r s p q n) (tracked r d X F s0)"
proof -
  have "tracked r d X F s0 (s\<lparr>mem := (\<lambda>a. if region_off r p \<le> a \<and> a < region_off r p + unat n
      then mem s (region_off r q + (a - region_off r p)) else mem s a)\<rparr>)"
    by (rule tracked_store [OF t]) (use c in \<open>force\<close>)
  then show ?thesis
    using t by (simp add: memcpy_def)
qed

text \<open>A copy stores to the payload of its target, which no structure lies in, and to its header.\<close>

lemma track_resize_copy:
  assumes hr: "heap_rep r s R (us @ c # ws)" and L: "us @ c # ws = xs @ b # ys" and ne: "span us \<noteq> span xs"
    and own: "aown c = Some no_owner" and cap: "acap b \<le> acap c" and d: "d = h_data_offset R"
    and t: "tracked r d Y F s0 s" and pay: "pay_range d (span us) (acap c) \<subseteq> Y" and F: "{3..} \<subseteq> F"
  shows "ends (resize_copy r s (bp r d (span xs)) (bp r d (span us))) (tracked r d Y F s0)"
proof -
  let ?bs = "us @ c # ws" and ?h = "span xs" and ?k = "span us"
  let ?D = "set (starts 0 ?bs)" and ?X = "Y \<union> hdr_range d ?k" and ?A = "unat d + ?k + 56"
  obtain H where H: "hview r s s ?D H R" "heap_shape H R ?bs"
    "unat (h_data_offset R) + span ?bs = unat (rsize r)" "list_all wf_blk ?bs"
    using hr unfolding heap_rep_def by (rule heap_viewE)
  have D: "?h \<in> ?D" "?k \<in> ?D"
    by (simp add: L) simp
  have b_ok: "blk_ok (H ?h) b" and c_ok: "blk_ok (H ?k) c"
    using H(2) [unfolded L] H(2) by (simp_all add: heap_shape_def del: fseg_append)
  have caps: "b_payload_cap (H ?h) = of_nat (acap b)" "b_payload_cap (H ?k) = of_nat (acap c)"
    using b_ok c_ok by (auto simp: blk_ok_def sizes_ok_def intro: unat64_eqD)
  have wf: "wf_blk b" "wf_blk c"
    using H(4) [unfolded L] H(4) by simp_all
  have tot: "span ?bs = span xs + asz b + span ys" "span ?bs = span us + asz c + span ws"
    by (simp add: L) simp
  have fit: "unat d + ?h + 56 + acap b \<le> unat (rsize r)" "?A + acap c \<le> unat (rsize r)"
    using H(3) d wf tot by (auto simp: wf_blk_def)
  have apart: "?h + 56 + acap b \<le> ?k \<or> ?k + 56 + acap b \<le> ?h"
    using two_splits [OF L ne] wf cap by (auto simp: wf_blk_def)
  have obin: "(?k + 56, acap c, no_owner) \<in> set (blk_objs 0 ?bs)"
    using own by simp
  have out: "a \<notin> hdr_bytes (unat d) ?D" if "?A \<le> a" "a < ?A + acap c" for a
    using payload_no_hdr [OF H(4) obin, of "unat d" a] that by (simp add: in_payload_def)
  have u: "unat (of_nat j :: u64) = j" "?A + j < 2 ^ 64" if "j \<le> acap c" for j
    using that fit(2) unat64_bound [of "rsize r"] by (simp_all add: unat64)
  have off: "region_off r (bp r d ?k + SIZEOF_BLOCK_HDR + of_nat j) = ?A + j" if "j \<le> acap c" for j
    unfolding payload_offset using region_off_base [OF u(2) [OF that], of r] by (simp add: add.assoc)
  have d200: "200 \<le> unat d"
    using t by (simp add: tracked_def)
  have in_pay: "a \<in> ?X \<and> (a < 80 \<or> 88 \<le> a)" if "?A \<le> a" "a < ?A + acap c" for a
    using that pay d200 by (auto simp: pay_range_def)
  have le: "unat d + ?k + 56 \<le> unat (rsize r)"
    using fit(2) by simp
  have o: "owns_blk r d ?X ?k"
    by (rule owns_hdr [OF le]) auto
  have t0: "tracked r d ?X F s0 s"
    by (rule tracked_mono [OF t]) auto
  have copy: "ends (memcpy r s (bp r d ?k + SIZEOF_BLOCK_HDR) (bp r d ?h + SIZEOF_BLOCK_HDR) (of_nat (acap b))) (tracked r d ?X F s0)"
    by (rule track_memcpy [OF t0]) (use off [of 0] u(1) [OF cap] in_pay cap in auto)
  have copy': "runs (memcpy r s (bp r d ?k + SIZEOF_BLOCK_HDR) (bp r d ?h + SIZEOF_BLOCK_HDR) (of_nat (acap b)))
      (\<lambda>s'. hview r s' s' ?D H R \<and> mem s' = copied (mem s) ?A (unat d + ?h + 56) (acap b) (acap b))"
    by (rule wp_memcpy_payload [OF H(1) d fit(1) _ apart]) (use fit(2) cap out in auto)
  have fill: "ends (if (0 :: u64) < of_nat (acap c) - of_nat (acap b)
        then memset r s' (bp r d ?k + SIZEOF_BLOCK_HDR + of_nat (acap b)) 0 (of_nat (acap c) - of_nat (acap b)) else Some s')
      (tracked r d ?X F s0)" if "tracked r d ?X F s0 s'" for s'
  proof -
    have e: "unat (of_nat (acap c) - of_nat (acap b) :: u64) = acap c - acap b"
      using u(1) [of "acap c - acap b"] cap by simp
    show ?thesis
      by (intro ends_if track_memset [OF that] in_pay) (use that cap in \<open>simp_all add: off [OF cap] e\<close>)
  qed
  have fill': "runs (if (0 :: u64) < of_nat (acap c) - of_nat (acap b)
        then memset r s' (bp r d ?k + SIZEOF_BLOCK_HDR + of_nat (acap b)) 0 (of_nat (acap c) - of_nat (acap b)) else Some s')
      (\<lambda>s'. hview r s' s' ?D H R)" if "hview r s' s' ?D H R" "mem s' = copied (mem s) ?A (unat d + ?h + 56) (acap b) (acap b)" for s'
    by (rule wp_fill_payload [OF that(1) d cap that(2) fit(2) out])
  have view: "runs (set_blk_type_tag r s' (bp r d ?k) x) (\<lambda>s'. hview r sv s' ?D (G(?k := (G ?k)\<lparr>b_type_tag := x\<rparr>)) R)"
    "runs (set_blk_owner r s' (bp r d ?k) x) (\<lambda>s'. hview r sv s' ?D (G(?k := (G ?k)\<lparr>b_owner := x\<rparr>)) R)"
    "runs (set_blk_perms r s' (bp r d ?k) x) (\<lambda>s'. hview r sv s' ?D (G(?k := (G ?k)\<lparr>b_perms := x\<rparr>)) R)"
    "runs (set_blk_obj_id r s' (bp r d ?k) w) (\<lambda>s'. hview r sv s' ?D (G(?k := (G ?k)\<lparr>b_obj_id := w\<rparr>)) R)"
    if "hview r sv s' ?D G R" for sv s' G x w
    by (rule wp_set_blk_type_tag wp_set_blk_owner wp_set_blk_perms wp_set_blk_obj_id, rule that, rule D(2), rule d, assumption)+
  have flush: "ends (shm_persist r s' (bp r d ?k + SIZEOF_BLOCK_HDR) (of_nat (acap c))) (tracked r d ?X F s0)"
    if "tracked r d ?X F s0 s'" for s'
    unfolding payload_offset using track_persist [OF that fit(2)] heap_lines [OF that F, of "?k + 56" "acap c"]
    by (auto simp: add.assoc elim!: ends_mono tracked_mono)
  have hdr: "ends (shm_persist r s' (bp r d ?k) SIZEOF_BLOCK_HDR) (tracked r d Y F s0)" if "tracked r d ?X F s0 s'" for s'
    by (rule track_persist_blk [OF that le heap_lines [OF that F]]) (use hdr_line_bytes [of d ?k] in auto)
  show ?thesis
    unfolding resize_copy_def Let_def
    apply (simp only: hview_blk_loads [OF H(1) D(1) d] caps Option.bind_lunit)
    apply (rule ends_step [OF copy' copy], elim conjE)
    subgoal premises p for s1
      apply (simp only: hview_blk_loads [OF p(2) D(1) d] hview_blk_loads [OF p(2) D(2) d] caps Option.bind_lunit)
      apply (rule ends_step [OF fill' [OF p(2,3)] fill [OF p(1)]])
      apply (rule ends_load)
      apply (rule ends_step [OF view(1) track_set_blk(2) [OF _ o]], assumption+)
      apply (rule ends_load)
      apply (rule ends_step [OF view(2) track_set_blk(3) [OF _ o]], assumption+)
      apply (rule ends_load)
      apply (rule ends_step [OF view(3) track_set_blk(4) [OF _ o]], assumption+)
      apply (rule ends_load)
      apply (rule ends_step [OF view(4) track_set_blk(6) [OF _ o]], assumption+)
      subgoal premises q for s2 x1 s3 x2 s4 x3 s5 x4 s6
        apply (simp add: hview_blk_loads(7) [OF q(9) D(2) d] caps)
        apply (rule ends_seq [OF flush [OF q(10)]])
        apply (rule hdr, assumption)
        done
      done
    done
qed

text \<open>
  What a relocation leaves: the link that led to the block it takes, and the counters of the release,
  when a free block then lies before the old block.
\<close>

definition move_lag :: "u64 \<Rightarrow> nat \<Rightarrow> ablk list \<Rightarrow> ablk \<Rightarrow> ablk list \<Rightarrow> nat \<Rightarrow> nat set" where
  "move_lag d n us f vs h = pred_link d (frees 0 us) \<union>
     (if \<exists>x\<in>set (frees 0 (us @ take_block n no_owner f @ vs)). x < h then {96..<112} else {})"

lemma track_resize_move:
  assumes hr: "heap_rep r s R (xs @ b # ys)" and own: "aown b = Some oi"
    and n: "56 \<le> n" "8 dvd n" "n < 2 ^ 64" and d: "d = h_data_offset R"
    and k: "200 \<le> k" "k + 96 \<le> unat d"
    and ff: "first_fit n (xs @ b # ys) = Some (us, f, vs)" and cap: "acap b \<le> acap (taken n no_owner f)"
    and t: "tracked r d Y F s0 s" and F: "{3..} \<subseteq> F" "1 \<in> F"
    and pay: "pay_range d (span us) (acap (taken n no_owner f)) \<subseteq> Y - rest_hdr d n us f"
  shows "ends (resize_move r s (rp r k) (bp r d (span xs)) (of_nat n)) (\<lambda>(ok, s').
    ok \<and> tracked r d ((Y - rest_hdr d n us f) \<union> move_lag d n us f vs (span xs) \<union> {k..<k + 96}) F s0 s')"
proof -
  let ?c = "taken n no_owner f" and ?ws = "taken_rest n f @ vs" and ?k = "span us"
  let ?E = "(Y - rest_hdr d n us f) \<union> move_lag d n us f vs (span xs)"
  let ?Z = "(Y - rest_hdr d n us f) \<union> pred_link d (frees 0 us)"
  have f: "us @ f # vs = xs @ b # ys" "is_free f" "n \<le> asz f"
    using first_fit_SomeD [OF ff] by simp_all
  have used: "\<not> is_free b"
    using own by (simp add: is_free_def)
  have wf: "list_all wf_blk (xs @ b # ys)"
    using hr by (auto simp: heap_rep_bytes heap_shape_def dest: tiles_wf)
  have pos: "0 < asz f" "0 < asz b"
    using wf wf [folded f(1)] by (auto simp: wf_blk_def)
  obtain xs1 ys1 where s1: "us @ take_block n no_owner f @ vs = xs1 @ b # ys1" "span xs1 = span xs" "span us \<noteq> span xs"
    by (rule take_keeps_block [OF f(1,2) used f(3) pos])
  have ne: "?k \<noteq> span xs1"
    using s1(2,3) by simp
  have L1: "us @ ?c # ?ws = xs1 @ b # ys1"
    using s1(1) by (simp add: take_block_Cons)
  obtain xs' ys' where s': "us @ take_block n oi f @ vs = xs' @ b # ys'" "span xs' = span xs"
    by (rule take_keeps_block [OF f(1,2) used f(3) pos])
  have L2: "us @ ?c\<lparr>aown := Some oi\<rparr> # ?ws = xs' @ b # ys'"
    using s'(1) by (simp add: take_block_Cons taken_owner)
  let ?P = "\<lambda>(q, s1). \<exists>fl. q = bp r d ?k \<and> heap_rep r s1 (count_alloc (R\<lparr>h_free_list := fl\<rparr>) (taken_size n f)) (us @ ?c # ?ws)"
  have heap: "runs (heap_alloc_block r s (of_nat n)) ?P"
    by (rule heap_alloc_block_refines [OF hr n d]) (use ff in \<open>auto simp: take_block_Cons dest: heap_view_rep\<close>)
  have "{3..} \<subseteq> F \<Longrightarrow> lines (unat d + x) 56 \<subseteq> F" for x
    using heap_lines [OF t] by blast
  then have track: "ends (heap_alloc_block r s (of_nat n)) (\<lambda>(p, s'). p = bp r d ?k \<and> tracked r d ?Z F s0 s')"
    using F by (intro track_heap_alloc [OF hr n(3) d t ff]) auto
  have frees_eq: "set (frees 0 (xs' @ b # ys')) = set (frees 0 (us @ take_block n no_owner f @ vs))"
    by (simp add: s'(1) [symmetric] take_block_Cons is_free_def taken_def)
  have wf': "list_all wf_blk (xs' @ b # ys')"
    using wf n(1) f(3) by (auto simp: f(1) [symmetric] s'(1) [symmetric] take_block_Cons taken_def taken_rest_def wf_blk_def)
  have before: "?Z \<union> {96..<112} \<subseteq> ?E" if "frees 0 xs' \<noteq> []"
  proof -
    have "hd (frees 0 xs') < span xs"
      using frees_le [of xs' "hd (frees 0 xs')" 0] that wf' s'(2) by simp
    moreover have "hd (frees 0 xs') \<in> set (frees 0 (us @ take_block n no_owner f @ vs))"
      unfolding frees_eq [symmetric] using that by simp
    ultimately show ?thesis
      unfolding move_lag_def by auto
  qed
  have slot: "owns_slot r (?E \<union> {k..<k + 96}) k"
    using k hr d by (auto simp: owns_slot_def heap_rep_bytes)
  show ?thesis
    unfolding resize_move_def
  proof (rule ends_step [OF heap track], clarify)
    fix s1 fl
    let ?R1 = "count_alloc (R\<lparr>h_free_list := fl\<rparr>) (taken_size n f)"
    assume hr1: "heap_rep r s1 ?R1 (us @ ?c # ?ws)" and t1: "tracked r d ?Z F s0 s1"
    have d1: "d = h_data_offset ?R1"
      using d by simp
    have nz: "bp r d ?k \<noteq> 0"
    proof -
      obtain H1 where "hview r s1 s1 (set (starts 0 (us @ ?c # ?ws))) H1 ?R1" "?k \<in> set (starts 0 (us @ ?c # ?ws))"
        by (rule heap_rep_block [OF hr1])
      then show ?thesis
        using d1 by (rule bp_nonzero)
    qed
    have copy: "runs (resize_copy r s1 (bp r d (span xs)) (bp r d ?k)) (\<lambda>s2. heap_rep r s2 ?R1 (xs' @ b # ys'))"
      by (rule resize_copy_refines [OF hr1 L1 ne own _ cap d1, unfolded s1(2) L2]) simp_all
    have copy': "ends (resize_copy r s1 (bp r d (span xs)) (bp r d ?k)) (tracked r d ?Z F s0)"
      by (rule track_resize_copy [OF hr1 L1 ne _ cap d1 t1 _ F(1), unfolded s1(2)]) (use pay in auto)
    have free: "ends (heap_free_block r s2 (bp r d (span xs))) (tracked r d ?E F s0)"
      if "heap_rep r s2 ?R1 (xs' @ b # ys')" "tracked r d ?Z F s0 s2" for s2
      using track_heap_free [OF that(1) used d1 that(2) F(1) F(2)] before
      by (cases "frees 0 xs' = []") (auto simp: s'(2) move_lag_def elim!: ends_mono tracked_mono)
    show "ends (if bp r d ?k = 0 then Some (False, s1)
        else do {
          s \<leftarrow> resize_copy r s1 (bp r d (span xs)) (bp r d ?k);
          s \<leftarrow> heap_free_block r s (bp r d (span xs));
          off \<leftarrow> shm_poff_of_blk r s (bp r d ?k);
          s \<leftarrow> set_ent_off r s (rp r k) off;
          cap \<leftarrow> blk_payload_cap r s (bp r d ?k);
          s \<leftarrow> set_ent_capacity r s (rp r k) cap;
          Some (True, s) }) (\<lambda>(ok, s'). ok \<and> tracked r d (?E \<union> {k..<k + 96}) F s0 s')"
      unfolding if_not_P [OF nz]
      apply (rule ends_step [OF copy copy'])
      apply (rule ends_seq [OF free], assumption, assumption)
      apply (rule ends_load)
      apply (rule ends_seq [OF track_set_ent(2) [OF tracked_mono slot]], assumption, blast)
      apply (rule ends_load)
      apply (rule ends_seq [OF track_set_ent(3) [OF _ slot]], assumption)
      apply simp
      done
  qed
qed

end
