(* ===== verification/Shm_Resize_Settled.thy ===== *)
theory Shm_Resize_Settled
  imports Shm_Resize_Track
begin

text \<open>
  \<open>shm_resize\<close> and the persistent medium, for the whole call: from a settled pool the call
  leads to a pool that is settled but for \<open>resize_lag\<close>, and a failing call changes nothing.
\<close>

section \<open>The branches of a resize\<close>

text \<open>The bytes that may be off the medium afterwards, and the header that is new.\<close>

definition resize_lag :: "u64 \<Rightarrow> nat \<Rightarrow> ablk list \<Rightarrow> ablk \<Rightarrow> ablk list \<Rightarrow> nat set" where
  "resize_lag d n xs b ys =
     (if n \<le> asz b then cut_lag n xs b
      else if growable n b ys then absorb_lag d n xs (widen b (hd ys))
      else case first_fit n (xs @ b # ys) of
             None \<Rightarrow> {}
           | Some (us, f, vs) \<Rightarrow> move_lag d n us f vs (span xs))"

definition resize_fresh :: "u64 \<Rightarrow> nat \<Rightarrow> ablk list \<Rightarrow> ablk \<Rightarrow> ablk list \<Rightarrow> nat set" where
  "resize_fresh d n xs b ys =
     (if n \<le> asz b then rest_hdr d n xs b
      else if growable n b ys then rest_hdr d n xs (widen b (hd ys))
      else case first_fit n (xs @ b # ys) of
             None \<Rightarrow> {}
           | Some (us, f, vs) \<Rightarrow> rest_hdr d n us f)"

definition resize_rest :: "u64 \<Rightarrow> nat set \<Rightarrow> nat \<Rightarrow> ablk list \<Rightarrow> ablk \<Rightarrow> ablk list \<Rightarrow> nat set" where
  "resize_rest d Y n xs b ys = (Y - resize_fresh d n xs b ys) \<union> resize_lag d n xs b ys"

text \<open>The cache lines that may be flushed: few, when a whole successor is absorbed.\<close>

definition absorb_lines :: "u64 \<Rightarrow> nat \<Rightarrow> ablk list \<Rightarrow> ablk \<Rightarrow> nat set" where
  "absorb_lines d k xs b = {1} \<union> lines k 96 \<union> lines (unat d + span xs) 56 \<union> lines (unat d + (span xs + asz b)) 56"

definition resize_lines :: "u64 \<Rightarrow> nat \<Rightarrow> nat \<Rightarrow> ablk list \<Rightarrow> ablk \<Rightarrow> ablk list \<Rightarrow> nat set" where
  "resize_lines d k n xs b ys =
     (if n \<le> asz b then {3..} \<union> (if frees 0 xs = [] then {1} else {})
      else if growable n b ys \<and> asz (widen b (hd ys)) < n + 64 then absorb_lines d k xs b
      else {1} \<union> {3..})"

lemmas resize_rest_defs = resize_rest_def resize_lag_def resize_fresh_def

text \<open>A relocation needs the payload of its target among the bytes that are not tracked.\<close>

definition target_free :: "u64 \<Rightarrow> nat set \<Rightarrow> nat \<Rightarrow> ablk list \<Rightarrow> bool" where
  "target_free d Y n bs \<longleftrightarrow>
     (case first_fit n bs of
        None \<Rightarrow> True
      | Some (us, f, vs) \<Rightarrow> pay_range d (span us) (acap (taken n no_owner f)) \<subseteq> Y - rest_hdr d n us f)"

lemma track_resize_block:
  assumes hr: "heap_rep r s R (xs @ b # ys)" and own: "aown b = Some oi"
    and n: "56 \<le> n" "8 dvd n" "n < 2 ^ 64" and safe: "move_safe n xs b ys"
    and d: "d = h_data_offset R" and k: "200 \<le> k" "k + 96 \<le> unat d" and t: "tracked r d Y F s0 s"
    and F: "F = resize_lines d k n xs b ys"
    and pay: "target_free d Y n (xs @ b # ys)"
  shows "ends (do {
       sz \<leftarrow> blk_total_size r s (bp r d (span xs));
       (if of_nat n \<le> sz then do {
          s \<leftarrow> resize_shrink r s (bp r d (span xs)) (of_nat n);
          cap \<leftarrow> blk_payload_cap r s (bp r d (span xs));
          s \<leftarrow> set_ent_capacity r s (rp r k) cap;
          Some (True, s) }
        else resize_grow r s (rp r k) (bp r d (span xs)) (of_nat n)) })
    (\<lambda>(ok, s'). if ok then tracked r d (resize_rest d Y n xs b ys \<union> {k..<k + 96}) F s0 s'
       else s' = s \<and> resize_rest d Y n xs b ys = Y)"
proof -
  let ?h = "span xs" and ?E = "resize_rest d Y n xs b ys"
  have used: "\<not> is_free b"
    using own by (simp add: is_free_def)
  obtain H where H: "hview r s s (set (starts 0 (xs @ b # ys))) H R" "?h \<in> set (starts 0 (xs @ b # ys))" "blk_ok (H ?h) b"
    using hr by (rule heap_rep_block)
  have sz: "blk_total_size r s (bp r d ?h) = Some (b_total_size (H ?h))" "unat (b_total_size (H ?h)) = asz b"
    using hview_blk_loads(8) [OF H(1,2) d] H(3) by (simp_all add: blk_ok_def sizes_ok_def)
  have le: "of_nat n \<le> b_total_size (H ?h) \<longleftrightarrow> n \<le> asz b"
    using n(3) sz(2) by (simp add: word_le_nat_alt unat64)
  have slot: "owns_slot r (?E \<union> {k..<k + 96}) k"
    using k hr d by (auto simp: owns_slot_def heap_rep_bytes)
  have cap: "ends (Option.bind (blk_payload_cap r s' (bp r d ?h)) (\<lambda>cap. Option.bind (set_ent_capacity r s' (rp r k) cap) (\<lambda>s. Some (True, s))))
      (\<lambda>(ok, s'). if ok then tracked r d (?E \<union> {k..<k + 96}) F s0 s' else s' = s \<and> ?E = Y)"
    if "tracked r d ?E F s0 s'" for s'
    by (rule ends_load, rule ends_seq [OF track_set_ent(3) [OF tracked_mono [OF that] slot]]) auto
  show ?thesis
  proof (cases "n \<le> asz b")
    case True
    have "ends (resize_shrink r s (bp r d ?h) (of_nat n)) (tracked r d ?E F s0)"
      using track_resize_shrink [OF hr used n(1,2) True d t] True by (auto simp: resize_rest_defs F resize_lines_def)
    then show ?thesis
      unfolding sz(1) Option.bind_lunit le if_P [OF True] by (rule ends_seq) (rule cap)
  next
    case False
    show ?thesis
    proof (cases "growable n b ys")
      case True
      then obtain u zs where ys: "ys = u # zs" and u: "is_free u" "n \<le> asz b + asz u"
        by (cases ys) auto
      have "ends (resize_absorb r s (bp r d ?h) (bp r d (?h + asz b)) (of_nat (asz b + asz u)) (of_nat n)) (tracked r d ?E F s0)"
      proof -
        have h3: "lines (unat d + h) 56 \<subseteq> {1} \<union> {3..}" for h
          using t by (force simp: lines_def tracked_def)
        have "1 \<in> F" "lines (unat d + ?h) 56 \<subseteq> F" "lines (unat d + (?h + asz b)) 56 \<subseteq> F"
          "n + 64 \<le> asz b + asz u \<Longrightarrow> {3..} \<subseteq> F"
          using False True h3 by (auto simp: F resize_lines_def absorb_lines_def ys)
        from track_resize_absorb [OF hr [unfolded ys] used u(1) n(1,2) u(2) d t this] show ?thesis
          using False True by (simp add: resize_rest_defs ys del: of_nat_add)
      qed
      then have "ends (resize_in_place r s (bp r d ?h) (of_nat n)) (\<lambda>(grew, s'). grew \<and> tracked r d ?E F s0 s')"
        unfolding resize_in_place_eq(2) [OF hr n(3) d True] by (simp add: ys ends_bind del: of_nat_add)
      then show ?thesis
        unfolding sz(1) Option.bind_lunit le if_not_P [OF False] resize_grow_def
        by (rule ends_seq) (auto intro: cap split del: if_split)
    next
      case ng: False
      have F13: "{3..} \<subseteq> F" "1 \<in> F"
        using False ng by (auto simp: F resize_lines_def)
      have grow: "resize_grow r s (rp r k) (bp r d ?h) (of_nat n) = resize_move r s (rp r k) (bp r d ?h) (of_nat n)"
        by (simp add: resize_grow_def resize_in_place_eq(1) [OF hr n(3) d ng])
      show ?thesis
      proof (cases "first_fit n (xs @ b # ys)")
        case None
        then have "resize_move r s (rp r k) (bp r d ?h) (of_nat n) = Some (False, s)"
          by (simp add: resize_move_def heap_alloc_block_eq(1) [OF hr n(3) d])
        then show ?thesis
          using None ng False by (simp add: sz(1) le grow resize_rest_defs)
      next
        case (Some v)
        obtain us f vs where v: "v = (us, f, vs)"
          by (cases v)
        have "acap b \<le> acap (taken n no_owner f)"
          using safe Some ng False by (simp add: move_safe_def v)
        moreover have "pay_range d (span us) (acap (taken n no_owner f)) \<subseteq> Y - rest_hdr d n us f"
          using pay Some by (simp add: target_free_def v)
        moreover have "?E = (Y - rest_hdr d n us f) \<union> move_lag d n us f vs ?h"
          using Some ng False by (simp add: resize_rest_defs v)
        ultimately have "ends (resize_move r s (rp r k) (bp r d ?h) (of_nat n))
            (\<lambda>(ok, s'). ok \<and> tracked r d (?E \<union> {k..<k + 96}) F s0 s')"
          using track_resize_move [OF hr own n d k Some [unfolded v] _ t F13] by simp
        then show ?thesis
          unfolding sz(1) Option.bind_lunit le if_not_P [OF False] grow by (rule ends_mono) auto
      qed
    qed
  qed
qed

section \<open>The call\<close>

lemma shm_resize_settles:
  assumes inv: "pool_inv r s R bs es" and lk: "lockable s" and c: "cmode s \<noteq> CACHE_NONE" and st: "settled Y s"
    and nz: "obj_id \<noteq> 0" "new_size \<noteq> 0" and nn: "nn = unat (alloc_size new_size)" "56 \<le> nn"
    and slot: "first_slot (\<lambda>e. e_id e = obj_id \<and> e_alive e \<noteq> 0) es 0 = Some i"
    and acc: "access_ok (e_owner (es ! i)) (e_perms (es ! i)) user cp SHM_PERM_RESIZE"
    and bs: "bs = xs @ b # ys" "aown b = Some oi" "unat (e_off (es ! i)) = span xs + 56"
    and safe: "move_safe nn xs b ys" and pay: "target_free (h_data_offset R) Y nn bs"
  shows "ends (shm_resize (Some r) s obj_id new_size user cp) (\<lambda>(rc, s').
     settled (resize_rest (h_data_offset R) Y nn xs b ys) s' \<and>
     (\<forall>a. a div 64 \<notin> resize_lines (h_data_offset R) (slot_pos R i) nn xs b ys \<longrightarrow> wpq s a = None \<longrightarrow> pmem s' a = pmem s a))"
proof -
  let ?s1 = "s\<lparr>mutex := MLocked\<rparr>" and ?k = "slot_pos R i" and ?d = "h_data_offset R"
  let ?F = "resize_lines ?d ?k nn xs b ys" and ?E = "resize_rest ?d Y nn xs b ys"
  note l = pool_lock [OF inv lk]
  note dr = pool_invD(2) [OF l(2)] and hr = pool_invD(1) [OF l(2)]
  have i: "i < length es" "live (es ! i)"
    using first_slot_SomeD [OF slot] nz by (auto simp: live_def)
  note sb = slot_bounds [OF dr i(1)]
  have find: "dir_find_by_id r ?s1 obj_id = Some (rp r ?k)" "rp r ?k \<noteq> 0"
    using dir_find_by_id_eq [OF dr, of obj_id] slot slot_ptr_nonzero [OF dr i(1)] by (simp_all add: slot_ptr_def)
  have off: "ent_off r ?s1 (rp r ?k) = Some (of_nat (span xs + 56))"
    using eview_loads(2) [OF dir_rep_eview [OF dr i(1)]] unat64_eqD [OF bs(3)] by simp
  have blk: "shm_blk_of_poff r ?s1 (of_nat (span xs + 56)) = Some (bp r ?d (span xs))"
    using hview_ptrs(6) [OF dir_rep_hview [OF dr] refl] .
  have k: "?k + 96 \<le> unat (rsize r)" "?k + 96 \<le> unat ?d"
    using sb(2) dr by (simp_all add: dir_rep_def)
  have n: "8 dvd nn" "nn < 2 ^ 64" "of_nat nn = alloc_size new_size"
    using alloc_size_dvd unat64_bound by (simp_all add: nn(1))
  let ?T = "\<lambda>(rc, s'). settled ?E s' \<and> (\<forall>a. a div 64 \<notin> ?F \<longrightarrow> wpq s a = None \<longrightarrow> pmem s' a = pmem s a)"
  have k3: "lines ?k 96 \<subseteq> {3..}"
    by (rule slot_lines [OF sb(1)]) simp
  then have kF: "lines ?k 96 \<subseteq> ?F"
    by (auto simp: resize_lines_def absorb_lines_def)
  have flush: "ends (shm_persist r s' (rp r ?k) SIZEOF_OBJ_ENTRY) (tracked r ?d ?E ?F ?s1)"
    if "tracked r ?d (?E \<union> {?k..<?k + 96}) ?F ?s1 s'" for s'
    by (rule track_persist_slot [OF that k(1) kF]) (auto intro: line_bytes_range)
  have fin: "ends (do {
        s \<leftarrow> set_ent_used_size r s' (rp r ?k) new_size;
        s \<leftarrow> shm_persist r s (rp r ?k) SIZEOF_OBJ_ENTRY;
        let s = shm_drain s;
        s \<leftarrow> region_unlock r s;
        Some (OK, s) }) ?T" if t: "tracked r ?d (?E \<union> {?k..<?k + 96}) ?F ?s1 s'" for s'
    apply (rule ends_seq [OF track_set_ent(4) [OF t]])
    using sb(1) k(1) apply (simp add: owns_slot_def)
    apply (rule ends_seq [OF flush], assumption)
    apply (auto simp: ends_def bind_eq_Some_conv Let_def dest!: tracked_unlock split: if_splits)
    done
  have work: "ends (do {
       sz \<leftarrow> blk_total_size r ?s1 (bp r ?d (span xs));
       (if alloc_size new_size \<le> sz then do {
          s \<leftarrow> resize_shrink r ?s1 (bp r ?d (span xs)) (alloc_size new_size);
          cap \<leftarrow> blk_payload_cap r s (bp r ?d (span xs));
          s \<leftarrow> set_ent_capacity r s (rp r ?k) cap;
          Some (True, s) }
        else resize_grow r ?s1 (rp r ?k) (bp r ?d (span xs)) (alloc_size new_size)) })
    (\<lambda>(ok, s'). if ok then tracked r ?d (?E \<union> {?k..<?k + 96}) ?F ?s1 s' else s' = ?s1 \<and> ?E = Y)"
    by (rule track_resize_block [OF hr [unfolded bs(1)] bs(2) nn(2) n(1,2) safe [unfolded bs(1)] refl sb(1) k(2)
          settled_locked [OF inv lk c st] refl pay [unfolded bs(1)], unfolded n(3)])
  have fail: "ends (Option.bind (region_unlock r ?s1) (\<lambda>s. Some (ENOMEM, s))) ?T" if "?E = Y"
    using l(3) st that by simp
  have finish: "ends (case v of (ok, s') \<Rightarrow>
        if \<not> ok then Option.bind (region_unlock r s') (\<lambda>s. Some (ENOMEM, s))
        else do {
          s \<leftarrow> set_ent_used_size r s' (rp r ?k) new_size;
          s \<leftarrow> shm_persist r s (rp r ?k) SIZEOF_OBJ_ENTRY;
          s \<leftarrow> region_unlock r (shm_drain s);
          Some (OK, s) }) ?T"
    if "case v of (ok, s') \<Rightarrow> if ok then tracked r ?d (?E \<union> {?k..<?k + 96}) ?F ?s1 s' else s' = ?s1 \<and> ?E = Y" for v
  proof (cases v)
    case (Pair ok s')
    show ?thesis
    proof (cases ok)
      case True
      with that fin [of s'] show ?thesis
        unfolding Pair prod.case Let_def by (simp only: True if_True not_True_eq_False if_False)
    next
      case False
      with that fail show ?thesis
        unfolding Pair prod.case by (simp only: False if_False not_False_eq_True if_True)
    qed
  qed
  have args: "\<not> (obj_id = 0 \<or> new_size = 0)"
    using nz by simp
  show ?thesis
    unfolding shm_resize_def option.case if_not_P [OF args] l(1) Option.bind_lunit prod.case find(1) if_not_P [OF find(2)]
      check_dir_access_eq [OF dr i] if_P [OF acc] off blk Let_def simp_thms if_False
    apply (rule ends_seq [OF work [unfolded ends_bind [where c = "blk_total_size r ?s1 (bp r ?d (span xs))"]]])
    apply (rule ends_seq, assumption)
    apply (rule finish, assumption)
    done
qed

lemma shm_resize_fails:
  assumes inv: "pool_inv r s R bs es" and lk: "lockable s" and nz: "obj_id \<noteq> 0" "new_size \<noteq> 0"
    and none: "first_slot (\<lambda>e. e_id e = obj_id \<and> e_alive e \<noteq> 0) es 0 = None \<or>
      (\<exists>i. first_slot (\<lambda>e. e_id e = obj_id \<and> e_alive e \<noteq> 0) es 0 = Some i \<and>
         \<not> access_ok (e_owner (es ! i)) (e_perms (es ! i)) user cp SHM_PERM_RESIZE)"
  shows "\<exists>rc. rc \<noteq> OK \<and> shm_resize (Some r) s obj_id new_size user cp = Some (rc, s\<lparr>mutex := MUnlocked\<rparr>)"
proof -
  note l = pool_lock [OF inv lk]
  note dr = pool_invD(2) [OF l(2)]
  note slot = dir_find_by_id_eq [OF dr, of obj_id]
  show ?thesis
  proof (cases "first_slot (\<lambda>e. e_id e = obj_id \<and> e_alive e \<noteq> 0) es 0")
    case None
    then show ?thesis
      using nz by (simp add: shm_resize_def l slot slot_ptr_def)
  next
    case (Some i)
    have i: "i < length es" "live (es ! i)"
      using first_slot_SomeD [OF Some] nz by (auto simp: live_def)
    then show ?thesis
      using nz Some none slot_ptr_nonzero [OF dr i(1)] check_dir_access_eq [OF dr i, of user cp SHM_PERM_RESIZE]
      by (simp add: shm_resize_def l slot slot_ptr_def)
  qed
qed

section \<open>The structures after a resize\<close>

lemma cut_meta:
  assumes "n \<le> asz w"
  shows "meta_bytes (unat d) (xs @ cut_block n w # cut_rest n w zs) \<subseteq> meta_bytes (unat d) (xs @ w # zs) \<union> rest_hdr d n xs w"
proof -
  have "set (starts 0 (xs @ cut_block n w # cut_rest n w zs)) \<subseteq>
      set (starts 0 (xs @ w # zs)) \<union> (if n + 64 \<le> asz w then {span xs + n} else {})"
    using assms merge_next_starts [of "span xs + n" "cut_tail n w" zs] by (auto simp: cut_block_def cut_rest_def)
  then show ?thesis
    by (auto simp: meta_bytes_def hdr_bytes_def rest_hdr_def hdr_range_def split: if_splits)
qed

lemma widen_meta: "meta_bytes d (xs @ widen b t # zs) \<subseteq> meta_bytes d (xs @ b # t # zs)"
  by (rule meta_of_hdrs) (auto simp: add.assoc)

lemma moved_meta:
  assumes "us @ take_block n i f @ vs = xs' @ b # ys'" "n \<le> asz f"
  shows "meta_bytes (unat d) (insert_free xs' b ys') \<subseteq> meta_bytes (unat d) (us @ f # vs) \<union> rest_hdr d n us f"
  using meta_of_hdrs [OF insert_free_starts, of "unat d" xs' b ys'] take_meta [OF assms(2), of d us i vs]
  unfolding assms(1) by blast

text \<open>Payload bytes of the target of a relocation belong to no structure.\<close>

lemma target_free_meta:
  assumes hr: "heap_rep r s R bs" and n: "56 \<le> n"
  shows "target_free d (- meta_bytes (unat d) bs) n bs"
proof (cases "first_fit n bs")
  case None
  then show ?thesis
    by (simp add: target_free_def)
next
  case (Some v)
  obtain us f vs where v: "v = (us, f, vs)"
    by (cases v)
  let ?bs = "us @ take_block n no_owner f @ vs"
  have f: "bs = us @ f # vs" "n \<le> asz f"
    using first_fit_SomeD [OF Some [unfolded v]] by simp_all
  have wf: "list_all wf_blk (us @ f # vs)"
    using hr by (auto simp: f(1) heap_rep_bytes heap_shape_def dest: tiles_wf)
  then have wf': "list_all wf_blk ?bs"
    using n f(2) by (auto simp: take_block_Cons taken_def taken_rest_def wf_blk_def)
  have ob: "(span us + 56, acap (taken n no_owner f), no_owner) \<in> set (blk_objs 0 ?bs)"
    by (simp add: take_block_Cons)
  have sub: "meta_bytes (unat d) bs \<union> rest_hdr d n us f \<subseteq> meta_bytes (unat d) ?bs"
    using f(2) by (auto simp: f(1) meta_bytes_def hdr_bytes_def rest_hdr_def hdr_range_def take_block_def)
  have "a \<notin> meta_bytes (unat d) ?bs" if "a \<in> pay_range d (span us) (acap (taken n no_owner f))" for a
    using payload_no_hdr [OF wf' ob, of "unat d" a] that by (auto simp: in_payload_def pay_range_def meta_bytes_def)
  then show ?thesis
    using sub by (auto simp: target_free_def Some v)
qed

lemma resize_done_meta:
  assumes post: "resize_done r s s' R es i xs b ys n oi used rc"
  shows "rc = OK \<Longrightarrow> \<exists>R' bs' es'. pool_inv r s' R' bs' es' \<and> h_data_offset R' = h_data_offset R \<and>
      meta_bytes (unat (h_data_offset R)) bs' \<subseteq>
        meta_bytes (unat (h_data_offset R)) (xs @ b # ys) \<union> resize_fresh (h_data_offset R) n xs b ys"
    and "rc \<noteq> OK \<Longrightarrow> mem s' = mem s \<and> resize_lag (h_data_offset R) n xs b ys = {} \<and> resize_fresh (h_data_offset R) n xs b ys = {}"
proof -
  let ?d = "h_data_offset R"
  have pool: "\<exists>R' bs' es'. pool_inv r s' R' bs' es' \<and> h_data_offset R' = ?d \<and> meta_bytes (unat ?d) bs' \<subseteq> M"
    if "resized_to r s s' R es i xs b ys bs2 off cap used" "meta_bytes (unat ?d) bs2 \<subseteq> M" for bs2 off cap M
    using that unfolding resized_to_def by (elim conjE exE, intro exI conjI) (assumption | simp)+
  show "\<exists>R' bs' es'. pool_inv r s' R' bs' es' \<and> h_data_offset R' = ?d \<and>
      meta_bytes (unat ?d) bs' \<subseteq> meta_bytes (unat ?d) (xs @ b # ys) \<union> resize_fresh ?d n xs b ys" if ok: "rc = OK"
  proof (cases "n \<le> asz b")
    case True
    then show ?thesis
      using post cut_meta [OF True, of ?d xs ys] by (intro pool) (auto simp: resize_done_def resize_fresh_def)
  next
    case False
    show ?thesis
    proof (cases "growable n b ys")
      case True
      then obtain t zs where ys: "ys = t # zs" and n: "n \<le> asz (widen b t)"
        by (cases ys) auto
      have "resized_to r s s' R es i xs b ys (xs @ cut_block n (widen b t) # cut_rest n (widen b t) zs) (span xs + 56)
          (acap (cut_block n (widen b t))) used"
        using post False True by (simp add: resize_done_def ys Let_def)
      then show ?thesis
        using cut_meta [OF n, of ?d xs zs] widen_meta [of "unat ?d" xs b t zs] False True
        by (intro pool) (auto simp: resize_fresh_def ys)
    next
      case ng: False
      obtain us f vs where ff: "first_fit n (xs @ b # ys) = Some (us, f, vs)"
        using post ok False ng by (auto simp: resize_done_def split: option.splits)
      then have f: "xs @ b # ys = us @ f # vs" "n \<le> asz f"
        using first_fit_SomeD [OF ff] by simp_all
      obtain xs' ys' where L: "us @ take_block n oi f @ vs = xs' @ b # ys'"
        and to: "resized_to r s s' R es i xs b ys (insert_free xs' b ys') (span us + 56) (acap (taken n oi f)) used"
        using post ff False ng by (auto simp: resize_done_def moved_to_def)
      show ?thesis
        using moved_meta [OF L f(2), of ?d] ff False ng by (intro pool [OF to]) (simp add: resize_fresh_def f(1) [symmetric])
    qed
  qed
  show "mem s' = mem s \<and> resize_lag ?d n xs b ys = {} \<and> resize_fresh ?d n xs b ys = {}" if "rc \<noteq> OK"
    using post that by (auto simp: resize_done_def resize_lag_def resize_fresh_def Let_def split: if_splits option.splits)
qed

section \<open>From a settled pool to a settled pool\<close>

text \<open>An identifier names one block.\<close>

lemma block_entry:
  assumes inv: "pool_inv r s R bs es" and bs: "bs = xs @ b # ys" "aown b = Some oi"
  obtains e where "e \<in> set es" "live e" "ent_obj e = (span xs + 56, acap b, oi)" "e_id e = o_id oi" "o_id oi \<noteq> 0"
proof -
  have "(span xs + 56, acap b, oi) \<in> set (blk_objs 0 bs)"
    by (simp add: bs)
  also have "set (blk_objs 0 bs) = set (dir_objs es)"
    using pool_invD(5) [OF inv] by (metis dir_ok_def set_mset_mset)
  finally obtain e where e: "e \<in> set es" "live e" "ent_obj e = (span xs + 56, acap b, oi)"
    by (auto simp: dir_objs_def)
  have "e_id e = o_id oi"
    using e(3) by (auto simp: ent_obj_def)
  moreover have "o_id oi \<noteq> 0"
    using e(2) calculation by (simp add: live_def)
  ultimately show thesis
    using that e by blast
qed

lemma block_of_id:
  assumes inv: "pool_inv r s R bs es" and slot: "i < length es" "live (es ! i)" "e_id (es ! i) = o_id oi"
    and bs: "bs = xs @ b # ys" "aown b = Some oi"
  shows "unat (e_off (es ! i)) = span xs + 56"
proof -
  obtain e where e: "e \<in> set es" "live e" "ent_obj e = (span xs + 56, acap b, oi)" "e_id e = o_id oi"
    by (rule block_entry [OF inv bs])
  have "inj_on e_id {e \<in> set es. live e}"
    using pool_invD(5) [OF inv] by (simp add: dir_ok_def distinct_map)
  moreover have "e_id e = e_id (es ! i)"
    using e(4) slot(3) by simp
  ultimately have "e = es ! i"
    by (rule inj_onD) (use slot e(1,2) in simp_all)
  then show ?thesis
    using e(3) by (simp add: ent_obj_def)
qed

text \<open>What is known after a permitted call, on the structures and on the medium.\<close>

lemma resize_in_pool:
  assumes st: "settled_pool {} r s R bs es" and nz: "new_size \<noteq> 0" and nn: "nn = unat (alloc_size new_size)" "56 \<le> nn"
    and bs: "bs = xs @ b # ys" "aown b = Some oi" and safe: "move_safe nn xs b ys"
    and i: "first_slot (\<lambda>e. e_id e = o_id oi \<and> e_alive e \<noteq> 0) es 0 = Some i"
    and acc: "access_ok (e_owner (es ! i)) (e_perms (es ! i)) user cp SHM_PERM_RESIZE"
  shows "runs (shm_resize (Some r) s (o_id oi) new_size user cp) (\<lambda>(rc, s').
    mutex s' = MUnlocked \<and> cmode s' = cmode s \<and>
    resize_done r s s' R es i xs b ys nn oi new_size rc \<and>
    settled (resize_rest (h_data_offset R) (- meta_bytes (unat (h_data_offset R)) bs) nn xs b ys) s' \<and>
    (\<forall>a. a div 64 \<notin> resize_lines (h_data_offset R) (slot_pos R i) nn xs b ys \<longrightarrow> wpq s a = None \<longrightarrow> pmem s' a = pmem s a))"
proof -
  have a: "pool_inv r s R bs es" "lockable s" "cmode s \<noteq> CACHE_NONE" "on_medium {} R bs s"
    using st by (simp_all add: settled_pool_def)
  let ?d = "h_data_offset R" and ?id = "o_id oi"
  let ?Y = "- meta_bytes (unat ?d) bs"
  have id: "?id \<noteq> 0"
    using block_entry [OF a(1) bs] by blast
  have e: "i < length es" "live (es ! i)" "e_id (es ! i) = ?id"
    using first_slot_SomeD [OF i] id by (auto simp: live_def)
  have off: "unat (e_off (es ! i)) = span xs + 56"
    by (rule block_of_id [OF a(1) e bs])
  have hr: "heap_rep r s R bs"
    using pool_invD(1) [OF a(1)] .
  have wf: "list_all wf_blk (xs @ b # ys)"
    using hr by (auto simp: bs(1) heap_rep_bytes heap_shape_def dest: tiles_wf)
  have Y: "settled ?Y s"
    using a(4) by (simp add: on_medium_def)
  have rs: "resize_safe nn bs es ?id user cp"
    using safe resize_safe_at [OF i acc wf off] by (simp add: bs(1))
  note ends = shm_resize_settles [OF a(1-3) Y id nz nn i acc bs off safe target_free_meta [OF hr nn(2)]]
  have run: "runs (shm_resize (Some r) s ?id new_size user cp) (resize_post r s R bs es ?id new_size user cp)"
    by (rule shm_resize_refines [OF a(1,2) id nz nn(2) [unfolded nn(1)] rs [unfolded nn(1)]])
  show ?thesis
  proof (rule runs_mono [OF ends_runs [OF run ends]], clarify, intro conjI)
    fix rc s'
    assume post: "resize_post r s R bs es ?id new_size user cp (rc, s')"
    then obtain us c vs oi' where u: "bs = us @ c # vs" "unat (e_off (es ! i)) = span us + 56" "aown c = Some oi'"
      and rd: "resize_done r s s' R es i us c vs nn oi' new_size rc"
      and mu: "mutex s' = MUnlocked" "cmode s' = cmode s"
      using i acc by (auto simp: resize_post_def nn(1))
    have "xs @ b # ys = us @ c # vs" "span xs = span us"
      using u bs(1) off by simp_all
    from split_at_span [OF this(1) wf this(2)] show "resize_done r s s' R es i xs b ys nn oi new_size rc"
      using rd u(3) bs(2) by simp
    show "mutex s' = MUnlocked" "cmode s' = cmode s"
      by (rule mu)+
  qed
qed

lemma resize_settled_pool:
  assumes st: "settled_pool {} r s R bs es" and nz: "new_size \<noteq> 0" and nn: "nn = unat (alloc_size new_size)" "56 \<le> nn"
    and bs: "bs = xs @ b # ys" "aown b = Some oi" and safe: "move_safe nn xs b ys"
  shows "runs (shm_resize (Some r) s (o_id oi) new_size user cp) (\<lambda>(rc, s'). \<exists>R' bs' es'.
    settled_pool (if rc = OK then resize_lag (h_data_offset R) nn xs b ys else {}) r s' R' bs' es' \<and>
    (rc = OK \<and> nn \<le> asz b \<and> frees 0 xs \<noteq> [] \<longrightarrow> h_used_bytes (rh_at (mem (crash s'))) = h_used_bytes R))"
proof -
  have a: "pool_inv r s R bs es" "lockable s" "cmode s \<noteq> CACHE_NONE" "on_medium {} R bs s"
    using st by (simp_all add: settled_pool_def)
  let ?d = "h_data_offset R" and ?id = "o_id oi"
  let ?Y = "- meta_bytes (unat ?d) bs"
  have id: "o_id oi \<noteq> 0"
    using block_entry [OF a(1) bs] by blast
  show ?thesis
  proof (cases "\<exists>i. first_slot (\<lambda>e. e_id e = ?id \<and> e_alive e \<noteq> 0) es 0 = Some i \<and>
      access_ok (e_owner (es ! i)) (e_perms (es ! i)) user cp SHM_PERM_RESIZE")
    case False
    then obtain rc where "rc \<noteq> OK" "shm_resize (Some r) s ?id new_size user cp = Some (rc, s\<lparr>mutex := MUnlocked\<rparr>)"
      using shm_resize_fails [OF a(1,2) id nz, of user cp] by (cases "first_slot (\<lambda>e. e_id e = ?id \<and> e_alive e \<noteq> 0) es 0") auto
    then show ?thesis
      using settled_pool_unlocked [OF st] by auto
  next
    case True
    then obtain i where i: "first_slot (\<lambda>e. e_id e = ?id \<and> e_alive e \<noteq> 0) es 0 = Some i"
      and acc: "access_ok (e_owner (es ! i)) (e_perms (es ! i)) user cp SHM_PERM_RESIZE"
      by auto
    have hr: "heap_rep r s R bs"
      using pool_invD(1) [OF a(1)] .
    have Y: "settled ?Y s"
      using a(4) by (simp add: on_medium_def)
    have low: "?Y \<inter> {64..<128} = {}"
      using hr by (auto simp: heap_rep_bytes meta_bytes_def)
    show ?thesis
    proof (rule runs_mono [OF resize_in_pool [OF st nz nn bs safe i acc]], clarify)
      fix rc s'
      assume mu: "mutex s' = MUnlocked" "cmode s' = cmode s"
        and rd: "resize_done r s s' R es i xs b ys nn oi new_size rc"
        and rest: "settled (resize_rest ?d ?Y nn xs b ys) s'"
        and still: "\<forall>a. a div 64 \<notin> resize_lines ?d (slot_pos R i) nn xs b ys \<longrightarrow> wpq s a = None \<longrightarrow> pmem s' a = pmem s a"
      have count: "rc = OK \<and> nn \<le> asz b \<and> frees 0 xs \<noteq> [] \<longrightarrow> h_used_bytes (rh_at (mem (crash s'))) = h_used_bytes R"
        using counters_still(1) [OF Y low, of s'] still pool_invD(8) [OF a(1)] by (simp add: resize_lines_def)
      have "\<exists>R' bs' es'. settled_pool (if rc = OK then resize_lag ?d nn xs b ys else {}) r s' R' bs' es'"
      proof (cases "rc = OK")
        case True
        from resize_done_meta(1) [OF rd True] obtain R' bs' es' where p: "pool_inv r s' R' bs' es'" "h_data_offset R' = ?d"
          and m: "meta_bytes (unat ?d) bs' \<subseteq> meta_bytes (unat ?d) bs \<union> resize_fresh ?d nn xs b ys"
          unfolding bs(1) by blast
        have "on_medium (resize_lag ?d nn xs b ys) R' bs' s'"
          unfolding on_medium_def p(2) by (rule settled_mono [OF rest]) (use m in \<open>auto simp: resize_rest_def\<close>)
        then show ?thesis
          using p(1) mu a(3) True by (auto simp: settled_pool_def lockable_def)
      next
        case False
        from resize_done_meta(2) [OF rd False] have m: "mem s' = mem s" "resize_lag ?d nn xs b ys = {}" "resize_fresh ?d nn xs b ys = {}"
          by simp_all
        have "pool_inv r s' R bs es"
          using pool_inv_bytes [OF a(1) m(1)] pool_invD(6) [OF a(1)] by simp
        moreover have "on_medium {} R bs s'"
          using rest m(2,3) by (simp add: on_medium_def resize_rest_def)
        ultimately show ?thesis
          using mu a(3) False by (auto simp: settled_pool_def lockable_def)
      qed
      with count show "\<exists>R' bs' es'. settled_pool (if rc = OK then resize_lag ?d nn xs b ys else {}) r s' R' bs' es' \<and>
          (rc = OK \<and> nn \<le> asz b \<and> frees 0 xs \<noteq> [] \<longrightarrow> h_used_bytes (rh_at (mem (crash s'))) = h_used_bytes R)"
        by blast
    qed
  qed
qed

end
