(* ===== verification/Shm_Core.thy ===== *)
theory Shm_Core
  imports Shm_Lost_Link Shm_Resize_Settled
begin

text \<open>
  What no call leaves behind. \<open>core_bytes\<close>: the bytes of the region header, the directory and the block
  headers, apart from the two counters and the links of the free list. Every call that finds them on the
  medium leaves them there: they name the objects, and the rest can be computed from them.
\<close>

section \<open>The bytes that are always on the medium\<close>

definition core_bytes :: "nat \<Rightarrow> ablk list \<Rightarrow> nat set" where
  "core_bytes d bs = ({..<d} - {96..<112}) \<union> {a. \<exists>h\<in>set (starts 0 bs). d + h \<le> a \<and> a < d + h + 48}"

lemma core_meta: "core_bytes d bs \<subseteq> meta_bytes d bs"
  by (auto simp: core_bytes_def meta_bytes_def hdr_bytes_def)

lemma core_of_starts:
  assumes "set (starts 0 bs') \<subseteq> set (starts 0 bs) \<union> T" "\<And>h. h \<in> T \<Longrightarrow> hdr_range d h \<subseteq> X"
  shows "core_bytes (unat d) bs' \<subseteq> core_bytes (unat d) bs \<union> X"
proof
  fix a assume "a \<in> core_bytes (unat d) bs'"
  then consider "a < unat d" "a \<notin> {96..<112}" | h where "h \<in> set (starts 0 bs')" "unat d + h \<le> a" "a < unat d + h + 48"
    by (auto simp: core_bytes_def)
  then show "a \<in> core_bytes (unat d) bs \<union> X"
  proof cases
    case 2
    then have "h \<in> set (starts 0 bs) \<or> h \<in> T" "a \<in> hdr_range d h"
      using assms(1) by (auto simp: hdr_range_def)
    then show ?thesis
      using 2 assms(2) by (auto simp: core_bytes_def)
  qed (auto simp: core_bytes_def)
qed

text \<open>Neither the counters nor the link of a block belong to it.\<close>

lemma counters_not_core: "200 \<le> d \<Longrightarrow> a \<in> core_bytes d bs \<Longrightarrow> a < 96 \<or> 112 \<le> a"
  by (auto simp: core_bytes_def)

lemma link_not_core:
  assumes "list_all wf_blk bs" "set hs \<subseteq> set (starts 0 bs)"
  shows "pred_link d hs \<inter> core_bytes (unat d) bs = {}"
proof (cases "hs = []")
  case False
  then have p: "last hs \<in> set (starts 0 bs)"
    using assms(2) last_in_set by blast
  have "a \<notin> core_bytes (unat d) bs" if a: "a \<in> link_cell d (last hs)" for a
  proof
    assume "a \<in> core_bytes (unat d) bs"
    then obtain h where h: "h \<in> set (starts 0 bs)" "unat d + h \<le> a" "a < unat d + h + 48"
      using a by (auto simp: core_bytes_def link_cell_def)
    have "h \<noteq> last hs \<Longrightarrow> h + 56 \<le> last hs \<or> last hs + 56 \<le> h"
      using starts_separated [OF assms(1)] h(1) p by (auto simp: separated_def)
    then show False
      using a h(2,3) by (auto simp: link_cell_def)
  qed
  then show ?thesis
    by (auto simp: pred_link_def)
qed (simp add: pred_link_def)

definition core_kept :: "shm_region \<Rightarrow> machine \<Rightarrow> bool" where
  "core_kept r s \<longleftrightarrow> cmode s \<noteq> CACHE_NONE \<and>
     (\<exists>R bs es. pool_inv r s R bs es \<and> settled (- core_bytes (unat (h_data_offset R)) bs) s)"

lemma core_keptI:
  assumes "cmode s \<noteq> CACHE_NONE" "pool_inv r s R bs es" "settled Y s" "Y \<inter> core_bytes (unat (h_data_offset R)) bs = {}"
  shows "core_kept r s"
proof -
  have "Y \<subseteq> - core_bytes (unat (h_data_offset R)) bs"
    using assms(4) by blast
  with assms(1-3) show ?thesis
    unfolding core_kept_def by (blast intro: settled_mono)
qed

lemma core_keptD:
  assumes "core_kept r s" "pool_inv r s R bs es"
  shows "cmode s \<noteq> CACHE_NONE" "settled (- core_bytes (unat (h_data_offset R)) bs) s"
proof -
  obtain R' bs' es' where k: "pool_inv r s R' bs' es'" "settled (- core_bytes (unat (h_data_offset R')) bs') s"
    using assms(1) by (auto simp: core_kept_def)
  show "settled (- core_bytes (unat (h_data_offset R)) bs) s"
    using k(2) pool_inv_determined [OF k(1) assms(2)] by simp
qed (use assms(1) in \<open>simp add: core_kept_def\<close>)

lemma pool_bounds: "pool_inv r s R bs es \<Longrightarrow> list_all wf_blk bs \<and> 200 \<le> unat (h_data_offset R)"
  by (auto simp: heap_rep_bytes heap_shape_def dest!: pool_invD(1) dest: tiles_wf)

text \<open>A change of other bytes, or none.\<close>

lemma core_kept_quiet:
  assumes "core_kept r s" "mem s' = mem s" "pmem s' = pmem s" "wpq s' = wpq s" "cmode s' = cmode s"
  shows "core_kept r s'"
proof -
  obtain R bs es where k: "pool_inv r s R bs es" "settled (- core_bytes (unat (h_data_offset R)) bs) s" "cmode s \<noteq> CACHE_NONE"
    using assms(1) by (auto simp: core_kept_def)
  have "pool_inv r s' R bs es"
    using pool_inv_bytes [OF k(1) assms(2)] pool_invD(6) [OF k(1)] by simp
  moreover have "settled (- core_bytes (unat (h_data_offset R)) bs) s'"
    using k(2) assms(2-4) by (simp add: settled_def durable_def)
  ultimately show ?thesis
    using k(3) assms(5) by (auto simp: core_kept_def)
qed

lemma core_kept_unlocked: "core_kept r s \<Longrightarrow> core_kept r (s\<lparr>mutex := m\<rparr>)"
  by (rule core_kept_quiet) simp_all

section \<open>Every call keeps them there\<close>

lemma alloc_core:
  assumes k: "core_kept r s" and lk: "lockable s" and p: "psize \<noteq> 0" and n: "56 \<le> unat (alloc_size psize)"
    and nid: "h_next_id (rh_at (mem s)) + 1 \<noteq> 0"
    and run: "shm_alloc (Some r) s psize name user pm tag True True = Some (rc, out, s')"
  shows "core_kept r s'"
proof -
  obtain R bs es where i: "pool_inv r s R bs es" "settled (- core_bytes (unat (h_data_offset R)) bs) s" and c: "cmode s \<noteq> CACHE_NONE"
    using k by (auto simp: core_kept_def)
  let ?n = "unat (alloc_size psize)" and ?oi = "alloc_info R user pm tag" and ?d = "h_data_offset R"
  show ?thesis
  proof (cases "first_slot (\<lambda>e. \<not> live e) es 0 = None \<or> first_fit ?n bs = None")
    case True
    then show ?thesis
      using shm_alloc_fails [OF i(1) lk p True] run core_kept_unlocked [OF k] by auto
  next
    case False
    then obtain j xs b ys where j: "first_slot (\<lambda>e. \<not> live e) es 0 = Some j" and ff: "first_fit ?n bs = Some (xs, b, ys)"
      by auto
    have bs: "bs = xs @ b # ys" "?n \<le> asz b"
      using first_fit_SomeD [OF ff] by auto
    have R: "h_next_id R + 1 \<noteq> 0"
      using nid pool_invD(8) [OF i(1)] by simp
    have post: "alloc_post r s R bs es psize name ?oi (rc, out, s')"
      using shm_alloc_refines [OF i(1) lk p n R, of name user pm tag] run by simp
    have set: "settled (alloc_rest ?d (- core_bytes (unat ?d) bs) ?n xs b) s'"
      using endsD [OF shm_alloc_settles [OF i(1) lk c i(2) p n j ff refl] run] by simp
    obtain fl es' where inv': "pool_inv r s' (alloc_hdr R fl (taken_size ?n b)) (xs @ take_block ?n ?oi b @ ys) es'"
      and c': "cmode s' = cmode s"
      using post by (auto simp: alloc_post_def j ff alloc_done_def)
    have "set (starts 0 (xs @ take_block ?n ?oi b @ ys)) \<subseteq>
        set (starts 0 bs) \<union> (if ?n + 64 \<le> asz b then {span xs + ?n} else {})"
      using bs by (auto simp: take_block_def)
    then have "core_bytes (unat ?d) (xs @ take_block ?n ?oi b @ ys) \<subseteq> core_bytes (unat ?d) bs \<union> rest_hdr ?d ?n xs b"
      by (rule core_of_starts) (auto simp: rest_hdr_def split: if_splits)
    moreover have "pred_link ?d (frees 0 xs) \<inter> core_bytes (unat ?d) (xs @ take_block ?n ?oi b @ ys) = {}"
      using pool_bounds [OF inv'] frees_starts [of 0 xs] by (intro link_not_core) auto
    ultimately show ?thesis
      using c c' by (intro core_keptI [OF _ inv' set]) (auto simp: alloc_rest_def)
  qed
qed

lemma free_core:
  assumes k: "core_kept r s" and lk: "lockable s" and run: "shm_free (Some r) s obj_id user cp = Some (rc, s')"
  shows "core_kept r s'"
proof -
  obtain R bs es where i: "pool_inv r s R bs es" "settled (- core_bytes (unat (h_data_offset R)) bs) s" and c: "cmode s \<noteq> CACHE_NONE"
    using k by (auto simp: core_kept_def)
  let ?d = "h_data_offset R"
  show ?thesis
  proof (cases "obj_id = 0 \<or> \<not> (\<exists>j. first_slot (\<lambda>e. e_id e = obj_id \<and> e_alive e \<noteq> 0) es 0 = Some j \<and>
      access_ok (e_owner (es ! j)) (e_perms (es ! j)) user cp SHM_PERM_FREE)")
    case True
    show ?thesis
    proof (cases "obj_id = 0")
      case True
      then show ?thesis
        using run k by (simp add: shm_free_def)
    next
      case False
      then obtain rc' where "shm_free (Some r) s obj_id user cp = Some (rc', s\<lparr>mutex := MUnlocked\<rparr>)"
        using shm_free_fails [OF i(1) lk False, of user cp] True
        by (cases "first_slot (\<lambda>e. e_id e = obj_id \<and> e_alive e \<noteq> 0) es 0") auto
      then show ?thesis
        using run core_kept_unlocked [OF k] by simp
    qed
  next
    case False
    then obtain j where nz: "obj_id \<noteq> 0" and j: "first_slot (\<lambda>e. e_id e = obj_id \<and> e_alive e \<noteq> 0) es 0 = Some j"
      and acc: "access_ok (e_owner (es ! j)) (e_perms (es ! j)) user cp SHM_PERM_FREE"
      by auto
    have post: "free_post r s R bs es obj_id user cp (rc, s')"
      using shm_free_refines [OF i(1) lk nz, of user cp] run by simp
    obtain xs b ys where b: "bs = xs @ b # ys" "unat (e_off (es ! j)) = span xs + 56" "aown b \<noteq> None"
      and fd: "free_done r s s' R es j xs b ys" and c': "cmode s' = cmode s"
      using post j acc by (auto simp: free_post_def)
    have used: "\<not> is_free b"
      using b(3) by (simp add: is_free_def)
    obtain fl where inv': "pool_inv r s' (count_free (R\<lparr>h_free_list := fl\<rparr>) (asz b)) (insert_free xs b ys) (es[j := zero_ent])"
      using fd by (auto simp: free_done_def)
    have set: "settled (free_rest (- core_bytes (unat ?d) bs) xs) s'"
      using endsD [OF shm_free_settles [OF i(1) lk c i(2) nz j acc b(1) used b(2)] run] by simp
    have "core_bytes (unat ?d) (insert_free xs b ys) \<subseteq> core_bytes (unat ?d) bs \<union> {}"
      by (rule core_of_starts [where T = "{}"]) (use insert_free_starts [of xs b ys] b(1) in auto)
    moreover have "{96..<112} \<inter> core_bytes (unat ?d) (insert_free xs b ys) = {}"
      using counters_not_core [of "unat ?d"] pool_bounds [OF i(1)] by fastforce
    ultimately show ?thesis
      using c c' by (intro core_keptI [OF _ inv' set]) (auto simp: free_rest_def split: if_splits)
  qed
qed

lemma perms_core:
  assumes k: "core_kept r s" and lk: "lockable s" and inv: "pool_inv r s R (xs @ b # ys) es" and own: "aown b \<noteq> None"
    and run: "shm_block_set_perms (Some r) s (of_nat (span xs + 56)) user cp np = Some (rc, s')"
  shows "core_kept r s'"
proof -
  note kD = core_keptD [OF k inv]
  obtain oi where oi: "aown b = Some oi"
    using own by auto
  have post: "perms_post r s R es xs b ys oi user cp np (rc, s')"
    using shm_block_set_perms_refines [OF inv lk oi, of user cp np] run by simp
  have set': "settled (- core_bytes (unat (h_data_offset R)) (xs @ b # ys)) s'"
    using endsD [OF shm_block_set_perms_settles [OF inv lk kD(1,2) oi] run] by simp
  have cm: "cmode s' \<noteq> CACHE_NONE"
    using post kD(1) by (simp add: perms_post_def)
  show ?thesis
  proof (cases "access_ok (o_owner oi) (o_perms oi) user cp SHM_PERM_WRITE")
    case False
    then have "mem s' = mem s"
      using post by (simp add: perms_post_def)
    then have "pool_inv r s' R (xs @ b # ys) es"
      using pool_inv_bytes [OF inv] pool_invD(6) [OF inv] by simp
    then show ?thesis
      by (rule core_keptI [OF cm _ set']) simp
  next
    case True
    then obtain es' where inv': "pool_inv r s' R (xs @ b\<lparr>aown := Some (oi\<lparr>o_perms := np\<rparr>)\<rparr> # ys) es'"
      using post by (auto simp: perms_post_def)
    then show ?thesis
      by (rule core_keptI [OF cm _ set']) (auto simp: core_bytes_def)
  qed
qed

text \<open>A resize: the new header of the remainder is flushed, what is not are links and counters.\<close>

lemma resize_done_core:
  assumes post: "resize_done r s s' R es i xs b ys n oi used OK" and inv: "pool_inv r s R (xs @ b # ys) es" and n: "56 \<le> n"
  shows "\<exists>R' bs' es'. pool_inv r s' R' bs' es' \<and> h_data_offset R' = h_data_offset R \<and>
    resize_rest (h_data_offset R) (- core_bytes (unat (h_data_offset R)) (xs @ b # ys)) n xs b ys \<inter>
      core_bytes (unat (h_data_offset R)) bs' = {}"
proof -
  let ?d = "h_data_offset R" and ?bs = "xs @ b # ys"
  let ?ok = "\<lambda>bs'. resize_rest ?d (- core_bytes (unat ?d) ?bs) n xs b ys \<inter> core_bytes (unat ?d) bs' = {}"
  have d: "200 \<le> unat ?d" and wf: "list_all wf_blk ?bs"
    using pool_bounds [OF inv] by simp_all
  have pool: "\<exists>R' bs' es'. pool_inv r s' R' bs' es' \<and> h_data_offset R' = ?d \<and> ?ok bs'"
    if "resized_to r s s' R es i xs b ys bs2 off cap used" "list_all wf_blk bs2 \<Longrightarrow> ?ok bs2" for bs2 off cap
  proof -
    note to = that(1)
    obtain fl es' where p: "pool_inv r s' (R\<lparr>h_free_list := fl, h_used_bytes := of_nat (used_span bs2)\<rparr>) bs2 es'"
      using to by (auto simp: resized_to_def)
    show ?thesis
      using p that(2) pool_bounds [OF p] by (intro exI conjI) (assumption | simp)+
  qed
  have ok: "?ok bs'"
    if "set (starts 0 bs') \<subseteq> set (starts 0 ?bs) \<union> T" "\<And>h. h \<in> T \<Longrightarrow> hdr_range ?d h \<subseteq> resize_fresh ?d n xs b ys"
      "resize_lag ?d n xs b ys \<inter> core_bytes (unat ?d) bs' = {}" for bs' T
    using core_of_starts [OF that(1,2)] that(3) by (auto simp: resize_rest_def)
  show ?thesis
  proof (cases "n \<le> asz b")
    case True
    show ?thesis
    proof (rule pool)
      show "resized_to r s s' R es i xs b ys (xs @ cut_block n b # cut_rest n b ys) (span xs + 56) (acap (cut_block n b)) used"
        using post True by (simp add: resize_done_def)
      show "?ok (xs @ cut_block n b # cut_rest n b ys)"
        apply (rule ok [where T = "if n + 64 \<le> asz b then {span xs + n} else {}"])
          apply (use True merge_next_starts [of "span xs + n" "cut_tail n b" ys] in \<open>auto simp: cut_block_def cut_rest_def\<close>) []
         apply (use True in \<open>auto simp: resize_fresh_def rest_hdr_def split: if_splits\<close>) []
        apply (use True in \<open>auto simp: resize_lag_def cut_lag_def dest: counters_not_core [OF d]\<close>)
        done
    qed
  next
    case False
    show ?thesis
    proof (cases "growable n b ys")
      case True
      then obtain t zs where ys: "ys = t # zs" and n: "n \<le> asz (widen b t)"
        by (cases ys) auto
      let ?w = "widen b t"
      let ?bs' = "xs @ cut_block n ?w # cut_rest n ?w zs"
      show ?thesis
      proof (rule pool)
        show "resized_to r s s' R es i xs b ys ?bs' (span xs + 56) (acap (cut_block n ?w)) used"
          using post False True by (simp add: resize_done_def ys Let_def)
        assume wf': "list_all wf_blk ?bs'"
        have "pred_link ?d (frees 0 xs) \<inter> core_bytes (unat ?d) ?bs' = {}"
          using wf' frees_starts [of 0 xs] by (intro link_not_core) auto
        then have lag: "resize_lag ?d n xs b ys \<inter> core_bytes (unat ?d) ?bs' = {}"
          using False True by (auto simp: resize_lag_def absorb_lag_def ys)
        show "?ok ?bs'"
          apply (rule ok [where T = "if n + 64 \<le> asz ?w then {span xs + n} else {}", OF _ _ lag])
           apply (use n merge_next_starts [of "span xs + n" "cut_tail n ?w" zs] in
               \<open>auto simp: cut_block_def cut_rest_def ys add.assoc\<close>) []
          apply (use False True in \<open>auto simp: resize_fresh_def rest_hdr_def ys split: if_splits\<close>)
          done
      qed
    next
      case ng: False
      obtain us f vs where ff: "first_fit n ?bs = Some (us, f, vs)"
        using post False ng by (auto simp: resize_done_def split: option.splits)
      then have f: "?bs = us @ f # vs" "n \<le> asz f" "is_free f"
        using first_fit_SomeD [OF ff] by simp_all
      obtain xs' ys' where L: "us @ take_block n oi f @ vs = xs' @ b # ys'"
        and to: "resized_to r s s' R es i xs b ys (insert_free xs' b ys') (span us + 56) (acap (taken n oi f)) used"
        using post ff False ng by (auto simp: resize_done_def moved_to_def)
      let ?L = "us @ take_block n oi f @ vs"
      have wfL: "list_all wf_blk ?L"
        using wf n f(2) unfolding f(1) by (auto simp: take_block_Cons taken_def taken_rest_def wf_blk_def)
      have sub: "set (starts 0 (insert_free xs' b ys')) \<subseteq> set (starts 0 ?L)"
        using insert_free_starts [of xs' b ys'] by (simp only: L)
      have "pred_link ?d (frees 0 us) \<inter> core_bytes (unat ?d) ?L = {}"
        using wfL frees_starts [of 0 us] by (intro link_not_core) auto
      moreover have "core_bytes (unat ?d) (insert_free xs' b ys') \<subseteq> core_bytes (unat ?d) ?L \<union> {}"
        by (rule core_of_starts [where T = "{}"]) (use sub in auto)
      ultimately have lag: "resize_lag ?d n xs b ys \<inter> core_bytes (unat ?d) (insert_free xs' b ys') = {}"
        using False ng ff by (auto simp: resize_lag_def move_lag_def dest: counters_not_core [OF d])
      have starts: "set (starts 0 (insert_free xs' b ys')) \<subseteq> set (starts 0 ?bs) \<union> (if n + 64 \<le> asz f then {span us + n} else {})"
        using sub f(2) unfolding f(1) by (auto simp: take_block_def)
      show ?thesis
        by (rule pool [OF to ok [OF starts _ lag]])
          (use False ng ff in \<open>auto simp: resize_fresh_def rest_hdr_def split: if_splits\<close>)
    qed
  qed
qed

lemma resize_core:
  assumes k: "core_kept r s" and lk: "lockable s" and nz: "obj_id \<noteq> 0" "new_size \<noteq> 0"
    and n: "56 \<le> unat (alloc_size new_size)" and inv: "pool_inv r s R bs es"
    and run: "shm_resize (Some r) s obj_id new_size user cp = Some (rc, s')"
  shows "core_kept r s'"
proof -
  let ?d = "h_data_offset R" and ?n = "unat (alloc_size new_size)"
  note kD = core_keptD [OF k inv]
  show ?thesis
  proof (cases "\<exists>j. first_slot (\<lambda>e. e_id e = obj_id \<and> e_alive e \<noteq> 0) es 0 = Some j \<and>
      access_ok (e_owner (es ! j)) (e_perms (es ! j)) user cp SHM_PERM_RESIZE")
    case False
    then obtain rc' where "shm_resize (Some r) s obj_id new_size user cp = Some (rc', s\<lparr>mutex := MUnlocked\<rparr>)"
      using shm_resize_fails [OF inv lk nz, of user cp] by (cases "first_slot (\<lambda>e. e_id e = obj_id \<and> e_alive e \<noteq> 0) es 0") auto
    then show ?thesis
      using run core_kept_unlocked [OF k] by simp
  next
    case True
    then obtain j where j: "first_slot (\<lambda>e. e_id e = obj_id \<and> e_alive e \<noteq> 0) es 0 = Some j"
      and acc: "access_ok (e_owner (es ! j)) (e_perms (es ! j)) user cp SHM_PERM_RESIZE"
      by auto
    have post: "resize_post r s R bs es obj_id new_size user cp (rc, s')"
      using inv lk nz n run by (rule shm_resize_returned)
    obtain xs b ys oi where b: "bs = xs @ b # ys" "unat (e_off (es ! j)) = span xs + 56" "aown b = Some oi"
      and rd: "resize_done r s s' R es j xs b ys ?n oi new_size rc" and cm: "cmode s' = cmode s"
      using post j acc by (auto simp: resize_post_def)
    have hr: "heap_rep r s R bs"
      using pool_invD(1) [OF inv] .
    have "target_free ?d (- core_bytes (unat ?d) bs) ?n bs"
      using target_free_meta [OF hr n, of ?d] core_meta [of "unat ?d" bs] by (fastforce simp: target_free_def split: option.splits)
    moreover have "list_all wf_blk (xs @ b # ys)"
      using hr by (auto simp: b(1) heap_rep_bytes heap_shape_def dest: tiles_wf)
    then have "move_safe ?n xs b ys"
      using shm_resize_returned(1) [OF inv lk nz n run] resize_safe_at [OF j acc _ b(2)] by (simp add: b(1))
    ultimately have "ends (shm_resize (Some r) s obj_id new_size user cp) (\<lambda>(rc, s').
        settled (resize_rest ?d (- core_bytes (unat ?d) bs) ?n xs b ys) s')"
      by (intro ends_mono [OF shm_resize_settles [OF inv lk kD nz refl n j acc b(1,3,2)]]) auto
    then have set: "settled (resize_rest ?d (- core_bytes (unat ?d) bs) ?n xs b ys) s'"
      using run by (auto simp: ends_def)
    have c': "cmode s' \<noteq> CACHE_NONE"
      using kD(1) cm by simp
    show ?thesis
    proof (cases "rc = OK")
      case True
      then obtain R' bs' es' where "pool_inv r s' R' bs' es'" "h_data_offset R' = ?d"
        "resize_rest ?d (- core_bytes (unat ?d) bs) ?n xs b ys \<inter> core_bytes (unat ?d) bs' = {}"
        using resize_done_core [OF rd [unfolded True] inv [unfolded b(1)] n] unfolding b(1) by blast
      then show ?thesis
        using core_keptI [OF c' _ set] by simp
    next
      case False
      from resize_done_meta(2) [OF rd False]
      have m: "mem s' = mem s" "resize_rest ?d (- core_bytes (unat ?d) bs) ?n xs b ys = - core_bytes (unat ?d) bs"
        by (simp_all add: resize_rest_def)
      have "pool_inv r s' R bs es"
        using pool_inv_bytes [OF inv m(1)] pool_invD(6) [OF inv] by simp
      then show ?thesis
        by (rule core_keptI [OF c' _ set [unfolded m(2)]]) simp
    qed
  qed
qed

text \<open>The count of hosts, in the first cache line of the region header.\<close>

lemma track_hosts:
  assumes t: "tracked r d Y UNIV s0 s" and Q: "\<And>s'. tracked r d Y UNIV s0 s' \<Longrightarrow> Q s'"
  shows "ends (set_rh_host_count r s v) (\<lambda>s. ends (shm_persist r s (shm_rh r + 56) 4) Q)"
proof -
  have off: "region_off r (shm_rh r + 56) = 56"
    using region_off_base_field [of 0 "num.Bit0 (num.Bit0 (num.Bit0 (num.Bit1 (num.Bit1 num.One))))" r] by (simp add: shm_rh_def)
  have fl: "ends (shm_persist r s' (shm_rh r + 56) 4) Q" if u: "tracked r d (Y \<union> {56..<60}) UNIV s0 s'" for s'
  proof -
    have "56 + 4 \<le> unat (rsize r)"
      using u by (simp add: tracked_def)
    from track_persist [OF u this] have "ends (shm_persist r s' (shm_rh r + 56) 4) (tracked r d (Y \<union> {56..<60} - line_bytes 56 4) UNIV s0)"
      by (simp add: shm_rh_def)
    then show ?thesis
      by (rule ends_mono) (auto intro!: Q elim!: tracked_mono intro: line_bytes_range)
  qed
  have "ends (set_rh_host_count r s v) (tracked r d (Y \<union> {56..<60}) UNIV s0)"
    unfolding set_rh_host_count_def
    by (rule tracked_cell(2) [OF tracked_mono [OF t] _ refl]) (auto simp: off)
  then show ?thesis
    by (rule ends_mono) (rule fl)
qed

lemma unlock_settled:
  assumes "region_unlock r s = Some s'" "settled Y s"
  shows "settled Y s'"
proof -
  have "mem s' = mem s" "pmem s' = pmem s" "wpq s' = wpq s"
    using assms(1) by (auto simp: region_unlock_def pthread_mutex_unlock_def split: if_splits mutex_state.splits)
  then show ?thesis
    using assms(2) by (simp add: settled_def durable_def)
qed

lemma attach_core:
  assumes k: "core_kept r s" and lk: "lockable s" and run: "host_attach r s = Some s'"
  shows "core_kept r s'"
proof -
  obtain R bs es where i: "pool_inv r s R bs es"
    using k by (auto simp: core_kept_def)
  note kD = core_keptD [OF k i] and l = pool_lock [OF i lk]
  let ?Y = "- core_bytes (unat (h_data_offset R)) bs"
  have "ends (host_attach r s) (settled ?Y)"
    unfolding host_attach_def l(1) Option.bind_lunit prod.case Let_def
    by (rule ends_load, unfold ends_bind, rule track_hosts [OF settled_locked [OF i lk kD]])
      (auto simp: ends_def dest: tracked_unlock)
  then have "settled ?Y s'"
    using run by (auto simp: ends_def)
  then show ?thesis
    using host_attach_refines [OF i lk] run kD(1)
    by (intro core_keptI [of s' r "R\<lparr>h_host_count := h_host_count R + 1\<rparr>" bs es]) auto
qed

lemma detach_core:
  assumes k: "core_kept r s" and lk: "lockable s" and run: "shm_region_close (Some r) unlink s = Some (log, s')"
  shows "core_kept r s'"
proof -
  obtain R bs es where i: "pool_inv r s R bs es"
    using k by (auto simp: core_kept_def)
  note kD = core_keptD [OF k i] and l = pool_lock [OF i lk]
  let ?Y = "- core_bytes (unat (h_data_offset R)) bs"
  have nz: "rbase r \<noteq> 0"
    using pool_invD(6) [OF i] by (auto simp: mapped_def)
  have count: "ends (if 0 < hosts then do {
        s \<leftarrow> set_rh_host_count r (s\<lparr>mutex := MLocked\<rparr>) (hosts - 1);
        s \<leftarrow> shm_persist r s (shm_rh r + 56) 4;
        Some (shm_drain s) } else Some (s\<lparr>mutex := MLocked\<rparr>)) (settled ?Y)" for hosts
    by (rule ends_if, unfold ends_bind ends_Some, rule track_hosts [OF settled_locked [OF i lk kD]])
      (use kD(2) tracked_settled in auto)
  have "ends (shm_region_close (Some r) unlink s) (\<lambda>(log, s'). settled ?Y s')"
    unfolding shm_region_close_def option.case if_P [OF nz] l(1) Option.bind_lunit prod.case Option.bind_assoc
    apply (rule ends_load)
    apply (rule ends_seq [OF count])
    apply (auto simp: ends_def bind_eq_Some_conv dest: unlock_settled)
    done
  then have "settled ?Y s'"
    using run by (auto simp: ends_def)
  moreover have "h_data_offset (detached R) = h_data_offset R"
    by (simp add: detached_def)
  ultimately show ?thesis
    using shm_region_close_refines [OF i lk, of unlink] run kD(1)
    by (intro core_keptI [of s' r "detached R" bs es]) auto
qed

text \<open>A store into the payload of an object.\<close>

lemma store_core:
  assumes k: "core_kept r s" and pool: "pool_inv r s R (xs @ b # ys) es"
    and p: "shm_ptr (Some r) s (of_nat (span xs + 56)) user cp SHM_PERM_WRITE = Some p" "p \<noteq> 0"
    and j: "j < acap b" and w: "wr8 r s (p + of_nat j) v = Some s'"
  shows "core_kept r s'"
proof -
  let ?d = "unat (h_data_offset R)" and ?a = "unat (h_data_offset R) + span xs + 56 + j"
  note hr = pool_invD(1) [OF pool]
  note kD = core_keptD [OF k pool]
  have p': "p = payload_ptr r R (span xs)"
    using p unfolding shm_ptr_eq [OF hr] by (auto split: option.splits if_splits)
  have "region_off r (p + of_nat j) = ?a"
    unfolding p' using j by (intro payload_in_map(1) [OF hr, of j 1]) simp
  then have s': "s' = s\<lparr>mem := (mem s)(?a := v)\<rparr>"
    using w by (simp add: wr8_def put8_def split: if_splits)
  have wf: "list_all wf_blk (xs @ b # ys)"
    using pool_bounds [OF pool] by simp
  then have cap: "acap b + 56 \<le> asz b"
    by (simp add: wf_blk_def)
  have out: "?a \<notin> core_bytes ?d (xs @ b # ys)"
  proof
    assume "?a \<in> core_bytes ?d (xs @ b # ys)"
    then obtain h where "h \<in> set (starts 0 (xs @ b # ys))" "?d + h \<le> ?a" "?a < ?d + h + 48"
      by (auto simp: core_bytes_def)
    then show False
      using starts_around [OF wf, of h] cap j by auto
  qed
  have "pool_inv r s' R (xs @ b # ys) es"
    by (rule pool_inv_payload [OF pool refl]) (use j cap in \<open>auto simp: s'\<close>)
  moreover have "settled (- core_bytes ?d (xs @ b # ys)) s'"
    using kD(2) out by (auto simp: settled_def durable_def s')
  ultimately show ?thesis
    using kD(1) by (auto simp: core_kept_def s')
qed

end
