(* ===== verification/Shm_Outage.thy ===== *)
theory Shm_Outage
  imports Shm_Core Shm_Scenario
begin

text \<open>
  Executions in which the hardware evicts cache lines and the power fails. A step is a call of an
  attached process (\<open>pool_step\<close>), the write-back of a line, or a failure that finds everything on
  the medium, after which the execution goes on. By induction over the steps no call leaves a byte of
  \<open>core_bytes\<close> behind; so a failure at any point between two calls loses no object: lookups and pointers
  are what they were before it.
\<close>

section \<open>Steps\<close>

text \<open>The cache writes a line back on its own.\<close>

definition evict :: "nat \<Rightarrow> machine \<Rightarrow> machine" where
  "evict j s = s\<lparr>pmem := (\<lambda>a. if a div 64 = j then mem s a else pmem s a),
     wpq := (\<lambda>a. if a div 64 = j then None else wpq s a)\<rparr>"

lemma evict_sel [simp]: "mem (evict j s) = mem s" "mutex (evict j s) = mutex s" "cmode (evict j s) = cmode s"
  by (simp_all add: evict_def)

lemma evict_settled: "settled Y s \<Longrightarrow> settled Y (evict j s)"
  by (simp add: settled_def durable_def evict_def)

definition all_durable :: "shm_region \<Rightarrow> machine \<Rightarrow> bool" where
  "all_durable r s \<longleftrightarrow> (\<exists>R bs es. pool_inv r s R bs es \<and> on_medium {} R bs s)"

inductive outage_step :: "u64 \<Rightarrow> history \<Rightarrow> history \<Rightarrow> bool" for n :: u64 where
  call: "pool_step n h h' \<Longrightarrow> outage_step n h h'"
| evict: "outage_step n h (h\<lparr>st := evict j (st h)\<rparr>)"
| failure: "attached n r \<Longrightarrow> all_durable r (st h) \<Longrightarrow> outage_step n h (h\<lparr>st := crash (st h)\<rparr>)"

definition outage_run :: "u64 \<Rightarrow> history \<Rightarrow> bool" where
  "outage_run n h \<longleftrightarrow> (\<exists>h0. fresh n h0 \<and> cmode (st h0) \<noteq> CACHE_NONE \<and> (outage_step n)\<^sup>*\<^sup>* h0 h)"

section \<open>The invariant\<close>

definition outage_inv :: "u64 \<Rightarrow> history \<Rightarrow> bool" where
  "outage_inv n h \<longleftrightarrow> hist_inv n h \<and> (\<forall>r. attached n r \<longrightarrow> core_kept r (st h))"

lemma core_kept_attached: "core_kept r s \<Longrightarrow> attached n r \<Longrightarrow> attached n r' \<Longrightarrow> core_kept r' s"
  by (auto simp: core_kept_def intro: pool_inv_attached)

lemma outage_invI: "hist_inv n h \<Longrightarrow> attached n r \<Longrightarrow> core_kept r (st h) \<Longrightarrow> outage_inv n h"
  by (auto simp: outage_inv_def intro: core_kept_attached)

lemma call_core:
  assumes "pool_step n h h'" "outage_inv n h"
  shows "\<forall>r. attached n r \<longrightarrow> core_kept r (st h')"
proof -
  have k: "attached n r \<Longrightarrow> core_kept r (st h)" for r
    using assms(2) by (simp add: outage_inv_def)
  have lk: "lockable (st h)"
    using assms(2) by (simp add: outage_inv_def hist_inv_def)
  have all: "\<forall>r. attached n r \<longrightarrow> core_kept r s" if "attached n r" "core_kept r s" for r s
    using core_kept_attached [OF that(2,1)] by blast
  obtain a where "pool_act n a h h'"
    using assms(1) by (auto simp: pool_step_def)
  then show ?thesis
  proof cases
    case (alloc r psize name user pm tag rc out s')
    then show ?thesis
      using alloc_core [OF k lk] by (intro all [of r]) simp_all
  next
    case (free r obj_id user cp rc s')
    then show ?thesis
      using free_core [OF k lk] by (intro all [of r]) simp_all
  next
    case (resize r obj_id new_size user cp rc s')
    obtain R bs es where i: "pool_inv r (st h) R bs es"
      using k [OF resize(3)] by (auto simp: core_kept_def)
    show ?thesis
      using resize resize_core [OF k [OF resize(3)] lk resize(4-6) i resize(7)] by (intro all [of r]) simp_all
  next
    case (set_perms r R xs b ys es oi user cp np rc s')
    then show ?thesis
      using perms_core [OF k lk] by (intro all [of r]) simp_all
  next
    case (lookup r obj_id user cp rc off used s')
    obtain R bs es where i: "pool_inv r (st h) R bs es"
      using k [OF lookup(3)] by (auto simp: core_kept_def)
    have "s' = st h \<or> s' = (st h)\<lparr>mutex := MUnlocked\<rparr>"
      using lookup_state [OF i lk lookup(4)] .
    then show ?thesis
      using lookup(2,3) k core_kept_unlocked by (intro all [of r]) auto
  next
    case (attach r s')
    then show ?thesis
      using attach_core [OF k lk] by (intro all [of r]) simp_all
  next
    case (detach r unlink log s')
    then show ?thesis
      using detach_core [OF k lk] by (intro all [of r]) simp_all
  next
    case (store r R xs b ys es oi user cp p j v s')
    have "core_kept r s'"
      using store_core [OF k [OF store(3)] store(4,6-9)] .
    then show ?thesis
      using store(2,3) by (intro all [of r]) simp_all
  next
    case die
    then show ?thesis
      using k core_kept_unlocked by auto
  qed
qed

lemma crash_core:
  assumes "core_kept r s" "all_durable r s"
  shows "core_kept r (crash s)"
proof -
  obtain R bs es where i: "pool_inv r s R bs es" "on_medium {} R bs s"
    using assms(2) by (auto simp: all_durable_def)
  have "settled {} (crash s)"
    by (simp add: settled_def durable_def crash_def)
  then show ?thesis
    using crash_pool [OF i] core_keptD(1) [OF assms(1) i(1)] by (intro core_keptI [of "crash s" r R bs es "{}"]) simp_all
qed

lemma evict_core:
  assumes "core_kept r s"
  shows "core_kept r (evict j s)"
proof -
  obtain R bs es where p: "pool_inv r s R bs es"
    using assms by (auto simp: core_kept_def)
  have "pool_inv r (evict j s) R bs es"
    using pool_inv_bytes [OF p, of "evict j s" r] pool_invD(6) [OF p] by simp
  then show ?thesis
    using core_keptI [OF _ _ evict_settled [OF core_keptD(2) [OF assms p]]] core_keptD(1) [OF assms p] by simp
qed

lemma outage_step_keeps:
  assumes "outage_step n h h'" "outage_inv n h"
  shows "outage_inv n h'"
  using assms(1)
proof cases
  case call
  then show ?thesis
    using call_core [OF call assms(2)] pool_step_keeps [OF call] assms(2) by (simp add: outage_inv_def)
next
  case (evict j)
  have "hist_inv n h'"
    unfolding evict using assms(2) by (intro quiet_keeps) (auto simp: outage_inv_def hist_inv_def lockable_def)
  then show ?thesis
    using assms(2) evict_core by (simp add: outage_inv_def evict)
next
  case (failure r)
  obtain R bs es where p: "pool_inv r (st h) R bs es" "hist_ok (issued h) (released h) R es" "lockable (st h)"
    using assms(2) failure(2) by (auto simp: outage_inv_def elim: hist_inv_at)
  obtain R' bs' es' where q: "pool_inv r (st h) R' bs' es'" "on_medium {} R' bs' (st h)"
    using failure(3) by (auto simp: all_durable_def)
  have "hist_inv n h'"
    unfolding failure(1) using crash_pool [OF q] pool_inv_determined [OF p(1) q(1)] p(2,3) failure(2)
    by (intro hist_invI [of r]) (auto simp: lockable_def)
  moreover have "core_kept r (crash (st h))"
    using assms(2) failure(2,3) by (intro crash_core) (simp_all add: outage_inv_def)
  ultimately show ?thesis
    using failure(1,2) by (intro outage_invI [of n h' r]) simp_all
qed

lemma fresh_outage_inv:
  assumes "fresh n h" "cmode (st h) \<noteq> CACHE_NONE"
  shows "outage_inv n h"
proof -
  obtain r s backend cap name ns cg where f: "attached n r" "256 + 96 * unat cap \<le> unat n"
    "region_init r s n backend cap name ns cg = Some (st h)"
    using assms(1) unfolding fresh_def by blast
  then have m: "mapped r" "n = rsize r"
    by (simp_all add: attached_def)
  have "cmode s \<noteq> CACHE_NONE"
    using region_init_inv [OF m(1), of cap s backend name ns cg] f m(2) assms(2) by auto
  from region_init_on_medium [OF m(1) _ this, of cap backend name ns cg] obtain R bs es
    where i: "pool_inv r (st h) R bs es" "on_medium {} R bs (st h)"
    using f(2,3) m(2) by (auto simp: runs_iff)
  have "core_kept r (st h)"
    by (rule core_keptI [OF assms(2) i(1)]) (use i(2) core_meta in \<open>auto simp: on_medium_def\<close>)
  then show ?thesis
    using fresh_inv [OF assms(1)] f(1) by (intro outage_invI)
qed

lemma outage_run_inv: "outage_run n h \<Longrightarrow> outage_inv n h"
proof -
  assume "outage_run n h"
  then obtain h0 where h: "fresh n h0" "cmode (st h0) \<noteq> CACHE_NONE" "(outage_step n)\<^sup>*\<^sup>* h0 h"
    by (auto simp: outage_run_def)
  from h(3,1,2) show ?thesis
    by (induction rule: rtranclp_induct) (simp_all add: fresh_outage_inv outage_step_keeps)
qed

section \<open>What a failure leaves\<close>

text \<open>Lookups need the directory and the mutex only.\<close>

lemma lookup_in_dir:
  assumes d: "dir_rep r t R es" and m: "200 \<le> unat (rsize r)" and lk: "lockable t" and nz: "i \<noteq> 0"
  shows "shm_lookup (Some r) t i user cp True True =
    Some (case first_slot (\<lambda>e. e_id e = i \<and> e_alive e \<noteq> 0) es 0 of
       None \<Rightarrow> (ENOENT, None, None, t\<lparr>mutex := MUnlocked\<rparr>)
     | Some k \<Rightarrow> if access_ok (e_owner (es ! k)) (e_perms (es ! k)) user cp SHM_PERM_READ
         then (OK, Some (e_off (es ! k)), Some (e_used_size (es ! k)), t\<lparr>mutex := MUnlocked\<rparr>)
         else (EACCES, None, None, t\<lparr>mutex := MUnlocked\<rparr>))"
proof -
  have map: "mapped r"
    using d by (simp add: dir_rep_def)
  have dl: "dir_rep r (t\<lparr>mutex := MLocked\<rparr>) R es"
    using d by (simp add: dir_rep_def)
  note l = region_lock_lockable [OF map m lk] region_unlock_locked [OF map m, of "t\<lparr>mutex := MLocked\<rparr>"]
  note slot = dir_find_by_id_eq [OF dl, of i]
  show ?thesis
  proof (cases "first_slot (\<lambda>e. e_id e = i \<and> e_alive e \<noteq> 0) es 0")
    case None
    then show ?thesis
      using nz l slot by (simp add: shm_lookup_def slot_ptr_def)
  next
    case (Some k)
    have k: "k < length es" "live (es ! k)"
      using first_slot_SomeD [OF Some] nz by (auto simp: live_def)
    show ?thesis
      using nz l slot Some slot_ptr_nonzero [OF dl k(1)] check_dir_access_eq [OF dl k] eview_loads [OF dir_rep_eview [OF dl k(1)]]
      by (simp add: shm_lookup_def slot_ptr_def)
  qed
qed

lemma lookup_name_in_dir:
  assumes d: "dir_rep r t R es" and m: "200 \<le> unat (rsize r)" and lk: "lockable t" and nm: "0 \<notin> set nm"
    and es: "\<forall>e\<in>set es. 0 \<in> set (e_name e) \<and> (e_alive e \<noteq> 0 \<longrightarrow> live e)"
  shows "shm_lookup_by_name (Some r) t (Some nm) user cp True True =
    Some (case first_slot (\<lambda>e. e_alive e \<noteq> 0 \<and> cstr (e_name e) = nm) es 0 of
       None \<Rightarrow> (ENOENT, None, None, t\<lparr>mutex := MUnlocked\<rparr>)
     | Some k \<Rightarrow> if access_ok (e_owner (es ! k)) (e_perms (es ! k)) user cp SHM_PERM_READ
         then (OK, Some (e_id (es ! k)), Some (e_off (es ! k)), t\<lparr>mutex := MUnlocked\<rparr>)
         else (EACCES, None, None, t\<lparr>mutex := MUnlocked\<rparr>))"
proof -
  have map: "mapped r"
    using d by (simp add: dir_rep_def)
  have dl: "dir_rep r (t\<lparr>mutex := MLocked\<rparr>) R es"
    using d by (simp add: dir_rep_def)
  have names: "\<forall>e\<in>set es. 0 \<in> set (e_name e)"
    using es by blast
  note l = region_lock_lockable [OF map m lk] region_unlock_locked [OF map m, of "t\<lparr>mutex := MLocked\<rparr>"]
  note slot = dir_find_by_name_eq [OF dl names nm]
  show ?thesis
  proof (cases "first_slot (\<lambda>e. e_alive e \<noteq> 0 \<and> cstr (e_name e) = nm) es 0")
    case None
    then show ?thesis
      using l slot by (simp add: shm_lookup_by_name_def slot_ptr_def)
  next
    case (Some k)
    have k: "k < length es" "live (es ! k)"
      using first_slot_SomeD [OF Some] es by auto
    show ?thesis
      using l slot Some slot_ptr_nonzero [OF dl k(1)] check_dir_access_eq [OF dl k] eview_loads [OF dir_rep_eview [OF dl k(1)]]
      by (simp add: shm_lookup_by_name_def slot_ptr_def)
  qed
qed

lemma crash_dir:
  assumes k: "core_kept r s" and inv: "pool_inv r s R bs es"
  shows "dir_rep r (crash s) (rh_at (pmem s)) es" and "h_data_offset (rh_at (pmem s)) = h_data_offset R"
proof -
  let ?d = "unat (h_data_offset R)"
  have d: "200 \<le> ?d" and R: "rh_at (mem s) = R"
    using pool_bounds [OF inv] pool_invD(8) [OF inv] by simp_all
  have eq: "pmem s a = mem s a" if "a < ?d" "a < 96 \<or> 112 \<le> a" for a
    using core_keptD(2) [OF k inv] that by (auto simp: settled_def durable_def core_bytes_def)
  have w: "get64 (pmem s) j = get64 (mem s) j" if "j + 8 \<le> 96" for j
    by (rule c64.get_cong) (use eq d that in simp)
  have v: "get32 (pmem s) j = get32 (mem s) j" if "j + 4 \<le> 96" for j
    by (rule c32.get_cong) (use eq d that in simp)
  show off: "h_data_offset (rh_at (pmem s)) = h_data_offset R"
    unfolding R [symmetric] by (simp add: rh_at_sel w)
  have "h_dir_offset (rh_at (pmem s)) = h_dir_offset R" "h_dir_capacity (rh_at (pmem s)) = h_dir_capacity R"
    unfolding R [symmetric] by (simp_all add: rh_at_sel w v)
  with off show "dir_rep r (crash s) (rh_at (pmem s)) es"
    by (intro dir_rep_frame [OF pool_invD(2) [OF inv]]) (simp_all add: eq)
qed

lemma crash_ptr:
  assumes k: "core_kept r s" and inv: "pool_inv r s R (xs @ b # ys) es"
  shows "shm_ptr (Some r) (crash s) (of_nat (span xs + 56)) user cp req = shm_ptr (Some r) s (of_nat (span xs + 56)) user cp req"
proof -
  let ?D = "set (starts 0 (xs @ b # ys))" and ?d = "h_data_offset R" and ?R = "rh_at (pmem s)"
  note off = crash_dir(2) [OF k inv]
  obtain H where H: "hview r s s ?D H R" "span xs \<in> ?D"
    using pool_invD(1) [OF inv] by (rule heap_rep_block)
  have v: "hview r (crash s) (crash s) ?D (hdrs (pmem s) (unat ?d)) ?R"
    using H(1) off by (simp add: hview_def hdrs_def)
  have eq: "pmem s a = mem s a" if "unat ?d + span xs \<le> a" "a < unat ?d + span xs + 48" for a
    using core_keptD(2) [OF k inv] that H(2) by (fastforce simp: settled_def durable_def core_bytes_def)
  have blk: "blk_at (mem s) (unat ?d + span xs) = H (span xs)"
    using hviewD(7) [OF H] .
  have v32: "get32 (pmem s) j = get32 (mem s) j" if "unat ?d + span xs \<le> j" "j + 4 \<le> unat ?d + span xs + 48" for j
    by (rule c32.get_cong) (use eq that in simp)
  have v8: "get8 (pmem s) (unat ?d + span xs + 16) = get8 (mem s) (unat ?d + span xs + 16)"
    by (rule c8.get_cong) (use eq in simp)
  have "b_magic (hdrs (pmem s) (unat ?d) (span xs)) = b_magic (H (span xs))"
    "b_owner (hdrs (pmem s) (unat ?d) (span xs)) = b_owner (H (span xs))"
    "b_perms (hdrs (pmem s) (unat ?d) (span xs)) = b_perms (H (span xs))"
    "b_allocated (hdrs (pmem s) (unat ?d) (span xs)) = b_allocated (H (span xs))"
    unfolding blk [symmetric] hdrs_def blk_at_sel by (simp_all add: v32 v8)
  then have same: "check_block_access r (crash s) (bp r ?d (span xs)) user cp req = check_block_access r s (bp r ?d (span xs)) user cp req"
    using hview_blk_loads [OF v H(2), of ?d] hview_blk_loads [OF H refl] off by (simp add: check_block_access_def)
  show ?thesis
    using hview_ptrs(6) [OF v, of ?d "span xs"] hview_ptrs(6) [OF H(1) refl, of "span xs"] off
    by (simp add: shm_ptr_def same del: of_nat_add)
qed

text \<open>A result without the state.\<close>

definition answer :: "('a \<times> 'b \<times> 'c \<times> machine) option \<Rightarrow> ('a \<times> 'b \<times> 'c) option" where
  "answer c = map_option (\<lambda>(rc, x, y, s). (rc, x, y)) c"

lemma answer_Some [simp]: "answer (Some (rc, x, y, s)) = Some (rc, x, y)"
  by (simp add: answer_def)

lemma crash_answers:
  assumes k: "core_kept r s" and inv: "pool_inv r s R bs es" and lk: "lockable s"
  shows "answer (shm_lookup (Some r) (crash s) i user cp True True) = answer (shm_lookup (Some r) s i user cp True True)"
    and "0 \<notin> set nm \<Longrightarrow> answer (shm_lookup_by_name (Some r) (crash s) (Some nm) user cp True True) =
      answer (shm_lookup_by_name (Some r) s (Some nm) user cp True True)"
proof -
  note m = pool_invD(7) [OF inv]
  note d = pool_invD(2) [OF inv] and d' = crash_dir(1) [OF k inv]
  have lk': "lockable (crash s)"
    using lk by (simp add: lockable_def)
  show "answer (shm_lookup (Some r) (crash s) i user cp True True) = answer (shm_lookup (Some r) s i user cp True True)"
  proof (cases "i = 0")
    case True
    then show ?thesis
      by (simp add: shm_lookup_def)
  next
    case False
    then show ?thesis
      by (simp add: lookup_in_dir [OF d m lk] lookup_in_dir [OF d' m lk'] split: option.split)
  qed
  have es: "\<forall>e\<in>set es. 0 \<in> set (e_name e) \<and> (e_alive e \<noteq> 0 \<longrightarrow> live e)"
    using names_terminated [OF inv] alive_live [OF pool_invD(5) [OF inv]] by blast
  show "answer (shm_lookup_by_name (Some r) (crash s) (Some nm) user cp True True) =
      answer (shm_lookup_by_name (Some r) s (Some nm) user cp True True)" if "0 \<notin> set nm"
    by (simp add: lookup_name_in_dir [OF d m lk that es] lookup_name_in_dir [OF d' m lk' that es] split: option.split)
qed

lemma crash_object:
  assumes k: "core_kept r s" and inv: "pool_inv r s R bs es" and lk: "lockable s"
    and look: "shm_lookup (Some r) s i user cp True True = Some (OK, Some off, used, s')"
  shows "shm_ptr (Some r) (crash s) off u c req = shm_ptr (Some r) s off u c req"
proof -
  have nz: "i \<noteq> 0"
    using look by (auto simp: shm_lookup_def)
  obtain j where j: "first_slot (\<lambda>e. e_id e = i \<and> e_alive e \<noteq> 0) es 0 = Some j" and off: "off = e_off (es ! j)"
    using look lookup_in_dir [OF pool_invD(2,7) [OF inv] lk nz, of user cp] by (auto split: option.splits if_splits)
  have l: "j < length es" "live (es ! j)"
    using first_slot_SomeD [OF j] nz by (auto simp: live_def)
  obtain xs b ys where b: "bs = xs @ b # ys" "unat (e_off (es ! j)) = span xs + 56"
    by (rule entry_block [OF pool_invD(5) [OF inv] l])
  have "off = of_nat (span xs + 56)"
    unfolding off using b(2) by (rule unat64_eqD)
  then show ?thesis
    using crash_ptr [OF k inv [unfolded b(1)]] by simp
qed

lemma issued_found:
  assumes h: "hist_inv n h" and a: "attached n r" and nz: "i \<noteq> 0" and cp: "cp AND SHM_PERM_ADMIN \<noteq> 0"
  shows "i \<in> set (issued h) - set (released h) \<longleftrightarrow>
    (\<exists>off used. answer (shm_lookup (Some r) (st h) i user cp True True) = Some (OK, off, used))"
proof -
  obtain R bs es where i: "pool_inv r (st h) R bs es" "hist_ok (issued h) (released h) R es" "lockable (st h)"
    using h a by (rule hist_inv_at)
  have "i \<in> set (issued h) - set (released h) \<longleftrightarrow> i \<in> set (live_ids es)"
    using hist_ok_ids [OF i(2)] by blast
  also have "\<dots> \<longleftrightarrow> (\<exists>k. first_slot (\<lambda>e. e_id e = i \<and> e_alive e \<noteq> 0) es 0 = Some k)"
    using find_live_id [OF i(1), of i] nz by simp
  finally show ?thesis
    using lookup_in_dir [OF pool_invD(2,7) [OF i(1)] i(3) nz, of user cp] cp by (auto simp: access_ok_def split: option.splits)
qed

section \<open>A failure loses no object\<close>

lemma outage_answers:
  assumes "outage_run n h" "attached n r" "i \<noteq> 0" "0 \<notin> set nm"
  shows "answer (shm_lookup (Some r) (crash (st h)) i user cp True True) = answer (shm_lookup (Some r) (st h) i user cp True True)"
    and "answer (shm_lookup_by_name (Some r) (crash (st h)) (Some nm) user cp True True) =
      answer (shm_lookup_by_name (Some r) (st h) (Some nm) user cp True True)"
    and "shm_lookup (Some r) (st h) i user cp True True = Some (OK, Some off, used, s') \<Longrightarrow>
      shm_ptr (Some r) (crash (st h)) off u c req = shm_ptr (Some r) (st h) off u c req"
    and "cp AND SHM_PERM_ADMIN \<noteq> 0 \<Longrightarrow> i \<in> set (issued h) - set (released h) \<longleftrightarrow>
      (\<exists>off used. answer (shm_lookup (Some r) (crash (st h)) i user cp True True) = Some (OK, off, used))"
proof -
  have inv: "hist_inv n h" and k: "core_kept r (st h)"
    using outage_run_inv [OF assms(1)] assms(2) by (simp_all add: outage_inv_def)
  obtain R bs es where i: "pool_inv r (st h) R bs es" "lockable (st h)"
    using inv assms(2) by (rule hist_inv_at)
  note answers = crash_answers [OF k i]
  show "answer (shm_lookup (Some r) (crash (st h)) i user cp True True) = answer (shm_lookup (Some r) (st h) i user cp True True)"
    by (rule answers(1))
  show "answer (shm_lookup_by_name (Some r) (crash (st h)) (Some nm) user cp True True) =
      answer (shm_lookup_by_name (Some r) (st h) (Some nm) user cp True True)"
    by (rule answers(2) [OF assms(4)])
  show "shm_lookup (Some r) (st h) i user cp True True = Some (OK, Some off, used, s') \<Longrightarrow>
      shm_ptr (Some r) (crash (st h)) off u c req = shm_ptr (Some r) (st h) off u c req"
    by (rule crash_object [OF k i])
  show "cp AND SHM_PERM_ADMIN \<noteq> 0 \<Longrightarrow> i \<in> set (issued h) - set (released h) \<longleftrightarrow>
      (\<exists>off used. answer (shm_lookup (Some r) (crash (st h)) i user cp True True) = Some (OK, off, used))"
    using issued_found [OF inv assms(2,3)] answers(1) by simp
qed

text \<open>C13. A power failure between two calls loses no object. Whatever calls the attached processes make
  with a write-back mode, whatever payload bytes they store, whichever cache lines are written back meanwhile
  and whatever failures that found everything on the medium came before: after a failure lookups by id and by
  name give every caller the answer they gave before it, pointers to objects are granted and refused as before,
  and a caller with the admin bit finds exactly the ids that were issued and not released. Only the counters
  and the links of the free list can be older than the last call.\<close>

theorem failures_keep_objects:
  assumes "outage_run n h" "attached n r" "i \<noteq> 0" "0 \<notin> set nm"
  shows "answer (shm_lookup (Some r) (crash (st h)) i user cp True True) = answer (shm_lookup (Some r) (st h) i user cp True True) \<and>
    answer (shm_lookup_by_name (Some r) (crash (st h)) (Some nm) user cp True True) =
      answer (shm_lookup_by_name (Some r) (st h) (Some nm) user cp True True) \<and>
    (\<forall>off used s'. shm_lookup (Some r) (st h) i user cp True True = Some (OK, Some off, used, s') \<longrightarrow>
       shm_ptr (Some r) (crash (st h)) off u c req = shm_ptr (Some r) (st h) off u c req) \<and>
    (cp AND SHM_PERM_ADMIN \<noteq> 0 \<longrightarrow> (i \<in> set (issued h) - set (released h) \<longleftrightarrow>
       (\<exists>off used. answer (shm_lookup (Some r) (crash (st h)) i user cp True True) = Some (OK, off, used))))"
  using outage_answers [OF assms] by blast

theorem failures_keep_objects_witness:
  "answer (shm_lookup (Some demo) (crash (evict 3 demo1)) 1 7 0x80 True True) = Some (OK, Some 56, Some 100) \<and>
   shm_ptr (Some demo) (crash (evict 3 demo1)) 56 7 1 1 = shm_ptr (Some demo) (evict 3 demo1) 56 7 1 1"
proof -
  let ?s = "evict 3 demo1" and ?h = "hist1\<lparr>st := evict 3 demo1\<rparr>"
  have "cmode (st hist0) \<noteq> CACHE_NONE"
    by (simp add: hist0_def demo0_inv)
  moreover have "(outage_step 4096)\<^sup>*\<^sup>* hist0 hist1"
    using outage_step.call [OF hist1_step] by blast
  moreover have "outage_step 4096 hist1 ?h"
    using outage_step.evict [of 4096 hist1 3] by (simp add: hist1_def)
  ultimately have run: "outage_run 4096 ?h"
    using hist0_fresh unfolding outage_run_def by (meson rtranclp.rtrancl_into_rtrancl)
  have inv: "pool_inv demo ?s demo_R1 [demo_blk, demo_rest] [demo_ent, zero_ent]" "lockable ?s"
    using pool_inv_bytes [OF demo1_inv(1), of ?s demo] demo_mapped demo1_lockable by (simp_all add: lockable_def)
  have look: "shm_lookup (Some demo) ?s 1 7 0x80 True True = Some (OK, Some 56, Some 100, ?s\<lparr>mutex := MUnlocked\<rparr>)"
    using shm_lookup_some [OF inv _ demo_slots(3), of 7 "0x80" True True]
    by (simp add: demo_ent_def alloc_entry_def access_ok_def perm_defs)
  show ?thesis
    using failures_keep_objects [OF run demo_attached, of 1 "[]" 7 "0x80" 7 1 1] look by auto
qed

end
