(* ===== verification/Shm_Midway.thy ===== *)
theory Shm_Midway
  imports Shm_Outage
begin

text \<open>
  Inside \<open>shm_alloc\<close>. Two of its points: after the stores to the block header and before the payload is
  set to zero, when a reader that takes no lock already gets a pointer to the payload; and after the
  directory entry is flushed and before \<open>next_id\<close> is, when a power failure leaves an object whose id will be
  given out again.
\<close>

section \<open>The call up to a point\<close>

text \<open>\<open>Inl\<close>: the call has returned. \<open>Inr\<close>: its locals and the state at the point.\<close>

definition shm_alloc_to_mark ::
    "shm_region \<Rightarrow> machine \<Rightarrow> u64 \<Rightarrow> u32 \<Rightarrow> u32 \<Rightarrow> u32 \<Rightarrow>
     ((errno \<times> (u64 \<times> u64) option \<times> machine) + (u64 \<times> u64 \<times> u64 \<times> machine)) option" where
  "shm_alloc_to_mark r s payload_size user_id perms type_tag = do {
     let need_total = alloc_size payload_size;
     (_, s) \<leftarrow> region_lock r s;
     slot \<leftarrow> dir_find_free_slot r s;
     if slot = 0 then do { s \<leftarrow> region_unlock r s; Some (Inl (ENOSPC, None, s)) }
     else do {
       (b, s) \<leftarrow> heap_alloc_block r s need_total;
       if b = 0 then do { s \<leftarrow> region_unlock r s; Some (Inl (ENOMEM, None, s)) }
       else do {
         new_id \<leftarrow> rh_next_id r s;
         s \<leftarrow> set_rh_next_id r s (new_id + 1);
         s \<leftarrow> set_blk_type_tag r s b type_tag;
         s \<leftarrow> set_blk_owner r s b user_id;
         s \<leftarrow> set_blk_perms r s b perms;
         s \<leftarrow> set_blk_obj_id r s b new_id;
         Some (Inr (slot, b, new_id, s)) } } }"

definition shm_alloc_to_entry ::
    "shm_region \<Rightarrow> machine \<Rightarrow> u64 \<Rightarrow> cstring option \<Rightarrow> u32 \<Rightarrow> u32 \<Rightarrow> u32 \<Rightarrow>
     ((errno \<times> (u64 \<times> u64) option \<times> machine) + (u64 \<times> u64 \<times> machine)) option" where
  "shm_alloc_to_entry r s payload_size name user_id perms type_tag = do {
     x \<leftarrow> shm_alloc_to_mark r s payload_size user_id perms type_tag;
     (case x of
        Inl v \<Rightarrow> Some (Inl v)
      | Inr (slot, b, new_id, s) \<Rightarrow> do {
          cap \<leftarrow> blk_payload_cap r s b;
          s \<leftarrow> memset r s (b + SIZEOF_BLOCK_HDR) 0 cap;
          cap \<leftarrow> blk_payload_cap r s b;
          s \<leftarrow> shm_persist r s (b + SIZEOF_BLOCK_HDR) cap;
          s \<leftarrow> shm_persist r s b SIZEOF_BLOCK_HDR;
          s \<leftarrow> alloc_fill_slot r s slot b new_id payload_size name user_id perms type_tag;
          s \<leftarrow> shm_persist r s slot SIZEOF_OBJ_ENTRY;
          Some (Inr (slot, new_id, s)) }) }"

text \<open>What follows the entry.\<close>

definition shm_alloc_finish :: "shm_region \<Rightarrow> u64 \<Rightarrow> u64 \<Rightarrow> machine \<Rightarrow> (errno \<times> (u64 \<times> u64) option \<times> machine) option" where
  "shm_alloc_finish r slot new_id s = do {
     s \<leftarrow> shm_persist r s (shm_rh r + 112) 8;
     let s = shm_drain s;
     off \<leftarrow> ent_off r s slot;
     s \<leftarrow> region_unlock r s;
     Some (OK, Some (new_id, off), s) }"

lemma shm_alloc_to_entry_unfold:
  "shm_alloc_to_entry r s psize name user pm tag = do {
     (_, s) \<leftarrow> region_lock r s;
     slot \<leftarrow> dir_find_free_slot r s;
     if slot = 0 then do { s \<leftarrow> region_unlock r s; Some (Inl (ENOSPC, None, s)) }
     else do {
       (b, s) \<leftarrow> heap_alloc_block r s (alloc_size psize);
       if b = 0 then do { s \<leftarrow> region_unlock r s; Some (Inl (ENOMEM, None, s)) }
       else do {
         new_id \<leftarrow> rh_next_id r s;
         s \<leftarrow> set_rh_next_id r s (new_id + 1);
         s \<leftarrow> alloc_init_block r s b new_id user pm tag;
         s \<leftarrow> alloc_fill_slot r s slot b new_id psize name user pm tag;
         s \<leftarrow> shm_persist r s slot SIZEOF_OBJ_ENTRY;
         Some (Inr (slot, new_id, s)) } } }"
  by (simp add: shm_alloc_to_entry_def shm_alloc_to_mark_def alloc_init_block_def Let_def case_prod_unfold
      if_distrib [where f = "\<lambda>c. Option.bind c f" for f] cong: if_cong)

text \<open>The points lie on the way of the call.\<close>

lemma shm_alloc_split:
  assumes "psize \<noteq> 0"
  shows "shm_alloc (Some r) s psize name user pm tag True True = do {
     x \<leftarrow> shm_alloc_to_entry r s psize name user pm tag;
     (case x of Inl v \<Rightarrow> Some v | Inr (slot, new_id, s) \<Rightarrow> shm_alloc_finish r slot new_id s) }"
  using assms
  by (simp add: shm_alloc_def shm_alloc_to_entry_unfold shm_alloc_finish_def Let_def case_prod_unfold
      if_distrib [where f = "\<lambda>c. Option.bind c f" for f] cong: if_cong)

section \<open>A reader before the payload is zero\<close>

lemma to_mark_exposes:
  assumes inv: "pool_inv r s R bs es" and lk: "lockable s" and n: "56 \<le> unat (alloc_size psize)"
    and slot: "first_slot (\<lambda>e. \<not> live e) es 0 = Some i" and ff: "first_fit (unat (alloc_size psize)) bs = Some (xs, b, ys)"
  shows "runs (shm_alloc_to_mark r s psize user pm tag) (\<lambda>x. \<exists>p.
    x = Inr (rp r (slot_pos R i), bp r (h_data_offset R) (span xs), h_next_id R, p) \<and> mutex p = MLocked \<and>
    (\<forall>u cp req. shm_ptr (Some r) p (of_nat (span xs + 56)) u cp req =
       Some (if access_ok user pm u cp req then payload_ptr r R (span xs) else 0)) \<and>
    (\<forall>a\<in>pay_range (h_data_offset R) (span xs) (acap (taken (unat (alloc_size psize)) no_owner b)). mem p a = mem s a))"
proof -
  let ?s1 = "s\<lparr>mutex := MLocked\<rparr>" and ?n = "unat (alloc_size psize)" and ?d = "h_data_offset R" and ?h = "span xs"
  let ?bs = "xs @ take_block ?n no_owner b @ ys"
  note l = pool_lock [OF inv lk]
  note dr = pool_invD(2) [OF l(2)] and hr = pool_invD(1) [OF l(2)]
  have i: "i < length es"
    using first_slot_SomeD [OF slot] by simp
  have find: "dir_find_free_slot r ?s1 = Some (rp r (slot_pos R i))" "rp r (slot_pos R i) \<noteq> 0"
    using dir_find_free_slot_eq [OF dr] slot slot_ptr_nonzero [OF dr i] by (simp_all add: slot_ptr_def)
  have seen: "shm_ptr (Some r) p (of_nat (?h + 56)) u cp req = Some (if access_ok user pm u cp req then payload_ptr r R ?h else 0)"
    if v: "hview r ?s1 p D H' R'" "?h \<in> D" "h_data_offset R' = ?d" "b_magic (H' ?h) = SHM_ALLOC_MAGIC_BLOCK"
      "b_allocated (H' ?h) = 1" "b_owner (H' ?h) = user" "b_perms (H' ?h) = pm" for p D H' R' u cp req
  proof -
    note ld = hview_blk_loads [OF v(1,2) v(3) [symmetric]]
    have "block_target r p (bp r ?d ?h) = Some (Some (user, pm))"
      using ld v(4-7) bp_nonzero [OF v(1,2) v(3) [symmetric]] by (simp add: block_target_def)
    then have "check_block_access r p (bp r ?d ?h) u cp req = Some (if access_ok user pm u cp req then OK else EACCES)"
      by (rule check_block_access_live)
    then show ?thesis
      using hview_ptrs(6) [OF v(1) v(3) [symmetric], of ?h] by (simp add: shm_ptr_def bp_payload del: of_nat_add)
  qed
  have sz: "alloc_size psize = of_nat ?n" by simp
  show ?thesis
    unfolding shm_alloc_to_mark_def Let_def l(1) Option.bind_lunit prod.case find(1) if_not_P [OF find(2)] runs_bind
    apply (subst sz)
    apply (rule heap_alloc_block_refines [OF hr n alloc_size_dvd unat64_bound refl])
    subgoal by (simp add: ff)
    subgoal premises q for s2 fl xs' b' ys'
    proof -
      have x: "xs' = xs" "b' = b" "ys' = ys"
        using q(1) ff by simp_all
      let ?R = "count_alloc (R\<lparr>h_free_list := fl\<rparr>) (taken_size ?n b)"
      have hv: "heap_view r ?s1 s2 (set (starts 0 ?bs)) ?R ?bs"
        using q(2) unfolding x .
      from hv obtain H where H: "hview r ?s1 s2 (set (starts 0 ?bs)) H ?R" "heap_shape H ?R ?bs"
        by (rule heap_viewE)
      have hD: "?h \<in> set (starts 0 ?bs)"
        by (simp add: take_block_Cons)
      have d: "?d = h_data_offset ?R" "?d = h_data_offset (?R\<lparr>h_next_id := y\<rparr>)" "h_next_id ?R = h_next_id R" for y
        by (simp_all add: count_alloc_def)
      have ok: "b_magic (H ?h) = SHM_ALLOC_MAGIC_BLOCK" "b_allocated (H ?h) = 1"
      proof -
        have "aown (taken ?n no_owner b) = Some no_owner"
          by (simp add: taken_def)
        then show "b_magic (H ?h) = SHM_ALLOC_MAGIC_BLOCK" "b_allocated (H ?h) = 1"
          using H(2) by (simp_all add: heap_shape_def take_block_Cons blk_ok_def sizes_ok_def owner_ok_def)
      qed
      obtain H0 where "hview r ?s1 s2 (set (starts 0 ?bs)) H0 ?R"
        and out: "pay_range (h_data_offset ?R) ?h (acap (taken ?n no_owner b)) \<inter> hdr_bytes (unat (h_data_offset ?R)) (set (starts 0 ?bs)) = {}"
        by (rule carved_payload [OF hv])
      have old: "mem p a = mem s a"
        if v: "hview r ?s1 p (set (starts 0 ?bs)) H' (?R\<lparr>h_next_id := y\<rparr>)" and a: "a \<in> pay_range ?d ?h (acap (taken ?n no_owner b))"
        for p H' y a
      proof -
        have "200 \<le> unat ?d"
          using pool_bounds [OF inv] by simp
        then have "200 \<le> a" "a \<notin> hdr_bytes (unat ?d) (set (starts 0 ?bs))"
          using a out d(1) [symmetric] by (auto simp: pay_range_def)
        then show ?thesis
          using hviewD(8) [OF v, of a] d(2) [symmetric] by simp
      qed
      show ?thesis
        unfolding x prod.case if_not_P [OF bp_nonzero [OF H(1) hD d(1)]] runs_bind
        apply (simp only: hview_rh_loads(12) [OF H(1)] d(3) runs_Some)
        apply (rule wp_set_rh_next_id [OF H(1)])
        apply (rule wp_set_blk_type_tag, assumption, rule hD, rule d(2))
        apply (rule wp_set_blk_owner, assumption, rule hD, rule d(2))
        apply (rule wp_set_blk_perms, assumption, rule hD, rule d(2))
        apply (rule wp_set_blk_obj_id, assumption, rule hD, rule d(2))
        subgoal premises v for s3 s4 s5 s6 s7
          using seen [OF v(5) hD d(2) [symmetric]] old [OF v(5)] hviewD(9) [OF v(5)] ok by simp
        done
    qed
    done
qed

section \<open>The directory entry before the counter of ids\<close>

lemma finish_quiet:
  assumes "mapped r" "200 \<le> unat (rsize r)"
  shows "ends (shm_alloc_finish r slot nid p) (\<lambda>(rc, out, s'). mem s' = mem p \<and> (\<exists>off. out = Some (nid, off)))"
proof -
  have fl: "ends (shm_persist r p (shm_rh r + 112) 8) (\<lambda>s'. mem s' = mem p)"
  proof -
    have "runs (shm_persist r p (shm_rh r + 112) 8) (\<lambda>s'. mem s' = mem p)"
      by (rule wp_persist_any [OF assms(1) rh_field_fits [OF assms(2)]]) simp_all
    then show ?thesis
      by (auto simp: runs_iff)
  qed
  show ?thesis
    unfolding shm_alloc_finish_def Let_def
    apply (rule ends_seq [OF fl])
    apply (auto simp: ends_def bind_eq_Some_conv region_unlock_def pthread_mutex_unlock_def split: if_splits mutex_state.splits)
    done
qed

lemma to_entry_failed: "ends (shm_alloc_to_entry r s psize name user pm tag) (\<lambda>x. \<forall>rc out s'. x = Inl (rc, out, s') \<longrightarrow> rc \<noteq> OK)"
  unfolding shm_alloc_to_entry_unfold by (auto simp: ends_def bind_eq_Some_conv split: if_splits)

lemma to_entry_pool:
  assumes inv: "pool_inv r s R bs es" and lk: "lockable s" and p: "psize \<noteq> 0" and n: "56 \<le> unat (alloc_size psize)"
    and nid: "h_next_id R + 1 \<noteq> 0"
    and slot: "first_slot (\<lambda>e. \<not> live e) es 0 = Some i" and ff: "first_fit (unat (alloc_size psize)) bs = Some (xs, b, ys)"
  shows "runs (shm_alloc_to_entry r s psize name user pm tag) (\<lambda>x. \<exists>k p fl es'. x = Inr (k, h_next_id R, p) \<and>
    es' = es[i := alloc_entry (h_next_id R) (of_nat (span xs + 56)) (of_nat (acap (taken (unat (alloc_size psize)) (alloc_info R user pm tag) b)))
        psize tag user pm name] \<and>
    pool_inv r p (alloc_hdr R fl (taken_size (unat (alloc_size psize)) b))
      (xs @ take_block (unat (alloc_size psize)) (alloc_info R user pm tag) b @ ys) es')"
proof -
  let ?n = "unat (alloc_size psize)" and ?oi = "alloc_info R user pm tag"
  have m: "mapped r" "200 \<le> unat (rsize r)"
    using pool_invD(6,7) [OF inv] by auto
  have post: "runs (shm_alloc_to_entry r s psize name user pm tag)
      (\<lambda>x. runs (case x of Inl v \<Rightarrow> Some v | Inr (slot, new_id, s) \<Rightarrow> shm_alloc_finish r slot new_id s)
        (alloc_post r s R bs es psize name ?oi))"
    using shm_alloc_refines [OF inv lk p n nid, of name user pm tag] unfolding shm_alloc_split [OF p] runs_bind .
  show ?thesis
  proof (rule runs_mono [OF ends_runs [OF post to_entry_failed]])
    fix x
    assume x: "runs (case x of Inl v \<Rightarrow> Some v | Inr (slot, new_id, s) \<Rightarrow> shm_alloc_finish r slot new_id s)
        (alloc_post r s R bs es psize name ?oi) \<and> (\<forall>rc out s'. x = Inl (rc, out, s') \<longrightarrow> rc \<noteq> OK)"
    show "\<exists>k p fl es'. x = Inr (k, h_next_id R, p) \<and>
        es' = es[i := alloc_entry (h_next_id R) (of_nat (span xs + 56)) (of_nat (acap (taken ?n ?oi b))) psize tag user pm name] \<and>
        pool_inv r p (alloc_hdr R fl (taken_size ?n b)) (xs @ take_block ?n ?oi b @ ys) es'"
    proof (cases x)
      case (Inl v)
      then show ?thesis
        using x by (cases v) (auto simp: alloc_post_def slot ff)
    next
      case (Inr w)
      obtain k nd q where w: "w = (k, nd, q)"
        by (cases w)
      obtain v where v: "shm_alloc_finish r k nd q = Some v" "alloc_post r s R bs es psize name ?oi v"
        using x by (auto simp: Inr w runs_iff)
      obtain rc out s' where v3: "v = (rc, out, s')"
        by (cases v)
      have q: "mem s' = mem q" "\<exists>off. out = Some (nd, off)"
        using endsD [OF finish_quiet [OF m] v(1)] v3 by auto
      have id: "nd = h_next_id R" and fin: "alloc_done r s s' R es ?n psize name ?oi i xs b ys"
        using v(2) v3 q(2) by (auto simp: alloc_post_def slot ff)
      obtain fl where "pool_inv r s' (alloc_hdr R fl (taken_size ?n b)) (xs @ take_block ?n ?oi b @ ys)
        (es[i := alloc_entry (h_next_id R) (of_nat (span xs + 56)) (of_nat (acap (taken ?n ?oi b))) psize tag user pm name])"
        using fin by (auto simp: alloc_done_def alloc_info_def)
      then have "pool_inv r q (alloc_hdr R fl (taken_size ?n b)) (xs @ take_block ?n ?oi b @ ys)
        (es[i := alloc_entry (h_next_id R) (of_nat (span xs + 56)) (of_nat (acap (taken ?n ?oi b))) psize tag user pm name])"
        by (rule pool_inv_bytes) (simp_all add: q(1) m(1))
      then show ?thesis
        by (auto simp: Inr w id)
    qed
  qed
qed

text \<open>The bytes of \<open>next_id\<close> are in no cache line that is flushed after the counter has advanced.\<close>

lemma drained_cell:
  assumes t0: "tracked r d Y UNIV s1 s2" and t: "tracked r d X {3..} s2 p" and Y: "{112..<120} \<inter> Y = {}"
  shows "get64 (pmem (shm_drain p)) 112 = get64 (mem s2) 112"
proof (rule c64.get_frame)
  fix a :: nat assume a: "112 \<le> a" "a < 112 + 8"
  have "a div 64 = 1"
    using a by (intro div_nat_eqI) simp_all
  then have "pmem p a = pmem s2 a" "wpq p a = wpq s2 a"
    using t by (auto simp: tracked_def)
  moreover have "written_back s2 a"
    using t0 Y a by (auto simp: tracked_def)
  moreover have "pmem (shm_drain p) a = (case wpq p a of None \<Rightarrow> pmem p a | Some v \<Rightarrow> v)"
    using t by (cases "cmode p") (simp_all add: tracked_def shm_drain_def)
  ultimately show "pmem (shm_drain p) a = mem s2 a"
    by (auto simp: written_back_def split: option.splits)
qed

lemma to_entry_medium:
  assumes st: "settled_pool {} r s R bs es" and n: "56 \<le> unat (alloc_size psize)"
    and slot: "first_slot (\<lambda>e. \<not> live e) es 0 = Some i" and ff: "first_fit (unat (alloc_size psize)) bs = Some (xs, b, ys)"
  shows "ends (shm_alloc_to_entry r s psize name user pm tag) (\<lambda>x. \<forall>k nid p. x = Inr (k, nid, p) \<longrightarrow>
    cmode p \<noteq> CACHE_NONE \<and>
    settled (alloc_rest (h_data_offset R) (- meta_bytes (unat (h_data_offset R)) bs) (unat (alloc_size psize)) xs b \<union> {112..<120}) (shm_drain p) \<and>
    get64 (pmem (shm_drain p)) 112 = h_next_id R)"
proof -
  let ?s1 = "s\<lparr>mutex := MLocked\<rparr>" and ?n = "unat (alloc_size psize)" and ?d = "h_data_offset R" and ?h = "span xs"
  let ?M = "- meta_bytes (unat ?d) bs"
  let ?Y = "(?M - rest_hdr ?d ?n xs b) \<union> pred_link ?d (frees 0 xs)"
  let ?bs = "xs @ take_block ?n no_owner b @ ys" and ?k = "slot_pos R i" and ?c = "acap (taken ?n no_owner b)"
  let ?Z = "?Y - pay_range ?d ?h ?c" and ?N = "{112..<120} :: nat set"
  let ?K = "{?k..<?k + 96}"
  have a: "pool_inv r s R bs es" "lockable s" "cmode s \<noteq> CACHE_NONE" "settled ?M s"
    using st by (simp_all add: settled_pool_def on_medium_def)
  note l = pool_lock [OF a(1,2)]
  note dr = pool_invD(2) [OF l(2)] and hr = pool_invD(1) [OF l(2)]
  have i: "i < length es"
    using first_slot_SomeD [OF slot] by simp
  note sb = slot_bounds [OF dr i]
  have d200: "200 \<le> unat ?d"
    using pool_bounds [OF a(1)] by simp
  have find: "dir_find_free_slot r ?s1 = Some (rp r ?k)" "rp r ?k \<noteq> 0"
    using dir_find_free_slot_eq [OF dr] slot slot_ptr_nonzero [OF dr i] by (simp_all add: slot_ptr_def)
  let ?P = "\<lambda>(q, s2). \<exists>fl. q = bp r ?d ?h \<and>
     heap_view r ?s1 s2 (set (starts 0 ?bs)) (count_alloc (R\<lparr>h_free_list := fl\<rparr>) (taken_size ?n b)) ?bs"
  have heap: "runs (heap_alloc_block r ?s1 (alloc_size psize)) ?P"
    using heap_alloc_block_refines [OF hr n alloc_size_dvd unat64_bound refl, of ?P] ff by auto
  have track: "ends (heap_alloc_block r ?s1 (alloc_size psize)) (\<lambda>(q, s2). tracked r ?d ?Y UNIV ?s1 s2)"
    using track_heap_alloc [OF hr unat64_bound refl settled_locked [OF a] ff, of UNIV] by (auto elim: ends_mono)
  have N: "?N \<inter> ?Y = {}"
    using d200 by (auto simp: meta_bytes_def pred_link_def link_cell_def)
  have k: "?k + 96 \<le> unat (rsize r)"
    using sb(2) dr by (simp add: dir_rep_def)
  have F: "lines ?k 96 \<subseteq> {3..}" "lines (unat ?d + x) y \<subseteq> {3..}" for x y
    using sb(1) d200 by (force simp: lines_def)+
  show ?thesis
    unfolding shm_alloc_to_entry_unfold l(1) Option.bind_lunit prod.case find(1) if_not_P [OF find(2)]
  proof (rule ends_step [OF heap track])
    fix v assume P: "?P v" and T: "case v of (q, s2) \<Rightarrow> tracked r ?d ?Y UNIV ?s1 s2"
    obtain s2 fl where v: "v = (bp r ?d ?h, s2)"
      and hv: "heap_view r ?s1 s2 (set (starts 0 ?bs)) (count_alloc (R\<lparr>h_free_list := fl\<rparr>) (taken_size ?n b)) ?bs"
      using P by auto
    let ?R = "count_alloc (R\<lparr>h_free_list := fl\<rparr>) (taken_size ?n b)"
    have t0: "tracked r ?d ?Y UNIV ?s1 s2"
      using T v by simp
    have t: "tracked r ?d ?Y {3..} s2 s2"
      using t0 by (simp add: tracked_def)
    obtain H where H: "hview r ?s1 s2 (set (starts 0 ?bs)) H ?R" and hD: "?h \<in> set (starts 0 ?bs)"
      and c: "unat (b_payload_cap (H ?h)) = ?c" and fits: "unat (h_data_offset ?R) + ?h + 56 + ?c \<le> unat (rsize r)"
      and out: "pay_range (h_data_offset ?R) ?h ?c \<inter> hdr_bytes (unat (h_data_offset ?R)) (set (starts 0 ?bs)) = {}"
      by (rule carved_payload [OF hv])
    have dR: "h_data_offset ?R = ?d"
      by (simp add: count_alloc_def)
    have old: "get64 (mem s2) 112 = h_next_id R"
      using hviewD(6) [OF H] by (auto simp: rh_at_sel count_alloc_def dest: arg_cong [of _ _ h_next_id])
    have nz: "bp r ?d ?h \<noteq> 0"
      by (rule bp_nonzero [OF H hD]) (simp add: dR)
    have o: "owns_slot r (?Z \<union> ?N \<union> ?K) ?k"
      using k sb(1) by (simp add: owns_slot_def)
    have id: "runs (set_rh_next_id r s2 (x + 1)) (\<lambda>s'. hview r ?s1 s' (set (starts 0 ?bs)) H (?R\<lparr>h_next_id := x + 1\<rparr>))" for x
      by (rule wp_set_rh_next_id [OF H])
    have id': "ends (set_rh_next_id r s2 (x + 1)) (tracked r ?d (?Y \<union> ?N) {3..} s2)" for x
      by (rule track_set_rh(4) [OF tracked_mono [OF t]]) auto
    have init: "ends (alloc_init_block r s' (bp r ?d ?h) x user pm tag) (tracked r ?d (?Z \<union> ?N \<union> ?K) {3..} s2)"
      if v: "hview r ?s1 s' (set (starts 0 ?bs)) H (?R\<lparr>h_next_id := x + 1\<rparr>)"
        and t': "tracked r ?d (?Y \<union> ?N) {3..} s2 s'" for s' x
    proof -
      have d': "?d = h_data_offset (?R\<lparr>h_next_id := x + 1\<rparr>)"
        by (simp add: count_alloc_def)
      have o': "a \<notin> hdr_bytes (unat ?d) (set (starts 0 ?bs))" if "unat ?d + ?h + 56 \<le> a" "a < unat ?d + ?h + 56 + ?c" for a
        using out that by (auto simp: pay_range_def dR)
      from track_alloc_init_block [OF v hD d' c fits [unfolded dR] o' t' F(2) F(2) [of "?h + 56", folded add.assoc]]
      show ?thesis
        by (rule ends_mono) (auto elim!: tracked_mono)
    qed
    have persist: "ends (shm_persist r s' (rp r ?k) SIZEOF_OBJ_ENTRY) (tracked r ?d (?Z \<union> ?N) {3..} s2)"
      if "tracked r ?d (?Z \<union> ?N \<union> ?K) {3..} s2 s'" for s'
      by (rule track_persist_slot [OF that k F(1)]) (auto intro: line_bytes_range)
    have fin: "cmode p \<noteq> CACHE_NONE \<and> settled (alloc_rest ?d ?M ?n xs b \<union> ?N) (shm_drain p) \<and> get64 (pmem (shm_drain p)) 112 = h_next_id R"
      if p: "tracked r ?d (?Z \<union> ?N) {3..} s2 p" for p
    proof -
      have "settled (alloc_rest ?d ?M ?n xs b \<union> ?N) (shm_drain p)"
        by (rule settled_mono [OF tracked_settled [OF p]]) (auto simp: alloc_rest_def)
      then show ?thesis
        using drained_cell [OF t0 p N] old p by (simp add: tracked_def)
    qed
    show "ends (case v of (b, s) \<Rightarrow>
        if b = 0 then Option.bind (region_unlock r s) (\<lambda>s. Some (Inl (ENOMEM, None, s)))
        else do {
          new_id \<leftarrow> rh_next_id r s;
          s \<leftarrow> set_rh_next_id r s (new_id + 1);
          s \<leftarrow> alloc_init_block r s b new_id user pm tag;
          s \<leftarrow> alloc_fill_slot r s (rp r ?k) b new_id psize name user pm tag;
          s \<leftarrow> shm_persist r s (rp r ?k) SIZEOF_OBJ_ENTRY;
          Some (Inr (rp r ?k, new_id, s)) })
      (\<lambda>x. \<forall>k nid p. x = Inr (k, nid, p) \<longrightarrow> cmode p \<noteq> CACHE_NONE \<and>
         settled (alloc_rest ?d ?M ?n xs b \<union> ?N) (shm_drain p) \<and> get64 (pmem (shm_drain p)) 112 = h_next_id R)"
      unfolding v prod.case if_not_P [OF nz]
      apply (rule ends_load)
      apply (rule ends_step [OF id id'])
      apply (rule ends_seq [OF init], assumption, assumption)
      apply (rule ends_seq [OF track_alloc_fill_slot [OF _ o]], assumption)
      apply (rule ends_seq [OF persist], assumption)
      apply (use fin in auto)
      done
  qed
qed

section \<open>The next allocation\<close>

text \<open>An allocation on a sound heap and a sound directory, whatever the counter of ids is.\<close>

lemma alloc_tail_id:
  assumes hv: "heap_view r s s2 (set (starts 0 (xs @ take_block n no_owner b @ ys))) R (xs @ take_block n no_owner b @ ys)"
    and k: "200 \<le> k" "k + 96 \<le> unat (h_data_offset R)" and lock: "mutex s = MLocked" and m: "200 \<le> unat (rsize r)"
  shows "runs (do {
       new_id \<leftarrow> rh_next_id r s2;
       s \<leftarrow> set_rh_next_id r s2 (new_id + 1);
       s \<leftarrow> alloc_init_block r s (bp r (h_data_offset R) (span xs)) new_id user pm tag;
       s \<leftarrow> alloc_fill_slot r s (rp r k) (bp r (h_data_offset R) (span xs)) new_id psize name user pm tag;
       s \<leftarrow> shm_persist r s (rp r k) SIZEOF_OBJ_ENTRY;
       s \<leftarrow> shm_persist r s (shm_rh r + 112) 8;
       let s = shm_drain s;
       off \<leftarrow> ent_off r s (rp r k);
       s \<leftarrow> region_unlock r s;
       Some (OK, Some (new_id, off), s) })
    (\<lambda>(rc, out, s'). rc = OK \<and> (\<exists>off. out = Some (h_next_id R, off)))"
proof -
  let ?D = "set (starts 0 (xs @ take_block n no_owner b @ ys))" and ?h = "span xs" and ?d = "unat (h_data_offset R)"
  let ?R = "R\<lparr>h_next_id := h_next_id R + 1\<rparr>" and ?c = "acap (taken n no_owner b)"
  obtain H where H: "hview r s s2 ?D H R" "?h \<in> ?D" "unat (b_payload_cap (H ?h)) = ?c" "?d + ?h + 56 + ?c \<le> unat (rsize r)"
    and out: "pay_range (h_data_offset R) ?h ?c \<inter> hdr_bytes ?d ?D = {}"
    by (rule carved_payload [OF hv])
  have nohdr: "a \<notin> hdr_bytes ?d ?D" if "?d + ?h + 56 \<le> a" "a < ?d + ?h + 56 + ?c" for a
    using out that by (auto simp: pay_range_def)
  have map: "mapped r"
    using hviewD(1) [OF H(1)] .
  have cd: "h_data_offset R = h_data_offset ?R"
    by simp
  show ?thesis
    apply (simp only: runs_bind hview_rh_loads(12) [OF H(1)] runs_Some)
    apply (rule wp_set_rh_next_id [OF H(1)])
    subgoal premises p1 for s3
      apply (rule wp_alloc_init_block [OF p1 H(2) cd H(3,4) nohdr], assumption, assumption)
      subgoal premises p2 for s4
        apply (rule wp_alloc_fill_slot [OF hview_refl [OF p2 subset_refl] H(2) cd k])
        apply (rule wp_persist_slot, assumption)
        apply (rule wp_persist_any [OF map rh_field_fits [OF m]], simp)
        subgoal premises p3 for s5 s6 s7
        proof -
          have e: "eview r s4 (shm_drain s7) k (alloc_entry (h_next_id R) (of_nat (?h + 56))
             (b_payload_cap (owned (H ?h) \<lparr>o_tag = tag, o_owner = user, o_perms = pm, o_id = h_next_id R\<rparr>)) psize tag user pm name)"
            by (rule eview_mem_cong) (use p3 in \<open>simp_all\<close>)
          have "mutex (shm_drain s7) = MLocked"
            using e p2 lock by (simp add: eview_def hview_def)
          then show ?thesis
            using eview_loads(2) [OF e] region_unlock_locked [OF map m] by (simp add: Let_def del: of_nat_add)
        qed
        done
      done
    done
qed

lemma alloc_takes_id:
  assumes hr: "heap_rep r t R bs" and dr: "dir_rep r t R es" and lk: "lockable t" and m: "200 \<le> unat (rsize r)"
    and p: "psize \<noteq> 0" and n: "56 \<le> unat (alloc_size psize)"
  shows "runs (shm_alloc (Some r) t psize name user pm tag True True) (\<lambda>(rc, out, s').
    if first_slot (\<lambda>e. \<not> live e) es 0 = None then rc = ENOSPC
    else if first_fit (unat (alloc_size psize)) bs = None then rc = ENOMEM
    else rc = OK \<and> (\<exists>off. out = Some (h_next_id R, off)))"
proof -
  let ?t = "t\<lparr>mutex := MLocked\<rparr>" and ?n = "unat (alloc_size psize)"
  have map: "mapped r"
    using dr by (simp add: dir_rep_def)
  note l = region_lock_lockable [OF map m lk] region_unlock_locked [OF map m, of ?t]
  have dl: "dir_rep r ?t R es" and hl: "heap_rep r ?t R bs"
    using dr hr by (simp_all add: dir_rep_def heap_rep_bytes)
  note slot = dir_find_free_slot_eq [OF dl]
  have args: "\<not> (psize = 0 \<or> \<not> True \<or> \<not> True)"
    using p by simp
  have sz: "alloc_size psize = of_nat ?n" by simp
  show ?thesis
  proof (cases "first_slot (\<lambda>e. \<not> live e) es 0")
    case None
    then show ?thesis
      using p l slot by (simp add: shm_alloc_def slot_ptr_def)
  next
    case (Some i)
    have i: "i < length es"
      using first_slot_SomeD [OF Some] by simp
    have find: "dir_find_free_slot r ?t = Some (rp r (slot_pos R i))" "rp r (slot_pos R i) \<noteq> 0"
      using slot Some slot_ptr_nonzero [OF dl i] by (simp_all add: slot_ptr_def)
    show ?thesis
      unfolding shm_alloc_def option.case if_not_P [OF args] l(1) Option.bind_lunit prod.case find(1) if_not_P [OF find(2)]
        Let_def runs_bind
      apply (subst sz)
      apply (rule heap_alloc_block_refines [OF hl n alloc_size_dvd unat64_bound refl])
      subgoal by (simp add: l(2) Some)
      subgoal premises q for s2 fl xs b ys
      proof -
        let ?R = "count_alloc (R\<lparr>h_free_list := fl\<rparr>) (taken_size ?n b)"
        have R: "h_data_offset ?R = h_data_offset R" "h_next_id ?R = h_next_id R"
          by (simp_all add: count_alloc_def)
        obtain H where H: "hview r ?t s2 (set (starts 0 (xs @ take_block ?n no_owner b @ ys))) H ?R"
          using q(2) by (rule heap_viewE)
        have nz: "bp r (h_data_offset R) (span xs) \<noteq> 0"
          by (rule bp_nonzero [OF H]) (simp_all add: take_block_Cons R)
        have "runs (do {
           new_id \<leftarrow> rh_next_id r s2;
           s \<leftarrow> set_rh_next_id r s2 (new_id + 1);
           s \<leftarrow> alloc_init_block r s (bp r (h_data_offset R) (span xs)) new_id user pm tag;
           s \<leftarrow> alloc_fill_slot r s (rp r (slot_pos R i)) (bp r (h_data_offset R) (span xs)) new_id psize name user pm tag;
           s \<leftarrow> shm_persist r s (rp r (slot_pos R i)) SIZEOF_OBJ_ENTRY;
           s \<leftarrow> shm_persist r s (shm_rh r + 112) 8;
           let s = shm_drain s;
           off \<leftarrow> ent_off r s (rp r (slot_pos R i));
           s \<leftarrow> region_unlock r s;
           Some (OK, Some (new_id, off), s) })
        (\<lambda>(rc, out, s'). rc = OK \<and> (\<exists>off. out = Some (h_next_id R, off)))"
          using alloc_tail_id [OF q(2), unfolded R, OF slot_bounds [OF dl i] _ m] by simp
        then show ?thesis
          using nz by (simp add: Some q(1) Let_def)
      qed
      done
  qed
qed

section \<open>A failure before the counter is flushed\<close>

text \<open>The caller dies with the mutex, the power fails, and the write-backs under way complete.\<close>

definition cut_short :: "machine \<Rightarrow> machine" where
  "cut_short s = (crash (shm_drain s))\<lparr>mutex := MOwnerDead\<rparr>"

lemma cut_short_sel [simp]: "mem (cut_short s) = pmem (shm_drain s)" "mutex (cut_short s) = MOwnerDead"
  by (simp_all add: cut_short_def)

text \<open>The bytes of a pool \<open>p\<close> with an old counter of ids.\<close>

lemma old_counter:
  assumes inv: "pool_inv r p R' bs es" and n: "get64 m 112 = n"
    and eq: "\<And>a. a \<in> meta_bytes (unat (h_data_offset R')) bs \<Longrightarrow> a < 112 \<or> 120 \<le> a \<Longrightarrow> m a = mem p a"
    and t: "mem t = m"
  shows "heap_rep r t (R'\<lparr>h_next_id := n\<rparr>) bs" and "dir_rep r t (R'\<lparr>h_next_id := n\<rparr>) es"
proof -
  let ?d = "unat (h_data_offset R')" and ?R = "R'\<lparr>h_next_id := n\<rparr>"
  have d: "200 \<le> ?d" and wf: "list_all wf_blk bs"
    using pool_bounds [OF inv] by simp_all
  have low: "m a = mem p a" if "a < ?d" "a < 112 \<or> 120 \<le> a" for a
    using eq that by (simp add: meta_bytes_def)
  have R: "rh_at (mem p) = R'"
    using pool_invD(8) [OF inv] .
  have w: "get64 m j = get64 (mem p) j" if "j + 8 \<le> 112 \<or> 120 \<le> j \<and> j + 8 \<le> 200" for j
    by (rule c64.get_frame) (use low d that in auto)
  have v: "get32 m j = get32 (mem p) j" if "j + 4 \<le> 112" for j
    by (rule c32.get_frame) (use low d that in auto)
  have Rm: "rh_at m = ?R"
    unfolding R [symmetric] rh_at_def by (simp add: w v n)
  have "hdrs m ?d x = hdrs (mem p) ?d x" if "x \<in> set (starts 0 bs)" for x
    unfolding hdrs_def by (rule blk_at_cong, rule eq) (use that d in \<open>auto simp: meta_bytes_def hdr_bytes_def\<close>)
  then have "heap_shape (hdrs m ?d) R' bs = heap_shape (hdrs (mem p) ?d) R' bs"
    by (rule heap_shape_cong)
  then have "heap_shape (hdrs m ?d) ?R bs"
    using pool_invD(1) [OF inv] by (simp add: heap_rep_bytes heap_shape_def)
  then show "heap_rep r t ?R bs"
    using pool_invD(1) [OF inv] Rm t by (simp add: heap_rep_bytes)
  show "dir_rep r t ?R es"
    by (rule dir_rep_frame [OF pool_invD(2) [OF inv]]) (use low Rm t in simp_all)
qed

lemma entry_reissues_id:
  assumes st: "settled_pool {} r s R bs es" and p: "psize \<noteq> 0" and nn: "n = unat (alloc_size psize)" "56 \<le> n"
    and nid: "h_next_id R + 1 \<noteq> 0"
    and slot: "first_slot (\<lambda>e. \<not> live e) es 0 = Some i" and ff: "first_fit n bs = Some (xs, b, ys)" and fr: "frees 0 xs = []"
    and acc: "access_ok user pm user cp SHM_PERM_READ"
    and e: "e = alloc_entry (h_next_id R) (of_nat (span xs + 56)) (of_nat (acap (taken n (alloc_info R user pm tag) b))) psize tag user pm name"
  shows "runs (shm_alloc_to_entry r s psize name user pm tag) (\<lambda>x. \<exists>k p. x = Inr (k, h_next_id R, p) \<and>
    \<not> region_inv r (cut_short p) \<and>
    answer (shm_lookup (Some r) (cut_short p) (h_next_id R) user cp True True) = Some (OK, Some (of_nat (span xs + 56)), Some psize) \<and>
    (\<forall>psize' name' user' pm' tag'. psize' \<noteq> 0 \<and> 56 \<le> unat (alloc_size psize') \<longrightarrow>
       runs (shm_alloc (Some r) (cut_short p) psize' name' user' pm' tag' True True) (\<lambda>(rc, out, s').
         if first_slot (\<lambda>e. \<not> live e) (es[i := e]) 0 = None then rc = ENOSPC
         else if first_fit (unat (alloc_size psize')) (xs @ take_block n (alloc_info R user pm tag) b @ ys) = None then rc = ENOMEM
         else rc = OK \<and> (\<exists>off. out = Some (h_next_id R, off)))))"
proof -
  let ?N = "h_next_id R" and ?oi = "alloc_info R user pm tag" and ?d = "h_data_offset R"
  let ?bs = "xs @ take_block n ?oi b @ ys" and ?es = "es[i := e]"
  have a: "pool_inv r s R bs es" "lockable s"
    using st by (simp_all add: settled_pool_def)
  have b: "bs = xs @ b # ys" "n \<le> asz b"
    using first_fit_SomeD [OF ff] by simp_all
  have m: "200 \<le> unat (rsize r)"
    using pool_invD(7) [OF a(1)] .
  note pool = to_entry_pool [OF a p nn(2) [unfolded nn(1)] nid slot ff [unfolded nn(1)], of name user pm tag, folded nn(1)]
  note med = to_entry_medium [OF st nn(2) [unfolded nn(1)] slot ff [unfolded nn(1)], of name user pm tag, folded nn(1)]
  show ?thesis
  proof (rule runs_mono [OF ends_runs [OF pool med]], elim conjE exE)
    fix x k q fl es'
    assume x: "x = Inr (k, ?N, q)" and es': "es' = es[i := alloc_entry ?N (of_nat (span xs + 56)) (of_nat (acap (taken n ?oi b))) psize tag user pm name]"
      and inv0: "pool_inv r q (alloc_hdr R fl (taken_size n b)) ?bs es'"
      and md: "\<forall>k nid p. x = Inr (k, nid, p) \<longrightarrow> cmode p \<noteq> CACHE_NONE \<and>
        settled (alloc_rest ?d (- meta_bytes (unat ?d) bs) n xs b \<union> {112..<120}) (shm_drain p) \<and> get64 (pmem (shm_drain p)) 112 = ?N"
    let ?R' = "alloc_hdr R fl (taken_size n b)" and ?t = "cut_short q"
    have inv: "pool_inv r q ?R' ?bs ?es"
      using inv0 unfolding es' e .
    have cell: "get64 (pmem (shm_drain q)) 112 = ?N"
      and set: "settled (alloc_rest ?d (- meta_bytes (unat ?d) bs) n xs b \<union> {112..<120}) (shm_drain q)"
      using md x by blast+
    have "alloc_rest ?d (- meta_bytes (unat ?d) bs) n xs b \<subseteq> - meta_bytes (unat ?d) ?bs"
      using alloc_rest_meta [OF b(2), of ?d xs ys ?oi] unfolding b(1) fr by (simp add: pred_link_def)
    with set have "pmem (shm_drain q) a = mem (shm_drain q) a" if "a \<in> meta_bytes (unat ?d) ?bs" "a < 112 \<or> 120 \<le> a" for a
      using that by (auto simp: settled_def durable_def)
    then have eq: "pmem (shm_drain q) a = mem q a" if "a \<in> meta_bytes (unat (h_data_offset ?R')) ?bs" "a < 112 \<or> 120 \<le> a" for a
      using that by simp
    let ?T = "?R'\<lparr>h_next_id := ?N\<rparr>"
    have hr: "heap_rep r ?t ?T ?bs" and dr: "dir_rep r ?t ?T ?es"
      using old_counter [OF inv cell eq, of ?t] by simp_all
    have lk: "lockable ?t"
      by (simp add: lockable_def)
    have N0: "?N \<noteq> 0"
      using a(1) by (auto simp: pool_inv_def)
    have il: "i < length es"
      using first_slot_SomeD [OF slot] by simp
    then have ei: "i < length ?es" "?es ! i = e" "live e" "e_id e = ?N"
      using N0 by (simp_all add: e alloc_entry_live) (simp add: alloc_entry_def)
    have f: "e_owner e = user" "e_perms e = pm" "e_off e = of_nat (span xs + 56)" "e_used_size e = psize"
      by (simp_all add: e alloc_entry_def)
    have bad: "\<not> region_inv r ?t"
    proof
      assume "region_inv r ?t"
      then obtain R3 bs3 es3 where i3: "pool_inv r ?t R3 bs3 es3"
        by (auto simp: region_inv_def)
      have R3: "R3 = ?T"
        using pool_invD(8) [OF i3] dr by (simp add: dir_rep_def)
      then have "es3 = ?es"
        using pool_invD(2) [OF i3] dr by (simp add: dir_rep_def)
      then have "entry_ok ?N e"
        using pool_invD(5) [OF i3] ei(1,2) R3 nth_mem [OF ei(1)] by (auto simp: dir_ok_def list_all_iff)
      then show False
        using ei(3,4) by (simp add: entry_ok_def)
    qed
    obtain j where j: "first_slot (\<lambda>e. e_id e = ?N \<and> e_alive e \<noteq> 0) ?es 0 = Some j"
    proof -
      have "?N \<in> set (live_ids ?es)"
        using ei(3,4) set_update_memI [OF il, of e] by (force simp: live_ids_def)
      then show thesis
        using find_live_id [OF inv] that by blast
    qed
    have jl: "j < length ?es" "live (?es ! j)" "e_id (?es ! j) = ?N"
      using first_slot_SomeD [OF j] N0 by (auto simp: live_def)
    have "inj_on e_id {e \<in> set ?es. live e}"
      using pool_invD(5) [OF inv] by (simp add: dir_ok_def distinct_map)
    then have "?es ! j = e"
      by (rule inj_onD) (use jl ei nth_mem [OF ei(1)] in auto)
    then have look: "answer (shm_lookup (Some r) ?t ?N user cp True True) = Some (OK, Some (of_nat (span xs + 56)), Some psize)"
      using acc by (simp add: lookup_in_dir [OF dr m lk N0] j f del: of_nat_add)
    have T: "h_next_id ?T = ?N"
      by simp
    have next_id: "runs (shm_alloc (Some r) ?t psize' name' user' pm' tag' True True) (\<lambda>(rc, out, s').
         if first_slot (\<lambda>e. \<not> live e) ?es 0 = None then rc = ENOSPC
         else if first_fit (unat (alloc_size psize')) ?bs = None then rc = ENOMEM
         else rc = OK \<and> (\<exists>off. out = Some (?N, off)))"
      if "psize' \<noteq> 0" "56 \<le> unat (alloc_size psize')" for psize' name' user' pm' tag'
      using alloc_takes_id [OF hr dr lk m that, of name' user' pm' tag', unfolded T] .
    show "\<exists>k p. x = Inr (k, ?N, p) \<and> \<not> region_inv r (cut_short p) \<and>
      answer (shm_lookup (Some r) (cut_short p) ?N user cp True True) = Some (OK, Some (of_nat (span xs + 56)), Some psize) \<and>
      (\<forall>psize' name' user' pm' tag'. psize' \<noteq> 0 \<and> 56 \<le> unat (alloc_size psize') \<longrightarrow>
         runs (shm_alloc (Some r) (cut_short p) psize' name' user' pm' tag' True True) (\<lambda>(rc, out, s').
           if first_slot (\<lambda>e. \<not> live e) ?es 0 = None then rc = ENOSPC
           else if first_fit (unat (alloc_size psize')) ?bs = None then rc = ENOMEM
           else rc = OK \<and> (\<exists>off. out = Some (?N, off))))"
      using x bad look next_id by blast
  qed
qed

end
