(* ===== verification/Shm_Power.thy ===== *)
theory Shm_Power
  imports Shm_Midway Shm_Lifecycle
begin

text \<open>
  The properties on power failures, and sequences of calls on the region of \<open>Shm_Example\<close> that show
  the two failures. An object is allocated in front of another one and freed again, the next object does
  not fit into the hole, and its block is given out once more. An object moves behind another one and
  then grows into the rest of the heap, and the list leads into it. An id is given out twice.
\<close>

section \<open>A sequence of calls\<close>

lemma settled_alloc_step:
  assumes st: "settled_pool {} r s R bs es" and p: "psize \<noteq> 0" "n = unat (alloc_size psize)" "56 \<le> n"
    and nid: "h_next_id R + 1 \<noteq> 0" and slot: "first_slot (\<lambda>e. \<not> live e) es 0 = Some i"
    and ff: "first_fit n bs = Some (xs, b, ys)" and first: "frees 0 xs = []"
  obtains s' R' where "shm_alloc (Some r) s psize name user pm tag True True = Some (OK, Some (h_next_id R, of_nat (span xs + 56)), s')"
    "h_next_id R' = h_next_id R + 1" "h_data_offset R' = h_data_offset R" "h_dir_offset R' = h_dir_offset R"
    "settled_pool {} r s' R' (xs @ take_block n (alloc_info R user pm tag) b @ ys)
       (es[i := alloc_entry (h_next_id R) (of_nat (span xs + 56)) (of_nat (acap (taken n (alloc_info R user pm tag) b))) psize tag user pm name])"
proof -
  have a: "pool_inv r s R bs es" "lockable s" "cmode s \<noteq> CACHE_NONE" "on_medium {} R bs s"
    using st by (simp_all add: settled_pool_def)
  note pre = p(1) p(3) [unfolded p(2)] nid
  obtain s' fl where run: "shm_alloc (Some r) s psize name user pm tag True True = Some (OK, Some (h_next_id R, of_nat (span xs + 56)), s')"
    and inv: "pool_inv r s' (alloc_hdr R fl (taken_size n b)) (xs @ take_block n (alloc_info R user pm tag) b @ ys)
       (es[i := alloc_entry (h_next_id R) (of_nat (span xs + 56)) (of_nat (acap (taken n (alloc_info R user pm tag) b))) psize tag user pm name])"
    using shm_alloc_refines [OF a(1,2) pre, of name user pm tag] slot ff p(2)
    by (auto simp: runs_iff alloc_post_def alloc_done_def alloc_info_def)
  obtain R' bs' es' where st': "settled_pool {} r s' R' bs' es'"
    using alloc_settled_pool [OF st pre, of name user pm tag] run ff first p(2) by (auto simp: runs_iff alloc_link_def pred_link_def)
  have "pool_inv r s' R' bs' es'"
    using st' by (simp add: settled_pool_def)
  from pool_inv_determined [OF inv this] st' show thesis
    by (intro that [of s' R', OF run]) (auto simp: alloc_hdr_def count_alloc_def simp del: of_nat_add)
qed

lemma settled_free_step:
  assumes st: "settled_pool {} r s R bs es" and nz: "obj_id \<noteq> 0"
    and slot: "first_slot (\<lambda>e. e_id e = obj_id \<and> e_alive e \<noteq> 0) es 0 = Some i"
    and acc: "access_ok (e_owner (es ! i)) (e_perms (es ! i)) user cp SHM_PERM_FREE"
    and first: "\<not> frees_before bs es obj_id"
  obtains s' R' xs b ys where "shm_free (Some r) s obj_id user cp = Some (OK, s')" "bs = xs @ b # ys"
    "unat (e_off (es ! i)) = span xs + 56"
    "h_next_id R' = h_next_id R" "h_data_offset R' = h_data_offset R" "h_dir_offset R' = h_dir_offset R"
    "settled_pool {} r s' R' (insert_free xs b ys) (es[i := zero_ent])"
proof -
  have a: "pool_inv r s R bs es" "lockable s"
    using st by (simp_all add: settled_pool_def)
  obtain s' fl xs b ys where run: "shm_free (Some r) s obj_id user cp = Some (OK, s')" "bs = xs @ b # ys"
    "unat (e_off (es ! i)) = span xs + 56"
    and inv: "pool_inv r s' (count_free (R\<lparr>h_free_list := fl\<rparr>) (asz b)) (insert_free xs b ys) (es[i := zero_ent])"
    using shm_free_refines [OF a nz, of user cp] slot acc by (auto simp: runs_iff free_post_def free_done_def)
  obtain R' bs' es' where st': "settled_pool {} r s' R' bs' es'"
    using free_settled_pool [OF st nz, of user cp] run(1) first by (auto simp: runs_iff)
  have "pool_inv r s' R' bs' es'"
    using st' by (simp add: settled_pool_def)
  from pool_inv_determined [OF inv this] st' show thesis
    by (intro that [of s' xs b ys R', OF run]) (auto simp: count_free_def)
qed

lemma demo0_settled: "settled_pool {} demo demo0 demo_R0 (init_blocks 3704) [zero_ent, zero_ent]"
proof -
  have "runs (region_init demo blank (rsize demo) SHM_BACKEND_POSIX 2 None 0 0) (\<lambda>s'. \<exists>R bs es. pool_inv demo s' R bs es \<and> on_medium {} R bs s')"
    by (rule region_init_on_medium [OF demo_mapped]) simp_all
  then obtain R bs es where "pool_inv demo demo0 R bs es" "on_medium {} R bs demo0"
    by (auto simp: runs_iff demo0_def)
  then show ?thesis
    using pool_inv_determined [OF demo0_inv(1), of R bs es] demo0_inv demo0_lockable by (simp add: settled_pool_def)
qed

text \<open>Two objects.\<close>

definition pair :: "ablk list" where
  "pair = [run_A, run_X, \<lparr>asz = 2288, acap = 2232, aown = None\<rparr>]"

lemma pair_reached:
  obtains s R where "settled_pool {} demo s R pair [run_ent 1 56 1000 1000, run_ent 2 1112 304 300]"
    "h_next_id R = 3" "h_data_offset R = 392" "h_dir_offset R = 200"
proof -
  have R0: "h_next_id demo_R0 = 1" "h_data_offset demo_R0 = 392" "h_dir_offset demo_R0 = 200"
    by (simp_all add: demo_R0_def init_rh_def)
  have i: "alloc_info R 7 15 1 = run_info (h_next_id R)" for R
    by (simp add: alloc_info_def run_info_def)
  have ff: "first_fit 1056 (init_blocks 3704) = Some ([], \<lparr>asz = 3704, acap = 3648, aown = None\<rparr>, [])"
    by (simp add: init_blocks_def)
  obtain sA RA where A: "h_next_id RA = 2" "h_data_offset RA = 392" "h_dir_offset RA = 200"
    "settled_pool {} demo sA RA [run_A, \<lparr>asz = 2648, acap = 2592, aown = None\<rparr>] [run_ent 1 56 1000 1000, zero_ent]"
    by (rule settled_alloc_step [OF demo0_settled _ run_sizes(1) [symmetric] _ _ demo_slots(1) ff, of None 7 15 1])
      (auto simp: R0 i take_block_def taken_def run_A_def run_ent_def)
  have slot: "first_slot (\<lambda>e. \<not> live e) [run_ent 1 56 1000 1000, zero_ent] 0 = Some 1"
    by (simp add: first_slot_step(1) demo_live)
  have ff: "first_fit 360 [run_A, \<lparr>asz = 2648, acap = 2592, aown = None\<rparr>] =
      Some ([run_A], \<lparr>asz = 2648, acap = 2592, aown = None\<rparr>, [])"
    by (simp add: run_A_def is_free_def)
  obtain sB RB where B: "h_next_id RB = 3" "h_data_offset RB = 392" "h_dir_offset RB = 200"
    "settled_pool {} demo sB RB [run_A, run_X, \<lparr>asz = 2288, acap = 2232, aown = None\<rparr>]
       [run_ent 1 56 1000 1000, run_ent 2 1112 304 300]"
    by (rule settled_alloc_step [OF A(4) _ run_sizes(2) [symmetric] _ _ slot ff, of None 7 15 1])
      (auto simp: A i take_block_def taken_def run_A_def run_X_def run_ent_def is_free_def)
  show thesis
    by (rule that [OF B(4) [folded pair_def] B(1-3)])
qed

text \<open>The first one is freed again: a hole of 1056 bytes in front.\<close>

definition hole :: "ablk list" where
  "hole = [\<lparr>asz = 1056, acap = 1000, aown = None\<rparr>, run_X, \<lparr>asz = 2288, acap = 2232, aown = None\<rparr>]"

lemma hole_reached:
  obtains s R where "settled_pool {} demo s R hole [zero_ent, run_ent 2 1112 304 300]"
    "h_next_id R = 3" "h_data_offset R = 392" "h_dir_offset R = 200"
proof -
  obtain sB RB where B: "settled_pool {} demo sB RB pair [run_ent 1 56 1000 1000, run_ent 2 1112 304 300]"
    "h_next_id RB = 3" "h_data_offset RB = 392" "h_dir_offset RB = 200"
    by (rule pair_reached)
  let ?es = "[run_ent 1 56 1000 1000, run_ent 2 1112 304 300]"
  have slot: "first_slot (\<lambda>e. e_id e = 1 \<and> e_alive e \<noteq> 0) ?es 0 = Some 0"
    by (simp add: first_slot_step(1))
  have acc: "access_ok (e_owner (?es ! 0)) (e_perms (?es ! 0)) 7 15 SHM_PERM_FREE"
    by (simp add: access_ok_def perm_defs)
  have first: "\<not> frees_before pair ?es 1"
    by (simp add: frees_before_def pair_def run_A_def run_X_def is_free_def)
  show thesis
  proof (rule settled_free_step [OF B(1) _ slot acc first], simp)
    fix s' R' xs b ys
    assume f: "pair = xs @ b # ys" "unat (e_off (?es ! 0)) = span xs + 56"
      "h_next_id R' = h_next_id RB" "h_data_offset R' = h_data_offset RB" "h_dir_offset R' = h_dir_offset RB"
      "settled_pool {} demo s' R' (insert_free xs b ys) (?es[0 := zero_ent])"
    have "xs = []" "b = run_A" "ys = [run_X, \<lparr>asz = 2288, acap = 2232, aown = None\<rparr>]"
      using f(1,2) by (auto simp: pair_def Cons_eq_append_conv run_A_def run_X_def)
    with f(3-6) show thesis
      by (intro that [of s' R']) (simp_all add: B insert_free_def merge_prev_def run_A_def run_X_def hole_def is_free_def)
  qed
qed

section \<open>Calls and the medium\<close>

text \<open>C25. Durability and recovery. Take a pool whose structures are on the medium. A power failure
  leaves the same pool, again on the medium. After \<open>shm_alloc\<close>, \<open>shm_free\<close>, \<open>shm_resize\<close> and
  \<open>shm_block_set_perms\<close> every byte of the new pool's structures is on the medium as well, whatever the
  call returns, with these exceptions. An allocation that takes another than the first free block leaves
  the link before it. A release behind a free block leaves the two counters, and a failure brings back
  the values from before. A shrink behind a free block leaves \<open>used_bytes\<close>, growth into a whole
  successor leaves the link before that, and a relocation leaves what its allocation and release leave.
  For \<open>shm_resize\<close> the block need not move, or moves to one with no smaller recorded capacity
  (\<open>move_safe\<close>); otherwise the call does not return (C4).\<close>

theorem calls_reach_the_medium:
  assumes "settled_pool {} r s R bs es"
  shows "settled_pool {} r (crash s) R bs es \<and>
    (psize \<noteq> 0 \<and> 56 \<le> unat (alloc_size psize) \<and> h_next_id R + 1 \<noteq> 0 \<longrightarrow>
       runs (shm_alloc (Some r) s psize name user pm tag True True) (\<lambda>(rc, out, s').
         \<exists>R' bs' es'. settled_pool (if rc = OK then alloc_link R bs psize else {}) r s' R' bs' es')) \<and>
    (obj_id \<noteq> 0 \<longrightarrow>
       runs (shm_free (Some r) s obj_id user cp) (\<lambda>(rc, s'). \<exists>R' bs' es'.
         settled_pool (if rc = OK \<and> frees_before bs es obj_id then {96..<112} else {}) r s' R' bs' es' \<and>
         (rc = OK \<and> frees_before bs es obj_id \<longrightarrow>
            h_used_bytes (rh_at (mem (crash s'))) = h_used_bytes R \<and> h_block_count (rh_at (mem (crash s'))) = h_block_count R))) \<and>
    (bs = xs @ b # ys \<and> aown b = Some oi \<and> psize \<noteq> 0 \<and> 56 \<le> unat (alloc_size psize) \<and> move_safe (unat (alloc_size psize)) xs b ys \<longrightarrow>
       runs (shm_resize (Some r) s (o_id oi) psize user cp) (\<lambda>(rc, s'). \<exists>R' bs' es'.
         settled_pool (if rc = OK then resize_lag (h_data_offset R) (unat (alloc_size psize)) xs b ys else {}) r s' R' bs' es' \<and>
         (rc = OK \<and> unat (alloc_size psize) \<le> asz b \<and> frees 0 xs \<noteq> [] \<longrightarrow>
            h_used_bytes (rh_at (mem (crash s'))) = h_used_bytes R))) \<and>
    ((off, cap, oj) \<in> set (blk_objs 0 bs) \<longrightarrow>
       runs (shm_block_set_perms (Some r) s (of_nat off) user cp np) (\<lambda>(rc, s').
         \<exists>bs' es'. settled_pool {} r s' R bs' es'))"
proof (intro conjI impI, goal_cases)
  case 1
  show ?case by (rule settled_pool_crash [OF assms])
next
  case 2
  then show ?case by (intro alloc_settled_pool [OF assms]) simp_all
next
  case 3
  show ?case by (rule free_settled_pool [OF assms 3])
next
  case 4
  then show ?case by (elim conjE) (rule resize_settled_pool [OF assms _ refl], assumption+)
next
  case 5
  show ?case by (rule perms_settled_pool [OF assms 5])
qed

theorem calls_reach_the_medium_witness:
  "(\<exists>R bs es. settled_pool {} demo demo1 R bs es) \<and> (\<exists>R bs es. settled_pool {} demo (crash demo1) R bs es)"
proof -
  have "alloc_link demo_R0 (init_blocks 3704) 100 = {}"
    by (simp add: alloc_link_def init_blocks_def demo_alloc_size pred_link_def)
  moreover have "runs (shm_alloc (Some demo) demo0 100 (Some [104, 105]) 7 15 1 True True) (\<lambda>(rc, out, s').
      \<exists>R' bs' es'. settled_pool (if rc = OK then alloc_link demo_R0 (init_blocks 3704) 100 else {}) demo s' R' bs' es')"
    by (rule calls_reach_the_medium [OF demo0_settled, THEN conjunct2, THEN conjunct1, THEN mp])
      (simp add: demo_alloc_size demo_R0_def init_rh_def)
  ultimately obtain R bs es where st: "settled_pool {} demo demo1 R bs es"
    using demo1_alloc by (auto simp: runs_iff)
  then have "settled_pool {} demo (crash demo1) R bs es"
    using calls_reach_the_medium [OF st] by blast
  with st show ?thesis
    by blast
qed

lemma alloc_loses_link:
  assumes "settled_pool {} r s R bs es" "psize \<noteq> 0" "56 \<le> unat (alloc_size psize)" "h_next_id R + 1 \<noteq> 0"
    and "first_slot (\<lambda>e. \<not> live e) es 0 = Some i" "first_fit (unat (alloc_size psize)) bs = Some (xs, b, ys)"
    and "frees 0 xs \<noteq> []"
    and "\<forall>a\<in>alloc_link R bs psize. a div 64 \<notin> alloc_lines (h_data_offset R) (slot_pos R i) (unat (alloc_size psize)) xs b"
  shows "runs (shm_alloc (Some r) s psize name user pm tag True True) (\<lambda>(rc, out, s').
    rc = OK \<and> out = Some (h_next_id R, of_nat (span xs + 56)) \<and> \<not> region_inv r (crash s') \<and>
    runs (heap_alloc_block r (crash s') (alloc_size psize)) (\<lambda>(p, s''). p = bp r (h_data_offset R) (span xs)))"
proof -
  let ?n = "unat (alloc_size psize)" and ?oi = "alloc_info R user pm tag"
  have a: "pool_inv r s R bs es" "lockable s" "cmode s \<noteq> CACHE_NONE" "on_medium {} R bs s"
    using assms(1) by (simp_all add: settled_pool_def)
  have bs: "bs = xs @ b # ys" "is_free b" "?n \<le> asz b" "\<forall>c\<in>set xs. is_free c \<longrightarrow> asz c < ?n"
    using first_fit_SomeD [OF assms(6)] by auto
  have link: "alloc_link R bs psize = pred_link (h_data_offset R) (frees 0 xs)"
    using assms(6) by (simp add: alloc_link_def)
  have "a \<in> meta_bytes (unat (h_data_offset R)) bs" if "a \<in> pred_link (h_data_offset R) (frees 0 xs)" for a
  proof -
    have "last (frees 0 xs) \<in> set (starts 0 bs)"
      using frees_starts [of 0 xs] last_in_set [OF assms(7)] by (auto simp: bs(1))
    then show ?thesis
      using that assms(7) by (auto simp: pred_link_def link_cell_def meta_bytes_def hdr_bytes_def intro!: bexI)
  qed
  then have old: "wpq s a = None \<and> pmem s a = mem s a" if "a \<in> pred_link (h_data_offset R) (frees 0 xs)" for a
    using a(4) that by (auto simp: on_medium_def settled_def durable_def)
  show ?thesis
  proof (rule runs_mono [OF alloc_on_medium [OF a assms(2-6), of name user pm tag]], clarify)
    fix s' fl es'
    assume inv': "pool_inv r s' (alloc_hdr R fl (taken_size ?n b)) (xs @ take_block ?n ?oi b @ ys) es'"
      and med: "on_medium (pred_link (h_data_offset R) (frees 0 xs)) (alloc_hdr R fl (taken_size ?n b)) (xs @ take_block ?n ?oi b @ ys) s'"
      and still: "\<forall>a. a div 64 \<notin> alloc_lines (h_data_offset R) (slot_pos R i) ?n xs b \<longrightarrow> wpq s a = None \<longrightarrow> pmem s' a = pmem s a"
    have "pmem s' a = mem s a" if "a \<in> pred_link (h_data_offset R) (frees 0 xs)" for a
      using still old [OF that] assms(8) that by (simp add: link)
    from lost_link [OF a(1) bs(1-3) unat64_bound bs(4) assms(7) inv' _ med this]
    show "OK = OK \<and> Some (h_next_id R, of_nat (span xs + 56)) = Some (h_next_id R, of_nat (span xs + 56)) \<and>
      \<not> region_inv r (crash s') \<and>
      runs (heap_alloc_block r (crash s') (alloc_size psize)) (\<lambda>(p, s''). p = bp r (h_data_offset R) (span xs))"
      by simp
  qed
qed

text \<open>C8. A failure can hand out a live object's block. Take a pool on the medium and an allocation
  whose block comes behind another free block, the link of which lies in no cache line that the call
  flushes. The call succeeds, but a power failure after it leaves no pool: the free list leads to the
  object's block, and \<open>heap_alloc_block\<close> for the same size takes that block again.\<close>

theorem failure_frees_live_object:
  assumes "settled_pool {} r s R bs es" "psize \<noteq> 0" "56 \<le> unat (alloc_size psize)" "h_next_id R + 1 \<noteq> 0"
    and "first_slot (\<lambda>e. \<not> live e) es 0 = Some i" "first_fit (unat (alloc_size psize)) bs = Some (xs, b, ys)"
    and "frees 0 xs \<noteq> []"
    and "\<forall>a\<in>alloc_link R bs psize. a div 64 \<notin> alloc_lines (h_data_offset R) (slot_pos R i) (unat (alloc_size psize)) xs b"
  shows "runs (shm_alloc (Some r) s psize name user pm tag True True) (\<lambda>(rc, out, s').
    rc = OK \<and> out = Some (h_next_id R, of_nat (span xs + 56)) \<and> \<not> region_inv r (crash s') \<and>
    runs (heap_alloc_block r (crash s') (alloc_size psize)) (\<lambda>(p, s''). p = bp r (h_data_offset R) (span xs)))"
  by (rule alloc_loses_link [OF assms])

theorem failure_frees_live_object_witness:
  "\<exists>s id off s'. shm_alloc (Some demo) s 2000 None 7 15 1 True True = Some (OK, Some (id, off), s') \<and> region_inv demo s \<and>
     \<not> region_inv demo (crash s') \<and>
     runs (heap_alloc_block demo (crash s') (alloc_size 2000)) (\<lambda>(p, s''). p + 56 = rbase demo + 392 + off)"
proof -
  obtain s R where st: "settled_pool {} demo s R hole [zero_ent, run_ent 2 1112 304 300]"
    and R: "h_next_id R = 3" "h_data_offset R = 392" "h_dir_offset R = 200"
    by (rule hole_reached)
  let ?b = "\<lparr>asz = 2288, acap = 2232, aown = None\<rparr>" and ?xs = "[\<lparr>asz = 1056, acap = 1000, aown = None\<rparr>, run_X]"
  have n: "unat (alloc_size 2000) = 2056"
    by (simp add: alloc_size_def shm_align_up_def layout_consts)
  have slot: "first_slot (\<lambda>e. \<not> live e) [zero_ent, run_ent 2 1112 304 300] 0 = Some 0"
    by (simp add: first_slot_step(1) demo_live)
  have ff: "first_fit (unat (alloc_size 2000)) hole = Some (?xs, ?b, [])"
    by (simp add: n hole_def run_X_def is_free_def)
  have fr: "frees 0 ?xs = [0]"
    by (simp add: run_X_def is_free_def)
  have link: "alloc_link R hole 2000 = {440..<448}"
    by (simp add: alloc_link_def ff fr pred_link_def link_cell_def R run_X_def is_free_def)
  have "6 \<notin> alloc_lines (h_data_offset R) (slot_pos R 0) (unat (alloc_size 2000)) ?xs ?b"
    by (simp add: alloc_lines_def lines_def n R slot_pos_def run_X_def)
  moreover have "a div 64 = 6" if "440 \<le> a" "a < 448" for a :: nat
    using that by (intro div_nat_eqI) simp_all
  ultimately have out: "\<forall>a\<in>alloc_link R hole 2000. a div 64 \<notin> alloc_lines (h_data_offset R) (slot_pos R 0) (unat (alloc_size 2000)) ?xs ?b"
    by (simp add: link)
  have "runs (shm_alloc (Some demo) s 2000 None 7 15 1 True True) (\<lambda>(rc, out, s').
    rc = OK \<and> out = Some (h_next_id R, of_nat (span ?xs + 56)) \<and> \<not> region_inv demo (crash s') \<and>
    runs (heap_alloc_block demo (crash s') (alloc_size 2000)) (\<lambda>(p, s''). p = bp demo (h_data_offset R) (span ?xs)))"
    by (rule failure_frees_live_object [OF st _ _ _ slot ff _ out]) (simp_all add: n R fr)
  moreover have "region_inv demo s"
    using st by (auto simp: settled_pool_def region_inv_def)
  ultimately obtain s' where "shm_alloc (Some demo) s 2000 None 7 15 1 True True = Some (OK, Some (3, 1472), s')" "region_inv demo s"
    "\<not> region_inv demo (crash s')"
    "runs (heap_alloc_block demo (crash s') (alloc_size 2000)) (\<lambda>(p, s''). p + 56 = rbase demo + 392 + 1472)"
    by (auto simp: runs_iff bp_def R run_X_def)
  then show ?thesis
    by blast
qed

text \<open>From the head of the free list the links lead through the blocks at \<open>hs\<close> to the heap offset \<open>h\<close>,
  which lies in the payload that slot \<open>i\<close> records for the live object \<open>obj_id\<close>.\<close>

definition leads_inside :: "bytes \<Rightarrow> nat list \<Rightarrow> nat \<Rightarrow> nat \<Rightarrow> u64 \<Rightarrow> bool" where
  "leads_inside m hs h i obj_id \<longleftrightarrow>
     (let R = rh_at m; e = ent_at m (slot_pos R i) in
      fseg (hdrs m (unat (h_data_offset R))) (h_free_list R) hs (link_to h) \<and>
      live e \<and> e_id e = obj_id \<and> unat (e_off e) \<le> h \<and> h < unat (e_off e) + unat (e_capacity e))"

lemma absorb_loses_link:
  assumes "settled_pool {} r s R (xs @ b # t # ys) es" "new_size \<noteq> 0" "nn = unat (alloc_size new_size)"
    and "aown b = Some oi" "asz b < nn" "growable nn b (t # ys)" "asz b + asz t < nn + 64" "frees 0 xs \<noteq> []"
    and "first_slot (\<lambda>e. e_id e = o_id oi \<and> e_alive e \<noteq> 0) es 0 = Some i"
    and "access_ok (e_owner (es ! i)) (e_perms (es ! i)) user cp SHM_PERM_RESIZE"
    and "\<forall>a\<in>pred_link (h_data_offset R) (frees 0 xs). a div 64 \<notin> absorb_lines (h_data_offset R) (slot_pos R i) xs b"
  shows "runs (shm_resize (Some r) s (o_id oi) new_size user cp) (\<lambda>(rc, s').
    rc = OK \<and> \<not> region_inv r (crash s') \<and>
    leads_inside (mem (crash s')) (frees 0 xs) (span xs + asz b) i (o_id oi))"
proof -
  let ?d = "h_data_offset R" and ?w = "widen b t"
  have inv: "pool_inv r s R (xs @ b # t # ys) es" and med: "on_medium {} R (xs @ b # t # ys) s"
    using assms(1) by (simp_all add: settled_pool_def)
  have used: "\<not> is_free b"
    using assms(4) by (simp add: is_free_def)
  have wf: "wf_blk b" "wf_blk t"
    using pool_invD(1) [OF inv] by (auto simp: heap_rep_bytes heap_shape_def dest: tiles_wf)
  have n: "56 \<le> nn" and fr: "is_free t"
    using wf assms(5,6) by (auto simp: wf_blk_def)
  note g = assms(6)
  have lines: "resize_lines ?d (slot_pos R i) nn xs b (t # ys) = absorb_lines ?d (slot_pos R i) xs b"
    and lag: "resize_lag ?d nn xs b (t # ys) = pred_link ?d (frees 0 xs)" and fresh: "resize_fresh ?d nn xs b (t # ys) = {}"
    using assms(5,7) g by (simp_all add: resize_lines_def resize_lag_def resize_fresh_def absorb_lag_def rest_hdr_def)
  have "last (frees 0 xs) \<in> set (starts 0 (xs @ b # t # ys))"
    using frees_starts [of 0 xs] last_in_set [OF assms(8)] by auto
  then have "pred_link ?d (frees 0 xs) \<subseteq> meta_bytes (unat ?d) (xs @ b # t # ys)"
    using assms(8) by (auto simp: pred_link_def link_cell_def meta_bytes_def hdr_bytes_def intro!: bexI)
  then have old: "wpq s a = None \<and> pmem s a = mem s a" if "a \<in> pred_link ?d (frees 0 xs)" for a
    using med that by (auto simp: on_medium_def settled_def durable_def)
  have ms: "move_safe nn xs b (t # ys)"
    using g by (simp add: move_safe_def)
  have id: "o_id oi \<noteq> 0"
    using block_entry [OF inv refl assms(4)] by blast
  have i: "i < length es" "live (es ! i)" "e_id (es ! i) = o_id oi"
    using first_slot_SomeD [OF assms(9)] id by (auto simp: live_def)
  show ?thesis
  proof (rule runs_mono [OF resize_in_pool [OF assms(1-3) n refl assms(4) ms assms(9,10)]], clarify)
    fix rc s'
    assume rd: "resize_done r s s' R es i xs b (t # ys) nn oi new_size rc"
      and rest: "settled (resize_rest ?d (- meta_bytes (unat ?d) (xs @ b # t # ys)) nn xs b (t # ys)) s'"
      and still: "\<forall>a. a div 64 \<notin> resize_lines ?d (slot_pos R i) nn xs b (t # ys) \<longrightarrow> wpq s a = None \<longrightarrow> pmem s' a = pmem s a"
    have ok: "rc = OK" and to: "resized_to r s s' R es i xs b (t # ys) (xs @ ?w # ys) (span xs + 56) (acap ?w) new_size"
      using rd assms(5,7) g cut_raw_starts(2) [of nn ?w xs ys] by (auto simp: resize_done_def Let_def cut_block_def cut_rest_def)
    let ?e = "resized_entry (es ! i) (span xs + 56) (acap ?w) new_size"
    from to obtain R' where inv': "pool_inv r s' R' (xs @ ?w # ys) (es[i := ?e])" "h_data_offset R' = ?d"
      by (auto simp: resized_to_def)
    have med': "on_medium (pred_link ?d (frees 0 xs)) R' (xs @ ?w # ys) s'"
      unfolding on_medium_def inv'(2)
      by (rule settled_mono [OF rest]) (use widen_meta [of "unat ?d" xs b t ys] in \<open>auto simp: resize_rest_def lag fresh\<close>)
    have pm: "pmem s' a = mem s a" if "a \<in> pred_link ?d (frees 0 xs)" for a
      using still old [OF that] assms(11) that by (simp add: lines)
    note chain = absorbed_chain [OF inv used fr assms(8) inv' med' pm]
    have fit: "span xs + asz b + asz t < 2 ^ 64" "56 \<le> asz t"
      using pool_wf(2) [OF inv] wf by (auto simp: wf_blk_def)
    have at: "unat (e_off ?e) = span xs + 56" "unat (e_capacity ?e) = asz b + asz t - 56"
      using unat64 [of "span xs + 56"] unat64 [of "acap ?w"] fit wf unfolding resized_entry_def by (simp_all add: wf_blk_def)
    have "live ?e" "e_id ?e = o_id oi"
      using i by (simp_all add: resized_entry_def live_def)
    moreover have "ent_at (pmem s') (slot_pos R' i) = ?e"
      using chain(3) [of i] i(1) by simp
    ultimately have "leads_inside (mem (crash s')) (frees 0 xs) (span xs + asz b) i (o_id oi)"
      using chain(1,2) wf fit at by (simp add: leads_inside_def Let_def wf_blk_def del: widen_sel)
    then show "rc = OK \<and> \<not> region_inv r (crash s') \<and> leads_inside (mem (crash s')) (frees 0 xs) (span xs + asz b) i (o_id oi)"
      using absorbed_link [OF inv used fr assms(8) inv' med' pm] ok by simp
  qed
qed

text \<open>C36. Growth in place can lose its link. Take a pool on the medium and an object that grows into the
  whole free block behind it, with another free block before it, the link of which lies in no cache line
  that the call flushes. \<open>freelist_remove\<close> redirects that link without a flush: the call succeeds, but
  after a power failure the region is no pool. From the head of the free list the links lead through the
  free blocks before the object to the header of the absorbed block, and that lies in the payload which
  the directory records for the live object.\<close>

theorem growth_loses_link:
  assumes "settled_pool {} r s R (xs @ b # t # ys) es" "new_size \<noteq> 0" "nn = unat (alloc_size new_size)"
    and "aown b = Some oi" "asz b < nn" "growable nn b (t # ys)" "asz b + asz t < nn + 64" "frees 0 xs \<noteq> []"
    and "first_slot (\<lambda>e. e_id e = o_id oi \<and> e_alive e \<noteq> 0) es 0 = Some i"
    and "access_ok (e_owner (es ! i)) (e_perms (es ! i)) user cp SHM_PERM_RESIZE"
    and "\<forall>a\<in>pred_link (h_data_offset R) (frees 0 xs). a div 64 \<notin> absorb_lines (h_data_offset R) (slot_pos R i) xs b"
  shows "runs (shm_resize (Some r) s (o_id oi) new_size user cp) (\<lambda>(rc, s').
    rc = OK \<and> \<not> region_inv r (crash s') \<and>
    leads_inside (mem (crash s')) (frees 0 xs) (span xs + asz b) i (o_id oi))"
  by (rule absorb_loses_link [OF assms])

text \<open>The first object of the pair moves behind the second one; its old block becomes a hole.\<close>

definition moved :: "ablk list" where
  "moved = [\<lparr>asz = 1056, acap = 1000, aown = None\<rparr>, run_X, \<lparr>asz = 1256, acap = 1200, aown = Some (run_info 1)\<rparr>,
     \<lparr>asz = 1032, acap = 976, aown = None\<rparr>]"

lemma moved_reached:
  obtains s R where "settled_pool {} demo s R moved [run_ent 1 1472 1200 1200, run_ent 2 1112 304 300]"
    "h_data_offset R = 392" "h_dir_offset R = 200"
proof -
  obtain s R where st: "settled_pool {} demo s R pair [run_ent 1 56 1000 1000, run_ent 2 1112 304 300]"
    and R: "h_data_offset R = 392" "h_dir_offset R = 200"
    by (rule pair_reached)
  let ?es = "[run_ent 1 56 1000 1000, run_ent 2 1112 304 300]" and ?f = "\<lparr>asz = 2288, acap = 2232, aown = None\<rparr>"
  have n: "1256 = unat (alloc_size 1200)"
    by (simp add: alloc_size_def shm_align_up_def layout_consts)
  have bs: "pair = [] @ run_A # [run_X, ?f]" "aown run_A = Some (run_info 1)"
    by (simp_all add: pair_def run_A_def)
  have ff: "first_fit 1256 (run_A # [run_X, ?f]) = Some ([run_A, run_X], ?f, [])"
    by (simp add: run_A_def run_X_def is_free_def)
  have id: "o_id (run_info 1) = 1"
    by (simp add: run_info_def)
  have safe: "move_safe 1256 [] run_A [run_X, \<lparr>asz = 2288, acap = 2232, aown = None\<rparr>]"
    using ff by (simp add: move_safe_def taken_def run_A_def)
  have slot: "first_slot (\<lambda>e. e_id e = o_id (run_info 1) \<and> e_alive e \<noteq> 0) ?es 0 = Some 0"
    by (simp add: first_slot_step(1) id)
  have acc: "access_ok (e_owner (?es ! 0)) (e_perms (?es ! 0)) 7 15 SHM_PERM_RESIZE"
    by (simp add: access_ok_def perm_defs)
  have far: "\<not> 1256 \<le> asz run_A" "\<not> growable 1256 run_A [run_X, ?f]"
    by (simp_all add: run_A_def run_X_def is_free_def)
  have lag: "resize_lag 392 1256 [] run_A [run_X, ?f] = {}"
    using ff far by (simp add: resize_lag_def move_lag_def pred_link_def run_A_def run_X_def is_free_def)
  obtain rc s' where run: "shm_resize (Some demo) s 1 1200 7 15 = Some (rc, s')"
    and rd: "resize_done demo s s' R ?es 0 [] run_A [run_X, ?f] 1256 (run_info 1) 1200 rc"
    using resize_in_pool [OF st _ n _ bs safe slot acc] by (auto simp: runs_iff id)
  obtain us vs where L: "[run_A, run_X] @ take_block 1256 (run_info 1) ?f @ [] = us @ run_A # vs" "span us = 0" and ok: "rc = OK"
    and to: "resized_to demo s s' R ?es 0 [] run_A [run_X, ?f] (insert_free us run_A vs) (span [run_A, run_X] + 56)
      (acap (taken 1256 (run_info 1) ?f)) 1200"
    using rd ff far by (auto simp: resize_done_def moved_to_def)
  have us: "us = []" "vs = run_X # take_block 1256 (run_info 1) ?f"
    using L by (auto simp: Cons_eq_append_conv run_A_def run_X_def)
  obtain R1 where inv: "pool_inv demo s' R1 moved [run_ent 1 1472 1200 1200, run_ent 2 1112 304 300]"
    and R1: "h_data_offset R1 = 392" "h_dir_offset R1 = 200"
    using to R by (auto simp: resized_to_def us insert_free_def merge_prev_def take_block_def taken_def moved_def
      run_A_def run_X_def is_free_def resized_entry_def run_ent_def alloc_entry_def)
  obtain R2 bs2 es2 where "settled_pool {} demo s' R2 bs2 es2"
    using resize_settled_pool [OF st _ n _ bs safe, of 7 15] run lag ok by (auto simp: runs_iff id R)
  moreover from this have "pool_inv demo s' R2 bs2 es2"
    by (simp add: settled_pool_def)
  ultimately show thesis
    using pool_inv_determined [OF inv] R1 that by metis
qed

theorem growth_loses_link_witness:
  "\<exists>s s'. region_inv demo s \<and> shm_resize (Some demo) s 1 2232 7 15 = Some (OK, s') \<and> \<not> region_inv demo (crash s') \<and>
     leads_inside (mem (crash s')) [0] 2672 0 1"
proof -
  obtain s R where st: "settled_pool {} demo s R moved [run_ent 1 1472 1200 1200, run_ent 2 1112 304 300]"
    and R: "h_data_offset R = 392" "h_dir_offset R = 200"
    by (rule moved_reached)
  let ?es = "[run_ent 1 1472 1200 1200, run_ent 2 1112 304 300]" and ?xs = "[\<lparr>asz = 1056, acap = 1000, aown = None\<rparr>, run_X]"
  let ?b = "\<lparr>asz = 1256, acap = 1200, aown = Some (run_info 1)\<rparr>" and ?t = "\<lparr>asz = 1032, acap = 976, aown = None\<rparr>"
  have n: "2288 = unat (alloc_size 2232)"
    by (simp add: alloc_size_def shm_align_up_def layout_consts)
  have bs: "moved = ?xs @ ?b # ?t # []"
    by (simp add: moved_def)
  have id: "o_id (run_info 1) = 1"
    by (simp add: run_info_def)
  have fr: "frees 0 ?xs = [0]"
    by (simp add: run_X_def is_free_def)
  have slot: "first_slot (\<lambda>e. e_id e = o_id (run_info 1) \<and> e_alive e \<noteq> 0) ?es 0 = Some 0"
    by (simp add: first_slot_step(1) id)
  have link: "pred_link (h_data_offset R) (frees 0 ?xs) = {440..<448}"
    unfolding fr by (simp add: pred_link_def link_cell_def R)
  have "6 \<notin> absorb_lines (h_data_offset R) (slot_pos R 0) ?xs ?b"
    by (simp add: absorb_lines_def lines_def R slot_pos_def run_X_def)
  moreover have "a div 64 = 6" if "440 \<le> a" "a < 448" for a :: nat
    using that by (intro div_nat_eqI) simp_all
  ultimately have out: "\<forall>a\<in>pred_link (h_data_offset R) (frees 0 ?xs). a div 64 \<notin> absorb_lines (h_data_offset R) (slot_pos R 0) ?xs ?b"
    unfolding link by simp
  have acc: "access_ok (e_owner (?es ! 0)) (e_perms (?es ! 0)) 7 15 SHM_PERM_RESIZE"
    by (simp add: access_ok_def perm_defs)
  have "runs (shm_resize (Some demo) s (o_id (run_info 1)) 2232 7 15) (\<lambda>(rc, s').
      rc = OK \<and> \<not> region_inv demo (crash s') \<and>
      leads_inside (mem (crash s')) (frees 0 ?xs) (span ?xs + asz ?b) 0 (o_id (run_info 1)))"
    by (rule growth_loses_link [OF st [unfolded bs] _ n _ _ _ _ _ slot acc out]) (simp_all add: run_X_def is_free_def)
  moreover have "region_inv demo s"
    using st by (auto simp: settled_pool_def region_inv_def)
  ultimately show ?thesis
    by (auto simp: runs_iff id fr run_X_def)
qed

text \<open>C38. A failure inside an allocation can give an id out twice. Take an allocation on a pool on the medium
  that first fit serves from the first free block. \<open>shm_alloc\<close> advances \<open>next_id\<close> first and
  flushes it last. When the power fails between the flush of the directory entry and that of \<open>next_id\<close>, and
  the write-backs under way complete, the region is no pool any more: the object is found under its id, and
  the next allocation that finds a slot and a block succeeds and is given the same id.\<close>

theorem failure_reissues_id:
  assumes "settled_pool {} r s R bs es" "psize \<noteq> 0" "n = unat (alloc_size psize)" "56 \<le> n" "h_next_id R + 1 \<noteq> 0"
    and "first_slot (\<lambda>e. \<not> live e) es 0 = Some i" "first_fit n bs = Some (xs, b, ys)" "frees 0 xs = []"
    and "access_ok user pm user cp SHM_PERM_READ"
    and "e = alloc_entry (h_next_id R) (of_nat (span xs + 56)) (of_nat (acap (taken n (alloc_info R user pm tag) b))) psize tag user pm name"
  shows "runs (shm_alloc_to_entry r s psize name user pm tag) (\<lambda>x. \<exists>k p. x = Inr (k, h_next_id R, p) \<and>
    \<not> region_inv r (cut_short p) \<and>
    answer (shm_lookup (Some r) (cut_short p) (h_next_id R) user cp True True) = Some (OK, Some (of_nat (span xs + 56)), Some psize) \<and>
    (\<forall>psize' name' user' pm' tag'. psize' \<noteq> 0 \<and> 56 \<le> unat (alloc_size psize') \<longrightarrow>
       runs (shm_alloc (Some r) (cut_short p) psize' name' user' pm' tag' True True) (\<lambda>(rc, out, s').
         if first_slot (\<lambda>e. \<not> live e) (es[i := e]) 0 = None then rc = ENOSPC
         else if first_fit (unat (alloc_size psize')) (xs @ take_block n (alloc_info R user pm tag) b @ ys) = None then rc = ENOMEM
         else rc = OK \<and> (\<exists>off. out = Some (h_next_id R, off)))))"
  by (rule entry_reissues_id [OF assms])

theorem failure_reissues_id_witness:
  "\<exists>k p s' off. shm_alloc_to_entry demo demo0 100 None 7 15 1 = Some (Inr (k, 1, p)) \<and> region_inv demo demo0 \<and>
     \<not> region_inv demo (cut_short p) \<and>
     answer (shm_lookup (Some demo) (cut_short p) 1 7 1 True True) = Some (OK, Some 56, Some 100) \<and>
     shm_alloc (Some demo) (cut_short p) 100 None 7 15 1 True True = Some (OK, Some (1, off), s')"
proof -
  let ?b = "\<lparr>asz = 3704, acap = 3648, aown = None\<rparr>" and ?oi = "alloc_info demo_R0 7 15 1"
  let ?e = "alloc_entry (h_next_id demo_R0) (of_nat (span [] + 56)) (of_nat (acap (taken 160 ?oi ?b))) 100 1 7 15 None"
  have N: "h_next_id demo_R0 = 1"
    by (simp add: demo_R0_def init_rh_def)
  have n: "160 = unat (alloc_size 100)"
    by (simp add: demo_alloc_size)
  have ff: "first_fit 160 (init_blocks 3704) = Some ([], ?b, [])"
    by (simp add: init_blocks_def)
  have acc: "access_ok 7 15 7 1 SHM_PERM_READ"
    by (simp add: access_ok_def perm_defs)
  have "live ?e"
    by (rule alloc_entry_live) (simp add: N)
  then have slot: "first_slot (\<lambda>e. \<not> live e) ([zero_ent, zero_ent][0 := ?e]) 0 = Some 1"
    by (simp add: first_slot_step(1) demo_live)
  have fit: "first_fit 160 ([] @ take_block 160 ?oi ?b @ []) \<noteq> None"
    by (simp add: take_block_def taken_def is_free_def)
  have next_id: "h_next_id demo_R0 + 1 \<noteq> 0"
    by (simp add: N)
  have "runs (shm_alloc_to_entry demo demo0 100 None 7 15 1) (\<lambda>x. \<exists>k p. x = Inr (k, h_next_id demo_R0, p) \<and>
    \<not> region_inv demo (cut_short p) \<and>
    answer (shm_lookup (Some demo) (cut_short p) (h_next_id demo_R0) 7 1 True True) = Some (OK, Some (of_nat (span [] + 56)), Some 100) \<and>
    (\<forall>psize' name' user' pm' tag'. psize' \<noteq> 0 \<and> 56 \<le> unat (alloc_size psize') \<longrightarrow>
       runs (shm_alloc (Some demo) (cut_short p) psize' name' user' pm' tag' True True) (\<lambda>(rc, out, s').
         if first_slot (\<lambda>e. \<not> live e) ([zero_ent, zero_ent][0 := ?e]) 0 = None then rc = ENOSPC
         else if first_fit (unat (alloc_size psize')) ([] @ take_block 160 ?oi ?b @ []) = None then rc = ENOMEM
         else rc = OK \<and> (\<exists>off. out = Some (h_next_id demo_R0, off)))))"
    by (rule failure_reissues_id [OF demo0_settled _ n _ next_id demo_slots(1) ff _ acc refl]) simp_all
  then obtain k p where x: "shm_alloc_to_entry demo demo0 100 None 7 15 1 = Some (Inr (k, 1, p))" "\<not> region_inv demo (cut_short p)"
    "answer (shm_lookup (Some demo) (cut_short p) 1 7 1 True True) = Some (OK, Some 56, Some 100)"
    and again: "\<forall>psize' name' user' pm' tag'. psize' \<noteq> 0 \<and> 56 \<le> unat (alloc_size psize') \<longrightarrow>
       runs (shm_alloc (Some demo) (cut_short p) psize' name' user' pm' tag' True True) (\<lambda>(rc, out, s').
         if first_slot (\<lambda>e. \<not> live e) ([zero_ent, zero_ent][0 := ?e]) 0 = None then rc = ENOSPC
         else if first_fit (unat (alloc_size psize')) ([] @ take_block 160 ?oi ?b @ []) = None then rc = ENOMEM
         else rc = OK \<and> (\<exists>off. out = Some (h_next_id demo_R0, off)))"
    unfolding runs_iff N by auto
  have "runs (shm_alloc (Some demo) (cut_short p) 100 None 7 15 1 True True) (\<lambda>(rc, out, s').
      rc = OK \<and> (\<exists>off. out = Some (1, off)))"
    using again [rule_format, of 100 None 7 15 1, folded n, unfolded slot if_not_P [OF fit], unfolded N] by simp
  moreover have "region_inv demo demo0"
    using demo0_settled by (auto simp: settled_pool_def region_inv_def)
  ultimately show ?thesis
    using x by (auto simp: runs_iff)
qed

end
