(* ===== verification/Spec2Isabelle.thy ===== *)
theory Spec2Isabelle
  imports Shm_Lifecycle Shm_Power
begin

text \<open>
  A verification development for the shared-memory allocator of this repository: the C library in
  \<open>src/src\<close> with its public headers in \<open>src/include\<close>.

  \<^bold>\<open>The program.\<close> A region is a POSIX shared-memory object or a DAX device that several
  processes map at different addresses. It holds a header with a process-shared robust mutex, a
  directory of objects, and a heap of blocks with in-band headers and an address-ordered free list.
  All links are offsets. An object is an allocated block with one directory entry; owner,
  permissions and id are kept in both. Capabilities are two words that name a payload offset with
  rights, an epoch and a bound. Changed ranges are written back by cache line and fenced.

  \<^bold>\<open>The machine.\<close> A pointer is an absolute address, a \<open>u64\<close>; a state has the bytes that loads see,
  the bytes of the persistent medium, the bytes on their way there, the state of the mutex and the
  cache mode of the build. The mutex occupies its 40 bytes without an interpretation of them.
  Operations pass the state explicitly in the option monad; \<open>None\<close> means that the call does not
  return normally: an access outside the mapping, an endless loop or a deadlock. A property that a
  call returns is therefore a statement that the result is \<open>Some\<close>; \<open>runs c P\<close> says that \<open>c\<close>
  is \<open>Some v\<close> with \<open>P v\<close>. Integers have the widths of the source and wrap. Loops are
  partial functions in the option monad, without fuel: each is proved to end under the invariant.

  \<^bold>\<open>Theories and sources.\<close>
  \<^item> \<open>Shm_Prelude\<close>: words, lists, the option monad and the rules for \<open>runs\<close>.
  \<^item> \<open>Shm_Memory\<close>: bytes, little-endian cells (a locale with its three interpretations), the machine,
    the region handle, \<open>memset\<close>, \<open>memcpy\<close> and the string functions that the sources call.
  \<^item> \<open>Shm_Layout\<close>: \<open>shm_internal.h\<close>, the three structures, their accessors and the pointer helpers.
  \<^item> \<open>Shm_Persist\<close>: \<open>shm_persist.h\<close>, \<open>shm_flush_line\<close>, \<open>shm_drain\<close>, \<open>shm_persist\<close>.
  \<^item> \<open>Shm_Views\<close>, \<open>Shm_Blocks\<close>: views of the bytes as headers at offsets, and the abstract heap: a list
    of blocks with size, capacity and owner data that tile the heap.
  \<^item> \<open>Shm_Freelist\<close>: \<open>freelist_insert\<close>, \<open>freelist_remove\<close> and coalescing of \<open>shm_alloc.c\<close>.
  \<^item> \<open>Shm_Heap\<close>: \<open>heap_alloc_block\<close>, \<open>heap_free_block\<close>. \<open>Shm_Perms\<close>: the two access checks.
  \<^item> \<open>Shm_Directory\<close>: the scans of the directory, which share a locale for a linear scan.
  \<^item> \<open>Shm_Region\<close>: the robust mutex, \<open>region_init\<close>, and the pool invariant \<open>pool_inv\<close>.
  \<^item> \<open>Shm_Alloc\<close>, \<open>Shm_Resize\<close>, \<open>Shm_Resize_Spec\<close>: \<open>shm_alloc\<close>, \<open>shm_free\<close>, \<open>shm_resize\<close>.
  \<^item> \<open>Shm_Api\<close>: \<open>shm_lookup\<close>, \<open>shm_lookup_by_name\<close>, \<open>shm_dir_next\<close>, \<open>shm_ptr\<close>, \<open>shm_block_info\<close>,
    \<open>shm_block_set_perms\<close>, \<open>shm_pool_stats\<close>. \<open>Shm_Cap\<close>: \<open>shm_cap.c\<close> and \<open>shm_cap.h\<close>.
  \<^item> \<open>Shm_Ns\<close>: \<open>shm_ns.c\<close>. \<open>Shm_Open\<close>: \<open>shm_region_open\<close> and \<open>shm_region_close\<close>.
  \<^item> \<open>Shm_System\<close>: executions, as an inductive step relation over calls of attached processes, their
    stores into payloads and deaths of lock holders, with the history of issued and released ids.
  \<^item> \<open>Shm_Cpp\<close>: the templates of \<open>shm_alloc.hpp\<close>, the class of \<open>shm_cap.hpp\<close> and the typed macros.
  \<^item> \<open>Shm_Overrun\<close>: when \<open>shm_resize\<close> returns and when a relocation faults. \<open>Shm_Example\<close>, \<open>Shm_Scenario\<close>, \<open>Shm_Facts\<close>: concrete
    states and call sequences, and lemmas that span components.
  \<^item> \<open>Shm_Store\<close>, \<open>Shm_Store_Run\<close>: the object store that a user sees, its operations, the simulation
    of executions by it, and the objects that a step by a caller without rights spares (C16).
  \<^item> \<open>Shm_Death\<close>: \<open>shm_alloc\<close> and \<open>shm_free\<close> up to a death between the heap and the directory.
  \<^item> \<open>Shm_Track\<close>, \<open>Shm_Durable\<close>, \<open>Shm_Settled\<close>: partial correctness of the operations for the bytes
    they store to and the cache lines they flush, from the primitives over the heap to the calls.
  \<^item> \<open>Shm_Crash\<close>, \<open>Shm_Lost_Link\<close>: the state after a power failure, and the links that are not flushed.
  \<^item> \<open>Shm_Resize_Track\<close>, \<open>Shm_Resize_Settled\<close>: the same for the stages of \<open>shm_resize\<close> and the call.
  \<^item> \<open>Shm_Core\<close>, \<open>Shm_Outage\<close>: the bytes that every call leaves on the medium, and executions with evicted
    cache lines and power failures (C13). \<open>Shm_Midway\<close>: \<open>shm_alloc\<close> up to two points inside it.
  \<^item> \<open>Shm_Power\<close>: the properties C8, C25, C36 and C38; \<open>Shm_Lifecycle\<close>: the others from C26; this theory: the rest.

  \<^bold>\<open>What is shown.\<close> \<open>pool_inv r s R bs es\<close> says that the bytes of \<open>s\<close> represent the abstract blocks
  \<open>bs\<close> and entries \<open>es\<close> under the header \<open>R\<close>: the blocks tile the heap, the free list is exactly the
  free blocks in address order and no two of them touch, the counters are exact, and live entries and
  allocated blocks correspond one to one. Each operation refines its abstract counterpart on
  every path and keeps the invariant (C1 to C4, C9 to C12, C14, C15); executions keep it, also when a
  lock holder dies before its first write (C5 to C7), and a power failure between two calls loses no object (C13); on top of that stand isolation, position independence and access control
  (C16 to C23), the object store, a map from ids to objects without blocks or slots, that
  executions refine (C26), what is on the medium after a call and what a power failure breaks (C8, C25, C36, C38),
  flushing and locking (C28, C29), opening and closing (C30 to C34), boundary behaviour (C35, C39, C40), what a death inside an update leaves (C24), and the C++ layer (C27, C37).

  \<^bold>\<open>Side conditions.\<close> The rounded size of a request does not wrap below one header (C35 shows what
  happens otherwise); an id is left (\<open>next_id + 1\<close> is not 0). A resize returns exactly when
  \<open>resize_safe\<close> holds (C4): the block of the named object, when the caller may resize it, need not
  move or moves to a block with no smaller recorded capacity; C39 shows four calls that fault. The steps of
  an execution are the calls that return, so C5 to C7, C13 and C16 say nothing of the state that a
  faulting resize leaves. The resize part of C25 assumes \<open>move_safe\<close> for the block. A
  process of an execution dies between lock and its first write; of the deaths inside an update those
  between the heap and the directory are modelled, in \<open>shm_free\<close> (C24) and in \<open>shm_alloc\<close>, which loses
  the block (\<open>shm_alloc_dies_leaves\<close>), since nothing repairs the region; those inside a heap operation are not.
  Calls are atomic: the mutex serialises the writers, and the readers without a lock
  (\<open>shm_dir_next\<close>, \<open>shm_ptr\<close>, \<open>shm_pool_stats\<close>, the capability checks) are taken between two calls. The
  exceptions are the points inside \<open>shm_alloc\<close> in \<open>Shm_Midway\<close>: \<open>to_mark_exposes\<close> takes a reader before the
  payload is zero, C38 a power failure. A failure forgets the caches; the write-backs under way are lost in
  \<open>crash\<close> and completed in \<open>cut_short\<close>, the mutex is kept apart from the bytes, and a payload is as durable as
  its users make it. An execution goes on after a failure only if it found the whole pool on the medium
  (C13); C8 and C36 show what happens otherwise.

  \<^bold>\<open>Parameters.\<close> The answers of the system calls (\<open>os\<close>, with \<open>os_ok\<close> for what they document), the
  contents and chunking of \<open>/proc/self/cgroup\<close> (\<open>reads_file\<close>), the mapping address (\<open>mapped\<close>), the
  constructors and destructors of C++ classes (\<open>stays_inside\<close>: they write their own object only).

  \<^bold>\<open>Not modelled.\<close> The \<open>shm_name\<close> characters in the region header are bytes without a reader; the
  descriptor that \<open>shm_ns_cgroup_hash\<close> opens and closes is not logged; alignment and the undefined
  behaviour of misaligned or racing accesses are outside the byte model; tests, the \<open>Makefile\<close> and
  documentation hold no program logic.
\<close>

section \<open>The pool operations\<close>

text \<open>C1. \<open>region_init\<close> on a mapping that has room for the directory and one block
  establishes the pool invariant: an empty directory, one free block that covers the heap, exact
  counters, an unlocked mutex.\<close>

theorem region_init_establishes_pool:
  assumes "mapped r" "256 + 96 * unat cap \<le> unat (rsize r)"
  shows "runs (region_init r s (rsize r) backend cap name ns cg)
    (\<lambda>s'. pool_inv r s' (init_rh (rsize r) backend cap 1 ns cg)
            (init_blocks (unat (rsize r) - (200 + 96 * unat cap))) (replicate (unat cap) zero_ent) \<and>
         mutex s' = MUnlocked \<and> cmode s' = cmode s)"
  by (rule region_init_inv [OF assms])

theorem region_init_establishes_pool_witness:
  "runs (region_init demo blank (rsize demo) SHM_BACKEND_POSIX 2 None 0 0)
    (\<lambda>s'. pool_inv demo s' (init_rh (rsize demo) SHM_BACKEND_POSIX 2 1 0 0)
            (init_blocks (unat (rsize demo) - (200 + 96 * unat (2 :: u32)))) (replicate (unat (2 :: u32)) zero_ent) \<and>
         mutex s' = MUnlocked \<and> cmode s' = cmode blank)"
  by (rule region_init_establishes_pool [OF demo_mapped]) simp

text \<open>C2. \<open>shm_alloc\<close> on a pool: with a free slot and a block that fits it takes the
  first-fit block, splits it when the remainder can hold a block, enters the object in the first
  free slot, zeroes exactly the new payload, changes no other payload, returns the fresh id and the
  payload offset and keeps the pool invariant; otherwise it returns \<open>ENOSPC\<close> or
  \<open>ENOMEM\<close> and changes no byte. The mutex is released on every path.\<close>

theorem shm_alloc_correct:
  assumes "pool_inv r s R bs es" "lockable s" "psize \<noteq> 0" "56 \<le> unat (alloc_size psize)"
    and "h_next_id R + 1 \<noteq> 0"
  shows "runs (shm_alloc (Some r) s psize name user pm tag True True)
    (\<lambda>(rc, out, s'). mutex s' = MUnlocked \<and> cmode s' = cmode s \<and>
       (case first_slot (\<lambda>e. \<not> live e) es 0 of
          None \<Rightarrow> rc = ENOSPC \<and> out = None \<and> mem s' = mem s
        | Some i \<Rightarrow>
            (case first_fit (unat (alloc_size psize)) bs of
               None \<Rightarrow> rc = ENOMEM \<and> out = None \<and> mem s' = mem s
             | Some (xs, b, ys) \<Rightarrow>
                 rc = OK \<and> out = Some (h_next_id R, of_nat (span xs + 56)) \<and>
                 alloc_done r s s' R es (unat (alloc_size psize)) psize name (alloc_info R user pm tag) i xs b ys)))"
  using shm_alloc_refines [OF assms] unfolding alloc_post_def .

theorem shm_alloc_correct_witness:
  "\<exists>s'. shm_alloc (Some demo) demo0 100 (Some [104, 105]) 7 15 1 True True = Some (OK, Some (1, 56), s') \<and>
     mutex s' = MUnlocked"
proof -
  have "first_slot (\<lambda>e. \<not> live e) [zero_ent, zero_ent] 0 = Some 0"
    by (simp add: first_slot_step(1) demo_live)
  moreover have "h_next_id demo_R0 = 1"
    by (simp add: demo_R0_def init_rh_def)
  ultimately show ?thesis
    using shm_alloc_correct [OF demo0_inv(1) demo0_lockable, of 100 "Some [104, 105]" 7 15 1]
    by (auto simp: demo_alloc_size runs_iff init_blocks_def)
qed

text \<open>C3. \<open>shm_free\<close> on a pool: the object with this id is released to a caller that may free
  it. Its slot is cleared, its block joins the free list and merges with its free neighbours, the
  counters go down, its header is no longer marked allocated, and no other payload changes.
  Otherwise the result is \<open>ENOENT\<close> or \<open>EACCES\<close> and no byte changes.\<close>

theorem shm_free_correct:
  assumes "pool_inv r s R bs es" "lockable s" "obj_id \<noteq> 0"
  shows "runs (shm_free (Some r) s obj_id user cp)
    (\<lambda>(rc, s'). mutex s' = MUnlocked \<and>
       (case first_slot (\<lambda>e. e_id e = obj_id \<and> e_alive e \<noteq> 0) es 0 of
          None \<Rightarrow> rc = ENOENT \<and> mem s' = mem s
        | Some i \<Rightarrow>
            if access_ok (e_owner (es ! i)) (e_perms (es ! i)) user cp SHM_PERM_FREE
            then rc = OK \<and>
              (\<exists>xs b ys. bs = xs @ b # ys \<and> unat (e_off (es ! i)) = span xs + 56 \<and>
                 aown b = Some (snd (snd (ent_obj (es ! i)))) \<and> free_done r s s' R es i xs b ys)
            else rc = EACCES \<and> mem s' = mem s))"
  by (rule runs_mono [OF shm_free_refines [OF assms]]) (auto simp: free_post_def split: option.splits)

theorem shm_free_correct_witness:
  "\<exists>s'. shm_free (Some demo) demo1 1 7 15 = Some (OK, s') \<and> mutex s' = MUnlocked"
proof -
  have "first_slot (\<lambda>e. e_id e = 1 \<and> e_alive e \<noteq> 0) [demo_ent, zero_ent] 0 = Some 0"
    by (simp add: first_slot_step(1) demo_ent_def alloc_entry_def)
  moreover have "access_ok (e_owner demo_ent) (e_perms demo_ent) 7 15 SHM_PERM_FREE"
    by (simp add: access_ok_def demo_ent_def alloc_entry_def perm_defs)
  ultimately show ?thesis
    using shm_free_correct [OF demo1_inv(1) demo1_lockable, of 1 7 15] by (auto simp: runs_iff)
qed

text \<open>C4. \<open>shm_resize\<close> on a pool, for a request whose rounded size does not wrap. The call returns
  exactly when \<open>resize_safe\<close> holds. It fails when the caller may resize the object, neither its block nor
  the block with its free successor is large enough, and the first block that fits has a smaller
  recorded capacity than the object's block: then the call runs out of the mapping. When it returns,
  a permitted caller gets the object shrunk, grown into its free successor or moved to the first block
  that fits. Its contents up to the smaller capacity and all other payloads are kept, its slot and the
  counters follow, the pool invariant holds. When no block fits the result is \<open>ENOMEM\<close> and no byte
  changes; an unknown id gives \<open>ENOENT\<close>, a refused caller \<open>EACCES\<close>.\<close>

theorem shm_resize_correct:
  assumes "pool_inv r s R bs es" "lockable s" "obj_id \<noteq> 0" "new_size \<noteq> 0" "56 \<le> unat (alloc_size new_size)"
  shows "case shm_resize (Some r) s obj_id new_size user cp of
      None \<Rightarrow> \<not> resize_safe (unat (alloc_size new_size)) bs es obj_id user cp
    | Some (rc, s') \<Rightarrow> resize_safe (unat (alloc_size new_size)) bs es obj_id user cp \<and>
       mutex s' = MUnlocked \<and> cmode s' = cmode s \<and>
       (case first_slot (\<lambda>e. e_id e = obj_id \<and> e_alive e \<noteq> 0) es 0 of
          None \<Rightarrow> rc = ENOENT \<and> mem s' = mem s
        | Some i \<Rightarrow>
            if access_ok (e_owner (es ! i)) (e_perms (es ! i)) user cp SHM_PERM_RESIZE
            then \<exists>xs b ys oi. bs = xs @ b # ys \<and> unat (e_off (es ! i)) = span xs + 56 \<and> aown b = Some oi \<and>
                   resize_done r s s' R es i xs b ys (unat (alloc_size new_size)) oi new_size rc
            else rc = EACCES \<and> mem s' = mem s)"
proof (cases "shm_resize (Some r) s obj_id new_size user cp")
  case None
  with shm_resize_outcome [OF assms, of user cp] show ?thesis
    by simp
next
  case (Some v)
  obtain rc s' where "v = (rc, s')"
    by (cases v)
  with Some shm_resize_outcome [OF assms, of user cp] show ?thesis
    by (simp only: option.case prod.case resize_post_def)
qed

theorem shm_resize_correct_witness:
  "\<exists>s'. shm_resize (Some demo) demo1 1 200 7 15 = Some (OK, s') \<and> mutex s' = MUnlocked"
proof -
  have n: "alloc_size 200 = 256"
    by (simp add: alloc_size_def shm_align_up_def layout_consts)
  have slot: "first_slot (\<lambda>e. e_id e = 1 \<and> e_alive e \<noteq> 0) [demo_ent, zero_ent] 0 = Some 0"
    by (simp add: first_slot_step(1) demo_ent_def alloc_entry_def)
  have acc: "access_ok (e_owner demo_ent) (e_perms demo_ent) 7 15 SHM_PERM_RESIZE"
    by (simp add: access_ok_def demo_ent_def alloc_entry_def perm_defs)
  have off: "unat (e_off demo_ent) = 56"
    by (simp add: demo_ent_def alloc_entry_def)
  have "resize_safe 256 [demo_blk, demo_rest] [demo_ent, zero_ent] 1 7 15"
    by (simp add: resize_safe_def slot off move_safe_def demo_blk_def demo_rest_def is_free_def)
  then obtain rc s' xs b ys oi where c: "shm_resize (Some demo) demo1 1 200 7 15 = Some (rc, s')" "mutex s' = MUnlocked"
    "[demo_blk, demo_rest] = xs @ b # ys" "span xs = 0" "aown b = Some oi"
    "resize_done demo demo1 s' demo_R1 [demo_ent, zero_ent] 0 xs b ys 256 oi 200 rc"
    using shm_resize_correct [OF demo1_inv(1) demo1_lockable, of 1 200 7 15]
    by (auto simp: n slot acc off split: option.splits)
  then have "xs = []" "b = demo_blk" "ys = [demo_rest]"
    by (auto simp: Cons_eq_append_conv demo_blk_def)
  with c(6) have "rc = OK"
    by (simp add: resize_done_def demo_blk_def demo_rest_def is_free_def Let_def)
  with c(1,2) show ?thesis
    by simp
qed

section \<open>Executions of several processes\<close>

text \<open>C5. In every state that attached processes can reach by calls that return and by stores into payloads
  through pointers that \<open>shm_ptr\<close> gave them for writing, the pool invariant holds and the mutex can be
  acquired: it is never left locked and never becomes unrecoverable. A process may also die while it
  holds the mutex, before the first write of its call. A death behind the last write leaves what the
  call and then such a death leave. Deaths between the first and the last write are not steps of these
  executions; C24 shows that one of them destroys the pool.\<close>

theorem reachable_regions_sound:
  assumes "reachable n h" "attached n r"
  shows "region_inv r (st h) \<and> lockable (st h)"
  by (rule hist_inv_at [OF reachable_inv [OF assms(1)] assms(2)]) (auto simp: region_inv_def)

theorem reachable_regions_sound_witness: "region_inv demo (st hist2) \<and> lockable (st hist2)"
  by (rule reachable_regions_sound [OF hist2_reachable demo_attached])

text \<open>C6. Ids are never reused: the ids that successful allocations returned are pairwise different, an
  id is freed at most once and only after it was issued.\<close>

theorem ids_never_reused:
  assumes "reachable n h" "attached n r"
  shows "distinct (issued h) \<and> distinct (released h) \<and> set (released h) \<subseteq> set (issued h) \<and>
    (\<forall>i\<in>set (issued h). i < h_next_id (rh_at (mem (st h))))"
proof -
  obtain R bs es where i: "pool_inv r (st h) R bs es" "hist_ok (issued h) (released h) R es"
    using reachable_inv [OF assms(1)] assms(2) by (rule hist_inv_at)
  show ?thesis
    using hist_ok_ids [OF i(2)] i(2) pool_invD(8) [OF i(1)] by (simp add: hist_ok_def)
qed

theorem ids_never_reused_witness:
  "distinct (issued hist2) \<and> distinct (released hist2) \<and> set (released hist2) \<subseteq> set (issued hist2)"
  using ids_never_reused [OF hist2_reachable demo_attached] by simp

text \<open>C7. In every reachable state a lookup by id succeeds, for a caller with the admin bit, exactly for
  the objects that were allocated and not freed; a freed id gives \<open>ENOENT\<close> for ever.\<close>

theorem lookup_finds_live_objects:
  assumes "reachable n h" "attached n r" "i \<noteq> 0" "cp AND SHM_PERM_ADMIN \<noteq> 0"
  shows "\<exists>rc off used. shm_lookup (Some r) (st h) i user cp True True =
      Some (rc, off, used, (st h)\<lparr>mutex := MUnlocked\<rparr>) \<and>
    rc = (if i \<in> set (issued h) \<and> i \<notin> set (released h) then OK else ENOENT)"
  using reachable_lookup [OF assms, of user] by (cases "i \<in> set (issued h) \<and> i \<notin> set (released h)") auto

theorem lookup_finds_live_objects_witness:
  "(\<exists>off used s'. shm_lookup (Some demo) (st hist1) 1 9 0x80 True True = Some (OK, off, used, s')) \<and>
   (\<exists>off used s'. shm_lookup (Some demo) (st hist2) 1 9 0x80 True True = Some (ENOENT, off, used, s'))"
  using lookup_finds_live_objects [OF hist1_reachable demo_attached, of 1 "0x80" 9]
    lookup_finds_live_objects [OF hist2_reachable demo_attached, of 1 "0x80" 9]
  by (auto simp: hist1_def hist2_def perm_defs)

text \<open>Progress: in every reachable state an allocation and a release return, with one of their
  documented codes, and leave the mutex free for the next caller. There is no deadlock, no endless
  scan and no access outside the mapping.\<close>

theorem calls_return:
  assumes "reachable n h" "attached n r" "psize \<noteq> 0" "56 \<le> unat (alloc_size psize)"
    and "h_next_id (rh_at (mem (st h))) + 1 \<noteq> 0"
  shows "(\<exists>rc out s'. shm_alloc (Some r) (st h) psize name user pm tag True True = Some (rc, out, s') \<and>
       rc \<in> {OK, ENOMEM, ENOSPC} \<and> mutex s' = MUnlocked) \<and>
    (\<exists>rc s'. shm_free (Some r) (st h) obj_id user cp = Some (rc, s') \<and> rc \<in> {OK, ENOENT, EACCES, EINVAL} \<and> lockable s')"
  using reachable_alloc_returns [OF assms] reachable_free_returns [OF assms(1,2)] by blast

theorem calls_return_witness:
  "\<exists>rc out s'. shm_alloc (Some demo) (st hist2) 100 None 7 15 1 True True = Some (rc, out, s') \<and>
     rc \<in> {OK, ENOMEM, ENOSPC} \<and> mutex s' = MUnlocked"
proof -
  obtain R where "pool_inv demo demo2 R [\<lparr>asz = 3704, acap = 104, aown = None\<rparr>] [zero_ent, zero_ent]" "h_next_id R = 2"
    using demo2(3) by blast
  then have "h_next_id (rh_at (mem (st hist2))) + 1 \<noteq> 0"
    using pool_invD(8) by (fastforce simp: hist2_def)
  then show ?thesis
    using calls_return [OF hist2_reachable demo_attached, of 100] by (simp add: demo_alloc_size)
qed

text \<open>C9. \<open>shm_block_set_perms\<close> changes the permissions of an object in its block header and its
  directory entry alike, when the caller may write to the object; otherwise it returns
  \<open>EACCES\<close> and changes no byte. No payload changes.\<close>

theorem shm_block_set_perms_correct:
  assumes "pool_inv r s R (xs @ b # ys) es" "lockable s" "aown b = Some oi"
  shows "runs (shm_block_set_perms (Some r) s (of_nat (span xs + 56)) user cp np)
    (\<lambda>(rc, s'). mutex s' = MUnlocked \<and> cmode s' = cmode s \<and>
       (if access_ok (o_owner oi) (o_perms oi) user cp SHM_PERM_WRITE
        then rc = OK \<and>
          (\<exists>i<length es. e_id (es ! i) = o_id oi \<and> live (es ! i) \<and>
             pool_inv r s' R (xs @ b\<lparr>aown := Some (oi\<lparr>o_perms := np\<rparr>)\<rparr> # ys) (es[i := (es ! i)\<lparr>e_perms := np\<rparr>])) \<and>
          payloads_kept (unat (h_data_offset R)) (blk_objs 0 (xs @ b # ys)) s s'
        else rc = EACCES \<and> mem s' = mem s))"
  using shm_block_set_perms_refines [OF assms] unfolding perms_post_def .

theorem shm_block_set_perms_correct_witness:
  "(\<exists>s'. shm_block_set_perms (Some demo) demo1 56 7 15 1 = Some (OK, s')) \<and>
   (\<exists>s'. shm_block_set_perms (Some demo) demo1 56 8 15 1 = Some (EACCES, s'))"
proof -
  have inv: "pool_inv demo demo1 demo_R1 ([] @ demo_blk # [demo_rest]) [demo_ent, zero_ent]"
    using demo1_inv(1) by simp
  have own: "aown demo_blk = Some demo_info"
    by (simp add: demo_blk_def)
  show ?thesis
    using shm_block_set_perms_correct [OF inv demo1_lockable own, of 7 15 1]
      shm_block_set_perms_correct [OF inv demo1_lockable own, of 8 15 1]
    by (auto simp: runs_iff access_ok_def demo_info_def perm_defs)
qed

section \<open>The heap\<close>

text \<open>C10. \<open>heap_alloc_block\<close> implements first fit: it returns null and writes nothing when no free
  block has \<open>n\<close> bytes; otherwise it takes the free block at the lowest address that has them, splits
  it exactly when the remainder can hold a block of 64 bytes, adjusts the counters, and writes only
  the region header and block headers.\<close>

theorem heap_alloc_block_correct:
  assumes "heap_rep r s R bs" "56 \<le> n" "8 dvd n" "n < 2 ^ 64"
  shows "runs (heap_alloc_block r s (of_nat n)) (\<lambda>(p, s').
    case first_fit n bs of
      None \<Rightarrow> p = 0 \<and> s' = s
    | Some (xs, b, ys) \<Rightarrow>
        let bs' = xs @ take_block n no_owner b @ ys in
        p = bp r (h_data_offset R) (span xs) \<and>
        (\<exists>fl. heap_rep r s' (count_alloc (R\<lparr>h_free_list := fl\<rparr>) (taken_size n b)) bs') \<and>
        hdrs_only (unat (h_data_offset R)) (set (starts 0 bs')) s s')"
proof (rule heap_alloc_block_refines [OF assms refl])
  fix s' fl xs b ys
  assume ff: "first_fit n bs = Some (xs, b, ys)"
    and hv: "heap_view r s s' (set (starts 0 (xs @ take_block n no_owner b @ ys)))
          (count_alloc (R\<lparr>h_free_list := fl\<rparr>) (taken_size n b)) (xs @ take_block n no_owner b @ ys)"
  show "case (bp r (h_data_offset R) (span xs), s') of (p, s') \<Rightarrow>
    case first_fit n bs of
      None \<Rightarrow> p = 0 \<and> s' = s
    | Some (xs, b, ys) \<Rightarrow>
        let bs' = xs @ take_block n no_owner b @ ys in
        p = bp r (h_data_offset R) (span xs) \<and>
        (\<exists>fl. heap_rep r s' (count_alloc (R\<lparr>h_free_list := fl\<rparr>) (taken_size n b)) bs') \<and>
        hdrs_only (unat (h_data_offset R)) (set (starts 0 bs')) s s'"
    using ff heap_view_rep [OF hv] heap_view_only [OF hv] by (auto simp: Let_def)
qed simp

theorem heap_alloc_block_correct_witness:
  "\<exists>s'. heap_alloc_block demo demo1 160 = Some (bp demo 392 160, s')"
proof -
  have d: "(8 :: nat) dvd 160"
    by simp
  show ?thesis
    using heap_alloc_block_correct [OF pool_invD(1) [OF demo1_inv(1)] _ d]
    by (auto simp: runs_iff demo_blk_def demo_rest_def is_free_def demo1_inv(4) Let_def)
qed

text \<open>C11. \<open>heap_free_block\<close> implements release with coalescing: the block joins the address-ordered
  free list and merges with a free successor and a free predecessor; the block's whole size leaves
  \<open>used_bytes\<close>; no two free blocks are adjacent afterwards.\<close>

theorem heap_free_block_correct:
  assumes "heap_rep r s R (xs @ b # ys)" "\<not> is_free b"
  shows "runs (heap_free_block r s (bp r (h_data_offset R) (span xs))) (\<lambda>s'.
    (\<exists>fl. heap_rep r s' (count_free (R\<lparr>h_free_list := fl\<rparr>) (asz b)) (insert_free xs b ys)) \<and>
    (coalesced (xs @ b # ys) \<longrightarrow> coalesced (insert_free xs b ys)) \<and>
    hdrs_only (unat (h_data_offset R)) (set (starts 0 (xs @ b # ys))) s s')"
proof (rule heap_free_block_refines [OF assms refl])
  fix s' fl
  assume hv: "heap_view r s s' (set (starts 0 (xs @ b # ys))) (count_free (R\<lparr>h_free_list := fl\<rparr>) (asz b)) (insert_free xs b ys)"
  have "coalesced (xs @ b # ys) \<longrightarrow> coalesced (insert_free xs b ys)"
    using assms(2) insert_free_coalesced [of xs ys b] by (auto simp: coalesced_Cons)
  then show "(\<exists>fl. heap_rep r s' (count_free (R\<lparr>h_free_list := fl\<rparr>) (asz b)) (insert_free xs b ys)) \<and>
    (coalesced (xs @ b # ys) \<longrightarrow> coalesced (insert_free xs b ys)) \<and>
    hdrs_only (unat (h_data_offset R)) (set (starts 0 (xs @ b # ys))) s s'"
    using heap_view_rep [OF hv] heap_view_only [OF hv] by auto
qed

theorem heap_free_block_correct_witness:
  "\<exists>s'. heap_free_block demo demo1 (bp demo 392 0) = Some s'"
proof -
  have "\<not> is_free demo_blk"
    by (simp add: demo_blk_def is_free_def)
  from heap_free_block_correct [OF demo1_rep this] show ?thesis
    by (auto simp: runs_iff demo1_inv(4))
qed

section \<open>Lookup and discovery\<close>

text \<open>\<open>shm_lookup\<close> returns the offset and the used size of the first live entry with the id to a
  caller that may read it, \<open>ENOENT\<close> or \<open>EACCES\<close> otherwise, and changes nothing but the mutex.\<close>

theorem shm_lookup_correct:
  assumes "pool_inv r s R bs es" "lockable s" "obj_id \<noteq> 0"
  shows "shm_lookup (Some r) s obj_id user cp wo wu =
    (case first_slot (\<lambda>e. e_id e = obj_id \<and> e_alive e \<noteq> 0) es 0 of
       None \<Rightarrow> Some (ENOENT, None, None, s\<lparr>mutex := MUnlocked\<rparr>)
     | Some i \<Rightarrow>
         if access_ok (e_owner (es ! i)) (e_perms (es ! i)) user cp SHM_PERM_READ
         then Some (OK, if wo then Some (e_off (es ! i)) else None, if wu then Some (e_used_size (es ! i)) else None,
                s\<lparr>mutex := MUnlocked\<rparr>)
         else Some (EACCES, None, None, s\<lparr>mutex := MUnlocked\<rparr>))"
  using shm_lookup_none [OF assms] shm_lookup_some [OF assms] by (auto split: option.split)

theorem shm_lookup_correct_witness:
  "shm_lookup (Some demo) demo1 1 7 1 True True = Some (OK, Some 56, Some 100, demo1\<lparr>mutex := MUnlocked\<rparr>)"
  using shm_lookup_correct [OF demo1_inv(1) demo1_lockable, of 1 7 1 True True] demo_slots(3)
  by (simp add: demo_ent_def alloc_entry_def access_ok_def perm_defs)

text \<open>\<open>shm_lookup_by_name\<close> finds the first live entry whose stored name is the one asked for.
  Stored names are cut to 47 characters, so a longer name is never found, also when an object was
  allocated under it.\<close>

theorem shm_lookup_by_name_correct:
  assumes "pool_inv r s R bs es" "lockable s" "0 \<notin> set nm"
  shows "shm_lookup_by_name (Some r) s (Some nm) user cp wi wo =
      (case first_slot (\<lambda>e. e_alive e \<noteq> 0 \<and> cstr (e_name e) = nm) es 0 of
         None \<Rightarrow> Some (ENOENT, None, None, s\<lparr>mutex := MUnlocked\<rparr>)
       | Some i \<Rightarrow>
           if access_ok (e_owner (es ! i)) (e_perms (es ! i)) user cp SHM_PERM_READ
           then Some (OK, if wi then Some (e_id (es ! i)) else None, if wo then Some (e_off (es ! i)) else None,
                  s\<lparr>mutex := MUnlocked\<rparr>)
           else Some (EACCES, None, None, s\<lparr>mutex := MUnlocked\<rparr>)) \<and>
    (47 < length nm \<longrightarrow>
       shm_lookup_by_name (Some r) s (Some nm) user cp wi wo = Some (ENOENT, None, None, s\<lparr>mutex := MUnlocked\<rparr>))"
  using shm_lookup_by_name_none [OF assms] shm_lookup_by_name_some [OF assms] long_names [OF assms(1)]
  by (auto split: option.split)

theorem shm_lookup_by_name_correct_witness:
  "shm_lookup_by_name (Some demo) demo1 (Some [104, 105]) 7 1 True True =
     Some (OK, Some 1, Some 56, demo1\<lparr>mutex := MUnlocked\<rparr>) \<and>
   shm_lookup_by_name (Some demo) demo1 (Some (replicate 48 97)) 7 1 True True =
     Some (ENOENT, None, None, demo1\<lparr>mutex := MUnlocked\<rparr>)"
proof -
  have "cstr (e_name demo_ent) = [104, 105]"
    by (simp add: demo_ent_def alloc_entry_def stored_name_def)
      (simp add: cstr_def takeWhile_eq_Nil_iff)
  then have "first_slot (\<lambda>e. e_alive e \<noteq> 0 \<and> cstr (e_name e) = [104, 105]) [demo_ent, zero_ent] 0 = Some 0"
    by (simp add: first_slot_step(1) demo_ent_def alloc_entry_def)
  then have "shm_lookup_by_name (Some demo) demo1 (Some [104, 105]) 7 1 True True =
     Some (OK, Some 1, Some 56, demo1\<lparr>mutex := MUnlocked\<rparr>)"
    using shm_lookup_by_name_correct [OF demo1_inv(1) demo1_lockable, of "[104, 105]" 7 1 True True]
    by (simp add: demo_ent_def alloc_entry_def access_ok_def perm_defs)
  moreover have "47 < length (replicate 48 (97 :: u8))" "0 \<notin> set (replicate 48 (97 :: u8))"
    by simp_all
  ultimately show ?thesis
    using mp [OF conjunct2 [OF shm_lookup_by_name_correct [OF demo1_inv(1) demo1_lockable]]] by blast
qed

text \<open>C12. Lookups. By id: the offset and the used size of the first live entry with the id, for a caller that
  may read it, \<open>EACCES\<close> for another and \<open>ENOENT\<close> when there is none. By name: id and offset of the first live
  entry whose stored name is the one asked for, in the same way; stored names are cut to 47 characters, so
  a longer name is never found, also when an object was allocated under it. Neither changes more than the mutex.\<close>

theorem lookups_correct:
  assumes "pool_inv r s R bs es" "lockable s" "obj_id \<noteq> 0" "0 \<notin> set nm"
  shows "shm_lookup (Some r) s obj_id user cp wo wu =
      (case first_slot (\<lambda>e. e_id e = obj_id \<and> e_alive e \<noteq> 0) es 0 of
         None \<Rightarrow> Some (ENOENT, None, None, s\<lparr>mutex := MUnlocked\<rparr>)
       | Some i \<Rightarrow>
           if access_ok (e_owner (es ! i)) (e_perms (es ! i)) user cp SHM_PERM_READ
           then Some (OK, if wo then Some (e_off (es ! i)) else None, if wu then Some (e_used_size (es ! i)) else None,
                  s\<lparr>mutex := MUnlocked\<rparr>)
           else Some (EACCES, None, None, s\<lparr>mutex := MUnlocked\<rparr>)) \<and>
    shm_lookup_by_name (Some r) s (Some nm) user cp wi wo =
      (case first_slot (\<lambda>e. e_alive e \<noteq> 0 \<and> cstr (e_name e) = nm) es 0 of
         None \<Rightarrow> Some (ENOENT, None, None, s\<lparr>mutex := MUnlocked\<rparr>)
       | Some i \<Rightarrow>
           if access_ok (e_owner (es ! i)) (e_perms (es ! i)) user cp SHM_PERM_READ
           then Some (OK, if wi then Some (e_id (es ! i)) else None, if wo then Some (e_off (es ! i)) else None,
                  s\<lparr>mutex := MUnlocked\<rparr>)
           else Some (EACCES, None, None, s\<lparr>mutex := MUnlocked\<rparr>)) \<and>
    (47 < length nm \<longrightarrow>
       shm_lookup_by_name (Some r) s (Some nm) user cp wi wo = Some (ENOENT, None, None, s\<lparr>mutex := MUnlocked\<rparr>))"
  using shm_lookup_correct [OF assms(1-3)] shm_lookup_by_name_correct [OF assms(1,2,4)] by blast

theorem lookups_correct_witness:
  "shm_lookup (Some demo) demo1 1 7 1 True True = Some (OK, Some 56, Some 100, demo1\<lparr>mutex := MUnlocked\<rparr>) \<and>
   shm_lookup_by_name (Some demo) demo1 (Some (replicate 48 97)) 7 1 True True =
     Some (ENOENT, None, None, demo1\<lparr>mutex := MUnlocked\<rparr>)"
proof -
  let ?nm = "replicate 48 (97 :: u8)"
  have long: "47 < length ?nm" "0 \<notin> set ?nm"
    by simp_all
  note both = lookups_correct [OF demo1_inv(1) demo1_lockable _ long(2), of 1 7 1 True True True]
  have "shm_lookup (Some demo) demo1 1 7 1 True True = Some (OK, Some 56, Some 100, demo1\<lparr>mutex := MUnlocked\<rparr>)"
    using conjunct1 [OF both] demo_slots(3) by (simp add: demo_ent_def alloc_entry_def access_ok_def perm_defs)
  then show ?thesis
    using mp [OF conjunct2 [OF conjunct2 [OF both]] long(1)] by simp
qed

text \<open>C14. Iterating \<open>shm_dir_next\<close> from cursor 0 until it reports the end terminates and yields every
  live entry exactly once, in slot order.\<close>

theorem dir_walk_enumerates:
  assumes "pool_inv r s R bs es"
  shows "dir_walk r s 0 = Some (map snapshot (filter live es))"
  using dir_walk_eq [OF pool_invD(2) [OF assms] names_terminated [OF assms], of 0] by simp

theorem dir_walk_enumerates_witness: "dir_walk demo demo1 0 = Some [snapshot demo_ent]"
  using dir_walk_enumerates [OF demo1_inv(1)] by (simp add: demo_live)

text \<open>C15. \<open>shm_pool_stats\<close> is exact: the used bytes are the total size of the allocated blocks, the
  free bytes that of the free ones, both add up to the heap, and the number of live directory entries
  is the number of allocated blocks.\<close>

theorem shm_pool_stats_correct:
  assumes "pool_inv r s R bs es"
  shows "\<exists>st. shm_pool_stats (Some r) s True = Some (OK, Some st) \<and>
    unat (total_bytes st) = span bs \<and> unat (used_bytes st) = used_span bs \<and> unat (free_bytes st) = free_span bs \<and>
    unat (total_bytes st) = unat (used_bytes st) + unat (free_bytes st) \<and>
    block_count st = of_nat (used_count bs) \<and> dir_used st = of_nat (length (filter live es)) \<and>
    next_id st = h_next_id R \<and> host_count st = h_host_count R \<and> dir_capacity st = h_dir_capacity R"
proof -
  have "unat (h_data_offset R) + span bs = unat (rsize r)"
    using pool_invD(1) [OF assms] by (simp add: heap_rep_bytes)
  then have lt: "span bs < 2 ^ 64"
    using unat64_bound [of "rsize r"] by linarith
  have sp: "span bs = used_span bs + free_span bs"
    by (rule span_split)
  have "unat (of_nat (span bs) :: u64) = span bs" "unat (of_nat (used_span bs) :: u64) = used_span bs"
    "unat (of_nat (free_span bs) :: u64) = free_span bs"
    using lt sp by (intro unat64, linarith)+
  then show ?thesis
    using shm_pool_stats_eq [OF assms] live_count [OF pool_invD(5) [OF assms]] sp by simp
qed

theorem shm_pool_stats_correct_witness:
  "\<exists>st. shm_pool_stats (Some demo) demo1 True = Some (OK, Some st) \<and> unat (used_bytes st) = 160 \<and> unat (free_bytes st) = 3544"
  using shm_pool_stats_correct [OF demo1_inv(1)] by (auto simp: demo_blk_def demo_rest_def free_span_def is_free_def)

section \<open>Access to payloads\<close>

text \<open>C16. Isolation. Take an object of a reachable state and any number of further steps, each of them an
  allocation, a look-up, an attach, a detach, the death of a lock holder, or a release, resize, change of
  permissions or store below the capacity through a pointer of \<open>shm_ptr\<close> that concerns another object or
  comes from a caller to whom the object's owner and permissions deny that right. The object keeps its offset, owner, permissions, tag,
  size, name and every byte.\<close>

theorem objects_isolated:
  assumes "reachable n h" "objects (st h) i = Some ob" "foreign_run n i ob h h'"
  shows "objects (st h') i = Some ob"
  using foreign_runs_spare [OF reachable_inv [OF assms(1)] assms(2,3)] by simp

theorem objects_isolated_witness:
  "\<exists>ob s'. objects demo1 1 = Some ob \<and> shm_free (Some demo) demo1 1 9 15 = Some (EACCES, s') \<and> objects s' 1 = Some ob"
proof -
  have slot: "first_slot (\<lambda>e. e_id e = 1 \<and> e_alive e \<noteq> 0) [demo_ent, zero_ent] 0 = Some 0"
    by (simp add: first_slot_step(1) demo_ent_def alloc_entry_def)
  obtain ob where ob: "objects demo1 1 = Some ob" "so_owner ob = 7" "so_perms ob = 15"
    using objects_eq [OF demo1_inv(1), of 1] slot by (simp add: view_of_def demo_ent_def alloc_entry_def)
  have no: "\<not> access_ok 7 15 9 15 SHM_PERM_FREE"
    by (simp add: access_ok_def perm_defs)
  from free_on_store [OF demo1_inv(1) demo1_lockable, of 1 9 15] obtain s'
    where run: "shm_free (Some demo) demo1 1 9 15 = Some (EACCES, s')"
    using no by (auto simp: runs_iff store_free_def store_action_def ob)
  have "pool_act 4096 (Uses 1 SHM_PERM_FREE 9 15) hist1
      (hist1\<lparr>st := s', released := (if EACCES = OK then 1 # released hist1 else released hist1)\<rparr>)"
    by (rule pool_act.free [OF demo_attached]) (simp add: hist1_def run)
  moreover have "foreign 1 ob (Uses 1 SHM_PERM_FREE 9 15)"
    using no by (simp add: foreign_def ob)
  ultimately have "foreign_run 4096 1 ob hist1
      (hist1\<lparr>st := s', released := (if EACCES = OK then 1 # released hist1 else released hist1)\<rparr>)"
    unfolding foreign_run_def by blast
  from objects_isolated [OF hist1_reachable _ this] run ob(1) show ?thesis
    by (simp add: hist1_def)
qed

text \<open>C17. Position independence: the same bytes mapped at another address are the same pool, and
  \<open>shm_ptr\<close> there yields the pointer at the same distance from the base of the mapping.\<close>

theorem mapping_address_irrelevant:
  assumes "pool_inv r s R (xs @ b # ys) es" "mapped r'" "rsize r' = rsize r"
  shows "pool_inv r' s R (xs @ b # ys) es \<and>
    (\<forall>p. shm_ptr (Some r) s (of_nat (span xs + 56)) user cp req = Some p \<and> p \<noteq> 0 \<longrightarrow>
       shm_ptr (Some r') s (of_nat (span xs + 56)) user cp req = Some (rbase r' + (p - rbase r)))"
proof -
  have inv': "pool_inv r' s R (xs @ b # ys) es"
    using assms by (intro pool_inv_bytes [OF assms(1)]) simp_all
  then show ?thesis
    using shm_ptr_moved [OF pool_invD(1) [OF assms(1)] pool_invD(1) [OF inv']] by blast
qed

theorem mapping_address_irrelevant_witness:
  "shm_ptr (Some (demo\<lparr>rbase := 0x20000\<rparr>)) demo1 56 7 1 1 = Some (0x20000 + 448)"
proof -
  have inv: "pool_inv demo demo1 demo_R1 ([] @ demo_blk # [demo_rest]) [demo_ent, zero_ent]"
    using demo1_inv(1) by simp
  have "(131072 :: nat) = 4096 * 32" by simp
  then have m: "mapped (demo\<lparr>rbase := 0x20000\<rparr>)"
    unfolding mapped_def by (auto simp: dvd_def)
  have p: "shm_ptr (Some demo) demo1 56 7 1 1 = Some (0x10000 + 448)"
    using shm_ptr_eq [OF demo1_rep, of 7 1 1]
    by (simp add: demo_blk_def demo_info_def access_ok_def perm_defs payload_ptr_def rp_def demo1_inv(4))
  show ?thesis
    using mapping_address_irrelevant [OF inv m, of 7 1 1] p by simp
qed

text \<open>C18. \<open>shm_ptr\<close> on the offset of a block: the address of the payload exactly when the block is
  allocated and the caller has the rights, null otherwise; with \<open>n\<close> bytes within the capacity
  the access stays inside the mapping.\<close>

theorem shm_ptr_correct:
  assumes "pool_inv r s R (xs @ b # ys) es" "i + n \<le> acap b"
  shows "\<exists>p. shm_ptr (Some r) s (of_nat (span xs + 56)) user cp req = Some p \<and>
    (p \<noteq> 0 \<longrightarrow> (\<exists>oi. aown b = Some oi \<and> access_ok (o_owner oi) (o_perms oi) user cp req) \<and>
       region_off r (p + of_nat i) = unat (h_data_offset R) + span xs + 56 + i \<and> in_map r (p + of_nat i) n) \<and>
    (p = 0 \<longrightarrow> \<not> (\<exists>oi. aown b = Some oi \<and> access_ok (o_owner oi) (o_perms oi) user cp req))"
proof -
  note h = pool_invD(1) [OF assms(1)]
  obtain H where "hview r s s (set (starts 0 (xs @ b # ys))) H R" "span xs \<in> set (starts 0 (xs @ b # ys))"
    "list_all wf_blk (xs @ b # ys)" "unat (h_data_offset R) + span (xs @ b # ys) = unat (rsize r)"
    using h by (rule heap_rep_block)
  then have m: "mapped r" and le: "unat (h_data_offset R) + span xs + 56 \<le> unat (rsize r)"
    by (auto simp: hview_def wf_blk_def)
  have "payload_ptr r R (span xs) \<noteq> 0"
  proof
    assume z: "payload_ptr r R (span xs) = 0"
    have "unat (payload_ptr r R (span xs)) = unat (rbase r) + (unat (h_data_offset R) + span xs + 56)"
      unfolding payload_ptr_def rp_def using m le by (intro mapped_unat_add) simp_all
    with z m show False
      by (simp add: mapped_def unat_eq_0)
  qed
  then show ?thesis
    using payload_in_map [OF h assms(2)] unfolding shm_ptr_eq [OF h]
    by (auto split: option.split)
qed

theorem shm_ptr_correct_witness:
  "\<exists>p. shm_ptr (Some demo) demo1 56 7 1 1 = Some p \<and> p \<noteq> 0 \<and> in_map demo (p + of_nat 96) 8"
proof -
  have inv: "pool_inv demo demo1 demo_R1 ([] @ demo_blk # [demo_rest]) [demo_ent, zero_ent]"
    using demo1_inv(1) by simp
  have acc: "\<exists>oi. aown demo_blk = Some oi \<and> access_ok (o_owner oi) (o_perms oi) 7 1 1"
    by (simp add: demo_blk_def demo_info_def access_ok_def perm_defs)
  have cap: "96 + 8 \<le> acap demo_blk"
    by (simp add: demo_blk_def)
  show ?thesis
    using shm_ptr_correct [OF inv cap, of 7 1 1] acc by auto
qed

text \<open>C19. A caller that does not own an object and has no admin bit can neither free nor resize nor look
  up the object nor get a pointer to it: each call returns \<open>EACCES\<close> or null, and the memory is
  unchanged.\<close>

theorem strangers_refused:
  assumes "pool_inv r s R bs es" "lockable s" "obj_id \<noteq> 0" "new_size \<noteq> 0"
    and "first_slot (\<lambda>e. e_id e = obj_id \<and> e_alive e \<noteq> 0) es 0 = Some i"
    and "user \<noteq> e_owner (es ! i)" "cp AND SHM_PERM_ADMIN = 0"
  shows "shm_free (Some r) s obj_id user cp = Some (EACCES, s\<lparr>mutex := MUnlocked\<rparr>) \<and>
    shm_resize (Some r) s obj_id new_size user cp = Some (EACCES, s\<lparr>mutex := MUnlocked\<rparr>) \<and>
    shm_lookup (Some r) s obj_id user cp wo wu = Some (EACCES, None, None, s\<lparr>mutex := MUnlocked\<rparr>) \<and>
    shm_ptr (Some r) s (e_off (es ! i)) user cp req = Some 0"
proof -
  have no: "\<not> access_ok (e_owner (es ! i)) (e_perms (es ! i)) user cp q" for q
    using assms(6,7) by (simp add: access_ok_def)
  have i: "i < length es" "live (es ! i)"
    using first_slot_SomeD [OF assms(5)] assms(3) by (auto simp: live_def)
  show ?thesis
    using refused_free [OF assms(1-3,5) no] refused_resize [OF assms(1-5) no]
      shm_lookup_some [OF assms(1-3,5), of user cp wo wu] refused_ptr [OF assms(1) i no] no by simp
qed

theorem strangers_refused_witness:
  "shm_free (Some demo) demo1 1 8 15 = Some (EACCES, demo1\<lparr>mutex := MUnlocked\<rparr>)"
proof -
  have "8 \<noteq> e_owner ([demo_ent, zero_ent] ! 0)"
    by (simp add: demo_ent_def alloc_entry_def)
  then show ?thesis
    using strangers_refused [OF demo1_inv(1) demo1_lockable _ _ demo_slots(3), of 1 8 15] by (simp add: perm_defs)
qed

text \<open>C20. Freed objects are unreachable: after a successful \<open>shm_free\<close> every capability on the
  payload, whatever its metadata, is invalid and dereferences to null, and \<open>shm_ptr\<close> gives null to
  every caller, the administrator included.\<close>

theorem freed_objects_unreachable:
  assumes "pool_inv r s R bs es" "lockable s" "obj_id \<noteq> 0"
    and "first_slot (\<lambda>e. e_id e = obj_id \<and> e_alive e \<noteq> 0) es 0 = Some i"
    and "access_ok (e_owner (es ! i)) (e_perms (es ! i)) user cp SHM_PERM_FREE"
  shows "runs (shm_free (Some r) s obj_id user cp) (\<lambda>(rc, s'). rc = OK \<and>
    (\<forall>cap req. shm_cap_offset cap = e_off (es ! i) \<longrightarrow>
       shm_cap_deref (Some r) s' cap req = Some 0 \<and> shm_cap_is_valid (Some r) s' cap = Some False) \<and>
    (\<forall>u p req. shm_ptr (Some r) s' (e_off (es ! i)) u p req = Some 0))"
  by (rule freed_unreachable [OF assms])

theorem freed_objects_unreachable_witness:
  "shm_ptr (Some demo) demo2 56 7 0x80 1 = Some 0"
proof -
  have acc: "access_ok (e_owner ([demo_ent, zero_ent] ! 0)) (e_perms ([demo_ent, zero_ent] ! 0)) 7 15 SHM_PERM_FREE"
    by (simp add: access_ok_def demo_ent_def alloc_entry_def perm_defs)
  have off: "e_off demo_ent = 56"
    by (simp add: demo_ent_def alloc_entry_def)
  show ?thesis
    using freed_objects_unreachable [OF demo1_inv(1) demo1_lockable _ demo_slots(3) acc] demo2(1) by (simp add: off)
qed

section \<open>Capabilities\<close>

text \<open>C21. Deriving and dereferencing: the owner, or an administrator, of an object derives a capability for
  any rights that the object and the call have, and the capability, used for any part of those rights,
  yields the payload of the object, with its capacity as bound.\<close>

theorem derive_then_deref:
  assumes "pool_inv r s R (xs @ b # ys) es" "aown b = Some oi" "derive_ok oi (acap b) user cp grant"
    and "grant AND 0xFF = grant" "req AND grant = req"
  shows "\<exists>cap. shm_cap_derive (Some r) s (of_nat (span xs + 56)) user cp grant = Some cap \<and>
    shm_cap_perms cap = grant \<and> unat (shm_cap_bounds cap) = acap b \<and>
    shm_cap_deref (Some r) s cap req = Some (payload_ptr r R (span xs))"
proof -
  note h = pool_invD(1) [OF assms(1)]
  let ?cap = "cap_of (span xs + 56) (acap b) oi grant"
  have nn: "\<not> shm_cap_is_null ?cap"
    by (rule cap_of_nonnull [OF h])
  have perms: "shm_cap_perms ?cap = grant"
    using assms(4) by (rule cap_of_perms)
  have b: "unat (shm_cap_bounds ?cap) = acap b"
    using assms(3) by (intro cap_of_bounds) (simp add: derive_ok_def)
  have "deref_ok oi (acap b) ?cap req"
    using assms(3,5) perms by (auto simp: deref_ok_def derive_ok_def cap_of_fields intro: word_and_subset)
  then show ?thesis
    using assms(2,3) perms b shm_cap_derive_eq [OF h] shm_cap_deref_eq [OF h _ nn]
    by (simp add: cap_of_fields)
qed

theorem derive_then_deref_witness:
  "\<exists>cap. shm_cap_derive (Some demo) demo1 56 7 15 3 = Some cap \<and> shm_cap_perms cap = 3 \<and>
    unat (shm_cap_bounds cap) = 104 \<and>
    shm_cap_deref (Some demo) demo1 cap 1 = Some (payload_ptr demo demo_R1 0)"
proof -
  have inv: "pool_inv demo demo1 demo_R1 ([] @ demo_blk # [demo_rest]) [demo_ent, zero_ent]"
    using demo1_inv(1) by simp
  have b: "aown demo_blk = Some demo_info" "acap demo_blk = 104"
    by (simp_all add: demo_blk_def)
  have ok: "derive_ok demo_info (acap demo_blk) 7 15 3"
    unfolding b by (simp add: derive_ok_def demo_info_def)
  show ?thesis
    using derive_then_deref [OF inv b(1) ok, of 1] by (simp add: b)
qed

text \<open>C22. Narrowing is monotone: the narrowed capability has no right that the original lacks, and
  whatever memory it can reach with some rights, the original reaches with the same rights at the
  same address.\<close>

theorem narrowing_never_adds_rights:
  "shm_cap_perms (shm_cap_narrow cap np) AND shm_cap_perms cap = shm_cap_perms (shm_cap_narrow cap np) \<and>
   (\<forall>region s req p. shm_cap_deref region s (shm_cap_narrow cap np) req = Some p \<longrightarrow> p \<noteq> 0 \<longrightarrow>
      shm_cap_deref region s cap req = Some p)"
proof -
  have "shm_cap_perms (shm_cap_narrow cap np) AND shm_cap_perms cap = shm_cap_perms (shm_cap_narrow cap np)"
  proof (cases "shm_cap_is_null cap \<or> np AND shm_cap_perms cap \<noteq> np")
    case True
    then show ?thesis
      using narrow_refused [of np cap] by (cases "shm_cap_is_null cap") (simp_all add: shm_cap_narrow_def)
  next
    case False
    then show ?thesis
      using narrow_fields(1) [of cap np] by simp
  qed
  then show ?thesis
    using narrow_deref by blast
qed

theorem narrowing_never_adds_rights_witness:
  "shm_cap_deref (Some demo) demo1 (shm_cap_narrow (cap_of 56 104 demo_info 3) 1) 1 = Some (payload_ptr demo demo_R1 0) \<and>
   shm_cap_deref (Some demo) demo1 (cap_of 56 104 demo_info 3) 1 = Some (payload_ptr demo demo_R1 0)"
proof -
  let ?c = "cap_of 56 104 demo_info 3"
  have nn: "\<not> shm_cap_is_null ?c"
    by (simp add: shm_cap_is_null_def cap_of_fields)
  have "shm_cap_narrow ?c 1 = cap_of 56 104 demo_info 1"
    by (simp add: cap_of_def demo_info_def shm_cap_narrow_def cap_meta_pack_def meta_defs shm_cap_is_null_def
        meta_perms_def Let_def)
  moreover have "shm_cap_deref (Some demo) demo1 (cap_of 56 104 demo_info 1) 1 = Some (payload_ptr demo demo_R1 0)"
  proof -
    have "\<not> shm_cap_is_null (cap_of 56 104 demo_info 1)"
      by (simp add: shm_cap_is_null_def cap_of_fields)
    then show ?thesis
      using shm_cap_deref_eq [OF demo1_rep, of "cap_of 56 104 demo_info 1" 1]
      by (simp add: cap_of_fields demo_blk_def deref_ok_def demo_info_def)
  qed
  moreover have "payload_ptr demo demo_R1 0 \<noteq> 0"
    by (simp add: payload_ptr_def rp_def demo1_inv)
  ultimately show ?thesis
    using narrowing_never_adds_rights [of ?c 1] by auto
qed

text \<open>C23. Packing and unpacking the meta word are inverse to each other: unpacking gives the four fields
  that were packed, and a word is the packing of its own fields.\<close>

theorem meta_word_roundtrip:
  "meta_perms (cap_meta_pack p ow e b) = p \<and> meta_epoch (cap_meta_pack p ow e b) = e \<and>
   meta_bounds (cap_meta_pack p ow e b) = b \<and>
   cap_meta_pack (meta_perms m) (ucast (drop_bit 48 m)) (meta_epoch m) (meta_bounds m) = m"
  by (simp add: meta_pack_fields meta_pack_exact)

text \<open>\<open>shm_cap_is_valid\<close> is \<open>shm_cap_deref\<close> without required rights: on every memory,
  whatever its bytes, it says true exactly when that dereference gives a pointer, and faults exactly
  when it faults.\<close>

theorem validity_is_dereference:
  assumes "mapped r"
  shows "shm_cap_is_valid (Some r) s cap = map_option (\<lambda>p. p \<noteq> 0) (shm_cap_deref (Some r) s cap 0)"
  by (rule valid_iff_deref [OF assms])

theorem validity_is_dereference_witness:
  "shm_cap_is_valid (Some demo) demo1 (cap_of 56 104 demo_info 3) = Some True"
proof -
  have "\<not> shm_cap_is_null (cap_of 56 104 demo_info 3)"
    by (simp add: shm_cap_is_null_def cap_of_fields)
  then have "shm_cap_deref (Some demo) demo1 (cap_of 56 104 demo_info 3) 0 = Some (payload_ptr demo demo_R1 0)"
    using shm_cap_deref_eq [OF demo1_rep, of "cap_of 56 104 demo_info 3" 0]
    by (simp add: cap_of_fields demo_blk_def deref_ok_def demo_info_def)
  then show ?thesis
    using validity_is_dereference [OF demo_mapped] by (simp add: payload_ptr_def rp_def demo1_inv)
qed

section \<open>A death inside an update\<close>

text \<open>C24. A process that dies in \<open>shm_free\<close> between the release of the block and the clearing of the
  slot leaves a region that is no pool any more, with a mutex that the next process gets. That process
  can free the same object again, with success; the block, if it did not merge with a free predecessor,
  then links to itself, and an allocation that no free block can serve, which ought to return
  \<open>ENOMEM\<close>, does not return. It holds the mutex.\<close>

theorem interrupted_free_locks_up:
  assumes "pool_inv r s R (xs @ b # ys) es" "lockable s" "aown b = Some oi"
    and "access_ok (o_owner oi) (o_perms oi) user cp SHM_PERM_FREE" "xs = [] \<or> \<not> is_free (last xs)" "psize \<noteq> 0"
    and "\<forall>c\<in>set (insert_free xs b ys). is_free c \<longrightarrow> asz c < unat (alloc_size psize)"
  shows "runs (shm_free_dies r s (o_id oi) user cp) (\<lambda>t. lockable t \<and> \<not> region_inv r t \<and>
    runs (shm_free (Some r) t (o_id oi) user cp) (\<lambda>(rc, u). rc = OK \<and> mutex u = MUnlocked \<and>
      shm_alloc (Some r) u psize name user' pm tag True True = None))"
  by (rule interrupted_free [OF assms])

theorem interrupted_free_locks_up_witness:
  "\<exists>t u. shm_free_dies demo demo1 1 7 15 = Some t \<and> shm_free (Some demo) t 1 7 15 = Some (OK, u) \<and>
     shm_alloc (Some demo) u 4000 None 7 15 1 True True = None"
proof -
  have inv: "pool_inv demo demo1 demo_R1 ([] @ demo_blk # [demo_rest]) [demo_ent, zero_ent]"
    using demo1_inv(1) by simp
  have own: "aown demo_blk = Some demo_info" "o_id demo_info = 1"
    by (simp_all add: demo_blk_def demo_info_def)
  have acc: "access_ok (o_owner demo_info) (o_perms demo_info) 7 15 SHM_PERM_FREE"
    by (simp add: access_ok_def demo_info_def perm_defs)
  have n: "alloc_size 4000 = 4056"
    by (simp add: alloc_size_def shm_align_up_def layout_consts)
  have "\<forall>c\<in>set (insert_free [] demo_blk [demo_rest]). is_free c \<longrightarrow> asz c < unat (alloc_size 4000)"
    by (simp add: insert_free_def merge_prev_def demo_blk_def demo_rest_def n)
  then show ?thesis
    using interrupted_free_locks_up [OF inv demo1_lockable own(1) acc, of 4000 None 7 15 1]
    by (auto simp: runs_iff own(2))
qed

end
